(* ===== verification/Prelude.thy ===== *)
theory Prelude
  imports Main "HOL-Library.Word" "HOL-Library.Monad_Syntax" "HOL-Library.State_Monad"
begin

unbundle bit_operations_syntax

text \<open>
  Shared vocabulary of the development.

  The service is C++ built for Win32 (\<open>ltRtspService.vcxproj\<close> has no other platform), so
  \<open>int\<close>, \<open>unsigned\<close>, \<open>size_t\<close> and pointers have 32 bits. Bytes and bit-level results are
  machine words; sizes and positions are \<open>nat\<close>, with the wrap-around of unsigned arithmetic
  written out by \<open>u32\<close> and \<open>u16\<close> wherever the code relies on it or can run into it.

  What C++ leaves to chance (an access outside an array, a null dereference, a failed
  \<open>assert\<close>, a division by zero, an invalid CRT parameter) is an explicit \<open>fault\<close>, so a
  theorem that an operation returns \<open>Inr\<close> says that none of them happens.
\<close>

section \<open>Machine types and faults\<close>

type_synonym byte = "8 word"
type_synonym uint32 = "32 word"

datatype fault =
    OutOfBounds        \<comment> \<open>read or write outside an object\<close>
  | NullPointer        \<comment> \<open>dereference of a null pointer\<close>
  | AssertFailed       \<comment> \<open>\<open>assert\<close> in the debug build\<close>
  | DivisionByZero
  | InvalidParameter   \<comment> \<open>CRT invalid-parameter handler: \<open>_snprintf_s\<close> without room\<close>
  | OutOfRange         \<comment> \<open>\<open>std::out_of_range\<close> thrown by \<open>std::string::replace\<close>\<close>
  | NoReturn           \<comment> \<open>the loop never ends\<close>

type_synonym 'a res = "fault + 'a"

text \<open>Sequencing of fallible computations, and the guard that turns a bad access into a fault.\<close>

definition andThen :: "'a res \<Rightarrow> ('a \<Rightarrow> 'b res) \<Rightarrow> 'b res" where
  "andThen m f = (case m of Inl e \<Rightarrow> Inl e | Inr x \<Rightarrow> f x)"

definition guard :: "bool \<Rightarrow> fault \<Rightarrow> unit res" where
  "guard b e = (if b then Inr () else Inl e)"

named_theorems res_simps \<open>evaluation of fallible computations\<close>

lemma andThen_simps [simp, res_simps]:
  "andThen (Inl e) f = Inl e"
  "andThen (Inr x) f = f x"
  by (simp_all add: andThen_def)

lemma guard_simps [simp, res_simps]:
  "guard True e = Inr ()"
  "guard False e = Inl e"
  by (simp_all add: guard_def)

lemma andThen_Inr_iff: "andThen c k = Inr r \<longleftrightarrow> (\<exists>mid. c = Inr mid \<and> k mid = Inr r)"
  by (cases c) auto

lemma guard_Inr_iff: "guard b e = Inr u \<longleftrightarrow> b"
  by (cases b) auto

lemma andThen_Inr_E:
  assumes "andThen m f = Inr y"
  obtains x where "m = Inr x" and "f x = Inr y"
  using assms by (auto simp: andThen_Inr_iff)

lemma andThen_assoc: "andThen (andThen m f) g = andThen m (\<lambda>x. andThen (f x) g)"
  by (cases m) auto

text \<open>Checked array access: C++ has undefined behaviour where these answer \<open>OutOfBounds\<close>.\<close>

definition at :: "'a list \<Rightarrow> nat \<Rightarrow> 'a res" where
  "at xs i = (if i < length xs then Inr (xs ! i) else Inl OutOfBounds)"

definition put :: "'a list \<Rightarrow> nat \<Rightarrow> 'a \<Rightarrow> 'a list res" where
  "put xs i x = (if i < length xs then Inr (xs[i := x]) else Inl OutOfBounds)"

lemma at_in [simp, res_simps]: "i < length xs \<Longrightarrow> at xs i = Inr (xs ! i)"
  by (simp add: at_def)

lemma at_out [res_simps]: "length xs \<le> i \<Longrightarrow> at xs i = Inl OutOfBounds"
  by (simp add: at_def)

lemma put_in [simp, res_simps]: "i < length xs \<Longrightarrow> put xs i x = Inr (xs[i := x])"
  by (simp add: put_def)

lemma put_out [res_simps]: "length xs \<le> i \<Longrightarrow> put xs i x = Inl OutOfBounds"
  by (simp add: put_def)

section \<open>Unsigned and signed arithmetic\<close>

text \<open>
  \<open>u32 e\<close> is the value an \<open>unsigned\<close> variable holds after the integer expression \<open>e\<close> is
  assigned to it, \<open>u16\<close> the same for \<open>unsigned short\<close> and \<open>s32\<close> for \<open>int\<close>.
\<close>

definition u32 :: "int \<Rightarrow> nat" where
  "u32 x = nat (x mod 2 ^ 32)"

definition u16 :: "int \<Rightarrow> nat" where
  "u16 x = nat (x mod 2 ^ 16)"

definition s32 :: "int \<Rightarrow> int" where
  "s32 x = (x + 2 ^ 31) mod 2 ^ 32 - 2 ^ 31"

lemma u32_id: "0 \<le> x \<Longrightarrow> x < 2 ^ 32 \<Longrightarrow> u32 x = nat x"
  by (simp add: u32_def)

lemma u32_of_nat [simp]: "n < 2 ^ 32 \<Longrightarrow> u32 (int n) = n"
  by (simp add: u32_def)

lemma u32_less: "u32 x < 2 ^ 32"
proof -
  have "x mod 2 ^ 32 < (2 ^ 32 :: int)" by (rule pos_mod_bound) simp
  then show ?thesis by (simp add: u32_def nat_less_iff)
qed

lemma u32_diff: "n \<le> m \<Longrightarrow> m < 2 ^ 32 \<Longrightarrow> u32 (int m - int n) = m - n"
  by (simp add: u32_def of_nat_diff [symmetric] del: of_nat_diff)

lemma u32_neg: "0 < k \<Longrightarrow> k \<le> 2 ^ 32 \<Longrightarrow> u32 (- int k) = 2 ^ 32 - k"
proof -
  assume k: "0 < k" "k \<le> 2 ^ 32"
  have "(- int k) mod 2 ^ 32 = (- int k + 2 ^ 32) mod 2 ^ 32" by simp
  also have "\<dots> = - int k + 2 ^ 32"
    using k by (intro mod_pos_pos_trivial) auto
  finally show ?thesis using k by (simp add: u32_def nat_diff_distrib)
qed

lemma u16_of_nat [simp]: "n < 2 ^ 16 \<Longrightarrow> u16 (int n) = n"
  by (simp add: u16_def)

lemma u16_less: "u16 x < 2 ^ 16"
proof -
  have "x mod 2 ^ 16 < (2 ^ 16 :: int)" by (rule pos_mod_bound) simp
  then show ?thesis by (simp add: u16_def nat_less_iff)
qed

lemma u16_diff: "n \<le> m \<Longrightarrow> m < 2 ^ 16 \<Longrightarrow> u16 (int m - int n) = m - n"
  by (simp add: u16_def of_nat_diff [symmetric] del: of_nat_diff)

lemma s32_id: "- (2 ^ 31) \<le> x \<Longrightarrow> x < 2 ^ 31 \<Longrightarrow> s32 x = x"
  by (simp add: s32_def)

section \<open>Lists\<close>

text \<open>\<open>memcpy(&dst[off], src, length src)\<close> on the array \<open>dst\<close>, in bounds.\<close>

definition blit :: "'a list \<Rightarrow> nat \<Rightarrow> 'a list \<Rightarrow> 'a list" where
  "blit dst off src = take off dst @ src @ drop (off + length src) dst"

lemma length_blit [simp]: "off + length src \<le> length dst \<Longrightarrow> length (blit dst off src) = length dst"
  by (simp add: blit_def)

lemma take_blit: "off + length src \<le> length dst \<Longrightarrow>
  take (off + length src) (blit dst off src) = take off dst @ src"
  by (simp add: blit_def)

lemma nth_blit: "off + length src \<le> length dst \<Longrightarrow> i < length dst \<Longrightarrow>
  blit dst off src ! i =
    (if i < off then dst ! i else if i < off + length src then src ! (i - off) else dst ! i)"
  by (auto simp: blit_def nth_append min_def)

text \<open>The segment \<open>xs[from ..< from + n]\<close>.\<close>

definition segment :: "nat \<Rightarrow> nat \<Rightarrow> 'a list \<Rightarrow> 'a list" where
  "segment from n xs = take n (drop from xs)"

lemma length_segment [simp]: "from + n \<le> length xs \<Longrightarrow> length (segment from n xs) = n"
  by (simp add: segment_def)

lemma segment_zero [simp]: "segment from 0 xs = []"
  by (simp add: segment_def)

lemma segment_all: "segment 0 (length xs) xs = xs"
  by (simp add: segment_def)

lemma segment_append_segment: "segment from n xs @ segment (from + n) m xs = segment from (n + m) xs"
proof -
  have "drop n (drop from xs) = drop (from + n) xs" by (simp add: add.commute)
  then show ?thesis by (simp add: segment_def take_add)
qed

lemma nth_segment: "from + n \<le> length xs \<Longrightarrow> i < n \<Longrightarrow> segment from n xs ! i = xs ! (from + i)"
  by (simp add: segment_def)

end
