(* ===== verification/MediaBuffer.thy ===== *)
theory MediaBuffer
  imports Prelude
begin

text \<open>
  The packet buffer of \<open>MediaBuffer.h\<close> and \<open>MediaBuffer.cpp\<close>, the contract its clients build packets on,
  and the pool of network buffers.

  \<open>pos\<close> (here \<open>bpos\<close>) is an \<open>unsigned short\<close> that counts the free bytes at the end of the array, \<open>MTU\<close> an \<open>unsigned\<close>,
  so the bytes stored are the first \<open>MTU - pos\<close>. What a \<open>boost::shared_ptr\<close> does is modelled in
  \<open>SharedPtr\<close>; here a shared buffer that its one owner changes is passed on as the changed value.
\<close>

section \<open>Buffers\<close>

record buffer =
  bpos :: nat             \<comment> \<open>\<open>unsigned short\<close>\<close>
  MTU :: nat             \<comment> \<open>\<open>unsigned\<close>\<close>
  pbuffer :: "byte list"

definition Buffer :: "nat \<Rightarrow> buffer" where
  "Buffer mtu = \<lparr>bpos = u16 (int mtu), MTU = mtu, pbuffer = replicate mtu 0\<rparr>"

definition CreateBuf :: "nat \<Rightarrow> buffer" where
  "CreateBuf mtu = Buffer mtu"

text \<open>\<open>memcpy(&dst[d], &src[s], n)\<close> between two arrays; nothing is accessed when \<open>n\<close> is 0.\<close>

definition memcpy :: "byte list \<Rightarrow> nat \<Rightarrow> byte list \<Rightarrow> nat \<Rightarrow> nat \<Rightarrow> byte list res" where
  "memcpy dst d src s n =
     (if n = 0 then Inr dst
      else andThen (guard (d + n \<le> length dst \<and> s + n \<le> length src) OutOfBounds)
        (\<lambda>_. Inr (blit dst d (segment s n src))))"

definition memset0 :: "byte list \<Rightarrow> nat \<Rightarrow> byte list res" where
  "memset0 dst n = andThen (guard (n \<le> length dst) OutOfBounds) (\<lambda>_. Inr (replicate n 0 @ drop n dst))"

definition Buffer_copy :: "buffer \<Rightarrow> buffer res" where
  "Buffer_copy ibuffer =
     andThen (memcpy (replicate (MTU ibuffer) 0) 0 (pbuffer ibuffer) 0 (MTU ibuffer)) (\<lambda>p.
     Inr \<lparr>bpos = bpos ibuffer, MTU = MTU ibuffer, pbuffer = p\<rparr>)"

definition GetMtuValue :: "buffer \<Rightarrow> nat" where
  "GetMtuValue b = MTU b"

definition GetPosValue :: "buffer \<Rightarrow> nat" where
  "GetPosValue b = bpos b"

definition GetSizeValue :: "buffer \<Rightarrow> nat" where
  "GetSizeValue b = u32 (int (MTU b) - int (bpos b))"

definition Clear :: "buffer \<Rightarrow> (bool \<times> buffer) res" where
  "Clear b = andThen (memset0 (pbuffer b) (bpos b)) (\<lambda>p.
     Inr (True, b\<lparr>pbuffer := p, bpos := u16 (int (MTU b))\<rparr>))"

text \<open>
  The three overloads of \<open>FullBuffer\<close>: from a raw pointer (an \<open>assert\<close> forbids the length 0), from a
  \<open>const Buffer&\<close> and from a shared pointer. The answer tells whether the bytes fitted.
\<close>

definition FullBuffer_ptr :: "buffer \<Rightarrow> byte list \<Rightarrow> nat \<Rightarrow> (bool \<times> buffer) res" where
  "FullBuffer_ptr b src lenth =
     andThen (guard (lenth \<noteq> 0) AssertFailed) (\<lambda>_.
     if lenth \<le> bpos b then
       andThen (memcpy (pbuffer b) (u32 (int (MTU b) - int (bpos b))) src 0 lenth) (\<lambda>p.
       Inr (True, b\<lparr>pbuffer := p, bpos := u16 (int (bpos b) - int lenth)\<rparr>))
     else Inr (False, b))"

definition FullBuffer :: "buffer \<Rightarrow> buffer \<Rightarrow> nat \<Rightarrow> nat \<Rightarrow> (bool \<times> buffer) res" where
  "FullBuffer b buf start len =
     (if len \<le> bpos b then
        andThen (memcpy (pbuffer b) (u32 (int (MTU b) - int (bpos b))) (pbuffer buf) start len) (\<lambda>p.
        Inr (True, b\<lparr>pbuffer := p, bpos := u16 (int (bpos b) - int len)\<rparr>))
      else Inr (False, b))"

definition FullBuffer_shared :: "buffer \<Rightarrow> buffer option \<Rightarrow> nat \<Rightarrow> nat \<Rightarrow> (bool \<times> buffer) res" where
  "FullBuffer_shared b buf start len =
     (case buf of
        None \<Rightarrow> Inl AssertFailed
      | Some buf \<Rightarrow>
          if len \<le> bpos b then
            andThen (memcpy (pbuffer b) (u32 (int (MTU b) - int (bpos b))) (pbuffer buf) start len) (\<lambda>p.
            Inr (True, b\<lparr>pbuffer := p, bpos := u16 (int (bpos b) - int len)\<rparr>))
          else Inr (False, b))"

definition GetBuffer :: "buffer \<Rightarrow> byte list" where
  "GetBuffer b = pbuffer b"

definition SetByte :: "buffer \<Rightarrow> byte \<Rightarrow> nat \<Rightarrow> buffer res" where
  "SetByte b byteSet i = andThen (put (pbuffer b) i byteSet) (\<lambda>p. Inr (b\<lparr>pbuffer := p\<rparr>))"

definition GetByte :: "buffer \<Rightarrow> nat \<Rightarrow> byte res" where
  "GetByte b i = at (pbuffer b) i"

text \<open>
  Assignment of a different object (\<open>this != &ibuffer\<close>; assigning to itself changes nothing). It fills
  with the source's free count as length and at the target's old position, as the code does.
\<close>

definition Buffer_assign :: "buffer \<Rightarrow> buffer \<Rightarrow> buffer res" where
  "Buffer_assign b ibuffer =
     (let b = b\<lparr>MTU := MTU ibuffer, pbuffer := replicate (MTU ibuffer) 0\<rparr> in
      andThen (FullBuffer_ptr b (pbuffer ibuffer) (bpos ibuffer)) (\<lambda>(ok, b).
      Inr (if ok then b\<lparr>bpos := bpos ibuffer\<rparr> else b\<lparr>bpos := u16 (int (MTU b))\<rparr>)))"

section \<open>The bytes a buffer holds\<close>

definition buf_wf :: "buffer \<Rightarrow> bool" where
  "buf_wf b \<longleftrightarrow> MTU b < 2 ^ 16 \<and> length (pbuffer b) = MTU b \<and> bpos b \<le> MTU b"

definition content :: "buffer \<Rightarrow> byte list" where
  "content b = take (MTU b - bpos b) (pbuffer b)"

text \<open>A buffer filled to the brim.\<close>

definition buffer_of :: "byte list \<Rightarrow> buffer" where
  "buffer_of xs = \<lparr>bpos = 0, MTU = length xs, pbuffer = xs\<rparr>"

lemma buf_wf_Buffer: "mtu < 2 ^ 16 \<Longrightarrow> buf_wf (Buffer mtu)"
  by (simp add: buf_wf_def Buffer_def)

lemma content_Buffer [simp]: "mtu < 2 ^ 16 \<Longrightarrow> content (Buffer mtu) = []"
  by (simp add: content_def Buffer_def)

lemma Buffer_simps [simp]:
  "MTU (Buffer mtu) = mtu" "mtu < 2 ^ 16 \<Longrightarrow> bpos (Buffer mtu) = mtu" "pbuffer (Buffer mtu) = replicate mtu 0"
  by (simp_all add: Buffer_def)

lemma GetSizeValue_wf: "buf_wf b \<Longrightarrow> GetSizeValue b = MTU b - bpos b"
  by (simp add: GetSizeValue_def buf_wf_def u32_diff)

lemma length_content: "buf_wf b \<Longrightarrow> length (content b) = GetSizeValue b"
  by (simp add: content_def GetSizeValue_wf) (simp add: buf_wf_def)

lemma memcpy_in:
  "d + n \<le> length dst \<Longrightarrow> s + n \<le> length src \<Longrightarrow> memcpy dst d src s n = Inr (blit dst d (segment s n src))"
  by (simp add: memcpy_def blit_def)

text \<open>Appending bytes at the end of the content, common to the three overloads.\<close>

definition appended :: "buffer \<Rightarrow> byte list \<Rightarrow> buffer" where
  "appended b xs = b\<lparr>pbuffer := blit (pbuffer b) (MTU b - bpos b) xs, bpos := bpos b - length xs\<rparr>"

lemma appended_wf:
  assumes "buf_wf b" and "length xs \<le> bpos b"
  shows "buf_wf (appended b xs)" and "content (appended b xs) = content b @ xs"
    and "MTU (appended b xs) = MTU b" and "bpos (appended b xs) = bpos b - length xs"
proof -
  have fit: "MTU b - bpos b + length xs \<le> length (pbuffer b)" using assms by (simp add: buf_wf_def)
  then show "buf_wf (appended b xs)" using assms by (auto simp: buf_wf_def appended_def)
  have "MTU b - (bpos b - length xs) = MTU b - bpos b + length xs" using assms by (simp add: buf_wf_def)
  then show "content (appended b xs) = content b @ xs"
    using take_blit [OF fit] by (simp add: content_def appended_def)
qed (simp_all add: appended_def)

lemma FullBuffer_append:
  assumes "buf_wf b" and "start + len \<le> length (pbuffer buf)"
  shows "FullBuffer b buf start len =
    Inr (if len \<le> bpos b then (True, appended b (segment start len (pbuffer buf))) else (False, b))"
  using assms
  by (simp add: FullBuffer_def memcpy_in buf_wf_def u32_diff u16_diff appended_def)

lemma FullBuffer_shared_append:
  assumes "buf_wf b" and "start + len \<le> length (pbuffer buf)"
  shows "FullBuffer_shared b (Some buf) start len =
    Inr (if len \<le> bpos b then (True, appended b (segment start len (pbuffer buf))) else (False, b))"
  using FullBuffer_append [OF assms] by (simp add: FullBuffer_def FullBuffer_shared_def)

lemma FullBuffer_ptr_append:
  assumes "buf_wf b" and "len \<le> length src" and "len \<noteq> 0"
  shows "FullBuffer_ptr b src len =
    Inr (if len \<le> bpos b then (True, appended b (take len src)) else (False, b))"
  using assms
  by (simp add: FullBuffer_ptr_def memcpy_in buf_wf_def u32_diff u16_diff appended_def segment_def)

section \<open>The contract clients build packets on\<close>

text \<open>
  A bounded byte buffer that is only ever appended to: filling it from a source either appends the
  chosen bytes or, when they do not fit, changes nothing. Packets are built by a sequence of fills whose
  answers the code ignores.
\<close>

definition fill_next :: "('b \<Rightarrow> 's \<Rightarrow> nat \<Rightarrow> nat \<Rightarrow> (bool \<times> 'b) res) \<Rightarrow> 's \<times> nat \<times> nat \<Rightarrow> 'b \<Rightarrow> 'b res" where
  "fill_next fill c b = (case c of (src, start, n) \<Rightarrow> andThen (fill b src start n) (\<lambda>(ok, b). Inr b))"

fun fill_all :: "('b \<Rightarrow> 's \<Rightarrow> nat \<Rightarrow> nat \<Rightarrow> (bool \<times> 'b) res) \<Rightarrow> ('s \<times> nat \<times> nat) list \<Rightarrow> 'b \<Rightarrow> 'b res" where
  "fill_all fill [] b = Inr b"
| "fill_all fill (c # cs) b = andThen (fill_next fill c b) (fill_all fill cs)"

locale packet_buffer =
  fixes inv :: "'b \<Rightarrow> bool"
    and stored :: "'b \<Rightarrow> byte list"
    and room :: "'b \<Rightarrow> nat"
    and bytes_of :: "'s \<Rightarrow> byte list"
    and fill :: "'b \<Rightarrow> 's \<Rightarrow> nat \<Rightarrow> nat \<Rightarrow> (bool \<times> 'b) res"
  assumes fill_fits: "inv b \<Longrightarrow> 0 < n \<Longrightarrow> start + n \<le> length (bytes_of src) \<Longrightarrow> n \<le> room b \<Longrightarrow>
      \<exists>b'. fill b src start n = Inr (True, b') \<and> inv b' \<and>
        stored b' = stored b @ segment start n (bytes_of src) \<and> room b' = room b - n"
    and fill_full: "inv b \<Longrightarrow> 0 < n \<Longrightarrow> room b < n \<Longrightarrow> fill b src start n = Inr (False, b)"
begin

lemma fill_all_fits:
  assumes "inv b" and "\<forall>(src, start, n) \<in> set cs. 0 < n \<and> start + n \<le> length (bytes_of src)"
    and "sum_list (map (\<lambda>(src, start, n). n) cs) \<le> room b"
  shows "\<exists>b'. fill_all fill cs b = Inr b' \<and> inv b' \<and>
    stored b' = stored b @ concat (map (\<lambda>(src, start, n). segment start n (bytes_of src)) cs) \<and>
    room b' = room b - sum_list (map (\<lambda>(src, start, n). n) cs)"
  using assms
proof (induction cs arbitrary: b)
  case (Cons c cs)
  obtain src start n where c: "c = (src, start, n)" by (cases c)
  obtain b1 where b1: "fill b src start n = Inr (True, b1)" "inv b1"
      "stored b1 = stored b @ segment start n (bytes_of src)" "room b1 = room b - n"
    using fill_fits [of b n start src] Cons.prems c by auto
  with Cons.IH [OF b1(2)] Cons.prems c show ?case
    by (auto simp: fill_next_def)
qed simp

text \<open>Whatever fits or not, filling only ever appends.\<close>

lemma fill_all_appends:
  assumes "inv b" and "\<forall>(src, start, n) \<in> set cs. 0 < n \<and> start + n \<le> length (bytes_of src)"
  shows "\<exists>b' xs. fill_all fill cs b = Inr b' \<and> inv b' \<and> stored b' = stored b @ xs"
  using assms
proof (induction cs arbitrary: b)
  case (Cons c cs)
  obtain src start n where c: "c = (src, start, n)" by (cases c)
  obtain ok b1 xs where b1: "fill b src start n = Inr (ok, b1)" "inv b1" "stored b1 = stored b @ xs"
    using fill_fits [of b n start src] fill_full [of b n src start] Cons.prems c
    by (cases "n \<le> room b") fastforce+
  then obtain b2 ys where "fill_all fill cs b1 = Inr b2" "inv b2" "stored b2 = stored b1 @ ys"
    using Cons.IH [OF b1(2)] Cons.prems by auto
  with b1 c show ?case by (auto simp: fill_next_def)
qed simp

end

text \<open>The overload set of \<open>FullBuffer\<close>, resolved by the kind of the source.\<close>

datatype fill_source = FromRef buffer | FromPtr "byte list" | FromShared buffer

definition fill_bytes :: "fill_source \<Rightarrow> byte list" where
  "fill_bytes src = (case src of FromRef b \<Rightarrow> pbuffer b | FromPtr p \<Rightarrow> p | FromShared b \<Rightarrow> pbuffer b)"

definition fill_from :: "buffer \<Rightarrow> fill_source \<Rightarrow> nat \<Rightarrow> nat \<Rightarrow> (bool \<times> buffer) res" where
  "fill_from b src start n =
     (case src of
        FromRef buf \<Rightarrow> FullBuffer b buf start n
      | FromPtr p \<Rightarrow> FullBuffer_ptr b (drop start p) n
      | FromShared buf \<Rightarrow> FullBuffer_shared b (Some buf) start n)"

lemma fill_from_append:
  assumes "buf_wf b" and "0 < n" and "start + n \<le> length (fill_bytes src)"
  shows "fill_from b src start n =
    Inr (if n \<le> bpos b then (True, appended b (segment start n (fill_bytes src))) else (False, b))"
  using assms
  by (cases src) (simp_all add: fill_from_def fill_bytes_def FullBuffer_append FullBuffer_shared_append
      FullBuffer_ptr_append segment_def)

interpretation pkt: packet_buffer buf_wf content bpos fill_bytes fill_from
proof unfold_locales
  fix b n start src
  assume "buf_wf b" "0 < n" "start + n \<le> length (fill_bytes src)" "n \<le> bpos b"
  then show "\<exists>b'. fill_from b src start n = Inr (True, b') \<and> buf_wf b' \<and>
      content b' = content b @ segment start n (fill_bytes src) \<and> bpos b' = bpos b - n"
    using appended_wf [of b "segment start n (fill_bytes src)"] by (simp add: fill_from_append)
next
  fix b n start src
  assume "buf_wf b" "0 < n" "bpos b < n"
  then show "fill_from b src start n = Inr (False, b)"
    by (cases src) (simp_all add: fill_from_def FullBuffer_def FullBuffer_shared_def FullBuffer_ptr_def)
qed

text \<open>The total size of a buffer built by fills, and fills of nothing.\<close>

lemma MTU_content: "buf_wf b \<Longrightarrow> MTU b = length (content b) + bpos b"
  by (simp add: content_def buf_wf_def)

lemma fill_all_append: "fill_all fill (cs @ ds) b = andThen (fill_all fill cs b) (fill_all fill ds)"
proof (induction cs arbitrary: b)
  case (Cons c cs)
  then show ?case by (cases "fill_next fill c b") simp_all
qed simp

lemma fill_from_ref_none: "buf_wf b \<Longrightarrow> fill_from b (FromRef r) start 0 = Inr (True, b)"
  by (simp add: fill_from_def FullBuffer_def memcpy_def buf_wf_def)

lemma fill_from_ref_full: "bpos b < n \<Longrightarrow> fill_from b (FromRef r) start n = Inr (False, b)"
  by (simp add: fill_from_def FullBuffer_def)

lemma SetByte_wf:
  assumes "buf_wf b" and "i < length (content b)"
  shows "\<exists>b'. SetByte b v i = Inr b' \<and> buf_wf b' \<and> MTU b' = MTU b \<and> bpos b' = bpos b \<and>
    content b' = (content b)[i := v]"
  using assms by (auto simp: SetByte_def buf_wf_def content_def take_update_swap)

lemma GetByte_wf: "buf_wf b \<Longrightarrow> i < length (content b) \<Longrightarrow> GetByte b i = Inr (content b ! i)"
  by (simp add: GetByte_def buf_wf_def content_def)

section \<open>Clearing, copying and assigning\<close>

lemma Clear_wf:
  assumes "buf_wf b"
  shows "Clear b = Inr (True, b\<lparr>pbuffer := replicate (bpos b) 0 @ drop (bpos b) (pbuffer b), bpos := MTU b\<rparr>)"
  using assms by (simp add: Clear_def memset0_def buf_wf_def)

lemma Buffer_copy_wf: "buf_wf b \<Longrightarrow> Buffer_copy b = Inr \<lparr>bpos = bpos b, MTU = MTU b, pbuffer = pbuffer b\<rparr>"
  by (simp add: Buffer_copy_def memcpy_in buf_wf_def blit_def segment_def)

lemma Buffer_assign_full: "bpos ibuffer = 0 \<Longrightarrow> Buffer_assign b ibuffer = Inl AssertFailed"
  by (simp add: Buffer_assign_def FullBuffer_ptr_def)

section \<open>Everything a client may do to a buffer\<close>

datatype buf_op =
    OpFull buffer nat nat
  | OpShared buffer nat nat
  | OpPtr "byte list" nat
  | OpSet byte nat
  | OpClear
  | OpCopy

fun buf_exec :: "buf_op \<Rightarrow> buffer \<Rightarrow> buffer res" where
  "buf_exec (OpFull src start n) b = andThen (FullBuffer b src start n) (\<lambda>(ok, b). Inr b)"
| "buf_exec (OpShared src start n) b = andThen (FullBuffer_shared b (Some src) start n) (\<lambda>(ok, b). Inr b)"
| "buf_exec (OpPtr src n) b = andThen (FullBuffer_ptr b src n) (\<lambda>(ok, b). Inr b)"
| "buf_exec (OpSet v i) b = SetByte b v i"
| "buf_exec OpClear b = andThen (Clear b) (\<lambda>(ok, b). Inr b)"
| "buf_exec OpCopy b = Buffer_copy b"

text \<open>Sources that have the bytes asked for, a length that is not 0 for the raw pointer, an index in the array.\<close>

fun buf_op_ok :: "nat \<Rightarrow> buf_op \<Rightarrow> bool" where
  "buf_op_ok mtu (OpFull src start n) \<longleftrightarrow> start + n \<le> length (pbuffer src)"
| "buf_op_ok mtu (OpShared src start n) \<longleftrightarrow> start + n \<le> length (pbuffer src)"
| "buf_op_ok mtu (OpPtr src n) \<longleftrightarrow> n \<noteq> 0 \<and> n \<le> length src"
| "buf_op_ok mtu (OpSet v i) \<longleftrightarrow> i < mtu"
| "buf_op_ok mtu OpClear \<longleftrightarrow> True"
| "buf_op_ok mtu OpCopy \<longleftrightarrow> True"

fun buf_exec_all :: "buf_op list \<Rightarrow> buffer \<Rightarrow> buffer res" where
  "buf_exec_all [] b = Inr b"
| "buf_exec_all (c # cs) b = andThen (buf_exec c b) (buf_exec_all cs)"

lemma buf_exec_wf:
  assumes "buf_wf b" and "buf_op_ok (MTU b) c"
  shows "\<exists>b'. buf_exec c b = Inr b' \<and> buf_wf b' \<and> MTU b' = MTU b"
proof (cases c)
  case (OpFull src start n)
  then show ?thesis using assms appended_wf [OF assms(1), of "segment start n (pbuffer src)"] by (simp add: FullBuffer_append)
next
  case (OpShared src start n)
  then show ?thesis using assms appended_wf [OF assms(1), of "segment start n (pbuffer src)"] by (simp add: FullBuffer_shared_append)
next
  case (OpPtr src n)
  then show ?thesis using assms appended_wf [OF assms(1), of "take n src"] by (simp add: FullBuffer_ptr_append)
next
  case (OpSet v i)
  then show ?thesis using assms by (simp add: SetByte_def buf_wf_def)
next
  case OpClear
  then show ?thesis using assms by (simp add: Clear_wf) (simp add: buf_wf_def)
next
  case OpCopy
  then show ?thesis using assms by (simp add: Buffer_copy_wf) (simp add: buf_wf_def)
qed

lemma buf_exec_all_wf:
  assumes "buf_wf b" and "\<forall>c\<in>set cs. buf_op_ok (MTU b) c"
  shows "\<exists>b'. buf_exec_all cs b = Inr b' \<and> buf_wf b' \<and> MTU b' = MTU b"
  using assms
proof (induction cs arbitrary: b)
  case (Cons c cs)
  then obtain b' where b': "buf_exec c b = Inr b'" "buf_wf b'" "MTU b' = MTU b" using buf_exec_wf [of b c] by auto
  then show ?case using Cons.IH [of b'] Cons.prems(2) by simp
qed simp

section \<open>The pool of network buffers\<close>

text \<open>
  \<open>netbufferpoll\<close>: pages of \<open>MAPPAGECOUNT\<close> nodes of \<open>NODESIZE\<close> bytes each, whose first byte marks a used
  node. A node handed out is named by its page and its offset in the page. \<open>posbuf\<close> and \<open>rebuf\<close> are
  \<open>unsigned char\<close>s.
\<close>

definition NODESIZE :: nat where "NODESIZE = 1536"

definition MAPPAGECOUNT :: nat where "MAPPAGECOUNT = 128"

definition MAPBUFSIZE :: nat where "MAPBUFSIZE = 1536 * 128"

record netmap =
  posbuf :: nat
  rebuf :: nat
  mapcount :: nat
  pbuff :: "byte list"

definition new_netmap :: netmap where
  "new_netmap = \<lparr>posbuf = 0, rebuf = 128, mapcount = 0, pbuff = replicate MAPBUFSIZE 0\<rparr>"

definition has_buf :: "netmap \<Rightarrow> bool" where
  "has_buf m \<longleftrightarrow> rebuf m > 0"

text \<open>The search \<open>if (pbuff[i*NODESIZE] != -1)\<close>: the byte is promoted to an \<open>int\<close> between 0 and 255.\<close>

function find_node :: "byte list \<Rightarrow> nat \<Rightarrow> nat res" where
  "find_node p i =
     (if i < MAPPAGECOUNT then
        andThen (at p (i * NODESIZE)) (\<lambda>c. if uint c \<noteq> -1 then Inr i else find_node p (i + 1))
      else Inr 129)"
  by pat_completeness auto
termination
  by (relation "measure (\<lambda>(p, i). MAPPAGECOUNT - i)") auto

declare find_node.simps [simp del]

definition get_node :: "netmap \<Rightarrow> (netmap \<times> nat option) res" where
  "get_node m =
     (if 0 < rebuf m then
        andThen (put (pbuff m) (posbuf m * NODESIZE) 0xff) (\<lambda>p.
        andThen (find_node p 0) (\<lambda>i.
        andThen (guard (i \<noteq> 129) AssertFailed) (\<lambda>_.
        Inr (m\<lparr>pbuff := p, posbuf := i, rebuf := rebuf m - 1\<rparr>, Some (i * NODESIZE + 1)))))
      else Inr (m, None))"

fun get_buf_loop :: "netmap list \<Rightarrow> (netmap list \<times> (nat \<times> nat) option) res" where
  "get_buf_loop [] = Inr ([], None)"
| "get_buf_loop (m # ms) =
     andThen (get_node m) (\<lambda>(m, p).
     case p of
       Some off \<Rightarrow> Inr (m # ms, Some (0, off))
     | None \<Rightarrow> andThen (get_buf_loop ms) (\<lambda>(ms, p).
         Inr (m # ms, map_option (\<lambda>(i, off). (Suc i, off)) p)))"

definition get_buf :: "netmap list \<Rightarrow> (netmap list \<times> (nat \<times> nat) option) res" where
  "get_buf maplist =
     andThen (get_buf_loop maplist) (\<lambda>(maplist, p).
     case p of
       Some a \<Rightarrow> Inr (maplist, Some a)
     | None \<Rightarrow>
         andThen (get_node new_netmap) (\<lambda>(m, p).
         Inr (maplist @ [m], map_option (\<lambda>off. (length maplist, off)) p)))"

text \<open>\<open>Buffer(mtu, NETBUFPOLL)\<close>: the size is fixed and the array is the node.\<close>

definition Buffer_netbuf :: "netmap list \<Rightarrow> (netmap list \<times> nat \<times> nat \<times> (nat \<times> nat) option) res" where
  "Buffer_netbuf maplist = andThen (get_buf maplist) (\<lambda>(maplist, p). Inr (maplist, 1480, 1480, p))"

definition netmap_wf :: "netmap \<Rightarrow> bool" where
  "netmap_wf m \<longleftrightarrow> length (pbuff m) = MAPBUFSIZE \<and> posbuf m = 0 \<and> rebuf m \<le> 128"

lemma new_netmap_wf: "netmap_wf new_netmap" "rebuf new_netmap = 128"
  by (simp_all add: netmap_wf_def new_netmap_def)

text \<open>An unsigned byte never equals \<open>-1\<close>, so the search stops at the first node, used or not.\<close>

lemma find_node_first: "0 < length p \<Longrightarrow> find_node p 0 = Inr 0"
proof -
  assume "0 < length p"
  moreover have "uint (p ! 0) \<noteq> -1" using uint_ge_0 [of "p ! 0"] by linarith
  ultimately show ?thesis by (subst find_node.simps) (simp add: MAPPAGECOUNT_def)
qed

lemma get_node_wf:
  assumes "netmap_wf m"
  shows "\<exists>m'. get_node m = Inr (m', if 0 < rebuf m then Some 1 else None) \<and> netmap_wf m' \<and>
    rebuf m' = rebuf m - 1"
proof (cases "0 < rebuf m")
  case True
  have pos: "posbuf m = 0" and len: "0 < length (pbuff m)"
    using assms by (simp_all add: netmap_wf_def MAPBUFSIZE_def)
  have "find_node ((pbuff m)[0 := 0xff]) 0 = Inr 0" using len by (intro find_node_first) simp
  then have "get_node m = Inr (m\<lparr>pbuff := (pbuff m)[0 := 0xff], posbuf := 0, rebuf := rebuf m - 1\<rparr>, Some 1)"
    using True pos len by (simp add: get_node_def)
  with True assms show ?thesis by (auto simp: netmap_wf_def)
next
  case False
  with assms show ?thesis by (auto simp: get_node_def)
qed

lemma get_buf_loop_wf:
  assumes "\<forall>m \<in> set ms. netmap_wf m"
  shows "\<exists>ms'. get_buf_loop ms = Inr (ms', if \<exists>m \<in> set ms. 0 < rebuf m
      then Some (length (takeWhile (\<lambda>m. rebuf m = 0) ms), 1) else None) \<and>
    (\<forall>m \<in> set ms'. netmap_wf m) \<and> map rebuf ms' =
      (if \<exists>m \<in> set ms. 0 < rebuf m then (let k = length (takeWhile (\<lambda>m. rebuf m = 0) ms) in
         (map rebuf ms)[k := map rebuf ms ! k - 1]) else map rebuf ms)"
  using assms
proof (induction ms)
  case (Cons m ms)
  obtain m' where m': "get_node m = Inr (m', if 0 < rebuf m then Some 1 else None)" "netmap_wf m'"
      "rebuf m' = rebuf m - 1"
    using get_node_wf [of m] Cons.prems by auto
  show ?case
  proof (cases "0 < rebuf m")
    case True
    with m' Cons.prems show ?thesis by simp
  next
    case False
    with m' Cons show ?thesis by (auto simp: Let_def)
  qed
qed simp

text \<open>The pool after \<open>n\<close> requests: full pages, then the page that is being used up.\<close>

definition pool_after :: "nat \<Rightarrow> netmap list \<Rightarrow> bool" where
  "pool_after n ms \<longleftrightarrow> (\<forall>m \<in> set ms. netmap_wf m) \<and>
     map rebuf ms = replicate (n div 128) 0 @ (if n mod 128 = 0 then [] else [128 - n mod 128])"

lemma takeWhile_map_rebuf:
  "length (takeWhile (\<lambda>m. rebuf m = 0) ms) = length (takeWhile (\<lambda>k. k = 0) (map rebuf ms))"
  by (simp add: takeWhile_map comp_def)

lemma takeWhile_replicate_zero: "takeWhile (\<lambda>k. k = 0) (replicate n (0::nat) @ ks) =
    replicate n 0 @ takeWhile (\<lambda>k. k = 0) ks"
  by (induction n) auto

lemma get_buf_pool:
  assumes "pool_after n ms"
  shows "\<exists>ms'. get_buf ms = Inr (ms', Some (n div 128, 1)) \<and> pool_after (Suc n) ms'"
proof (cases "n mod 128 = 0")
  case True
  then have div: "Suc n div 128 = n div 128" "Suc n mod 128 = 1" by (simp_all add: mod_Suc div_Suc)
  have rb: "map rebuf ms = replicate (n div 128) 0" and wf: "\<forall>m \<in> set ms. netmap_wf m"
    using assms True by (simp_all add: pool_after_def)
  have none: "\<not> (\<exists>m \<in> set ms. 0 < rebuf m)"
    using rb by (metis in_set_replicate image_eqI list.set_map less_irrefl)
  obtain ms1 where ms1: "get_buf_loop ms = Inr (ms1, None)" "\<forall>m \<in> set ms1. netmap_wf m"
      "map rebuf ms1 = map rebuf ms"
    using get_buf_loop_wf [OF wf] none by auto
  obtain m where m: "get_node new_netmap = Inr (m, Some 1)" "netmap_wf m" "rebuf m = 127"
    using get_node_wf [OF new_netmap_wf(1)] new_netmap_wf(2) by auto
  have len: "length ms1 = n div 128" using ms1(3) rb by (metis length_map length_replicate)
  then have "get_buf ms = Inr (ms1 @ [m], Some (n div 128, 1))"
    using ms1 m by (simp add: get_buf_def)
  moreover have "pool_after (Suc n) (ms1 @ [m])"
    using ms1 m rb div by (auto simp: pool_after_def)
  ultimately show ?thesis by blast
next
  case False
  let ?k = "n div 128"
  have rb: "map rebuf ms = replicate ?k 0 @ [128 - n mod 128]" and wf: "\<forall>m \<in> set ms. netmap_wf m"
    using assms False by (simp_all add: pool_after_def)
  have "128 - n mod 128 \<in> set (map rebuf ms)" by (simp add: rb)
  then obtain m where "m \<in> set ms" "rebuf m = 128 - n mod 128" by auto
  then have ex: "\<exists>m \<in> set ms. 0 < rebuf m" by (intro bexI [of _ m]) simp_all
  have k: "length (takeWhile (\<lambda>m. rebuf m = 0) ms) = ?k"
    unfolding takeWhile_map_rebuf rb takeWhile_replicate_zero by simp
  obtain ms1 where ms1: "get_buf_loop ms = Inr (ms1, Some (?k, 1))" "\<forall>m \<in> set ms1. netmap_wf m"
      "map rebuf ms1 = (map rebuf ms)[?k := map rebuf ms ! ?k - 1]"
    using get_buf_loop_wf [OF wf] ex by (auto simp: k Let_def)
  have rb1: "map rebuf ms1 = replicate ?k 0 @ [128 - Suc (n mod 128)]"
    unfolding ms1(3) rb by (simp add: list_update_append nth_append)
  have "map rebuf ms1 = replicate (Suc n div 128) 0 @ (if Suc n mod 128 = 0 then [] else [128 - Suc n mod 128])"
  proof (cases "Suc (n mod 128) = 128")
    case True
    then have "Suc n mod 128 = 0" "Suc n div 128 = Suc ?k" by (simp_all add: mod_Suc div_Suc)
    then show ?thesis using True by (simp add: rb1 replicate_append_same)
  next
    case False
    then have "Suc n mod 128 = Suc (n mod 128)" "Suc n div 128 = ?k" by (simp_all add: mod_Suc div_Suc)
    then show ?thesis by (simp add: rb1)
  qed
  then show ?thesis using ms1 by (auto simp: get_buf_def pool_after_def)
qed

text \<open>A run of requests to the pool and the addresses it hands out.\<close>

fun get_bufs :: "nat \<Rightarrow> netmap list \<Rightarrow> (netmap list \<times> (nat \<times> nat) option list) res" where
  "get_bufs 0 ms = Inr (ms, [])"
| "get_bufs (Suc n) ms =
     andThen (get_buf ms) (\<lambda>(ms, p). andThen (get_bufs n ms) (\<lambda>(ms, ps). Inr (ms, p # ps)))"

lemma get_bufs_pool:
  assumes "pool_after k ms"
  shows "\<exists>ms'. get_bufs n ms = Inr (ms', map (\<lambda>i. Some (i div 128, 1)) [k..<k + n]) \<and> pool_after (k + n) ms'"
  using assms
proof (induction n arbitrary: k ms)
  case (Suc n)
  obtain ms1 where ms1: "get_buf ms = Inr (ms1, Some (k div 128, 1))" "pool_after (Suc k) ms1"
    using get_buf_pool [OF Suc.prems] by blast
  with Suc.IH [OF ms1(2)] show ?case by (auto simp: upt_conv_Cons simp del: upt_Suc)
qed simp

section \<open>Properties\<close>

text \<open>Building a packet: a sequence of fills from references, pointers and shared buffers whose ranges
  lie in their sources and whose sizes together fit the MTU, made on a fresh buffer of less than 64 KB, runs
  without a fault and leaves exactly the concatenation of the chosen ranges, which \<open>GetSize\<close> counts.\<close>

theorem fill_sequence_content:
  assumes "mtu < 2 ^ 16"
    and "\<forall>(src, start, n) \<in> set cs. 0 < n \<and> start + n \<le> length (fill_bytes src)"
    and "sum_list (map (\<lambda>(src, start, n). n) cs) \<le> mtu"
  shows "\<exists>b. fill_all fill_from cs (Buffer mtu) = Inr b \<and> buf_wf b \<and>
    content b = concat (map (\<lambda>(src, start, n). segment start n (fill_bytes src)) cs) \<and>
    GetSizeValue b = sum_list (map (\<lambda>(src, start, n). n) cs)"
proof -
  obtain b where b: "fill_all fill_from cs (Buffer mtu) = Inr b" "buf_wf b"
      "content b = concat (map (\<lambda>(src, start, n). segment start n (fill_bytes src)) cs)"
    using pkt.fill_all_fits [OF buf_wf_Buffer [OF assms(1)] assms(2)] assms by auto
  have "length (content b) = sum_list (map (\<lambda>(src, start, n). n) cs)"
    unfolding b(3) length_concat map_map
    using assms(2) by (intro arg_cong [where f = sum_list] map_cong) (auto split: prod.splits)
  then have "GetSizeValue b = sum_list (map (\<lambda>(src, start, n). n) cs)"
    using length_content [OF b(2)] b(3) by simp
  with b show ?thesis by blast
qed

theorem fill_sequence_content_witness:
  "\<exists>b. fill_all fill_from [(FromPtr [1, 2, 3], 1, 2), (FromRef (Buffer 8), 3, 4)] (Buffer 10) = Inr b \<and>
     buf_wf b \<and> content b = [2, 3, 0, 0, 0, 0] \<and> GetSizeValue b = 6"
proof -
  have "segment 1 2 [1, 2, 3 :: byte] = [2, 3]" "segment 3 4 (replicate 8 (0 :: byte)) = [0, 0, 0, 0]"
    by code_simp+
  then show ?thesis
    using fill_sequence_content [of 10 "[(FromPtr [1, 2, 3], 1, 2), (FromRef (Buffer 8), 3, 4)]"]
    by (simp add: fill_bytes_def)
qed

text \<open>C35. Every buffer a client can make is well-formed: after any sequence of fills, byte writes, clears and copies its
  array has the size it was made with, the free count lies within it and the two counts add up; none of the
  operations fails.\<close>

theorem buffers_well_formed:
  assumes "mtu < 2 ^ 16" and "\<forall>c\<in>set cs. buf_op_ok mtu c"
  shows "\<exists>b. buf_exec_all cs (Buffer mtu) = Inr b \<and> length (GetBuffer b) = mtu \<and> GetMtuValue b = mtu \<and>
    GetPosValue b \<le> mtu \<and> GetSizeValue b + GetPosValue b = mtu"
proof -
  obtain b where "buf_exec_all cs (Buffer mtu) = Inr b" "buf_wf b" "MTU b = mtu"
    using buf_exec_all_wf [OF buf_wf_Buffer [OF assms(1)], of cs] assms(2) by auto
  then show ?thesis
    by (intro exI [of _ b]) (auto simp: GetBuffer_def GetMtuValue_def GetPosValue_def GetSizeValue_wf, simp_all add: buf_wf_def)
qed

theorem buffers_well_formed_witness:
  "\<exists>b. buf_exec_all [OpPtr [1, 2, 3] 2, OpFull (Buffer 8) 4 4, OpSet 9 0, OpCopy] (Buffer 3) = Inr b \<and> GetSizeValue b + GetPosValue b = 3"
  using buffers_well_formed [of 3 "[OpPtr [1, 2, 3] 2, OpFull (Buffer 8) 4 4, OpSet 9 0, OpCopy]"] by auto

text \<open>A fill that does not fit is refused and changes nothing, one that fits never writes outside the
  array; in both cases the buffer stays well-formed and what it held stays in front.\<close>

theorem FullBuffer_safe:
  assumes "buf_wf b" and "start + len \<le> length (pbuffer buf)"
  shows "\<exists>ok b'. FullBuffer b buf start len = Inr (ok, b') \<and> FullBuffer_shared b (Some buf) start len = Inr (ok, b') \<and>
    (ok \<longleftrightarrow> len \<le> GetPosValue b) \<and> buf_wf b' \<and> GetMtuValue b' = GetMtuValue b \<and>
    content b' = content b @ (if ok then segment start len (pbuffer buf) else [])"
  using assms appended_wf [of b "segment start len (pbuffer buf)"]
  by (auto simp: FullBuffer_append FullBuffer_shared_append GetPosValue_def GetMtuValue_def)

theorem FullBuffer_safe_witness:
  "\<exists>b'. FullBuffer (Buffer 3) (Buffer 8) 4 4 = Inr (False, b') \<and> buf_wf b' \<and> content b' = []"
  using FullBuffer_safe [of "Buffer 3" 4 4 "Buffer 8"] by (auto simp: buf_wf_Buffer GetPosValue_def)

text \<open>\<open>Clear\<close> empties the buffer but zeroes the wrong bytes: the number of free bytes, counted from
  the front. Every byte from that position on keeps its old value.\<close>

theorem Clear_keeps_data:
  assumes "buf_wf b"
  shows "\<exists>b'. Clear b = Inr (True, b') \<and> buf_wf b' \<and> content b' = [] \<and> GetSizeValue b' = 0 \<and>
    drop (GetPosValue b) (GetBuffer b') = drop (GetPosValue b) (GetBuffer b) \<and>
    take (GetPosValue b) (GetBuffer b') = replicate (GetPosValue b) 0"
  using assms
  by (auto simp: Clear_wf GetPosValue_def GetBuffer_def buf_wf_def content_def GetSizeValue_def u32_def)

theorem Clear_keeps_data_witness:
  "\<exists>b'. Clear \<lparr>bpos = 1, MTU = 3, pbuffer = [7, 8, 9]\<rparr> = Inr (True, b') \<and> content b' = [] \<and>
    drop 1 (GetBuffer b') = [8, 9]"
  using Clear_keeps_data [of "\<lparr>bpos = 1, MTU = 3, pbuffer = [7, 8, 9]\<rparr>"]
  by (auto simp: buf_wf_def GetPosValue_def GetBuffer_def)

text \<open>Assignment to a fresh buffer takes the source's number of free bytes for the length to copy. The
  content survives exactly as far as it lies in the first free-count bytes, zeros follow; a full source
  stops the program at the assertion.\<close>

theorem Buffer_assign_content:
  assumes "buf_wf src" and "m < 2 ^ 16" and "bpos src \<le> m"
  shows "if bpos src = 0 then Buffer_assign (Buffer m) src = Inl AssertFailed
    else if m \<le> MTU src then \<exists>b. Buffer_assign (Buffer m) src = Inr b \<and> bpos b = bpos src \<and> MTU b = MTU src \<and>
      pbuffer b = blit (replicate (MTU src) 0) (MTU src - m) (take (bpos src) (pbuffer src))
    else Buffer_assign (Buffer m) src = Inl OutOfBounds"
proof -
  let ?b = "(Buffer m)\<lparr>MTU := MTU src, pbuffer := replicate (MTU src) 0\<rparr>"
  consider "bpos src = 0" | "bpos src \<noteq> 0" "m \<le> MTU src" | "bpos src \<noteq> 0" "MTU src < m" by linarith
  then show ?thesis
  proof cases
    case 2
    then have "u32 (int (MTU src) - int m) = MTU src - m" "MTU src - m + bpos src \<le> MTU src"
      using assms by (simp_all add: u32_diff buf_wf_def)
    with 2 assms show ?thesis
      by (simp add: Buffer_assign_def FullBuffer_ptr_def memcpy_in buf_wf_def segment_def Let_def)
  next
    case 3
    then have "u32 (int (MTU src) - int m) = 2 ^ 32 - (m - MTU src)"
      using assms u32_neg [of "m - MTU src"] by (simp add: of_nat_diff)
    moreover have "\<not> 2 ^ 32 - (m - MTU src) + bpos src \<le> MTU src"
      using 3 assms by (simp add: buf_wf_def)
    ultimately have "memcpy (replicate (MTU src) 0) (u32 (int (MTU src) - int m)) (pbuffer src) 0 (bpos src) =
        Inl OutOfBounds"
      using 3 by (simp add: memcpy_def del: power_numeral)
    with 3 assms show ?thesis by (simp add: Buffer_assign_def FullBuffer_ptr_def Let_def)
  qed (simp add: Buffer_assign_full)
qed

theorem Buffer_assign_content_witness:
  "\<exists>b. Buffer_assign (Buffer 4) \<lparr>bpos = 1, MTU = 4, pbuffer = [7, 8, 9, 0]\<rparr> = Inr b \<and> content b = [7, 0, 0]"
proof -
  have "take 3 (blit (replicate 4 0) 0 (take 1 [7, 8, 9, 0 :: byte])) = [7, 0, 0]" by code_simp
  then show ?thesis
    using Buffer_assign_content [of "\<lparr>bpos = 1, MTU = 4, pbuffer = [7, 8, 9, 0]\<rparr>" 4]
    by (auto simp: buf_wf_def content_def)
qed

text \<open>The pool never hands out distinct nodes: the search compares an \<open>unsigned char\<close> with \<open>-1\<close>, so request
  number \<open>i\<close> gets the first node of page \<open>i div 128\<close>; all 128 requests of a page share one address.\<close>

theorem get_bufs_alias:
  "\<exists>ms. get_bufs n [] = Inr (ms, map (\<lambda>i. Some (i div 128, 1)) [0..<n])"
  using get_bufs_pool [of 0 "[]" n] by (auto simp: pool_after_def)

end
