(* ===== verification/HardwareIO.thy ===== *)
theory HardwareIO
  imports MediaBuffer
begin

text \<open>
  File access: \<open>HardwareIO.h\<close> and \<open>HardwareIO.cpp\<close>.

  The disk is an argument: the files that can be opened, by name. A \<open>FILE*\<close> is the content of its file,
  the position and the end-of-file indicator; \<open>fseek\<close> and \<open>fread\<close> are modelled as the C standard
  describes them, a failing \<open>fseek\<close> leaving the stream as it was. The \<open>std::map\<close> of file nodes is a list
  sorted by key, a null pointer in it \<open>None\<close>.
\<close>

section \<open>Streams of the C library\<close>

type_synonym disk = "string \<rightharpoonup> byte list"

record stream_FILE =
  file_data :: "byte list"
  file_pos :: nat
  file_eof :: bool

definition fopen :: "disk \<Rightarrow> string \<Rightarrow> stream_FILE option" where
  "fopen d name = map_option (\<lambda>dat. \<lparr>file_data = dat, file_pos = 0, file_eof = False\<rparr>) (d name)"

text \<open>\<open>fseek\<close> from a base position with a \<open>long\<close> offset.\<close>

definition fseek :: "stream_FILE \<Rightarrow> int \<Rightarrow> nat \<Rightarrow> stream_FILE" where
  "fseek f offset base =
     (if int base + offset < 0 then f else f\<lparr>file_pos := nat (int base + offset), file_eof := False\<rparr>)"

definition fread :: "stream_FILE \<Rightarrow> nat \<Rightarrow> byte list \<times> stream_FILE" where
  "fread f n =
     (let dat = (if file_eof f then [] else segment (file_pos f) n (file_data f))
      in (dat, f\<lparr>file_pos := file_pos f + length dat, file_eof := length dat < n\<rparr>))"

section \<open>The file manager\<close>

record FileNode =
  node_filename :: string
  node_filefd :: stream_FILE
  node_curpos :: nat          \<comment> \<open>\<open>uint64_t _curpos\<close>\<close>

type_synonym file_manager = "(int \<times> FileNode option) list"

text \<open>
  The search loop of \<open>MakeFileNode\<close> keeps its iterator where it is: it returns at the first node or
  never. \<open>None\<close> is the run that never ends.
\<close>

partial_function (option) find_file :: "file_manager \<Rightarrow> string \<Rightarrow> int option res option" where
  "find_file it filename =
     (case it of
        [] \<Rightarrow> Some (Inr None)
      | kn # rest \<Rightarrow>
          (case snd kn of
             None \<Rightarrow> Some (Inl NullPointer)
           | Some node \<Rightarrow>
               if node_filename node = filename then Some (Inr (Some (fst kn)))
               else find_file it filename))"

definition returned :: "'a res option \<Rightarrow> 'a res" where
  "returned r = (case r of None \<Rightarrow> Inl NoReturn | Some r \<Rightarrow> r)"

definition map_insert :: "int \<Rightarrow> FileNode option \<Rightarrow> file_manager \<Rightarrow> file_manager \<times> bool" where
  "map_insert k v m =
     (if k \<in> set (map fst m) then (m, False) else (insort_key fst (k, v) m, True))"

definition MakeFileNode :: "disk \<Rightarrow> file_manager \<Rightarrow> string \<Rightarrow> (int \<times> file_manager) res" where
  "MakeFileNode d FileManager filename =
     andThen (returned (find_file FileManager filename)) (\<lambda>found.
     case found of
       Some i \<Rightarrow> Inr (i, FileManager)
     | None \<Rightarrow>
         (case fopen d filename of
            None \<Rightarrow> Inr (0xffff, FileManager)
          | Some file \<Rightarrow>
              let newnode = \<lparr>node_filename = filename, node_filefd = file, node_curpos = 0\<rparr>;
                  (FileManager, inserted) =
                    map_insert (int (length FileManager)) (Some newnode) FileManager
              in if inserted then Inr (int (length FileManager) - 1, FileManager)
                 else Inr (0xffff, FileManager)))"

definition update_node :: "int \<Rightarrow> FileNode \<Rightarrow> file_manager \<Rightarrow> file_manager" where
  "update_node k node m = map (\<lambda>(i, n). (i, if i = k then Some node else n)) m"

text \<open>
  \<open>FileManager[index]\<close> puts a null pointer under a missing index, which the next line dereferences.
  The 64-bit difference becomes the \<open>long\<close> argument of \<open>fseek\<close>; \<open>_curpos\<close> is read, never written.
\<close>

definition GetBufferFormFile :: "file_manager \<Rightarrow> int \<Rightarrow> nat \<Rightarrow> nat \<Rightarrow> (buffer \<times> file_manager) res" where
  "GetBufferFormFile FileManager index pos sizeget =
     (case map_of FileManager index of
        None \<Rightarrow> Inl NullPointer
      | Some None \<Rightarrow> Inl NullPointer
      | Some (Some tmp) \<Rightarrow>
          let cur = node_curpos tmp;
              diff = (int cur - int pos) mod 2 ^ 64;
              fd = node_filefd tmp;
              fd = (if (pos < cur \<and> diff < int pos) \<or> cur < pos
                    then fseek fd (s32 diff) (file_pos fd)
                    else fseek fd (s32 (int pos)) 0);
              (readvalue, fd) = fread fd 10240;
              FileManager = update_node index (tmp\<lparr>node_filefd := fd\<rparr>) FileManager
          in if \<not> file_eof fd \<and> length readvalue \<noteq> 0 then
               andThen (FullBuffer_ptr (Buffer (length readvalue)) readvalue (length readvalue)) (\<lambda>(ok, buf).
               Inr (buf, FileManager))
             else Inr (Buffer 0, FileManager))"

section \<open>Finding and opening\<close>

lemma find_file_simps [simp]:
  "find_file [] filename = Some (Inr None)"
  "find_file ((k, None) # rest) filename = Some (Inl NullPointer)"
  "node_filename node = filename \<Longrightarrow> find_file ((k, Some node) # rest) filename = Some (Inr (Some k))"
  by (subst find_file.simps, simp)+

lemma returned_simps [simp]: "returned None = Inl NoReturn" "returned (Some r) = r"
  by (simp_all add: returned_def)

lemma find_file_diverges:
  assumes "node_filename node \<noteq> filename"
  shows "find_file ((k, Some node) # rest) filename = None"
proof -
  let ?stuck = "\<lambda>it filename. case it of (k, Some node) # rest \<Rightarrow> node_filename node \<noteq> filename | _ \<Rightarrow> False"
  have "\<not> ?stuck it filename" if ret: "find_file it filename = Some r" for it filename r
  proof (rule find_file.raw_induct [where P = "\<lambda>it filename r. \<not> ?stuck it filename", OF _ ret])
    fix f it filename r
    assume IH: "\<And>it filename r. f it filename = Some r \<Longrightarrow> \<not> ?stuck it filename"
      and eq: "(case it of [] \<Rightarrow> Some (Inr None) | kn # rest \<Rightarrow> (case snd kn of None \<Rightarrow> Some (Inl NullPointer)
        | Some node \<Rightarrow> if node_filename node = filename then Some (Inr (Some (fst kn))) else f it filename)) = Some r"
    show "\<not> ?stuck it filename"
      using eq IH [of it filename] by (auto split: list.splits option.splits if_splits)
  qed
  from this [of "(k, Some node) # rest" filename] show ?thesis
    using assms by (cases "find_file ((k, Some node) # rest) filename") auto
qed

lemma map_insert_fresh: "k \<notin> set (map fst m) \<Longrightarrow> map_insert k v m = (insort_key fst (k, v) m, True)"
  by (simp add: map_insert_def)

section \<open>Reading a file from its beginning to its end\<close>

text \<open>The node of a file just opened, at a position of the stream and with its end-of-file indicator.\<close>

definition node_at :: "string \<Rightarrow> byte list \<Rightarrow> nat \<Rightarrow> bool \<Rightarrow> FileNode option" where
  "node_at name dat p e = Some \<lparr>node_filename = name,
     node_filefd = \<lparr>file_data = dat, file_pos = p, file_eof = e\<rparr>, node_curpos = 0\<rparr>"

definition block :: "byte list \<Rightarrow> nat \<Rightarrow> byte list" where
  "block dat k = segment (10240 * k) 10240 dat"

lemma FullBuffer_ptr_fresh:
  assumes "xs \<noteq> []" and "length xs < 2 ^ 16"
  shows "FullBuffer_ptr (Buffer (length xs)) xs (length xs) = Inr (True, buffer_of xs)"
  using assms FullBuffer_ptr_append [OF buf_wf_Buffer [OF assms(2)], of "length xs" xs]
  by (simp add: appended_def buffer_of_def blit_def Buffer_def)

lemma fread_inside:
  assumes "p + n \<le> length dat"
  shows "fread \<lparr>file_data = dat, file_pos = p, file_eof = False\<rparr> n =
    (segment p n dat, \<lparr>file_data = dat, file_pos = p + n, file_eof = False\<rparr>)"
  using assms by (simp add: fread_def)

lemma fread_short:
  assumes "length dat < p + n" and "0 < n"
  shows "file_eof (snd (fread \<lparr>file_data = dat, file_pos = p, file_eof = e\<rparr> n))"
    and "\<exists>q. q \<le> max p (length dat) \<and> p \<le> q \<and>
      snd (fread \<lparr>file_data = dat, file_pos = p, file_eof = e\<rparr> n) = \<lparr>file_data = dat, file_pos = q, file_eof = True\<rparr>"
  using assms by (auto simp: fread_def segment_def Let_def min_def)

lemma s32_negative: "0 < p \<Longrightarrow> p \<le> 2 ^ 31 \<Longrightarrow> s32 ((- int p) mod 2 ^ 64) = - int p"
proof -
  assume p: "0 < p" "p \<le> 2 ^ 31"
  have "(- int p) mod 2 ^ 64 = (- int p + 2 ^ 64) mod 2 ^ 64" by simp
  also have "\<dots> = - int p + 2 ^ 64" using p by (intro mod_pos_pos_trivial) auto
  finally have m: "(- int p) mod 2 ^ 64 = 2 ^ 64 - int p" by simp
  have "(2 ^ 64 - int p + 2 ^ 31) mod 2 ^ 32 = (2 ^ 31 - int p + 2 ^ 32 * 2 ^ 32) mod 2 ^ 32"
    by (simp add: algebra_simps)
  also have "\<dots> = (2 ^ 31 - int p) mod 2 ^ 32" by (rule mod_mult_self2)
  also have "\<dots> = 2 ^ 31 - int p" using p by (intro mod_pos_pos_trivial) auto
  finally show ?thesis by (simp only: m s32_def)
qed

lemma seek_first: "fseek f (s32 0) 0 = f\<lparr>file_pos := 0, file_eof := False\<rparr>"
  by (simp add: fseek_def s32_def)

text \<open>One read, by where the stream stands once the seek is done.\<close>

definition seek_to :: "byte list \<Rightarrow> nat \<Rightarrow> nat \<Rightarrow> bool \<Rightarrow> stream_FILE" where
  "seek_to dat pos p e =
     (if pos = 0 then \<lparr>file_data = dat, file_pos = 0, file_eof = False\<rparr>
      else if pos \<le> p then \<lparr>file_data = dat, file_pos = p - pos, file_eof = False\<rparr>
      else \<lparr>file_data = dat, file_pos = p, file_eof = e\<rparr>)"

lemma GetBufferFormFile_step:
  assumes "pos \<le> 2 ^ 31"
  shows "GetBufferFormFile [(0, node_at name dat p e)] 0 pos sizeget =
    (let (dat', fd) = fread (seek_to dat pos p e) 10240 in
     if \<not> file_eof fd \<and> dat' \<noteq> [] then
       Inr (buffer_of dat', [(0, Some \<lparr>node_filename = name, node_filefd = fd, node_curpos = 0\<rparr>)])
     else Inr (Buffer 0, [(0, Some \<lparr>node_filename = name, node_filefd = fd, node_curpos = 0\<rparr>)]))"
proof -
  let ?f = "\<lparr>file_data = dat, file_pos = p, file_eof = e\<rparr>"
  have seek: "(if 0 < pos then fseek ?f (s32 ((- int pos) mod 2 ^ 64)) p else fseek ?f (s32 (int pos)) 0) =
      seek_to dat pos p e"
  proof (cases "pos = 0")
    case False
    then show ?thesis using s32_negative [of pos] assms
      by (auto simp: fseek_def seek_to_def nat_diff_distrib simp del: power_numeral)
  qed (simp add: seek_first seek_to_def)
  have len: "length (fst (fread f 10240)) < 2 ^ 16" for f
    by (auto simp: fread_def segment_def Let_def min_def)
  obtain dat' fd where r: "fread (seek_to dat pos p e) 10240 = (dat', fd)" by fastforce
  have "dat' \<noteq> [] \<Longrightarrow> FullBuffer_ptr (Buffer (length dat')) dat' (length dat') = Inr (True, buffer_of dat')"
    using FullBuffer_ptr_fresh [of dat'] len [of "seek_to dat pos p e"] by (simp add: r)
  with r seek show ?thesis
    by (cases "pos = 0") (simp_all add: GetBufferFormFile_def node_at_def Let_def update_node_def del: power_numeral)
qed

lemma GetBufferFormFile_block:
  assumes "pos \<le> 2 ^ 31" and "seek_to dat pos p e = \<lparr>file_data = dat, file_pos = q, file_eof = False\<rparr>"
    and "q + 10240 \<le> length dat"
  shows "GetBufferFormFile [(0, node_at name dat p e)] 0 pos sizeget =
    Inr (buffer_of (segment q 10240 dat), [(0, node_at name dat (q + 10240) False)])"
proof -
  have "length (segment q 10240 dat) = 10240" using assms(3) by (rule length_segment)
  then have "segment q 10240 dat \<noteq> []" by auto
  then show ?thesis
    unfolding GetBufferFormFile_step [OF assms(1)] assms(2) fread_inside [OF assms(3)]
    by (simp add: node_at_def)
qed

lemma GetBufferFormFile_end:
  assumes "pos \<le> 2 ^ 31" and "seek_to dat pos p e = \<lparr>file_data = dat, file_pos = q, file_eof = e'\<rparr>"
    and "length dat < q + 10240"
  shows "\<exists>r. q \<le> r \<and> r \<le> max q (length dat) \<and>
    GetBufferFormFile [(0, node_at name dat p e)] 0 pos sizeget = Inr (Buffer 0, [(0, node_at name dat r True)])"
proof -
  obtain r where r: "r \<le> max q (length dat)" "q \<le> r"
      "snd (fread \<lparr>file_data = dat, file_pos = q, file_eof = e'\<rparr> 10240) =
        \<lparr>file_data = dat, file_pos = r, file_eof = True\<rparr>"
    using fread_short(2) [OF assms(3), of e'] by auto
  then show ?thesis
    unfolding GetBufferFormFile_step [OF assms(1)] assms(2)
    by (auto simp: case_prod_beta node_at_def)
qed

text \<open>The calls a stream makes: one block after the other, at positions 10240 apart.\<close>

fun reads :: "nat \<Rightarrow> nat \<Rightarrow> file_manager \<Rightarrow> (buffer list \<times> file_manager) res" where
  "reads 0 pos fm = Inr ([], fm)"
| "reads (Suc n) pos fm =
     andThen (GetBufferFormFile fm 0 pos 10240) (\<lambda>(b, fm).
     andThen (reads n (pos + 10240) fm) (\<lambda>(bs, fm). Inr (b # bs, fm)))"

text \<open>The answers to \<open>k\<close> calls when the buffers \<open>bs\<close> are followed by empty ones.\<close>

definition padded :: "nat \<Rightarrow> buffer list \<Rightarrow> buffer list" where
  "padded k bs = take k (bs @ replicate k (Buffer 0))"

lemma padded_simps [simp]:
  "padded 0 bs = []" "padded k [] = replicate k (Buffer 0)" "padded (Suc k) (b # bs) = b # padded k bs"
proof -
  have "take k (bs @ replicate (Suc k) (Buffer 0)) = take k (bs @ replicate k (Buffer 0))"
    by (simp del: replicate_Suc add: take_replicate)
  then show "padded (Suc k) (b # bs) = b # padded k bs" by (simp add: padded_def del: take_append)
qed (simp_all add: padded_def)

lemma reads_step:
  assumes "GetBufferFormFile fm 0 pos 10240 = Inr (b, fm1)"
    and "\<exists>fm'. reads k (pos + 10240) fm1 = Inr (bs, fm')"
  shows "\<exists>fm'. reads (Suc k) pos fm = Inr (b # bs, fm')"
  using assms by auto

lemma reads_end:
  assumes "pos + 10240 * k \<le> 2 ^ 31" and "length dat < p + 10240" and "p < pos"
    and "length dat < pos"
  shows "\<exists>fm. reads k pos [(0, node_at name dat p e)] = Inr (replicate k (Buffer 0), fm)"
  using assms
proof (induction k arbitrary: pos p e)
  case (Suc k)
  have seek: "seek_to dat pos p e = \<lparr>file_data = dat, file_pos = p, file_eof = e\<rparr>"
    using Suc.prems by (simp add: seek_to_def)
  have bound: "pos \<le> 2 ^ 31" using Suc.prems(1) by linarith
  obtain r where r: "p \<le> r" "r \<le> max p (length dat)"
      "GetBufferFormFile [(0, node_at name dat p e)] 0 pos 10240 = Inr (Buffer 0, [(0, node_at name dat r True)])"
    using GetBufferFormFile_end [OF bound seek Suc.prems(2)] by auto
  have "\<exists>fm. reads k (pos + 10240) [(0, node_at name dat r True)] = Inr (replicate k (Buffer 0), fm)"
    using Suc.prems r by (intro Suc.IH) auto
  with r show ?case by auto
qed simp

lemma reads_blocks:
  assumes "10240 * (i + 1 + k) \<le> 2 ^ 31" and "10240 * i \<le> length dat" and "0 < i"
  shows "\<exists>fm. reads k (10240 * (i + 1)) [(0, node_at name dat (10240 * i) False)] =
    Inr (padded k (map (buffer_of \<circ> block dat) [i..<length dat div 10240]), fm)"
  using assms
proof (induction k arbitrary: i)
  case (Suc k)
  have bound: "10240 * (i + 1) \<le> (2 ^ 31 :: nat)"
    using Suc.prems(1) by (simp add: distrib_left)
  have seek: "seek_to dat (10240 * (i + 1)) (10240 * i) False =
      \<lparr>file_data = dat, file_pos = 10240 * i, file_eof = False\<rparr>"
    by (simp add: seek_to_def)
  show ?case
  proof (cases "10240 * i + 10240 \<le> length dat")
    case True
    then have "i < length dat div 10240" by (simp add: less_eq_div_iff_mult_less_eq Suc_le_eq [symmetric])
    then have "[i..<length dat div 10240] = i # [Suc i..<length dat div 10240]" by (rule upt_conv_Cons)
    then have list: "padded (Suc k) (map (buffer_of \<circ> block dat) [i..<length dat div 10240]) =
        buffer_of (block dat i) # padded k (map (buffer_of \<circ> block dat) [Suc i..<length dat div 10240])"
      by simp
    have next_pos: "10240 * (i + 1) + 10240 = 10240 * (Suc i + 1)" "10240 * i + 10240 = 10240 * Suc i" by simp_all
    have "\<exists>fm. reads k (10240 * (Suc i + 1)) [(0, node_at name dat (10240 * Suc i) False)] =
        Inr (padded k (map (buffer_of \<circ> block dat) [Suc i..<length dat div 10240]), fm)"
      using Suc.prems True by (intro Suc.IH) (simp_all add: distrib_left)
    then show ?thesis
      unfolding list
      by (intro reads_step [OF GetBufferFormFile_block [OF bound seek True, folded block_def]])
        (simp only: next_pos)
  next
    case False
    then have "length dat div 10240 \<le> i" by (simp add: less_Suc_eq_le [symmetric] div_less_iff_less_mult)
    moreover have "\<exists>fm. reads (Suc k) (10240 * (i + 1)) [(0, node_at name dat (10240 * i) False)] =
        Inr (replicate (Suc k) (Buffer 0), fm)"
      using False Suc.prems by (intro reads_end) auto
    ultimately show ?thesis by simp
  qed
qed simp

lemma node_opened: "d name = Some dat \<Longrightarrow> MakeFileNode d [] name = Inr (0, [(0, node_at name dat 0 False)])"
  by (simp add: MakeFileNode_def fopen_def map_insert_def node_at_def)

section \<open>Properties\<close>

text \<open>C31. \<open>MakeFileNode\<close> on every state of the manager: an empty one opens the file under index 0 or answers
  \<open>0xffff\<close> for a name that cannot be opened, a request for the first file is answered with its index, and a
  request for any other file never returns, since the search does not advance. So a process serves one file.\<close>

theorem MakeFileNode_result:
  "MakeFileNode d fm name =
    (case fm of
       [] \<Rightarrow> Inr (case d name of None \<Rightarrow> (0xffff, []) | Some dat \<Rightarrow> (0, [(0, node_at name dat 0 False)]))
     | (k, None) # _ \<Rightarrow> Inl NullPointer
     | (k, Some node) # _ \<Rightarrow> if node_filename node = name then Inr (k, fm) else Inl NoReturn)"
proof (cases fm)
  case Nil
  then show ?thesis by (auto simp: MakeFileNode_def fopen_def map_insert_def node_at_def split: option.splits)
next
  case (Cons kn rest)
  then show ?thesis
    by (cases kn; cases "snd kn") (auto simp: MakeFileNode_def find_file_diverges)
qed

text \<open>C30. The calls a stream makes on a freshly opened file, at positions 0, 10240, 20480 and so on, return its
  10240-byte blocks in order with the first one delivered twice, as the seek goes backwards from the current
  position; from then on, and for the remainder that does not fill a block, they return empty buffers.\<close>

theorem reads_file:
  assumes "d name = Some dat" and "10240 * k \<le> 2 ^ 31"
  shows "\<exists>fm fm'. MakeFileNode d [] name = Inr (0, fm) \<and>
    reads k 0 fm = Inr (padded k (if length dat < 10240 then []
      else map (buffer_of \<circ> block dat) (0 # [0..<length dat div 10240])), fm')"
proof -
  let ?fm = "\<lambda>p e. [(0, node_at name dat p e)]" and ?n = "length dat div 10240"
  have seek: "seek_to dat 0 0 False = \<lparr>file_data = dat, file_pos = 0, file_eof = False\<rparr>"
      "seek_to dat 10240 10240 False = \<lparr>file_data = dat, file_pos = 0, file_eof = False\<rparr>"
    by (simp_all add: seek_to_def)
  have "\<exists>fm'. reads k 0 (?fm 0 False) = Inr (padded k (if length dat < 10240 then []
      else map (buffer_of \<circ> block dat) (0 # [0..<?n])), fm')"
  proof (cases k)
    case k: (Suc j)
    show ?thesis
    proof (cases "length dat < 10240")
      case True
      then obtain r where r: "r \<le> length dat" "GetBufferFormFile (?fm 0 False) 0 0 10240 = Inr (Buffer 0, ?fm r True)"
        using GetBufferFormFile_end [OF _ seek(1)] by auto
      have "\<exists>fm. reads j (0 + 10240) (?fm r True) = Inr (replicate j (Buffer 0), fm)"
        using True r k assms(2) by (intro reads_end) auto
      with True show ?thesis unfolding k using reads_step [OF r(2)] by simp
    next
      case False
      then have len: "0 + 10240 \<le> length dat" by simp
      have b: "block dat 0 = segment 0 10240 dat" by (simp add: block_def)
      have first: "GetBufferFormFile (?fm 0 False) 0 0 10240 = Inr (buffer_of (block dat 0), ?fm 10240 False)"
        using GetBufferFormFile_block [OF _ seek(1) len] by (simp add: b)
      have second: "GetBufferFormFile (?fm 10240 False) 0 10240 10240 = Inr (buffer_of (block dat 0), ?fm 10240 False)"
        using GetBufferFormFile_block [OF _ seek(2) len] by (simp add: b)
      have "\<exists>fm. reads j (0 + 10240) (?fm 10240 False) = Inr (padded j (map (buffer_of \<circ> block dat) [0..<?n]), fm)"
      proof (cases j)
        case j: (Suc i)
        have "[0..<?n] = 0 # [1..<?n]" using False by (simp add: upt_conv_Cons div_greater_zero_iff)
        then have list: "padded (Suc i) (map (buffer_of \<circ> block dat) [0..<?n]) =
            buffer_of (block dat 0) # padded i (map (buffer_of \<circ> block dat) [1..<?n])" by simp
        have "\<exists>fm. reads i (10240 + 10240) (?fm 10240 False) =
            Inr (padded i (map (buffer_of \<circ> block dat) [1..<?n]), fm)"
          using reads_blocks [of 1 i dat name] assms(2) False k j by (simp add: distrib_left)
        then show ?thesis unfolding j list add_0 by (rule reads_step [OF second])
      qed simp
      then show ?thesis unfolding k using False reads_step [OF first] by simp
    qed
  qed simp
  then show ?thesis using node_opened [of d name dat] assms(1) by blast
qed

theorem reads_file_witness:
  "\<exists>fm fm'. MakeFileNode [''a.h264'' \<mapsto> replicate 100 7] [] ''a.h264'' = Inr (0, fm) \<and>
    reads 2 0 fm = Inr (replicate 2 (Buffer 0), fm')"
  using reads_file [of "[''a.h264'' \<mapsto> replicate 100 7]" "''a.h264''" "replicate 100 7" 2] by simp

text \<open>Reading under an index that \<open>MakeFileNode\<close> did not give, such as its error answer \<open>0xffff\<close>,
  dereferences a null pointer.\<close>

theorem GetBufferFormFile_bad_index:
  assumes "MakeFileNode d fm name = Inr (0xffff, fm')" and "\<forall>(k, node) \<in> set fm. 0 \<le> k \<and> k < 0xffff"
  shows "GetBufferFormFile fm' 0xffff pos sizeget = Inl NullPointer"
proof (cases fm)
  case Nil
  then have "fm' = []" using assms(1)
    by (auto simp: MakeFileNode_def map_insert_def split: option.splits)
  then show ?thesis by (simp add: GetBufferFormFile_def)
next
  case (Cons kn rest)
  then obtain k node where kn: "kn = (k, Some node)" "node_filename node = name"
    using assms(1) find_file_diverges [of _ name] by (cases kn; cases "snd kn") (force simp: MakeFileNode_def)+
  then have "k = 0xffff" using assms(1) Cons by (simp add: MakeFileNode_def)
  with kn assms(2) Cons show ?thesis by auto
qed

theorem GetBufferFormFile_bad_index_witness:
  "GetBufferFormFile [] 0xffff 0 10240 = Inl NullPointer"
  by (rule GetBufferFormFile_bad_index [of "\<lambda>_. None" "[]" "''x''"]) (simp_all add: MakeFileNode_def fopen_def)

end
