(* ===== verification/BitStrings.thy ===== *)
theory BitStrings
  imports Prelude
begin

text \<open>
  The specification side of the bit reader: bit strings (most significant bit first), their value,
  the bits of a byte and of a byte array, and the Exp-Golomb codes of the H.264 standard. Nothing here
  is code of the repository; \<open>VlcBits\<close> shows that the reader implements it.
\<close>

section \<open>Value of a bit string\<close>

definition bits_val :: "bool list \<Rightarrow> nat" where
  "bits_val bs = foldl (\<lambda>n b. 2 * n + (if b then 1 else 0)) 0 bs"

lemma bits_val_foldl:
  "foldl (\<lambda>n b. 2 * n + (if b then 1 else 0)) a bs = a * 2 ^ length bs + bits_val bs"
proof (induction bs arbitrary: a)
  case Nil
  then show ?case by (simp add: bits_val_def)
next
  case (Cons b bs)
  have "bits_val (b # bs) = (if b then 1 else 0) * 2 ^ length bs + bits_val bs"
    using Cons.IH [of "if b then 1 else 0"] by (simp add: bits_val_def)
  then show ?case using Cons.IH [of "2 * a + (if b then 1 else 0)"]
    by (simp add: algebra_simps)
qed

lemma bits_val_Nil [simp]: "bits_val [] = 0"
  by (simp add: bits_val_def)

lemma bits_val_Cons: "bits_val (b # bs) = (if b then 1 else 0) * 2 ^ length bs + bits_val bs"
  using bits_val_foldl [of "if b then 1 else 0" bs] by (simp add: bits_val_def)

lemma bits_val_append: "bits_val (xs @ ys) = bits_val xs * 2 ^ length ys + bits_val ys"
proof -
  have "bits_val (xs @ ys) = foldl (\<lambda>n b. 2 * n + (if b then 1 else 0)) (bits_val xs) ys"
    by (simp only: bits_val_def foldl_append)
  then show ?thesis by (simp only: bits_val_foldl)
qed

lemma bits_val_less: "bits_val bs < 2 ^ length bs"
  by (induction bs) (auto simp: bits_val_Cons)

lemma bits_val_replicate_False [simp]: "bits_val (replicate n False) = 0"
  by (induction n) (auto simp: bits_val_Cons)

lemma bits_val_take: "n \<le> length bs \<Longrightarrow> bits_val (take n bs) = bits_val bs div 2 ^ (length bs - n)"
proof -
  assume n: "n \<le> length bs"
  have "bits_val bs = bits_val (take n bs) * 2 ^ (length bs - n) + bits_val (drop n bs)"
    using bits_val_append [of "take n bs" "drop n bs"] by simp
  moreover have "bits_val (drop n bs) < 2 ^ (length bs - n)"
    using bits_val_less [of "drop n bs"] by simp
  ultimately show ?thesis by simp
qed

lemma bits_val_drop: "bits_val (drop n bs) = bits_val bs mod 2 ^ (length bs - n)"
proof (cases "n \<le> length bs")
  case True
  have "bits_val bs = bits_val (take n bs) * 2 ^ (length bs - n) + bits_val (drop n bs)"
    using bits_val_append [of "take n bs" "drop n bs"] by simp
  moreover have "bits_val (drop n bs) < 2 ^ (length bs - n)"
    using bits_val_less [of "drop n bs"] by simp
  ultimately show ?thesis by simp
qed simp

text \<open>The \<open>n\<close>-bit representation of a number, the inverse of \<open>bits_val\<close>.\<close>

fun to_bits :: "nat \<Rightarrow> nat \<Rightarrow> bool list" where
  "to_bits 0 v = []"
| "to_bits (Suc n) v = to_bits n (v div 2) @ [odd v]"

lemma length_to_bits [simp]: "length (to_bits n v) = n"
  by (induction n arbitrary: v) auto

lemma bits_val_to_bits: "bits_val (to_bits n v) = v mod 2 ^ n"
proof (induction n arbitrary: v)
  case (Suc n)
  have "v mod 2 ^ Suc n = 2 * (v div 2 mod 2 ^ n) + v mod 2"
    by (simp add: mod_mult2_eq)
  then show ?case
    by (auto simp: bits_val_append bits_val_Cons Suc.IH mod_2_eq_odd)
qed simp

lemma to_bits_bits_val: "to_bits (length bs) (bits_val bs) = bs"
proof (induction bs rule: rev_induct)
  case (snoc b bs)
  then show ?case by (simp add: bits_val_append bits_val_Cons)
qed simp

lemma bit_bits_val: "bit (bits_val bs) i \<longleftrightarrow> i < length bs \<and> bs ! (length bs - Suc i)"
proof (induction bs arbitrary: i rule: rev_induct)
  case (snoc b bs)
  have val: "bits_val (bs @ [b]) = of_bool b + 2 * bits_val bs"
    by (simp add: bits_val_append bits_val_Cons)
  show ?case
  proof (cases i)
    case 0
    then show ?thesis by (simp add: val bit_0 nth_append)
  next
    case (Suc j)
    then show ?thesis by (auto simp: val bit_Suc snoc.IH nth_append)
  qed
qed simp

section \<open>Bits of bytes\<close>

definition byte_bits :: "byte \<Rightarrow> bool list" where
  "byte_bits w = map (\<lambda>i. bit w (7 - i)) [0..<8]"

lemma length_byte_bits [simp]: "length (byte_bits w) = 8"
  by (simp add: byte_bits_def)

lemma byte_bits_nth: "i < 8 \<Longrightarrow> byte_bits w ! i = bit w (7 - i)"
  by (simp add: byte_bits_def)

lemma byte_bits_eq:
  "byte_bits w = [bit w 7, bit w 6, bit w 5, bit w 4, bit w 3, bit w 2, bit w 1, bit w 0]"
  by (simp add: byte_bits_def upt_rec)

lemma unat_eq_sum_bits: "unat (w :: byte) = (\<Sum>i<8. of_bool (bit w i) * 2 ^ i)"
proof -
  have "take_bit 8 (unat w) = (\<Sum>i<8. of_bool (bit (unat w) i) * 2 ^ i)"
    by (simp add: take_bit_sum push_bit_eq_mult lessThan_atLeast0)
  moreover have "take_bit 8 (unat w) = unat w"
    using unsigned_less [of w, where ?'a = nat] by (simp add: take_bit_nat_eq_self)
  ultimately show ?thesis
    by (simp add: bit_unsigned_iff)
qed

lemma bits_val_byte_bits: "bits_val (byte_bits w) = unat w"
  by (simp add: unat_eq_sum_bits byte_bits_eq bits_val_Cons eval_nat_numeral)

definition bytes_bits :: "byte list \<Rightarrow> bool list" where
  "bytes_bits ws = concat (map byte_bits ws)"

lemma bytes_bits_simps [simp]:
  "bytes_bits [] = []"
  "bytes_bits (w # ws) = byte_bits w @ bytes_bits ws"
  "bytes_bits (us @ ws) = bytes_bits us @ bytes_bits ws"
  by (simp_all add: bytes_bits_def)

lemma length_bytes_bits [simp]: "length (bytes_bits ws) = 8 * length ws"
  by (induction ws) auto

lemma bytes_bits_nth:
  "i < 8 * length ws \<Longrightarrow> bytes_bits ws ! i = bit (ws ! (i div 8)) (7 - i mod 8)"
proof (induction ws arbitrary: i)
  case (Cons w ws)
  show ?case
  proof (cases "i < 8")
    case True
    then show ?thesis by (simp add: nth_append byte_bits_nth)
  next
    case False
    then obtain j where j: "i = j + 8" by (metis le_add_diff_inverse2 not_le)
    then have "i div 8 = Suc (j div 8)" "i mod 8 = j mod 8" by auto
    with Cons j show ?thesis by (simp add: nth_append)
  qed
qed simp

text \<open>Changing one bit of one byte changes that bit of the bit string and no other.\<close>

lemma bytes_bits_update:
  assumes p: "p < length ws" and k: "k < 8"
    and w: "\<And>j. j < 8 \<Longrightarrow> bit w j \<longleftrightarrow> (if j = 7 - k then b else bit (ws ! p) j)"
  shows "bytes_bits (ws[p := w]) = (bytes_bits ws)[8 * p + k := b]"
proof (rule nth_equalityI)
  fix i assume "i < length (bytes_bits (ws[p := w]))"
  then have i: "i < 8 * length ws" by simp
  show "bytes_bits (ws[p := w]) ! i = (bytes_bits ws)[8 * p + k := b] ! i"
  proof (cases "i div 8 = p")
    case True
    have "i = 8 * p + i mod 8" "i mod 8 < 8" using True div_mult_mod_eq [of i 8] by simp_all
    then have "(7 - i mod 8 = 7 - k) = (i = 8 * p + k)" using k by linarith
    then show ?thesis using True i k p w [of "7 - i mod 8"]
      by (auto simp: bytes_bits_nth nth_list_update)
  next
    case False
    then have "i \<noteq> 8 * p + k" using k by auto
    then show ?thesis using False i by (simp add: bytes_bits_nth)
  qed
qed simp

lemma to_bits_Suc: "to_bits (Suc n) v = bit v n # to_bits n v"
proof (induction n arbitrary: v)
  case (Suc n)
  have "to_bits (Suc (Suc n)) v = to_bits (Suc n) (v div 2) @ [odd v]" by simp
  also have "\<dots> = bit v (Suc n) # to_bits (Suc n) v"
    by (subst Suc.IH) (simp add: bit_Suc)
  finally show ?case .
qed (simp add: bit_0)

text \<open>The value a reader gets that pads a short bit string with zeros at its end.\<close>

definition take_pad :: "nat \<Rightarrow> bool list \<Rightarrow> bool list" where
  "take_pad n bs = take n (bs @ replicate n False)"

lemma length_take_pad [simp]: "length (take_pad n bs) = n"
  by (simp add: take_pad_def)

lemma take_pad_take: "n \<le> length bs \<Longrightarrow> take_pad n bs = take n bs"
  by (simp add: take_pad_def)

lemma take_pad_eq: "take_pad n bs = take n bs @ replicate (n - length bs) False"
  by (simp add: take_pad_def)

lemma take_pad_append_le: "n \<le> length bs \<Longrightarrow> take_pad n (bs @ cs) = take n bs"
  by (simp add: take_pad_def)

lemma take_pad_append_ge:
  "length bs \<le> n \<Longrightarrow> take_pad n (bs @ cs) = bs @ take_pad (n - length bs) cs"
  by (simp add: take_pad_eq)

lemma take_pad_Nil [simp]: "take_pad n [] = replicate n False"
  by (simp add: take_pad_def)

section \<open>Exp-Golomb codes\<close>

text \<open>
  H.264 section 9.1: the codeword of \<open>v\<close> is \<open>k\<close> zeros, a one and the low \<open>k\<close> bits of \<open>v + 1\<close>, where \<open>k\<close>
  is the greatest number with \<open>2 ^ k \<le> v + 1\<close>. Signed values take the unsigned codes in the order
  0, 1, -1, 2, -2, \<dots>.
\<close>

fun log2 :: "nat \<Rightarrow> nat" where
  "log2 n = (if n < 2 then 0 else Suc (log2 (n div 2)))"

declare log2.simps [simp del]

lemma log2_bounds: "0 < n \<Longrightarrow> 2 ^ log2 n \<le> n \<and> n < 2 ^ Suc (log2 n)"
proof (induction n rule: log2.induct)
  case (1 n)
  show ?case
  proof (cases "n < 2")
    case True
    with 1 show ?thesis by (simp add: log2.simps [of n])
  next
    case False
    with 1 have "2 ^ log2 (n div 2) \<le> n div 2 \<and> n div 2 < 2 ^ Suc (log2 (n div 2))" by simp
    moreover have "log2 n = Suc (log2 (n div 2))" using False by (simp add: log2.simps [of n])
    ultimately show ?thesis by auto
  qed
qed

definition ue_code :: "nat \<Rightarrow> bool list" where
  "ue_code v = (let k = log2 (v + 1) in replicate k False @ [True] @ to_bits k (v + 1 - 2 ^ k))"

definition se_code :: "int \<Rightarrow> bool list" where
  "se_code v = ue_code (if 0 < v then nat (2 * v - 1) else nat (- 2 * v))"

end
