(* ===== verification/Base64.thy ===== *)
theory Base64
  imports BitStrings
begin

text \<open>
  The Base64 encoder of \<open>BaseEncoder.h\<close>, which turns the parameter sets into the
  \<open>sprop-parameter-sets\<close> of the session description, and the private helper \<open>load_block\<close>. The
  specification side is RFC 4648: the bits of the data, cut into sextets, name the letters.
\<close>

section \<open>The encoder\<close>

definition base_64 :: string where
  "base_64 = ''ABCDEFGHIJKLMNOPQRSTUVWXYZabcdefghijklmnopqrstuvwxyz0123456789+/'' @ replicate 64 (CHR 0x00)"

text \<open>The letter \<open>base_64[w]\<close>; the table has 128 entries.\<close>

definition letter :: "byte \<Rightarrow> char res" where
  "letter w = at base_64 (unat w)"

text \<open>The next four bytes of \<open>out\<close>, at \<open>out[j]\<close> to \<open>out[j + 3]\<close>.\<close>

definition out4 :: "nat \<Rightarrow> string \<Rightarrow> char res \<Rightarrow> char res \<Rightarrow> char res \<Rightarrow> char res \<Rightarrow> string res" where
  "out4 outSize out a b c d =
     andThen a (\<lambda>a. andThen b (\<lambda>b. andThen c (\<lambda>c. andThen d (\<lambda>d.
       andThen (guard (length out + 4 \<le> outSize) OutOfBounds) (\<lambda>_. Inr (out @ [a, b, c, d]))))))"

text \<open>
  The main loop. \<open>dat\<close> is the buffer \<open>pData\<close> with its \<open>dataSize\<close> bytes; \<open>out\<close> is what has been
  written so far, so \<open>j\<close> is its length. The shifted and masked values fit a byte.
\<close>

function b64_loop :: "byte list \<Rightarrow> nat \<Rightarrow> nat \<Rightarrow> nat \<Rightarrow> string \<Rightarrow> string res" where
  "b64_loop dat dataSize outSize i out =
     (if i < dataSize then
        let padding = s32 (3 - int (u32 (int dataSize - int i))) in
        andThen
          (if padding = 2 then
             andThen (at dat i) (\<lambda>x.
             out4 outSize out (letter (drop_bit 2 x)) (letter (push_bit 4 (x AND 0x03)))
               (Inr CHR ''='') (Inr CHR ''=''))
           else if padding = 1 then
             andThen (at dat i) (\<lambda>x. andThen (at dat (i + 1)) (\<lambda>y.
             out4 outSize out (letter (drop_bit 2 x))
               (letter (push_bit 4 (x AND 0x03) OR drop_bit 4 (y AND 0xf0)))
               (letter (push_bit 2 (y AND 0x0f))) (Inr CHR ''='')))
           else
             andThen (at dat i) (\<lambda>x. andThen (at dat (i + 1)) (\<lambda>y. andThen (at dat (i + 2)) (\<lambda>z.
             out4 outSize out (letter (drop_bit 2 x))
               (letter (push_bit 4 (x AND 0x03) OR drop_bit 4 (y AND 0xf0)))
               (letter (push_bit 2 (y AND 0x0f) OR drop_bit 6 (z AND 0xc0)))
               (letter (z AND 0x3f))))))
          (b64_loop dat dataSize outSize (i + 3))
      else Inr out)"
  by pat_completeness auto
termination
  by (relation "measure (\<lambda>(dat, dataSize, outSize, i, out). dataSize - i)") auto

declare b64_loop.simps [simp del]

text \<open>
  \<open>((dataSize + 2) / 3) * 4\<close> is computed in 32 bits and then enlarged by a line break's worth of room
  for every 60 characters; \<open>outSize\<close> keeps the low 32 bits.
\<close>

definition b64_outSize :: "nat \<Rightarrow> nat" where
  "b64_outSize dataSize =
     (let iOut = u32 (int (u32 (int dataSize + 2) div 3 * 4)) in u32 (int (iOut + 2 * (iOut div 60 + 1))))"

text \<open>
  \<open>Base64Encode\<close> returns the size of the text and replaces the string \<open>base64\<close>, or returns 0 and leaves
  it alone. The terminator \<open>out[j] = 0\<close> has to fit too, and \<open>append((char *)out)\<close> stops at the first NUL.
\<close>

definition Base64Encode :: "byte list \<Rightarrow> nat \<Rightarrow> string \<Rightarrow> (nat \<times> string) res" where
  "Base64Encode pData dataSize base64 =
     (let outSize = b64_outSize dataSize in
      if outSize < u32 (int dataSize * 4) div 3 then Inr (0, base64)
      else andThen (b64_loop pData dataSize outSize 0 []) (\<lambda>out.
        andThen (guard (length out < outSize) OutOfBounds) (\<lambda>_.
        Inr (length out, takeWhile (\<lambda>c. c \<noteq> CHR 0x00) out))))"

section \<open>The block loader\<close>

definition b64_char :: "byte \<Rightarrow> bool" where
  "b64_char c \<longleftrightarrow> (0x41 \<le> c \<and> c \<le> 0x5a) \<or> (0x61 \<le> c \<and> c \<le> 0x7a) \<or> (0x30 \<le> c \<and> c \<le> 0x39) \<or>
     c = 0x3d \<or> c = 0x2b \<or> c = 0x2f"

function load_block_loop :: "byte list \<Rightarrow> nat \<Rightarrow> nat \<Rightarrow> nat \<Rightarrow> byte list \<Rightarrow> (nat \<times> byte list) res" where
  "load_block_loop inp siz pos i out =
     (if length out < 4 \<and> pos + i < siz then
        andThen (at inp (pos + i)) (\<lambda>c.
        load_block_loop inp siz pos (i + 1) (if b64_char c then out @ [c] else out))
      else Inr (pos + i, out @ replicate (4 - length out) 0xff))"
  by pat_completeness auto
termination
  by (relation "measure (\<lambda>(inp, siz, pos, i, out). siz - (pos + i))") auto

declare load_block_loop.simps [simp del]

definition load_block :: "byte list \<Rightarrow> nat \<Rightarrow> nat \<Rightarrow> (nat \<times> byte list) res" where
  "load_block inp siz pos = load_block_loop inp siz pos 0 []"

section \<open>The specification: RFC 4648\<close>

definition b64_alphabet :: string where
  "b64_alphabet = ''ABCDEFGHIJKLMNOPQRSTUVWXYZabcdefghijklmnopqrstuvwxyz0123456789+/''"

fun sextets :: "bool list \<Rightarrow> nat list" where
  "sextets bs = (if bs = [] then [] else bits_val (take_pad 6 bs) # sextets (drop 6 bs))"

declare sextets.simps [simp del]

definition b64_spec :: "byte list \<Rightarrow> string" where
  "b64_spec ws = map (\<lambda>v. b64_alphabet ! v) (sextets (bytes_bits ws)) @
     replicate ((3 - length ws mod 3) mod 3) CHR ''=''"

text \<open>A decoder, to state that nothing is lost: letters back to bits, cut into bytes.\<close>

fun b64_index :: "string \<Rightarrow> char \<Rightarrow> nat" where
  "b64_index [] c = 0"
| "b64_index (x # xs) c = (if x = c then 0 else Suc (b64_index xs c))"

fun bits_bytes :: "bool list \<Rightarrow> byte list" where
  "bits_bytes bs = (if length bs < 8 then [] else word_of_nat (bits_val (take 8 bs)) # bits_bytes (drop 8 bs))"

declare bits_bytes.simps [simp del]

definition b64_decode :: "string \<Rightarrow> byte list" where
  "b64_decode cs = bits_bytes (concat (map (\<lambda>c. to_bits 6 (b64_index b64_alphabet c))
     (takeWhile (\<lambda>c. c \<noteq> CHR ''='') cs)))"

section \<open>The code computes the specification\<close>

lemma length_b64_alphabet [simp]: "length b64_alphabet = 64"
  by (simp add: b64_alphabet_def)

lemma letter_eq: "unat w < 64 \<Longrightarrow> letter w = Inr (b64_alphabet ! unat w)"
  by (simp add: letter_def base_64_def at_def b64_alphabet_def [symmetric] nth_append)

lemma bits_val_sextet_less: "length bs = 6 \<Longrightarrow> bits_val bs < 64"
  using bits_val_less [of bs] by simp

text \<open>A byte whose low six bits are \<open>bs\<close> and whose other bits are clear names the sextet \<open>bs\<close>.\<close>

lemma letter_sextet:
  assumes "\<not> bit (w :: byte) 7" and "\<not> bit w 6" and "bit w 5 = a" and "bit w 4 = b" and "bit w 3 = c"
    and "bit w 2 = d" and "bit w 1 = e" and "bit w 0 = f"
  shows "letter w = Inr (b64_alphabet ! bits_val [a, b, c, d, e, f])"
proof -
  have "unat w = bits_val [a, b, c, d, e, f]"
    using assms bits_val_byte_bits [of w] by (simp add: byte_bits_eq bits_val_Cons)
  with letter_eq [of w] bits_val_sextet_less [of "[a, b, c, d, e, f]"] show ?thesis by simp
qed

lemma bit_byte_out: "8 \<le> n \<Longrightarrow> \<not> bit (w :: byte) n"
  by (auto dest: bit_imp_le_length)

lemma letter_1: "letter (drop_bit 2 x) = Inr (b64_alphabet ! bits_val [bit x 7, bit x 6, bit x 5, bit x 4, bit x 3, bit x 2])"
  by (rule letter_sextet) (simp_all add: bit_simps bit_byte_out)

lemma letter_2: "letter (push_bit 4 (x AND 0x03) OR drop_bit 4 (y AND 0xf0)) =
  Inr (b64_alphabet ! bits_val [bit x 1, bit x 0, bit y 7, bit y 6, bit y 5, bit y 4])"
  by (rule letter_sextet) (simp_all add: bit_simps bit_byte_out)

lemma letter_2_end: "letter (push_bit 4 (x AND 0x03)) =
  Inr (b64_alphabet ! bits_val [bit x 1, bit x 0, False, False, False, False])"
  by (rule letter_sextet) (simp_all add: bit_simps bit_byte_out)

lemma letter_3: "letter (push_bit 2 (y AND 0x0f) OR drop_bit 6 (z AND 0xc0)) =
  Inr (b64_alphabet ! bits_val [bit y 3, bit y 2, bit y 1, bit y 0, bit z 7, bit z 6])"
  by (rule letter_sextet) (simp_all add: bit_simps bit_byte_out)

lemma letter_3_end: "letter (push_bit 2 (y AND 0x0f)) =
  Inr (b64_alphabet ! bits_val [bit y 3, bit y 2, bit y 1, bit y 0, False, False])"
  by (rule letter_sextet) (simp_all add: bit_simps bit_byte_out)

lemma letter_4: "letter (z AND 0x3f) =
  Inr (b64_alphabet ! bits_val [bit z 5, bit z 4, bit z 3, bit z 2, bit z 1, bit z 0])"
  by (rule letter_sextet) (simp_all add: bit_simps bit_byte_out)

lemmas letters = letter_1 letter_2 letter_2_end letter_3 letter_3_end letter_4
  letter_2 [simplified] letter_2_end [simplified] letter_3 [simplified] letter_3_end [simplified]

lemma sextets_Nil [simp]: "sextets [] = []"
  by (simp add: sextets.simps)

lemma sextets_6: "sextets (a # b # c # d # e # f # bs) = bits_val [a, b, c, d, e, f] # sextets bs"
  by (subst sextets.simps) (simp add: take_pad_def)

lemma sextets_2: "sextets [a, b] = [bits_val [a, b, False, False, False, False]]"
  by (subst sextets.simps) (simp add: take_pad_eq numeral_eq_Suc)

lemma sextets_4: "sextets [a, b, c, d] = [bits_val [a, b, c, d, False, False]]"
  by (subst sextets.simps) (simp add: take_pad_eq numeral_eq_Suc)

text \<open>The specification, three bytes at a time.\<close>

lemma b64_spec_Nil [simp]: "b64_spec [] = []"
  by (simp add: b64_spec_def)

lemma b64_spec_1: "b64_spec [x] =
    [b64_alphabet ! bits_val [bit x 7, bit x 6, bit x 5, bit x 4, bit x 3, bit x 2],
     b64_alphabet ! bits_val [bit x 1, bit x 0, False, False, False, False], CHR ''='', CHR ''='']"
  by (simp add: b64_spec_def byte_bits_eq sextets_6 sextets_2 numeral_2_eq_2)

lemma b64_spec_2: "b64_spec [x, y] =
    [b64_alphabet ! bits_val [bit x 7, bit x 6, bit x 5, bit x 4, bit x 3, bit x 2],
     b64_alphabet ! bits_val [bit x 1, bit x 0, bit y 7, bit y 6, bit y 5, bit y 4],
     b64_alphabet ! bits_val [bit y 3, bit y 2, bit y 1, bit y 0, False, False], CHR ''='']"
  by (simp add: b64_spec_def byte_bits_eq sextets_6 sextets_4)

lemma b64_spec_3: "b64_spec (x # y # z # ws) =
    [b64_alphabet ! bits_val [bit x 7, bit x 6, bit x 5, bit x 4, bit x 3, bit x 2],
     b64_alphabet ! bits_val [bit x 1, bit x 0, bit y 7, bit y 6, bit y 5, bit y 4],
     b64_alphabet ! bits_val [bit y 3, bit y 2, bit y 1, bit y 0, bit z 7, bit z 6],
     b64_alphabet ! bits_val [bit z 5, bit z 4, bit z 3, bit z 2, bit z 1, bit z 0]] @ b64_spec ws"
proof -
  have "(3 - Suc (Suc (Suc (length ws))) mod 3) mod 3 = (3 - length ws mod 3) mod 3"
    by (simp add: mod_Suc)
  then show ?thesis by (simp add: b64_spec_def byte_bits_eq sextets_6)
qed

lemma triple_induct:
  assumes "P []" and "\<And>x. P [x]" and "\<And>x y. P [x, y]" and "\<And>x y z ws. P ws \<Longrightarrow> P (x # y # z # ws)"
  shows "P ws"
proof (induction ws rule: length_induct)
  case (1 ws)
  show ?case
  proof (cases ws rule: list.exhaust [case_names Nil Cons])
    case (Cons x vs)
    show ?thesis
    proof (cases vs rule: list.exhaust [case_names Nil Cons])
      case (Cons y us)
      with \<open>ws = x # vs\<close> 1 assms show ?thesis by (cases us) auto
    qed (simp add: Cons assms)
  qed (simp add: assms)
qed

lemma length_b64_spec: "length (b64_spec ws) = 4 * ((length ws + 2) div 3)"
proof (induction ws rule: triple_induct)
  case (4 x y z ws)
  have "(length ws + 2 + 3) div 3 = (length ws + 2) div 3 + 1" by (rule div_add_self2) simp
  with 4 show ?case by (simp add: b64_spec_3 add.commute)
qed (simp_all add: b64_spec_1 b64_spec_2)

lemma b64_loop_spec:
  assumes "length dat < 2 ^ 31" and "length out + length (b64_spec (drop i dat)) \<le> outSize"
  shows "b64_loop dat (length dat) outSize i out = Inr (out @ b64_spec (drop i dat))"
  using assms(2)
proof (induction "length dat - i" arbitrary: i out rule: less_induct)
  case less
  show ?case
  proof (cases "i < length dat")
    case False
    then show ?thesis by (subst b64_loop.simps) simp
  next
    case True
    then have d: "drop i dat = dat ! i # drop (i + 1) dat" by (simp add: Cons_nth_drop_Suc)
    have diff: "u32 (int (length dat) - int i) = length dat - i"
      using True assms(1) by (intro u32_diff) auto
    consider (one) "length dat = i + 1" | (two) "length dat = i + 2" | (three) "i + 3 \<le> length dat"
      using True by linarith
    then show ?thesis
    proof cases
      case one
      then have "drop i dat = [dat ! i]" using d by simp
      with one less.prems show ?thesis
        by (subst b64_loop.simps) (simp add: Let_def u32_def s32_id letters out4_def b64_spec_1 b64_loop.simps [of _ _ _ "i + 3"])
    next
      case two
      then have "drop i dat = [dat ! i, dat ! (i + 1)]"
        using d by (simp add: Cons_nth_drop_Suc [symmetric])
      with two less.prems show ?thesis
        by (subst b64_loop.simps) (simp add: Let_def u32_def s32_id letters out4_def b64_spec_2 b64_loop.simps [of _ _ _ "i + 3"])
    next
      case three
      then have d3: "drop i dat = dat ! i # dat ! (i + 1) # dat ! (i + 2) # drop (i + 3) dat"
        using d by (simp add: Cons_nth_drop_Suc [symmetric] numeral_3_eq_3)
      define qs where "qs = take 4 (b64_spec (drop i dat))"
      have qs: "b64_spec (drop i dat) = qs @ b64_spec (drop (i + 3) dat)" "length qs = 4"
        by (simp_all add: qs_def d3 b64_spec_3)
      have pad: "s32 (3 - int (length dat - i)) \<noteq> 2" "s32 (3 - int (length dat - i)) \<noteq> 1"
        using three assms(1) by (simp_all add: s32_id)
      have "b64_loop dat (length dat) outSize i out = b64_loop dat (length dat) outSize (i + 3) (out @ qs)"
        using three less.prems qs(2) pad
        by (subst b64_loop.simps) (simp add: diff letters out4_def qs_def d3 b64_spec_3)
      with less.hyps [of "i + 3" "out @ qs"] less.prems qs True show ?thesis by simp
    qed
  qed
qed

text \<open>No letter is the padding sign or the terminator, so the text reads back whole.\<close>

lemma set_b64_alphabet: "set b64_alphabet \<inter> {CHR ''='', CHR 0x00} = {}"
  by (simp add: b64_alphabet_def)

lemma sextets_less: "v \<in> set (sextets bs) \<Longrightarrow> v < 64"
proof (induction bs rule: sextets.induct)
  case (1 bs)
  then show ?case
    using bits_val_sextet_less [of "take_pad 6 bs"]
    by (auto simp: sextets.simps [of bs] split: if_splits)
qed

lemma b64_letters: "c \<in> set (map (\<lambda>v. b64_alphabet ! v) (sextets bs)) \<Longrightarrow> c \<in> set b64_alphabet"
  by (auto intro!: nth_mem dest: sextets_less)

lemma b64_spec_no_nul: "takeWhile (\<lambda>c. c \<noteq> CHR 0x00) (b64_spec ws) = b64_spec ws"
  using b64_letters [of _ "bytes_bits ws"] set_b64_alphabet
  by (intro takeWhile_eq_all_conv [THEN iffD2]) (auto simp: b64_spec_def)

lemma b64_index_nth: "distinct xs \<Longrightarrow> i < length xs \<Longrightarrow> b64_index xs (xs ! i) = i"
proof (induction xs arbitrary: i)
  case (Cons x xs)
  then show ?case by (cases i) auto
qed simp

lemma distinct_b64_alphabet: "distinct b64_alphabet"
  by (simp add: b64_alphabet_def)

lemma sextets_bits: "\<exists>k<6. concat (map (to_bits 6) (sextets bs)) = bs @ replicate k False"
proof (induction bs rule: sextets.induct)
  case (1 bs)
  show ?case
  proof (cases "length bs < 6")
    case True
    then have "to_bits 6 (bits_val (take_pad 6 bs)) = bs @ replicate (6 - length bs) False"
      using to_bits_bits_val [of "take_pad 6 bs"] by (simp add: take_pad_eq)
    then show ?thesis using True
      by (cases "bs = []") (auto simp: sextets.simps [of bs] intro: exI [of _ "6 - length bs"])
  next
    case False
    then have "to_bits 6 (bits_val (take_pad 6 bs)) = take 6 bs"
      using to_bits_bits_val [of "take_pad 6 bs"] by (simp add: take_pad_take)
    moreover obtain k where "k < 6" "concat (map (to_bits 6) (sextets (drop 6 bs))) = drop 6 bs @ replicate k False"
      using 1 False by force
    ultimately show ?thesis using False
      by (auto simp: sextets.simps [of bs] append_assoc [symmetric] simp del: append_assoc)
  qed
qed

lemma bits_bytes_bits: "k < 8 \<Longrightarrow> bits_bytes (bytes_bits ws @ replicate k False) = ws"
proof (induction ws)
  case Nil
  then show ?case by (simp add: bits_bytes.simps)
next
  case (Cons w ws)
  then show ?case
    by (subst bits_bytes.simps) (simp add: bits_val_byte_bits)
qed

lemma b64_decode_spec: "b64_decode (b64_spec ws) = ws"
proof -
  let ?ls = "map (\<lambda>v. b64_alphabet ! v) (sextets (bytes_bits ws))"
  have "\<forall>c \<in> set ?ls. c \<noteq> CHR ''=''"
    using b64_letters [of _ "bytes_bits ws"] set_b64_alphabet by blast
  then have "takeWhile (\<lambda>c. c \<noteq> CHR ''='') (?ls @ replicate n CHR ''='') = ?ls" for n
    by (subst takeWhile_append2) auto
  then have tw: "takeWhile (\<lambda>c. c \<noteq> CHR ''='') (b64_spec ws) = ?ls" by (simp only: b64_spec_def)
  have idx: "map (\<lambda>c. to_bits 6 (b64_index b64_alphabet c)) ?ls = map (to_bits 6) (sextets (bytes_bits ws))"
    using sextets_less by (auto simp: b64_index_nth distinct_b64_alphabet)
  obtain k where k: "k < 6" "concat (map (to_bits 6) (sextets (bytes_bits ws))) = bytes_bits ws @ replicate k False"
    using sextets_bits by blast
  have "b64_decode (b64_spec ws) = bits_bytes (bytes_bits ws @ replicate k False)"
    unfolding b64_decode_def by (simp only: tw idx k)
  with k show ?thesis by (simp add: bits_bytes_bits)
qed

section \<open>Room in the output array\<close>

lemma b64_outSize_eq:
  assumes "n < 2 ^ 30"
  shows "b64_outSize n = 4 * ((n + 2) div 3) + 2 * (4 * ((n + 2) div 3) div 60 + 1)"
proof -
  have le: "4 * ((n + 2) div 3) < 2 ^ 31" using assms by simp
  have "u32 (int n + 2) = n + 2" using assms u32_of_nat [of "n + 2"] by (simp add: algebra_simps)
  then have "u32 (int (u32 (int n + 2) div 3 * 4)) = 4 * ((n + 2) div 3)"
    using le by (simp only: mult.commute) (intro u32_of_nat, simp)
  moreover have "4 * ((n + 2) div 3) + 2 * (4 * ((n + 2) div 3) div 60 + 1) < 2 ^ 32"
    using le by simp
  ultimately show ?thesis by (simp only: b64_outSize_def Let_def u32_of_nat)
qed

section \<open>Properties\<close>

lemma Base64Encode_spec:
  assumes "length dat < 2 ^ 30"
  shows "Base64Encode dat (length dat) old = Inr (length (b64_spec dat), b64_spec dat)"
proof -
  let ?n = "length dat"
  have "u32 (int ?n * 4) = 4 * ?n"
    using assms u32_of_nat [of "4 * ?n"] by (simp add: mult.commute)
  moreover have "4 * ?n div 3 \<le> 4 * ((?n + 2) div 3)" by (simp add: mult.commute)
  ultimately have "\<not> b64_outSize ?n < u32 (int ?n * 4) div 3" "length (b64_spec dat) < b64_outSize ?n"
    using b64_outSize_eq [OF assms] by (simp_all add: length_b64_spec)
  with b64_loop_spec [of dat "[]" 0 "b64_outSize ?n"] assms show ?thesis
    by (simp add: Base64Encode_def Let_def b64_spec_no_nul)
qed

text \<open>C34. \<open>Base64Encode\<close> on a buffer of less than \<open>2 ^ 30\<close> bytes stays inside its output array and returns
  exactly the Base64 text of RFC 4648 with its length: four letters for every three bytes begun.
\<close>

theorem Base64Encode_correct:
  assumes "length dat < 2 ^ 30"
  shows "Base64Encode dat (length dat) old = Inr (4 * ((length dat + 2) div 3), b64_spec dat)"
  using Base64Encode_spec [OF assms] by (simp add: length_b64_spec)

theorem Base64Encode_correct_witness:
  "Base64Encode [0x67, 0x42, 0x00, 0x1e] 4 ''old'' = Inr (8, b64_spec [0x67, 0x42, 0x00, 0x1e]) \<and>
   b64_spec [0x67, 0x42, 0x00, 0x1e] = ''Z0IAHg==''"
proof
  have len: "length [0x67, 0x42, 0x00, 0x1e :: byte] = 4" and n: "4 * ((4 + 2) div 3) = (8 :: nat)"
    by simp_all
  show "Base64Encode [0x67, 0x42, 0x00, 0x1e] 4 ''old'' = Inr (8, b64_spec [0x67, 0x42, 0x00, 0x1e])"
    using Base64Encode_correct [of "[0x67, 0x42, 0x00, 0x1e]" "''old''", unfolded len n] by simp
  show "b64_spec [0x67, 0x42, 0x00, 0x1e] = ''Z0IAHg==''" by code_simp
qed

text \<open>Nothing is lost by the encoding: the RFC 4648 decoder, applied to the text that \<open>Base64Encode\<close>
  leaves in the string, gives back the bytes.
\<close>

theorem Base64Encode_roundtrip:
  assumes "length dat < 2 ^ 30" and "Base64Encode dat (length dat) old = Inr (n, text)"
  shows "b64_decode text = dat"
  using assms by (auto simp: Base64Encode_spec b64_decode_spec)

theorem Base64Encode_roundtrip_witness:
  "Base64Encode [0x68, 0xce] 2 [] = Inr (4, b64_spec [0x68, 0xce]) \<and>
   b64_decode (b64_spec [0x68, 0xce]) = [0x68, 0xce]"
proof -
  have len: "length [0x68, 0xce :: byte] = 2" by simp
  have enc: "Base64Encode [0x68, 0xce] (length [0x68, 0xce :: byte]) [] = Inr (4, b64_spec [0x68, 0xce])"
    by (subst Base64Encode_spec) (simp_all add: length_b64_spec)
  have "length [0x68, 0xce :: byte] < 2 ^ 30" unfolding len by simp
  from Base64Encode_roundtrip [OF this enc] enc show ?thesis unfolding len by blast
qed

text \<open>\<open>load_block\<close> fills its four bytes and never reads outside the input.\<close>

lemma load_block_loop_ok:
  assumes "siz \<le> length inp" and "length out \<le> 4" and "pos + i \<le> siz"
  shows "\<exists>p blk. load_block_loop inp siz pos i out = Inr (p, blk) \<and> length blk = 4 \<and> pos + i \<le> p \<and> p \<le> siz \<and>
    blk = take 4 (out @ filter b64_char (segment (pos + i) (p - (pos + i)) inp) @ replicate 4 0xff)"
  using assms
proof (induction inp siz pos i out rule: load_block_loop.induct)
  case (1 inp siz pos i out)
  show ?case
  proof (cases "length out < 4 \<and> pos + i < siz")
    case True
    let ?c = "inp ! (pos + i)"
    let ?out = "if b64_char ?c then out @ [?c] else out"
    have at: "at inp (pos + i) = Inr ?c" using True 1(2) by simp
    have "\<exists>p blk. load_block_loop inp siz pos (i + 1) ?out = Inr (p, blk) \<and> length blk = 4 \<and>
        pos + (i + 1) \<le> p \<and> p \<le> siz \<and>
        blk = take 4 (?out @ filter b64_char (segment (pos + (i + 1)) (p - (pos + (i + 1))) inp) @ replicate 4 0xff)"
      by (rule "1.IH" [OF True]) (use 1(2-4) True in auto)
    then obtain p blk where rec: "load_block_loop inp siz pos (i + 1) ?out = Inr (p, blk)" "length blk = 4"
        "pos + (i + 1) \<le> p" "p \<le> siz"
        "blk = take 4 (?out @ filter b64_char (segment (pos + (i + 1)) (p - (pos + (i + 1))) inp) @ replicate 4 0xff)"
      by blast
    have "drop (pos + i) inp = ?c # drop (pos + (i + 1)) inp"
      using True 1(2) by (simp add: Cons_nth_drop_Suc)
    moreover have "p - (pos + i) = Suc (p - (pos + (i + 1)))" using rec(3) by simp
    ultimately have seg: "segment (pos + i) (p - (pos + i)) inp = ?c # segment (pos + (i + 1)) (p - (pos + (i + 1))) inp"
      by (simp add: segment_def)
    have "load_block_loop inp siz pos i out = load_block_loop inp siz pos (i + 1) ?out"
      using True at by (subst load_block_loop.simps) simp
    moreover have "out @ filter b64_char (segment (pos + i) (p - (pos + i)) inp) @ replicate 4 0xff =
        ?out @ filter b64_char (segment (pos + (i + 1)) (p - (pos + (i + 1))) inp) @ replicate 4 0xff"
      by (simp only: seg) simp
    then have "take 4 (out @ filter b64_char (segment (pos + i) (p - (pos + i)) inp) @ replicate 4 0xff) = blk"
      by (simp only: rec(5))
    ultimately show ?thesis using rec(1-4) by (intro exI [of _ p] exI [of _ blk]) simp
  next
    case False
    then show ?thesis using 1(2-4) by (subst load_block_loop.simps) (auto simp: segment_def)
  qed
qed

end
