(* ===== verification/VlcBits.thy ===== *)
theory VlcBits
  imports BitStrings
begin

text \<open>
  The bit reader and writer of \<open>bit/vlc_bits.h\<close>: the cursor \<open>bs_t\<close>, one definition per function, and
  the lemmas that relate each of them to the remaining bit string \<open>bs_bits\<close> of the cursor.

  The pointers \<open>p_start\<close>, \<open>p\<close> and \<open>p_end\<close> are offsets into the array the cursor was initialised with.
\<close>

section \<open>The cursor\<close>

record bs =
  bs_data :: "byte list"   \<comment> \<open>the memory behind \<open>p_start\<close>\<close>
  bs_p :: nat
  bs_end :: nat
  bs_left :: int           \<comment> \<open>\<open>i_left\<close>: unread bits of the byte under \<open>p\<close>\<close>

definition bs_init :: "byte list \<Rightarrow> nat \<Rightarrow> bs" where
  "bs_init data n = \<lparr>bs_data = data, bs_p = 0, bs_end = n, bs_left = 8\<rparr>"

definition bs_pos :: "bs \<Rightarrow> int" where
  "bs_pos s = 8 * int (bs_p s) + 8 - bs_left s"

definition bs_eof :: "bs \<Rightarrow> int" where
  "bs_eof s = (if bs_end s \<le> bs_p s then 1 else 0)"

text \<open>The byte \<open>*s->p\<close>; read only behind a test \<open>p < p_end\<close>.\<close>

definition bs_cur :: "bs \<Rightarrow> byte" where
  "bs_cur s = bs_data s ! bs_p s"

definition bs_next :: "bs \<Rightarrow> bs" where
  "bs_next s = s\<lparr>bs_p := bs_p s + 1, bs_left := 8\<rparr>"

section \<open>Reading\<close>

definition i_mask :: "uint32 list" where
  "i_mask = [0x00,
     0x01, 0x03, 0x07, 0x0f,
     0x1f, 0x3f, 0x7f, 0xff,
     0x1ff, 0x3ff, 0x7ff, 0xfff,
     0x1fff, 0x3fff, 0x7fff, 0xffff,
     0x1ffff, 0x3ffff, 0x7ffff, 0xfffff,
     0x1fffff, 0x3fffff, 0x7fffff, 0xffffff,
     0x1ffffff, 0x3ffffff, 0x7ffffff, 0xfffffff,
     0x1fffffff, 0x3fffffff, 0x7fffffff, 0xffffffff]"

text \<open>
  The loop of \<open>bs_read\<close> with its variables \<open>i_count\<close> and \<open>i_result\<close>. Each turn that does not return
  moves \<open>p\<close> towards \<open>p_end\<close>.
\<close>

function bs_read_loop :: "int \<Rightarrow> uint32 \<Rightarrow> bs \<Rightarrow> uint32 \<times> bs" where
  "bs_read_loop i_count i_result s =
     (if 0 < i_count \<and> bs_p s < bs_end s then
        let i_shr = bs_left s - i_count in
        if 0 \<le> i_shr then
          (let i_result = i_result OR (drop_bit (nat i_shr) (ucast (bs_cur s)) AND i_mask ! nat i_count);
               s = s\<lparr>bs_left := bs_left s - i_count\<rparr>
           in (i_result, if bs_left s = 0 then bs_next s else s))
        else
          bs_read_loop (i_count - bs_left s)
            (i_result OR push_bit (nat (- i_shr)) (ucast (bs_cur s) AND i_mask ! nat (bs_left s)))
            (bs_next s)
      else (i_result, s))"
  by pat_completeness auto
termination
  by (relation "measure (\<lambda>(i_count, i_result, s). bs_end s - bs_p s)") (auto simp: bs_next_def)

declare bs_read_loop.simps [simp del]

definition bs_read :: "bs \<Rightarrow> int \<Rightarrow> uint32 \<times> bs" where
  "bs_read s i_count = bs_read_loop i_count 0 s"

definition bs_read1 :: "bs \<Rightarrow> uint32 \<times> bs" where
  "bs_read1 s =
     (if bs_p s < bs_end s then
        let s = s\<lparr>bs_left := bs_left s - 1\<rparr>;
            i_result = drop_bit (nat (bs_left s)) (ucast (bs_cur s)) AND 0x01
        in (i_result, if bs_left s = 0 then bs_next s else s)
      else (0, s))"

definition bs_show :: "bs \<Rightarrow> int \<Rightarrow> uint32" where
  "bs_show s i_count = fst (bs_read s i_count)"

function bs_skip_loop :: "bs \<Rightarrow> bs" where
  "bs_skip_loop s =
     (if bs_left s \<le> 0 then bs_skip_loop (s\<lparr>bs_p := bs_p s + 1, bs_left := bs_left s + 8\<rparr>) else s)"
  by pat_completeness auto
termination
  by (relation "measure (\<lambda>s. nat (8 - bs_left s))") auto

declare bs_skip_loop.simps [simp del]

definition bs_skip :: "bs \<Rightarrow> int \<Rightarrow> bs" where
  "bs_skip s i_count = bs_skip_loop (s\<lparr>bs_left := bs_left s - i_count\<rparr>)"

text \<open>
  \<open>1 << i\<close> on a 32-bit \<open>int\<close> with a variable count: the x86 shift the compiler emits takes the count
  modulo 32, so the one count above 31 that \<open>bs_read_ue\<close> can reach gives 1.
\<close>

definition shl1 :: "nat \<Rightarrow> uint32" where
  "shl1 i = push_bit (i mod 32) 1"

function bs_read_ue_loop :: "bs \<Rightarrow> nat \<Rightarrow> nat \<times> bs" where
  "bs_read_ue_loop s i =
     (let (b, s') = bs_read1 s in
      if b = 0 \<and> bs_p s' < bs_end s' \<and> i < 32 then bs_read_ue_loop s' (i + 1) else (i, s'))"
  by pat_completeness auto
termination
  by (relation "measure (\<lambda>(s, i). 32 - i)") auto

declare bs_read_ue_loop.simps [simp del]

text \<open>\<open>bs_read_ue\<close> returns an \<open>int\<close>: the unsigned sum read as a signed value.\<close>

definition bs_read_ue :: "bs \<Rightarrow> int \<times> bs" where
  "bs_read_ue s =
     (let (i, s) = bs_read_ue_loop s 0;
          (v, s) = bs_read s (int i)
      in (sint (shl1 i - 1 + v), s))"

definition bs_read_se :: "bs \<Rightarrow> int \<times> bs" where
  "bs_read_se s =
     (let (val, s) = bs_read_ue s
      in (if odd val then sgn (s32 (val + 1)) * (\<bar>s32 (val + 1)\<bar> div 2)
          else - (sgn val * (\<bar>val\<bar> div 2)), s))"

section \<open>Writing and alignment\<close>

definition bs_set_cur :: "bs \<Rightarrow> byte \<Rightarrow> bs" where
  "bs_set_cur s b = s\<lparr>bs_data := (bs_data s)[bs_p s := b]\<rparr>"

function bs_write :: "bs \<Rightarrow> int \<Rightarrow> uint32 \<Rightarrow> bs" where
  "bs_write s i_count i_bits =
     (if 0 < i_count \<and> bs_p s < bs_end s then
        let i_count = i_count - 1;
            m = push_bit (nat (bs_left s - 1)) 1;
            s = (if drop_bit (nat i_count) i_bits AND 0x01 \<noteq> 0
                 then bs_set_cur s (bs_cur s OR m)
                 else bs_set_cur s (bs_cur s AND NOT m));
            s = s\<lparr>bs_left := bs_left s - 1\<rparr>;
            s = (if bs_left s = 0 then bs_next s else s)
        in bs_write s i_count i_bits
      else s)"
  by pat_completeness auto
termination
  by (relation "measure (\<lambda>(s, i_count, i_bits). nat i_count)") auto

declare bs_write.simps [simp del]

definition bs_align :: "bs \<Rightarrow> bs" where
  "bs_align s = (if bs_left s \<noteq> 8 then s\<lparr>bs_left := 8, bs_p := bs_p s + 1\<rparr> else s)"

definition bs_align_0 :: "bs \<Rightarrow> bs" where
  "bs_align_0 s = (if bs_left s \<noteq> 8 then bs_write s (bs_left s) 0 else s)"

text \<open>At the end of the data \<open>bs_write\<close> does nothing, so this loop need not end: \<open>None\<close>.\<close>

partial_function (option) bs_align_1 :: "bs \<Rightarrow> bs option" where
  "bs_align_1 s = (if bs_left s \<noteq> 8 then bs_align_1 (bs_write s 1 1) else Some s)"

section \<open>Well-formed cursors and the bits they have left\<close>

definition bs_wf :: "bs \<Rightarrow> bool" where
  "bs_wf s \<longleftrightarrow> bs_end s \<le> length (bs_data s) \<and> 1 \<le> bs_left s \<and> bs_left s \<le> 8"

definition bs_bits :: "bs \<Rightarrow> bool list" where
  "bs_bits s = drop (nat (8 - bs_left s)) (bytes_bits (take (bs_end s - bs_p s) (drop (bs_p s) (bs_data s))))"

lemma bs_init_wf [simp]: "n \<le> length data \<Longrightarrow> bs_wf (bs_init data n)"
  by (simp add: bs_wf_def bs_init_def)

lemma bs_bits_init [simp]: "bs_bits (bs_init data n) = bytes_bits (take n data)"
  by (simp add: bs_bits_def bs_init_def)

lemma bs_next_simps [simp]:
  "bs_data (bs_next s) = bs_data s" "bs_end (bs_next s) = bs_end s"
  "bs_left (bs_next s) = 8" "bs_p (bs_next s) = Suc (bs_p s)"
  by (simp_all add: bs_next_def)

lemma bs_next_left [simp]: "bs_next (s\<lparr>bs_left := l\<rparr>) = bs_next s"
  by (simp add: bs_next_def)

lemma bs_wf_next [simp]: "bs_wf s \<Longrightarrow> bs_wf (bs_next s)"
  by (simp add: bs_wf_def)

lemma bs_bits_end: "bs_end s \<le> bs_p s \<Longrightarrow> bs_bits s = []"
  by (simp add: bs_bits_def)

text \<open>The unread bits of the current byte.\<close>

definition bs_chunk :: "bs \<Rightarrow> bool list" where
  "bs_chunk s = drop (nat (8 - bs_left s)) (byte_bits (bs_cur s))"

lemma length_bs_chunk: "bs_wf s \<Longrightarrow> length (bs_chunk s) = nat (bs_left s)"
proof -
  assume "bs_wf s"
  then have "8 - nat (8 - bs_left s) = nat (bs_left s)" unfolding bs_wf_def by linarith
  then show ?thesis by (simp add: bs_chunk_def)
qed

lemma bit_bs_cur:
  assumes "bs_wf s" and "i < nat (bs_left s)"
  shows "bit (bs_cur s) i \<longleftrightarrow> bs_chunk s ! (nat (bs_left s) - Suc i)"
proof -
  have "nat (8 - bs_left s) + (nat (bs_left s) - Suc i) = 7 - i" and "i < 8"
    using assms by (auto simp: bs_wf_def)
  then show ?thesis by (simp add: bs_chunk_def byte_bits_nth)
qed

lemma bs_bits_cur:
  assumes "bs_wf s" and "bs_p s < bs_end s"
  shows "bs_bits s = bs_chunk s @ bs_bits (bs_next s)"
proof -
  have "bs_p s < length (bs_data s)" using assms by (simp add: bs_wf_def)
  then have "drop (bs_p s) (bs_data s) = bs_cur s # drop (Suc (bs_p s)) (bs_data s)"
    by (simp add: bs_cur_def Cons_nth_drop_Suc)
  moreover have "bs_end s - bs_p s = Suc (bs_end s - Suc (bs_p s))" using assms(2) by simp
  moreover have "nat (8 - bs_left s) - 8 = 0" using assms(1) by (simp add: bs_wf_def nat_le_iff)
  ultimately show ?thesis by (simp add: bs_bits_def bs_chunk_def)
qed

lemma length_bs_bits_left:
  assumes "bs_wf s" and "bs_p s < bs_end s"
  shows "length (bs_bits s) = nat (bs_left s) + length (bs_bits (bs_next s))"
  using assms by (simp add: bs_bits_cur length_bs_chunk)

text \<open>The number of bits left is the distance of \<open>bs_pos\<close> from the end of the data.\<close>

lemma length_bs_bits:
  assumes "bs_wf s"
  shows "int (length (bs_bits s)) = (if bs_p s < bs_end s then 8 * int (bs_end s) - bs_pos s else 0)"
  using assms by (auto simp: bs_bits_def bs_wf_def bs_pos_def min_def of_nat_diff)

lemma bs_eof_bits: "bs_wf s \<Longrightarrow> bs_eof s = 1 \<longleftrightarrow> bs_bits s = []"
  using length_bs_bits_left [of s] by (force simp: bs_eof_def bs_bits_end bs_wf_def)

text \<open>Leaving \<open>k\<close> bits of the current byte behind.\<close>

lemma bs_bits_left:
  assumes "bs_wf s" and "bs_p s < bs_end s" and "0 \<le> k" and "k < bs_left s"
  shows "bs_bits (s\<lparr>bs_left := bs_left s - k\<rparr>) = drop (nat k) (bs_bits s)"
    and "bs_wf (s\<lparr>bs_left := bs_left s - k\<rparr>)"
proof -
  have "nat (8 - (bs_left s - k)) = nat k + nat (8 - bs_left s)"
    using assms by (simp add: bs_wf_def nat_add_distrib [symmetric])
  then show "bs_bits (s\<lparr>bs_left := bs_left s - k\<rparr>) = drop (nat k) (bs_bits s)"
    by (simp add: bs_bits_def add.commute)
  show "bs_wf (s\<lparr>bs_left := bs_left s - k\<rparr>)"
    using assms by (simp add: bs_wf_def)
qed

lemma bs_bits_next:
  assumes "bs_wf s" and "bs_p s < bs_end s"
  shows "bs_bits (bs_next s) = drop (nat (bs_left s)) (bs_bits s)"
  using assms by (simp add: bs_bits_cur length_bs_chunk)

section \<open>What reading returns\<close>

lemma length_i_mask [simp]: "length i_mask = 33"
  by (simp add: i_mask_def)

lemma i_mask_nth: "n \<le> 32 \<Longrightarrow> i_mask ! n = mask n"
proof -
  assume "n \<le> 32"
  moreover have "list_all (\<lambda>n. i_mask ! n = mask n) [0..<33]" by code_simp
  ultimately show ?thesis by (auto simp: list_all_iff)
qed

text \<open>
  One loop turn adds the bits it takes from the current byte at their place; bit \<open>i\<close> of the final
  result is the bit of the (zero-padded) stream that is \<open>i\<close> places from the end of the field. The two
  lemmas are the turns that end and continue the loop.
\<close>

lemma bit_bs_read_last:
  assumes wf: "bs_wf s" and p: "bs_p s < bs_end s" and l: "bs_left s = int l" and n: "n \<le> l"
  shows "bit (i_result OR (drop_bit (l - n) (ucast (bs_cur s)) AND mask n :: uint32)) i \<longleftrightarrow>
    bit i_result i \<or> i < n \<and> take_pad n (bs_bits s) ! (n - Suc i)"
proof (cases "i < n")
  case True
  have l8: "l \<le> 8" using wf l by (simp add: bs_wf_def)
  have "length (bs_chunk s) = l" using length_bs_chunk [OF wf] l by simp
  then have "take_pad n (bs_bits s) ! (n - Suc i) = bs_chunk s ! (n - Suc i)"
    using True n by (simp add: bs_bits_cur [OF wf p] take_pad_append_le)
  moreover have "bit (bs_cur s) (l - n + i) = bs_chunk s ! (n - Suc i)"
  proof -
    have "l - n + i < l" "l - Suc (l - n + i) = n - Suc i" using True n by linarith+
    then show ?thesis using bit_bs_cur [OF wf, of "l - n + i"] by (simp add: l)
  qed
  moreover have "i < 32" "l - n + i < 32" using True n l8 by linarith+
  ultimately show ?thesis using True by (simp add: bit_simps)
next
  case False
  then show ?thesis by (simp add: bit_simps)
qed

lemma bit_bs_read_more:
  assumes wf: "bs_wf s" and p: "bs_p s < bs_end s" and l: "bs_left s = int l" and n: "l < n" "n \<le> 32"
    and rest: "bit r i \<longleftrightarrow>
      bit (i_result OR push_bit (n - l) (ucast (bs_cur s) AND mask l :: uint32)) i \<or>
      i < n - l \<and> take_pad (n - l) (bs_bits (bs_next s)) ! (n - l - Suc i)"
  shows "bit (r :: uint32) i \<longleftrightarrow> bit i_result i \<or> i < n \<and> take_pad n (bs_bits s) ! (n - Suc i)"
proof -
  have chunk: "length (bs_chunk s) = l" using length_bs_chunk [OF wf] l by simp
  then have pad: "take_pad n (bs_bits s) = bs_chunk s @ take_pad (n - l) (bs_bits (bs_next s))"
    using n by (simp add: bs_bits_cur [OF wf p] take_pad_append_ge)
  consider "i < n - l" | "n - l \<le> i" "i < n" | "n \<le> i" by linarith
  then show ?thesis
  proof cases
    case 1
    then have i: "\<not> n - Suc i < l" "n - Suc i - l = n - l - Suc i" "i < n" "\<not> n - l \<le> i"
      using n by linarith+
    then show ?thesis unfolding rest pad nth_append chunk using 1 by (simp only: bit_simps) simp
  next
    case 2
    then have i: "i - (n - l) < l" "l - Suc (i - (n - l)) = n - Suc i" "n - Suc i < l" "i < 32"
        "i - (n - l) < 32" using n by linarith+
    then have "bit (bs_cur s) (i - (n - l)) = bs_chunk s ! (n - Suc i)"
      using bit_bs_cur [OF wf, of "i - (n - l)"] by (simp add: l)
    then show ?thesis using 2 i by (simp add: rest pad nth_append chunk bit_simps)
  next
    case 3
    then have "\<not> i - (n - l) < l" "\<not> i < n" "\<not> i < n - l" using n by linarith+
    then show ?thesis by (simp add: rest bit_simps)
  qed
qed

lemma bit_bs_read_loop:
  assumes "bs_wf s" and "n \<le> 32"
  shows "bit (fst (bs_read_loop (int n) i_result s)) i \<longleftrightarrow>
    bit i_result i \<or> i < n \<and> take_pad n (bs_bits s) ! (n - Suc i)"
  using assms
proof (induction n arbitrary: i_result s rule: less_induct)
  case (less n)
  note wf = less.prems(1)
  obtain l where l: "bs_left s = int l" "1 \<le> l" "l \<le> 8"
    using wf by (auto simp: bs_wf_def intro: nonneg_int_cases [of "bs_left s"])
  have masks: "i_mask ! l = mask l" "i_mask ! n = mask n"
    using l less.prems(2) by (auto intro: i_mask_nth)
  show ?case
  proof (cases "0 < n \<and> bs_p s < bs_end s")
    case False
    then have "take_pad n (bs_bits s) ! (n - Suc i) = False" if "i < n"
      using that bs_bits_end [of s] by auto
    with False show ?thesis by (auto simp: bs_read_loop.simps [of "int n" i_result s])
  next
    case True
    show ?thesis
    proof (cases "n \<le> l")
      case le: True
      then have "nat (int l - int n) = l - n" by (simp add: nat_diff_distrib)
      with True le l masks
      have "fst (bs_read_loop (int n) i_result s) =
          i_result OR (drop_bit (l - n) (ucast (bs_cur s)) AND mask n)"
        by (simp add: bs_read_loop.simps [of "int n" i_result s] Let_def)
      with bit_bs_read_last [OF wf _ l(1) le] True show ?thesis by metis
    next
      case False
      then have m: "int n - int l = int (n - l)" "nat (- (int l - int n)) = n - l" by auto
      let ?r = "i_result OR push_bit (n - l) (ucast (bs_cur s) AND i_mask ! l)"
      have step: "bs_read_loop (int n) i_result s = bs_read_loop (int (n - l)) ?r (bs_next s)"
        using True False l m by (simp add: bs_read_loop.simps [of "int n" i_result s] Let_def)
      have "bit (fst (bs_read_loop (int (n - l)) ?r (bs_next s))) i \<longleftrightarrow> bit ?r i \<or>
          i < n - l \<and> take_pad (n - l) (bs_bits (bs_next s)) ! (n - l - Suc i)"
        using less.prems(2) l True by (intro less.IH bs_wf_next wf) auto
      then show ?thesis
        using bit_bs_read_more [OF wf _ l(1)] True False less.prems(2)
        by (simp only: step masks not_le)
    qed
  qed
qed

lemma bs_read_loop_state:
  assumes "bs_wf s" and "0 \<le> i_count"
  shows "let s' = snd (bs_read_loop i_count i_result s) in
    bs_wf s' \<and> bs_bits s' = drop (nat i_count) (bs_bits s) \<and> bs_data s' = bs_data s \<and> bs_end s' = bs_end s"
  using assms
proof (induction i_count i_result s rule: bs_read_loop.induct)
  case (1 i_count i_result s)
  note wf = "1.prems"(1)
  have left: "1 \<le> bs_left s" "bs_left s \<le> 8" using wf by (auto simp: bs_wf_def)
  consider (stop) "\<not> (0 < i_count \<and> bs_p s < bs_end s)"
    | (part) "0 < i_count" "bs_p s < bs_end s" "i_count < bs_left s"
    | (whole) "0 < i_count" "bs_p s < bs_end s" "i_count = bs_left s"
    | (more) "0 < i_count" "bs_p s < bs_end s" "bs_left s < i_count"
    by linarith
  then show ?case
  proof cases
    case stop
    with "1.prems" bs_bits_end [of s] show ?thesis
      by (auto simp: bs_read_loop.simps [of i_count i_result s])
  next
    case part
    with bs_bits_left [OF wf part(2), of i_count] show ?thesis
      by (auto simp: bs_read_loop.simps [of i_count i_result s] Let_def)
  next
    case whole
    with wf bs_bits_next [OF wf whole(2)] show ?thesis
      by (simp add: bs_read_loop.simps [of "bs_left s" i_result s] Let_def)
  next
    case more
    have "nat (i_count - bs_left s) + nat (bs_left s) = nat i_count" using more left by simp
    with "1.IH" [OF conjI [OF more(1,2)] refl] more wf bs_bits_next [OF wf more(2)] show ?thesis
      by (simp add: bs_read_loop.simps [of i_count i_result s] Let_def)
  qed
qed

lemma bs_read_state:
  assumes "bs_wf s" and "0 \<le> n"
  shows "bs_wf (snd (bs_read s n))" and "bs_bits (snd (bs_read s n)) = drop (nat n) (bs_bits s)"
    and "bs_data (snd (bs_read s n)) = bs_data s" and "bs_end (snd (bs_read s n)) = bs_end s"
  using bs_read_loop_state [OF assms, of 0] by (auto simp: bs_read_def Let_def)

text \<open>\<open>bs_read\<close> returns the value of the next \<open>n\<close> bits, with zeros for those past the end.\<close>

lemma bs_read_value:
  assumes "bs_wf s" and "n \<le> 32"
  shows "fst (bs_read s (int n)) = word_of_nat (bits_val (take_pad n (bs_bits s)))"
proof (rule bit_word_eqI)
  fix i assume "i < LENGTH(32)"
  then show "bit (fst (bs_read s (int n))) i \<longleftrightarrow>
      bit (word_of_nat (bits_val (take_pad n (bs_bits s))) :: uint32) i"
    using bit_bs_read_loop [of s n 0 i] assms
    by (auto simp: bs_read_def bit_of_nat_iff bit_bits_val)
qed

lemma bs_read_nonpos [simp]: "n \<le> 0 \<Longrightarrow> bs_read s n = (0, s)"
  by (simp add: bs_read_def bs_read_loop.simps)

lemma bs_read1_end: "bs_end s \<le> bs_p s \<Longrightarrow> bs_read1 s = (0, s)"
  by (simp add: bs_read1_def)

lemma bs_read1_cur:
  assumes "bs_wf s" and "bs_bits s = b # rest"
  shows "fst (bs_read1 s) = of_bool b" and "bs_wf (snd (bs_read1 s))"
    and "bs_bits (snd (bs_read1 s)) = rest"
proof -
  have p: "bs_p s < bs_end s" using assms(2) bs_bits_end [of s] by (cases "bs_p s < bs_end s") auto
  have left: "1 \<le> bs_left s" "bs_left s \<le> 8" using assms(1) by (auto simp: bs_wf_def)
  have cs: "bs_chunk s = b # tl (bs_chunk s)" "rest = tl (bs_chunk s) @ bs_bits (bs_next s)"
    using bs_bits_cur [OF assms(1) p] assms(2) length_bs_chunk [OF assms(1)] left
    by (cases "bs_chunk s"; simp)+
  have "bit (bs_cur s) (nat (bs_left s - 1)) = b"
  proof -
    have "nat (bs_left s) - Suc (nat (bs_left s - 1)) = 0" "nat (bs_left s - 1) < nat (bs_left s)"
      using left by (auto simp: nat_diff_distrib)
    then show ?thesis using bit_bs_cur [OF assms(1)] cs(1) by (metis nth_Cons_0)
  qed
  moreover have "nat (bs_left s - 1) < 8" using left by simp
  ultimately have "bit (drop_bit (nat (bs_left s - 1)) (ucast (bs_cur s)) AND 0x01 :: uint32) i
      = bit (of_bool b :: uint32) i" for i
    by (cases i) (auto simp: bit_simps)
  then show "fst (bs_read1 s) = of_bool b"
    using p by (simp add: bs_read1_def Let_def bs_cur_def bit_eq_iff)
  have "bs_wf (snd (bs_read1 s)) \<and> bs_bits (snd (bs_read1 s)) = drop 1 (bs_bits s)"
    using p assms(1) left bs_bits_left [OF assms(1) p, of 1] bs_bits_next [OF assms(1) p]
    by (cases "bs_left s = 1") (auto simp: bs_read1_def Let_def)
  then show "bs_wf (snd (bs_read1 s))" and "bs_bits (snd (bs_read1 s)) = rest"
    using assms(2) by simp_all
qed

lemma bs_read1_same_end: "bs_end (snd (bs_read1 s)) = bs_end s" "bs_data (snd (bs_read1 s)) = bs_data s"
  by (simp_all add: bs_read1_def Let_def)

section \<open>Exp-Golomb codes\<close>

lemma bs_bits_more: "bs_bits s \<noteq> [] \<Longrightarrow> bs_p s < bs_end s"
  using bs_bits_end [of s] by (cases "bs_p s < bs_end s") auto

lemma bs_read_ue_loop_zeros:
  assumes "bs_wf s" and "bs_bits s = replicate k False @ True # rest" and "i + k \<le> 32"
  shows "fst (bs_read_ue_loop s i) = i + k \<and> bs_wf (snd (bs_read_ue_loop s i)) \<and>
    bs_bits (snd (bs_read_ue_loop s i)) = rest"
  using assms
proof (induction k arbitrary: s i)
  case 0
  then have "fst (bs_read1 s) = 1" "bs_wf (snd (bs_read1 s))" "bs_bits (snd (bs_read1 s)) = rest"
    using bs_read1_cur [of s True rest] by auto
  then show ?case by (subst (1 2 3) bs_read_ue_loop.simps) (simp add: case_prod_beta)
next
  case (Suc k)
  then have r1: "fst (bs_read1 s) = 0" "bs_wf (snd (bs_read1 s))"
      "bs_bits (snd (bs_read1 s)) = replicate k False @ True # rest"
    using bs_read1_cur [of s False "replicate k False @ True # rest"] by auto
  then have "bs_p (snd (bs_read1 s)) < bs_end (snd (bs_read1 s))"
    by (intro bs_bits_more) simp
  with r1 Suc.prems have "bs_read_ue_loop s i = bs_read_ue_loop (snd (bs_read1 s)) (i + 1)"
    by (subst bs_read_ue_loop.simps) (simp add: case_prod_beta)
  with Suc.IH [OF r1(2,3), of "i + 1"] Suc.prems(3) show ?case by simp
qed

text \<open>The cursor stands, well-formed, before the bit string \<open>bits\<close>.\<close>

definition bs_at :: "bs \<Rightarrow> bool list \<Rightarrow> bool" where
  "bs_at s bits \<longleftrightarrow> bs_wf s \<and> bs_bits s = bits"

lemma bs_at_init: "n \<le> length data \<Longrightarrow> bs_at (bs_init data n) (bytes_bits (take n data))"
  by (simp add: bs_at_def)

lemma bs_read_at:
  assumes "bs_at s (to_bits n v @ rest)" and "v < 2 ^ n" and "n \<le> 32"
  shows "fst (bs_read s (int n)) = word_of_nat v" and "bs_at (snd (bs_read s (int n))) rest"
proof -
  have "take_pad n (bs_bits s) = to_bits n v"
    using assms(1) by (simp add: bs_at_def take_pad_append_le)
  then show "fst (bs_read s (int n)) = word_of_nat v"
    using assms bs_read_value [of s n] by (simp add: bs_at_def bits_val_to_bits)
  show "bs_at (snd (bs_read s (int n))) rest"
    using assms bs_read_state [of s "int n"] by (simp add: bs_at_def)
qed

lemma log2_less: "0 < n \<Longrightarrow> n < 2 ^ k \<Longrightarrow> log2 n < k"
  using log2_bounds [of n] by (meson le_less_trans nat_power_less_imp_less zero_less_numeral)

lemma shl1_small: "k < 32 \<Longrightarrow> shl1 k = word_of_nat (2 ^ k)"
  by (simp add: shl1_def push_bit_eq_mult)

lemma sint_word_of_nat: "v < 2 ^ 31 \<Longrightarrow> sint (word_of_nat v :: uint32) = int v"
  by (simp add: signed_of_nat signed_take_bit_int_eq_self)

text \<open>\<open>bs_read_ue\<close> decodes every code whose value an \<open>int\<close> can hold.\<close>

lemma bs_read_ue_at:
  assumes at: "bs_at s (ue_code v @ rest)" and v: "v < 2 ^ 31"
  shows "fst (bs_read_ue s) = int v" and "bs_at (snd (bs_read_ue s)) rest"
proof -
  define k where "k = log2 (v + 1)"
  have k: "2 ^ k \<le> v + 1" "v + 1 < 2 ^ Suc k" using log2_bounds [of "v + 1"] by (auto simp: k_def)
  have "k < 32" using v log2_less [of "v + 1" 32] by (simp add: k_def)
  have code: "ue_code v = replicate k False @ True # to_bits k (v + 1 - 2 ^ k)"
    by (simp add: ue_code_def k_def Let_def)
  define s1 where "s1 = snd (bs_read_ue_loop s 0)"
  have "fst (bs_read_ue_loop s 0) = k \<and> bs_at s1 (to_bits k (v + 1 - 2 ^ k) @ rest)"
    using bs_read_ue_loop_zeros [of s k "to_bits k (v + 1 - 2 ^ k) @ rest" 0] at code \<open>k < 32\<close>
    by (simp add: bs_at_def s1_def)
  then have loop: "bs_read_ue_loop s 0 = (k, s1)" "bs_at s1 (to_bits k (v + 1 - 2 ^ k) @ rest)"
    by (auto simp: s1_def prod_eq_iff)
  have "v + 1 - 2 ^ k < 2 ^ k" using k by simp
  with loop(2) have rd: "fst (bs_read s1 (int k)) = word_of_nat (v + 1 - 2 ^ k)"
      "bs_at (snd (bs_read s1 (int k))) rest"
    using bs_read_at [of s1 k "v + 1 - 2 ^ k" rest] \<open>k < 32\<close> by auto
  have "shl1 k - 1 + word_of_nat (v + 1 - 2 ^ k) = (word_of_nat (2 ^ k + (v + 1 - 2 ^ k)) - 1 :: uint32)"
    by (simp only: shl1_small [OF \<open>k < 32\<close>] of_nat_add diff_add_eq)
  also have "\<dots> = word_of_nat v" using k by simp
  finally show "fst (bs_read_ue s) = int v" and "bs_at (snd (bs_read_ue s)) rest"
    using rd loop(1) v by (simp_all add: bs_read_ue_def case_prod_beta sint_word_of_nat)
qed

lemma bs_read_se_at:
  assumes at: "bs_at s (se_code v @ rest)" and v: "\<bar>v\<bar> < 2 ^ 30"
  shows "fst (bs_read_se s) = v" and "bs_at (snd (bs_read_se s)) rest"
proof -
  define u where "u = (if 0 < v then nat (2 * v - 1) else nat (- 2 * v))"
  have u: "int u = (if 0 < v then 2 * v - 1 else - 2 * v)" "u < 2 ^ 31"
    using v by (auto simp: u_def)
  have "bs_at s (ue_code u @ rest)" using at by (simp add: se_code_def u_def)
  note ue = bs_read_ue_at [OF this u(2)]
  show "bs_at (snd (bs_read_se s)) rest"
    using ue by (simp add: bs_read_se_def case_prod_beta)
  show "fst (bs_read_se s) = v"
  proof (cases "0 < v")
    case True
    then have "fst (bs_read_ue s) = 2 * v - 1" using ue(1) u(1) by simp
    moreover have "s32 (2 * v) = 2 * v" using v True by (intro s32_id) auto
    ultimately show ?thesis using True by (simp add: bs_read_se_def case_prod_beta sgn_mult)
  next
    case False
    then have "fst (bs_read_ue s) = 2 * (- v)" using ue(1) u(1) by simp
    moreover have "- (2 * v) div 2 = - v" by presburger
    ultimately show ?thesis using False by (cases "v = 0") (auto simp: bs_read_se_def case_prod_beta sgn_mult)
  qed
qed

section \<open>Positions: skipping, writing and aligning\<close>

text \<open>All bits of the data, and the bits left as what lies behind the position \<open>bs_pos\<close>.\<close>

definition bs_all :: "bs \<Rightarrow> bool list" where
  "bs_all s = bytes_bits (take (bs_end s) (bs_data s))"

lemma bs_pos_nonneg: "bs_left s \<le> 8 \<Longrightarrow> 0 \<le> bs_pos s"
  by (simp add: bs_pos_def)

lemma bytes_bits_drop: "bytes_bits (drop n ws) = drop (8 * n) (bytes_bits ws)"
proof (induction ws arbitrary: n)
  case (Cons w ws)
  then show ?case by (cases n) auto
qed simp

lemma bs_bits_pos: "bs_left s \<le> 8 \<Longrightarrow> bs_bits s = drop (nat (bs_pos s)) (bs_all s)"
proof -
  assume "bs_left s \<le> 8"
  then have "nat (bs_pos s) = nat (8 - bs_left s) + 8 * bs_p s" by (simp add: bs_pos_def)
  then show ?thesis
    by (simp add: bs_bits_def bs_all_def drop_take [symmetric] bytes_bits_drop)
qed

lemma length_bs_all: "bs_wf s \<Longrightarrow> length (bs_all s) = 8 * bs_end s"
  by (simp add: bs_all_def bs_wf_def)

lemma bs_skip_loop_pos:
  assumes "bs_left s \<le> 8"
  shows "bs_pos (bs_skip_loop s) = bs_pos s \<and> 1 \<le> bs_left (bs_skip_loop s) \<and>
    bs_left (bs_skip_loop s) \<le> 8 \<and> bs_all (bs_skip_loop s) = bs_all s \<and>
    bs_end (bs_skip_loop s) = bs_end s \<and> bs_data (bs_skip_loop s) = bs_data s"
  using assms
proof (induction s rule: bs_skip_loop.induct)
  case (1 s)
  show ?case
  proof (cases "bs_left s \<le> 0")
    case True
    with 1 show ?thesis
      by (simp add: bs_skip_loop.simps [of s] bs_pos_def bs_all_def)
  next
    case False
    with 1 show ?thesis by (simp add: bs_skip_loop.simps [of s])
  qed
qed

lemma bs_skip_drop:
  assumes "bs_wf s" and "0 \<le> n"
  shows "bs_pos (bs_skip s n) = bs_pos s + n" and "bs_wf (bs_skip s n)"
    and "bs_bits (bs_skip s n) = drop (nat n) (bs_bits s)"
proof -
  let ?s = "s\<lparr>bs_left := bs_left s - n\<rparr>"
  have le: "bs_left ?s \<le> 8" using assms by (simp add: bs_wf_def)
  note loop = bs_skip_loop_pos [OF le]
  have pos: "bs_pos ?s = bs_pos s + n" and all: "bs_all ?s = bs_all s"
    by (simp_all add: bs_pos_def bs_all_def)
  show "bs_pos (bs_skip s n) = bs_pos s + n" using loop pos by (simp add: bs_skip_def)
  show "bs_wf (bs_skip s n)" using loop assms by (simp add: bs_skip_def bs_wf_def)
  have "nat (bs_pos s + n) = nat n + nat (bs_pos s)"
    using assms bs_pos_nonneg [of s] by (simp add: bs_wf_def nat_add_distrib)
  then show "bs_bits (bs_skip s n) = drop (nat n) (bs_bits s)"
    using loop pos all assms by (simp add: bs_skip_def bs_bits_pos bs_wf_def add.commute)
qed

lemma bs_skip_at: "bs_at s (bits @ rest) \<Longrightarrow> length bits = n \<Longrightarrow> bs_at (bs_skip s (int n)) rest"
  by (simp add: bs_at_def bs_skip_drop)

text \<open>One turn of \<open>bs_write\<close> sets the bit at the cursor and moves on by one.\<close>

definition bs_put :: "bs \<Rightarrow> bool \<Rightarrow> bs" where
  "bs_put s b =
     (let m = push_bit (nat (bs_left s - 1)) 1;
          s = (if b then bs_set_cur s (bs_cur s OR m) else bs_set_cur s (bs_cur s AND NOT m));
          s = s\<lparr>bs_left := bs_left s - 1\<rparr>
      in if bs_left s = 0 then bs_next s else s)"

lemma bs_write_step:
  assumes "bs_p s < bs_end s"
  shows "bs_write s (1 + int n) v = bs_write (bs_put s (bit v n)) (int n) v"
proof -
  have "(drop_bit n v AND 1 \<noteq> 0) = bit v n"
    by (simp add: bit_iff_odd_drop_bit and_one_eq odd_iff_mod_2_eq_one)
  then show ?thesis
    using assms by (subst bs_write.simps) (simp add: bs_put_def Let_def)
qed

lemma bs_put_props:
  assumes wf: "bs_wf s" and p: "bs_p s < bs_end s"
  shows "bs_wf (bs_put s b)" and "bs_pos (bs_put s b) = bs_pos s + 1"
    and "bs_end (bs_put s b) = bs_end s" and "length (bs_data (bs_put s b)) = length (bs_data s)"
    and "bs_all (bs_put s b) = (bs_all s)[nat (bs_pos s) := b]"
proof -
  have left: "1 \<le> bs_left s" "bs_left s \<le> 8" using wf by (auto simp: bs_wf_def)
  define w where "w = (if b then bs_cur s OR push_bit (nat (bs_left s - 1)) 1
    else bs_cur s AND NOT (push_bit (nat (bs_left s - 1)) 1))"
  let ?k = "nat (8 - bs_left s)"
  have k: "?k < 8" "7 - ?k = nat (bs_left s - 1)" using left by auto
  have put: "bs_put s b = (let s = (bs_set_cur s w)\<lparr>bs_left := bs_left s - 1\<rparr>
      in if bs_left s = 0 then bs_next s else s)"
    by (simp add: bs_put_def Let_def bs_set_cur_def w_def)
  have data: "bs_data (bs_put s b) = (bs_data s)[bs_p s := w]"
    by (simp add: put Let_def bs_set_cur_def)
  then show "length (bs_data (bs_put s b)) = length (bs_data s)" by simp
  show bs_end: "bs_end (bs_put s b) = bs_end s"
    by (simp add: put Let_def bs_set_cur_def)
  show "bs_wf (bs_put s b)"
    using wf left by (simp add: put Let_def bs_wf_def bs_set_cur_def)
  show "bs_pos (bs_put s b) = bs_pos s + 1"
    by (simp add: put Let_def bs_set_cur_def bs_pos_def)
  have "bit w j \<longleftrightarrow> (if j = 7 - ?k then b else bit (take (bs_end s) (bs_data s) ! bs_p s) j)"
    if "j < 8" for j
    using that p by (auto simp: w_def k(2) bit_simps bs_cur_def)
  then have "bytes_bits ((take (bs_end s) (bs_data s))[bs_p s := w]) =
      (bytes_bits (take (bs_end s) (bs_data s)))[8 * bs_p s + ?k := b]"
    using p wf k(1) by (intro bytes_bits_update) (auto simp: bs_wf_def)
  moreover have "8 * bs_p s + ?k = nat (bs_pos s)" using left by (simp add: bs_pos_def)
  ultimately show "bs_all (bs_put s b) = (bs_all s)[nat (bs_pos s) := b]"
    by (simp add: bs_all_def data bs_end take_update_swap)
qed

text \<open>Where the field fits, \<open>bs_write\<close> replaces exactly its bits and moves behind them.\<close>

lemma bs_write_all:
  assumes "bs_wf s" and "nat (bs_pos s) + n \<le> 8 * bs_end s"
  shows "bs_all (bs_write s (int n) v) =
      take (nat (bs_pos s)) (bs_all s) @ to_bits n (unat v) @ drop (nat (bs_pos s) + n) (bs_all s)
    \<and> bs_pos (bs_write s (int n) v) = bs_pos s + int n \<and> bs_wf (bs_write s (int n) v)
    \<and> bs_end (bs_write s (int n) v) = bs_end s"
  using assms
proof (induction n arbitrary: s)
  case 0
  then show ?case by (subst (1 2 3 4) bs_write.simps) simp
next
  case (Suc n)
  have left: "1 \<le> bs_left s" "bs_left s \<le> 8" using Suc.prems(1) by (auto simp: bs_wf_def)
  have p: "bs_p s < bs_end s" using Suc.prems(2) left by (simp add: bs_pos_def)
  note put = bs_put_props [OF Suc.prems(1) p, of "bit v n"]
  have pos: "nat (bs_pos (bs_put s (bit v n))) = Suc (nat (bs_pos s))"
    using put(2) bs_pos_nonneg [OF left(2)] by simp
  let ?P = "nat (bs_pos s)"
  have "?P < length (bs_all s)" using Suc.prems by (simp add: length_bs_all)
  then have "take (Suc ?P) ((bs_all s)[?P := bit v n]) = take ?P (bs_all s) @ [bit v n]"
    by (simp add: take_Suc_conv_app_nth)
  moreover have "bit v n = bit (unat v) n" by (simp add: bit_unsigned_iff bit_imp_le_length)
  ultimately show ?case
    using Suc.IH [OF put(1)] Suc.prems put pos
    by (simp add: bs_write_step [OF p] to_bits_Suc del: to_bits.simps)
qed

lemma bs_align_bits:
  assumes "bs_wf s"
  shows "bs_wf (bs_align s)" and "bs_bits (bs_align s) = drop (nat (bs_left s) mod 8) (bs_bits s)"
proof -
  show "bs_wf (bs_align s)" using assms by (simp add: bs_align_def bs_wf_def)
  show "bs_bits (bs_align s) = drop (nat (bs_left s) mod 8) (bs_bits s)"
  proof (cases "bs_left s = 8")
    case False
    then have align: "bs_align s = bs_next s" by (simp add: bs_align_def bs_next_def)
    have "nat (bs_left s) mod 8 = nat (bs_left s)"
      using False assms by (intro mod_less) (simp add: bs_wf_def nat_less_iff)
    moreover have "bs_bits (bs_next s) = drop (nat (bs_left s)) (bs_bits s)"
      using bs_bits_next [OF assms] bs_bits_end [of s] bs_bits_end [of "bs_next s"]
      by (cases "bs_p s < bs_end s") auto
    ultimately show ?thesis by (simp add: align)
  qed (simp add: bs_align_def)
qed

text \<open>\<open>bs_align_1\<close> ends exactly when there is a byte to fill or nothing to do.\<close>

lemma bs_write_end: "bs_end s \<le> bs_p s \<Longrightarrow> bs_write s n v = s"
  by (simp add: bs_write.simps)

lemma bs_write_one: "bs_p s < bs_end s \<Longrightarrow> bs_write s 1 1 = bs_put s True"
  using bs_write_step [of s 0 1] bs_write.simps [of "bs_put s True" 0 1] by simp

lemma bs_put_left: "bs_left (bs_put s b) = (if bs_left s = 1 then 8 else bs_left s - 1)"
  by (simp add: bs_put_def Let_def bs_set_cur_def)

lemma bs_put_p: "bs_p (bs_put s b) = (if bs_left s = 1 then Suc (bs_p s) else bs_p s)"
  by (simp add: bs_put_def Let_def bs_set_cur_def)

lemma bs_align_1_returns:
  assumes "bs_wf s" and "bs_p s < bs_end s"
  shows "\<exists>s'. bs_align_1 s = Some s' \<and> bs_left s' = 8 \<and> bs_wf s'"
  using assms
proof (induction "nat (bs_left s)" arbitrary: s rule: less_induct)
  case less
  show ?case
  proof (cases "bs_left s = 8")
    case True
    then show ?thesis using less.prems by (subst bs_align_1.simps) simp
  next
    case False
    note put = bs_put_props [OF less.prems, of True]
    have step: "bs_align_1 s = bs_align_1 (bs_put s True)"
      using False less.prems(2) by (subst bs_align_1.simps) (simp add: bs_write_one)
    show ?thesis
    proof (cases "bs_left s = 1")
      case True
      then show ?thesis using put(1) step
        by (subst (asm) bs_align_1.simps [of "bs_put s True"]) (simp add: bs_put_left)
    next
      case False
      then have "nat (bs_left (bs_put s True)) < nat (bs_left s)"
        using less.prems(1) by (simp add: bs_put_left bs_wf_def)
      then show ?thesis
        using less.hyps [OF _ put(1)] less.prems put step False by (simp add: bs_put_p)
    qed
  qed
qed

text \<open>Behind the end of the data an unaligned cursor keeps the loop running for ever.\<close>

lemma bs_align_1_diverges:
  assumes "bs_end s \<le> bs_p s" and "bs_left s \<noteq> 8"
  shows "bs_align_1 s = None"
proof -
  have "\<not> (bs_end s \<le> bs_p s \<and> bs_left s \<noteq> 8)" if ret: "bs_align_1 s = Some r" for r
  proof (rule bs_align_1.raw_induct [where P = "\<lambda>s r. \<not> (bs_end s \<le> bs_p s \<and> bs_left s \<noteq> 8)", OF _ ret])
    fix f s r
    assume IH: "\<And>s r. f s = Some r \<Longrightarrow> \<not> (bs_end s \<le> bs_p s \<and> bs_left s \<noteq> 8)"
      and eq: "(if bs_left s \<noteq> 8 then f (bs_write s 1 1) else Some s) = Some r"
    show "\<not> (bs_end s \<le> bs_p s \<and> bs_left s \<noteq> 8)"
    proof
      assume s: "bs_end s \<le> bs_p s \<and> bs_left s \<noteq> 8"
      with eq have "f s = Some r" by (simp add: bs_write_end)
      with IH s show False by blast
    qed
  qed
  with assms show ?thesis by (cases "bs_align_1 s") auto
qed

text \<open>Aligning by writing zeros moves to the next byte and clears the bits passed.\<close>

lemma bs_align_0_pos:
  assumes "bs_wf s" and "bs_p s < bs_end s"
  shows "bs_pos (bs_align_0 s) = bs_pos s + (bs_left s mod 8)"
proof (cases "bs_left s = 8")
  case False
  obtain l where l: "bs_left s = int l" "1 \<le> l" "l < 8"
    using assms(1) False by (auto simp: bs_wf_def intro: nonneg_int_cases [of "bs_left s"])
  have "nat (bs_pos s) + l \<le> 8 * bs_end s" using l assms(2) by (simp add: bs_pos_def)
  from bs_write_all [OF assms(1) this, of 0] show ?thesis
    using l by (simp add: bs_align_0_def)
qed (simp add: bs_align_0_def)

section \<open>Properties\<close>

text \<open>C32. Reading \<open>n\<close> bits (at most 32) from any well-formed cursor returns the big-endian value of the next
  \<open>n\<close> bits of the data, zeros standing for bits past the end, and leaves exactly the rest; \<open>bs_show\<close> returns
  the same value. The byte-wise masking and shifting loop refines this bit-string reading.\<close>

theorem bs_read_refines:
  assumes "bs_wf s" and "n \<le> 32"
  shows "fst (bs_read s (int n)) = word_of_nat (bits_val (take_pad n (bs_bits s))) \<and>
    bs_show s (int n) = fst (bs_read s (int n)) \<and>
    bs_wf (snd (bs_read s (int n))) \<and> bs_bits (snd (bs_read s (int n))) = drop n (bs_bits s)"
  using assms bs_read_state [of s "int n"] by (simp add: bs_read_value bs_show_def)

theorem bs_read_refines_witness:
  "fst (bs_read (bs_init [0xA5, 0x3C, 0x0F] 3) (int 13)) = word_of_nat 5287 \<and>
    bs_bits (snd (bs_read (bs_init [0xA5, 0x3C, 0x0F] 3) (int 13))) =
      [True, False, False, False, False, False, False, True, True, True, True]"
proof -
  have "bits_val (take_pad 13 (bytes_bits [0xA5, 0x3C, 0x0F])) = 5287" by code_simp
  moreover have "drop 13 (bytes_bits [0xA5, 0x3C, 0x0F]) =
      [True, False, False, False, False, False, False, True, True, True, True]" by code_simp
  moreover have "bs_bits (bs_init [0xA5, 0x3C, 0x0F] 3) = bytes_bits [0xA5, 0x3C, 0x0F]"
    by (simp only: bs_bits_init) simp
  ultimately show ?thesis
    using bs_read_refines [of "bs_init [0xA5, 0x3C, 0x0F] 3" 13] bs_init_wf [of 3 "[0xA5, 0x3C, 0x0F]"]
    by simp
qed

text \<open>\<open>bs_read_ue\<close> inverts the unsigned Exp-Golomb code for every value an \<open>int\<close> holds, whatever
  follows the code and wherever in a byte it begins, and stops right behind it.\<close>

theorem bs_read_ue_decodes:
  assumes "bs_wf s" and "bs_bits s = ue_code v @ rest" and "v < 2 ^ 31"
  shows "\<exists>s'. bs_read_ue s = (int v, s') \<and> bs_wf s' \<and> bs_bits s' = rest"
  using assms bs_read_ue_at [of s v rest] by (auto simp: bs_at_def prod_eq_iff)

theorem bs_read_ue_decodes_witness:
  "\<exists>s'. bs_read_ue (bs_init [0x2B] 1) = (int 4, s') \<and> bs_wf s' \<and> bs_bits s' = [False, True, True]"
proof (rule bs_read_ue_decodes)
  show "bs_wf (bs_init [0x2B] 1)" by simp
  show "bs_bits (bs_init [0x2B] 1) = ue_code 4 @ [False, True, True]" by code_simp
  show "(4::nat) < 2 ^ 31" by simp
qed

text \<open>\<open>bs_read_se\<close> inverts the signed Exp-Golomb code for every value of absolute value below
  \<open>2 ^ 30\<close>, and stops right behind it.\<close>

theorem bs_read_se_decodes:
  assumes "bs_wf s" and "bs_bits s = se_code v @ rest" and "\<bar>v\<bar> < 2 ^ 30"
  shows "\<exists>s'. bs_read_se s = (v, s') \<and> bs_wf s' \<and> bs_bits s' = rest"
  using assms bs_read_se_at [of s v rest] by (auto simp: bs_at_def prod_eq_iff)

theorem bs_read_se_decodes_witness:
  "\<exists>s'. bs_read_se (bs_init [0x2B] 1) = (- 2, s') \<and> bs_wf s' \<and> bs_bits s' = [False, True, True]"
proof (rule bs_read_se_decodes)
  show "bs_wf (bs_init [0x2B] 1)" by simp
  show "bs_bits (bs_init [0x2B] 1) = se_code (- 2) @ [False, True, True]" by code_simp
  show "\<bar>- 2 :: int\<bar> < 2 ^ 30" by simp
qed

text \<open>C33. Write, then read back: a field of \<open>n\<close> bits written inside the data is what \<open>bs_read\<close> returns from
  the place it was written to, and no bit of the data outside the field changes.\<close>

theorem bs_write_read_back:
  assumes "bs_wf s" and "nat (bs_pos s) + n \<le> 8 * bs_end s" and "n \<le> 32" and "unat v < 2 ^ n"
  shows "let t = bs_write s (int n) v in
    fst (bs_read (s\<lparr>bs_data := bs_data t\<rparr>) (int n)) = v \<and>
    bs_pos t = bs_pos s + int n \<and>
    take (nat (bs_pos s)) (bs_all t) = take (nat (bs_pos s)) (bs_all s) \<and>
    drop (nat (bs_pos s) + n) (bs_all t) = drop (nat (bs_pos s) + n) (bs_all s)"
proof -
  define t where "t = bs_write s (int n) v"
  note w = bs_write_all [OF assms(1,2), of v, folded t_def]
  let ?P = "nat (bs_pos s)" and ?s = "s\<lparr>bs_data := bs_data t\<rparr>"
  have len: "length (take ?P (bs_all s)) = ?P" using assms(2) by (simp add: length_bs_all [OF assms(1)])
  have all: "bs_all t = take ?P (bs_all s) @ to_bits n (unat v) @ drop (?P + n) (bs_all s)" using w by blast
  have out: "take ?P (bs_all t) = take ?P (bs_all s)" "drop (?P + n) (bs_all t) = drop (?P + n) (bs_all s)"
    using len by (simp_all add: all)
  have wf: "bs_wf ?s" using w assms(1) by (simp add: bs_wf_def)
  have "bs_all ?s = bs_all t" using w by (simp add: bs_all_def)
  moreover have "bs_pos ?s = bs_pos s" by (simp add: bs_pos_def)
  ultimately have "bs_bits ?s = to_bits n (unat v) @ drop (?P + n) (bs_all s)"
    using bs_bits_pos [of ?s] wf len by (simp add: bs_wf_def all)
  with wf have "bs_at ?s (to_bits n (unat v) @ drop (?P + n) (bs_all s))" by (simp add: bs_at_def)
  from bs_read_at(1) [OF this assms(4,3)] have "fst (bs_read ?s (int n)) = v" by simp
  with out w show ?thesis unfolding Let_def t_def [symmetric] by simp
qed

theorem bs_write_read_back_witness:
  "fst (bs_read (bs_init (bs_data (bs_write (bs_init [0xFF, 0xFF] 2) (int 11) 0x2A5)) 2) (int 11)) = 0x2A5"
proof -
  let ?s = "bs_init [0xFF, 0xFF] 2"
  have "bs_wf ?s" by (rule bs_init_wf) simp
  moreover have "nat (bs_pos ?s) + 11 \<le> 8 * bs_end ?s" "unat (0x2A5 :: uint32) < 2 ^ 11"
    by (simp_all add: bs_init_def bs_pos_def)
  ultimately show ?thesis
    using bs_write_read_back [of ?s 11 "0x2A5"] by (simp add: bs_init_def Let_def)
qed

text \<open>The loop of \<open>bs_align_1\<close> returns exactly when the cursor is aligned already or still inside the
  data; then the result is aligned. Behind the end of the data an unaligned cursor keeps it running for
  ever, since \<open>bs_write\<close> does nothing there.\<close>

theorem bs_align_1_returns_iff:
  assumes "bs_wf s"
  shows "if bs_left s = 8 \<or> bs_p s < bs_end s
    then \<exists>s'. bs_align_1 s = Some s' \<and> bs_wf s' \<and> bs_left s' = 8 else bs_align_1 s = None"
proof (cases "bs_left s = 8")
  case True
  then show ?thesis using assms by (subst bs_align_1.simps) simp
next
  case False
  then show ?thesis
    using bs_align_1_returns [OF assms] bs_align_1_diverges [of s] by (cases "bs_p s < bs_end s") auto
qed

theorem bs_align_1_returns_iff_witness:
  "bs_align_1 (bs_skip (bs_init [0xFF] 1) 13) = None \<and>
    (\<exists>s'. bs_align_1 (bs_skip (bs_init [0xFF] 1) 5) = Some s' \<and> bs_left s' = 8)"
proof -
  have wf: "bs_wf (bs_skip (bs_init [0xFF] 1) 13)" "bs_wf (bs_skip (bs_init [0xFF] 1) 5)"
    by (rule bs_skip_drop(2); simp)+
  have "bs_left (bs_skip (bs_init [0xFF] 1) 13) = 3 \<and> bs_p (bs_skip (bs_init [0xFF] 1) 13) = 1 \<and>
      bs_end (bs_skip (bs_init [0xFF] 1) 13) = 1" by code_simp
  moreover have "bs_p (bs_skip (bs_init [0xFF] 1) 5) = 0 \<and> bs_end (bs_skip (bs_init [0xFF] 1) 5) = 1"
    by code_simp
  ultimately show ?thesis
    using bs_align_1_returns_iff [OF wf(1)] bs_align_1_returns_iff [OF wf(2)] by auto
qed

end
