(* ===== verification/H264Params.thy ===== *)
theory H264Params
  imports VlcBits
begin

text \<open>
  Parameter sets and slice headers: \<open>ParseSqs\<close>, \<open>ParseSlice\<close> and \<open>h264_decode_hrd_parameters\<close> of
  \<open>h264MediaStream.cpp\<close>, and their stand-alone twins in \<open>bit/h264_sps.h\<close>, \<open>bit/h264_slice.h\<close> and \<open>bit/h264.h\<close>.

  The parsers are programs of the state monad over the bit cursor and the structure they fill. The twins
  read the same syntax with the same code, so each part of it is defined once and used by both; they
  differ in how the bytes get into the reader.
\<close>

section \<open>The structures\<close>

record AVRational =
  num :: int
  den :: int

record h264_sps =
  profile_idc :: int
  level_idc :: int
  transform_bypass :: int
  log2_max_frame_num :: int
  poc_type :: int
  log2_max_poc_lsb :: int
  delta_pic_order_always_zero_flag :: int
  offset_for_non_ref_pic :: int
  offset_for_top_to_bottom_field :: int
  poc_cycle_length :: int
  ref_frame_count :: int
  gaps_in_frame_num_allowed_flag :: int
  mb_width :: int
  mb_height :: int
  frame_mbs_only_flag :: int
  mb_aff :: int
  direct_8x8_inference_flag :: int
  crop :: int
  crop_left :: int
  crop_right :: int
  crop_top :: int
  crop_bottom :: int
  vui_parameters_present_flag :: int
  sar :: AVRational
  timing_info_present_flag :: int
  num_units_in_tick :: nat      \<comment> \<open>\<open>uint32_t\<close>\<close>
  time_scale :: nat             \<comment> \<open>\<open>uint32_t\<close>\<close>
  fixed_frame_rate_flag :: int
  offset_for_ref_frame :: "int list"
  bitstream_restriction_flag :: int
  num_reorder_frames :: int
  scaling_matrix_present :: int
  scaling_matrix4 :: "byte list list"
  scaling_matrix8 :: "byte list list"

record h264_slice =
  i_slice_type :: int
  i_frame_num :: int
  i_pic_order_cnt_lsb :: int

section \<open>Reading syntax elements\<close>

text \<open>\<open>'c\<close> is the structure being filled. \<open>rd_int\<close> is \<open>bs_read\<close> whose result goes into an \<open>int\<close>.\<close>

type_synonym ('c, 'a) reader = "(bs \<times> 'c, 'a) state"

definition rd :: "int \<Rightarrow> ('c, uint32) reader" where
  "rd n = State (\<lambda>(s, c). let (v, s) = bs_read s n in (v, (s, c)))"

definition rd_int :: "int \<Rightarrow> ('c, int) reader" where
  "rd_int n = do { v \<leftarrow> rd n; State_Monad.return (sint v) }"

definition flag :: "('c, bool) reader" where
  "flag = do { v \<leftarrow> rd 1; State_Monad.return (v \<noteq> 0) }"

definition ue :: "('c, int) reader" where
  "ue = State (\<lambda>(s, c). let (v, s) = bs_read_ue s in (v, (s, c)))"

definition se :: "('c, int) reader" where
  "se = State (\<lambda>(s, c). let (v, s) = bs_read_se s in (v, (s, c)))"

definition skip :: "int \<Rightarrow> ('c, unit) reader" where
  "skip n = State (\<lambda>(s, c). ((), (bs_skip s n, c)))"

definition upd :: "('c \<Rightarrow> 'c) \<Rightarrow> ('c, unit) reader" where
  "upd f = State (\<lambda>(s, c). ((), (s, f c)))"

text \<open>A counted loop.\<close>

fun times :: "nat \<Rightarrow> ('c, 'a) reader \<Rightarrow> ('c, unit) reader" where
  "times 0 m = State_Monad.return ()"
| "times (Suc n) m = do { m; times n m }"

section \<open>Sequence parameter sets\<close>

definition h264_decode_hrd_parameters :: "('c, unit) reader" where
  "h264_decode_hrd_parameters = do {
     v \<leftarrow> ue;
     rd 4; rd 4;
     times (nat (s32 (v + 1))) (do { ue; ue; rd 1 });
     rd 5; rd 5; rd 5; rd 5;
     State_Monad.return () }"

text \<open>The profile dependent part, up to \<open>log2_max_frame_num\<close>.\<close>

definition sps_high :: "int \<Rightarrow> (h264_sps, unit) reader" where
  "sps_high profile = do {
     upd (scaling_matrix_present_update (\<lambda>_. 0));
     if profile \<ge> 100 then do {
       chroma \<leftarrow> ue;
       (if chroma = 3 then do { rd 1; State_Monad.return () } else State_Monad.return ());
       ue; ue;
       v \<leftarrow> rd_int 1; upd (transform_bypass_update (\<lambda>_. v));
       skip 1 }
     else State_Monad.return () }"

text \<open>Frame numbers, picture order counts and the size.\<close>

definition sps_poc :: "(h264_sps, unit) reader" where
  "sps_poc = do {
     v \<leftarrow> ue; upd (log2_max_frame_num_update (\<lambda>_. if 12 < v then 12 else v));
     poc \<leftarrow> ue; upd (poc_type_update (\<lambda>_. poc));
     if poc = 0 then do {
       v \<leftarrow> ue; upd (log2_max_poc_lsb_update (\<lambda>_. if 12 < v then 12 else v)) }
     else if poc = 1 then do {
       v \<leftarrow> rd_int 1; upd (delta_pic_order_always_zero_flag_update (\<lambda>_. v));
       se; se;
       i_cycle \<leftarrow> ue;
       times (nat (if 256 < i_cycle then 256 else i_cycle)) se }
     else State_Monad.return () }"

definition sps_size :: "(h264_sps, unit) reader" where
  "sps_size = do {
     ue; skip 1;
     w \<leftarrow> ue; upd (mb_width_update (\<lambda>_. s32 (16 * (w + 1))));
     h \<leftarrow> ue; upd (mb_height_update (\<lambda>_. s32 (16 * (h + 1))));
     v \<leftarrow> rd_int 1; upd (frame_mbs_only_flag_update (\<lambda>_. v));
     (if v = 0 then skip 1 else State_Monad.return ());
     skip 1;
     v \<leftarrow> rd_int 1; upd (crop_update (\<lambda>_. v));
     if v \<noteq> 0 then do { ue; ue; ue; ue; State_Monad.return () } else State_Monad.return () }"

definition sar_table :: "(int \<times> int) list" where
  "sar_table =
     [(0, 0), (1, 1), (12, 11), (10, 11),
      (16, 11), (40, 33), (24, 11), (20, 11),
      (32, 11), (80, 33), (18, 11), (15, 11),
      (64, 33), (160, 99), (4, 3), (3, 2),
      (2, 1)]"

definition set_sar :: "int \<Rightarrow> int \<Rightarrow> (h264_sps, unit) reader" where
  "set_sar n d = upd (sar_update (\<lambda>_. \<lparr>num = n, den = d\<rparr>))"

definition sps_sar :: "(h264_sps, unit) reader" where
  "sps_sar = do {
     present \<leftarrow> flag;
     if present then do {
       i_sar \<leftarrow> rd_int 8;
       if i_sar < 17 then (case sar_table ! nat i_sar of (n, d) \<Rightarrow> set_sar n d)
       else if i_sar = 255 then do { n \<leftarrow> rd_int 16; d \<leftarrow> rd_int 16; set_sar n d }
       else set_sar 0 0 }
     else set_sar 0 0 }"

definition sps_video :: "(h264_sps, unit) reader" where
  "sps_video = do {
     overscan \<leftarrow> flag;
     (if overscan then do { rd 1; State_Monad.return () } else State_Monad.return ());
     signal \<leftarrow> flag;
     (if signal then do {
        rd 3; rd 1;
        colour \<leftarrow> flag;
        if colour then do { rd 8; rd 8; rd 8; State_Monad.return () } else State_Monad.return () }
      else State_Monad.return ());
     chroma \<leftarrow> flag;
     if chroma then do { ue; ue; State_Monad.return () } else State_Monad.return () }"

definition sps_timing :: "(h264_sps, unit) reader" where
  "sps_timing = do {
     v \<leftarrow> rd_int 1; upd (timing_info_present_flag_update (\<lambda>_. v));
     if v \<noteq> 0 then do {
       u \<leftarrow> rd 32; upd (num_units_in_tick_update (\<lambda>_. unat u));
       t \<leftarrow> rd 32; upd (time_scale_update (\<lambda>_. unat t));
       f \<leftarrow> rd_int 1; upd (fixed_frame_rate_flag_update (\<lambda>_. f)) }
     else State_Monad.return () }"

definition sps_hrd :: "(h264_sps, unit) reader" where
  "sps_hrd = do {
     nal \<leftarrow> flag;
     (if nal then h264_decode_hrd_parameters else State_Monad.return ());
     vcl \<leftarrow> flag;
     (if vcl then h264_decode_hrd_parameters else State_Monad.return ());
     (if nal \<or> vcl then do { rd 1; State_Monad.return () } else State_Monad.return ());
     rd 1;
     State_Monad.return () }"

text \<open>\<open>num_reorder_frames\<close> is an \<open>unsigned\<close> copy of the value read; both exits return true.\<close>

definition sps_restriction :: "(h264_sps, unit) reader" where
  "sps_restriction = do {
     v \<leftarrow> rd_int 1; upd (bitstream_restriction_flag_update (\<lambda>_. v));
     if v \<noteq> 0 then do {
       rd 1; ue; ue; ue; ue;
       reorder \<leftarrow> ue;
       ue;
       if 16 < u32 reorder then State_Monad.return ()
       else upd (num_reorder_frames_update (\<lambda>_. s32 (int (u32 reorder)))) }
     else State_Monad.return () }"

definition sps_vui :: "(h264_sps, unit) reader" where
  "sps_vui = do {
     v \<leftarrow> rd_int 1; upd (vui_parameters_present_flag_update (\<lambda>_. v));
     if v \<noteq> 0 then do { sps_sar; sps_video; sps_timing; sps_hrd; sps_restriction }
     else State_Monad.return () }"

text \<open>The whole set; false is the early return on an illegal id.\<close>

definition sps_body :: "(h264_sps, bool) reader" where
  "sps_body = do {
     profile \<leftarrow> rd_int 8; upd (profile_idc_update (\<lambda>_. profile));
     skip (1 + 1 + 1 + 5 + 8);
     i_sps_id \<leftarrow> ue;
     if i_sps_id \<ge> 32 then State_Monad.return False
     else do { sps_high profile; sps_poc; sps_size; sps_vui; State_Monad.return True } }"

section \<open>The stand-alone decoder of sequence parameter sets\<close>

text \<open>
  \<open>bit/h264_sps.h\<close> has a decoder of its own, which \<open>ParseSqs\<close> began as a copy of. It is translated a second
  time, from its own lines; that the two do the same is a theorem.
\<close>

definition seq_hrd :: "(h264_sps, unit) reader" where
  "seq_hrd = do {
     v \<leftarrow> ue;
     rd 4;
     rd 4;
     times (nat (s32 (v + 1))) (do { ue; ue; rd 1 });
     rd 5; rd 5; rd 5; rd 5;
     State_Monad.return () }"

definition seq_profile :: "int \<Rightarrow> (h264_sps, unit) reader" where
  "seq_profile profile = do {
     upd (\<lambda>p_sps. p_sps\<lparr>scaling_matrix_present := 0\<rparr>);
     if 100 \<le> profile then do {
       chroma_format_idc \<leftarrow> ue;
       (if chroma_format_idc = 3 then do { rd 1; State_Monad.return () } else State_Monad.return ());
       ue;
       ue;
       bypass \<leftarrow> rd_int 1;
       upd (\<lambda>p_sps. p_sps\<lparr>transform_bypass := bypass\<rparr>);
       skip 1 }
     else State_Monad.return () }"

definition seq_frames :: "(h264_sps, unit) reader" where
  "seq_frames = do {
     log2_max \<leftarrow> ue;
     upd (\<lambda>p_sps. p_sps\<lparr>log2_max_frame_num := (if 12 < log2_max then 12 else log2_max)\<rparr>);
     poc \<leftarrow> ue;
     upd (\<lambda>p_sps. p_sps\<lparr>poc_type := poc\<rparr>);
     (if poc = 0 then do {
        lsb \<leftarrow> ue;
        upd (\<lambda>p_sps. p_sps\<lparr>log2_max_poc_lsb := (if 12 < lsb then 12 else lsb)\<rparr>) }
      else if poc = 1 then do {
        zero \<leftarrow> rd_int 1;
        upd (\<lambda>p_sps. p_sps\<lparr>delta_pic_order_always_zero_flag := zero\<rparr>);
        se;
        se;
        i_cycle \<leftarrow> ue;
        times (nat (if 256 < i_cycle then 256 else i_cycle)) se }
      else State_Monad.return ());
     ue;
     skip 1 }"

definition seq_picture :: "(h264_sps, unit) reader" where
  "seq_picture = do {
     w \<leftarrow> ue;
     upd (\<lambda>p_sps. p_sps\<lparr>mb_width := s32 (16 * (w + 1))\<rparr>);
     h \<leftarrow> ue;
     upd (\<lambda>p_sps. p_sps\<lparr>mb_height := s32 (16 * (h + 1))\<rparr>);
     mbs_only \<leftarrow> rd_int 1;
     upd (\<lambda>p_sps. p_sps\<lparr>frame_mbs_only_flag := mbs_only\<rparr>);
     (if mbs_only = 0 then skip 1 else State_Monad.return ());
     skip 1;
     cropping \<leftarrow> rd_int 1;
     upd (\<lambda>p_sps. p_sps\<lparr>crop := cropping\<rparr>);
     if cropping \<noteq> 0 then do { ue; ue; ue; ue; State_Monad.return () } else State_Monad.return () }"

definition seq_sar_table :: "(int \<times> int) list" where
  "seq_sar_table =
     [(0, 0), (1, 1), (12, 11), (10, 11), (16, 11), (40, 33), (24, 11), (20, 11), (32, 11), (80, 33), (18, 11), (15, 11),
      (64, 33), (160, 99), (4, 3), (3, 2), (2, 1)]"

definition seq_aspect :: "(h264_sps, unit) reader" where
  "seq_aspect = do {
     aspect_ratio_info_present_flag \<leftarrow> flag;
     if aspect_ratio_info_present_flag then do {
       i_sar \<leftarrow> rd_int 8;
       if i_sar < 17 then upd (\<lambda>p_sps. p_sps\<lparr>sar := \<lparr>num = fst (seq_sar_table ! nat i_sar), den = snd (seq_sar_table ! nat i_sar)\<rparr>\<rparr>)
       else if i_sar = 255 then do {
         n \<leftarrow> rd_int 16;
         d \<leftarrow> rd_int 16;
         upd (\<lambda>p_sps. p_sps\<lparr>sar := \<lparr>num = n, den = d\<rparr>\<rparr>) }
       else upd (\<lambda>p_sps. p_sps\<lparr>sar := \<lparr>num = 0, den = 0\<rparr>\<rparr>) }
     else upd (\<lambda>p_sps. p_sps\<lparr>sar := \<lparr>num = 0, den = 0\<rparr>\<rparr>) }"

definition seq_signal :: "(h264_sps, unit) reader" where
  "seq_signal = do {
     overscan_info \<leftarrow> flag;
     (if overscan_info then do { rd 1; State_Monad.return () } else State_Monad.return ());
     video_signal_type \<leftarrow> flag;
     (if video_signal_type then do {
        rd 3;
        rd 1;
        colour_description \<leftarrow> flag;
        if colour_description then do { rd 8; rd 8; rd 8; State_Monad.return () } else State_Monad.return () }
      else State_Monad.return ());
     chroma_location \<leftarrow> flag;
     if chroma_location then do { ue; ue; State_Monad.return () } else State_Monad.return () }"

definition seq_clock :: "(h264_sps, unit) reader" where
  "seq_clock = do {
     present \<leftarrow> rd_int 1;
     upd (\<lambda>p_sps. p_sps\<lparr>timing_info_present_flag := present\<rparr>);
     if present \<noteq> 0 then do {
       units \<leftarrow> rd 32;
       upd (\<lambda>p_sps. p_sps\<lparr>num_units_in_tick := unat units\<rparr>);
       scale \<leftarrow> rd 32;
       upd (\<lambda>p_sps. p_sps\<lparr>time_scale := unat scale\<rparr>);
       fixed \<leftarrow> rd_int 1;
       upd (\<lambda>p_sps. p_sps\<lparr>fixed_frame_rate_flag := fixed\<rparr>) }
     else State_Monad.return () }"

definition seq_delays :: "(h264_sps, unit) reader" where
  "seq_delays = do {
     nal_hrd_parameters_present_flag \<leftarrow> flag;
     (if nal_hrd_parameters_present_flag then seq_hrd else State_Monad.return ());
     vcl_hrd_parameters_present_flag \<leftarrow> flag;
     (if vcl_hrd_parameters_present_flag then seq_hrd else State_Monad.return ());
     (if nal_hrd_parameters_present_flag \<or> vcl_hrd_parameters_present_flag then do { rd 1; State_Monad.return () }
      else State_Monad.return ());
     rd 1;
     State_Monad.return () }"

definition seq_reorder :: "(h264_sps, unit) reader" where
  "seq_reorder = do {
     present \<leftarrow> rd_int 1;
     upd (\<lambda>p_sps. p_sps\<lparr>bitstream_restriction_flag := present\<rparr>);
     if present \<noteq> 0 then do {
       rd 1;
       ue;
       ue;
       ue;
       ue;
       frames \<leftarrow> ue;
       ue;
       if 16 < u32 frames then State_Monad.return ()
       else upd (\<lambda>p_sps. p_sps\<lparr>num_reorder_frames := s32 (int (u32 frames))\<rparr>) }
     else State_Monad.return () }"

definition seq_usability :: "(h264_sps, unit) reader" where
  "seq_usability = do {
     present \<leftarrow> rd_int 1;
     upd (\<lambda>p_sps. p_sps\<lparr>vui_parameters_present_flag := present\<rparr>);
     if present \<noteq> 0 then do { seq_aspect; seq_signal; seq_clock; seq_delays; seq_reorder }
     else State_Monad.return () }"

definition seq_body :: "(h264_sps, bool) reader" where
  "seq_body = do {
     profile \<leftarrow> rd_int 8;
     upd (\<lambda>p_sps. p_sps\<lparr>profile_idc := profile\<rparr>);
     skip (1 + 1 + 1 + 5 + 8);
     i_sps_id \<leftarrow> ue;
     if 32 \<le> i_sps_id then State_Monad.return False
     else do { seq_profile profile; seq_frames; seq_picture; seq_usability; State_Monad.return True } }"

definition h264_decode_seq_parameter_set :: "byte list \<Rightarrow> nat \<Rightarrow> h264_sps \<Rightarrow> bool \<times> h264_sps" where
  "h264_decode_seq_parameter_set p_nal n_nal_size p_sps =
     (let (ok, (s, sps)) = run_state seq_body (bs_init p_nal n_nal_size, p_sps) in (ok, sps))"

text \<open>Part by part the two decoders do the same.\<close>

lemma seq_parts:
  "seq_hrd = h264_decode_hrd_parameters"
  "seq_profile = sps_high"
  "do { seq_frames; do { seq_picture; rest } } = do { sps_poc; do { sps_size; rest } }"
  "seq_aspect = sps_sar"
  "seq_signal = sps_video"
  "seq_clock = sps_timing"
  "seq_reorder = sps_restriction"
proof -
  show "seq_hrd = h264_decode_hrd_parameters" by (simp add: seq_hrd_def h264_decode_hrd_parameters_def)
  show "seq_profile = sps_high" by (simp add: seq_profile_def sps_high_def fun_eq_iff)
  show "do { seq_frames; do { seq_picture; rest } } = do { sps_poc; do { sps_size; rest } }"
    by (simp add: seq_frames_def seq_picture_def sps_poc_def sps_size_def)
  show "seq_aspect = sps_sar"
    by (simp add: seq_aspect_def sps_sar_def set_sar_def seq_sar_table_def sar_table_def case_prod_beta cong: if_cong)
  show "seq_signal = sps_video" by (simp add: seq_signal_def sps_video_def)
  show "seq_clock = sps_timing" by (simp add: seq_clock_def sps_timing_def)
  show "seq_reorder = sps_restriction" by (simp add: seq_reorder_def sps_restriction_def)
qed

lemma seq_vui: "seq_delays = sps_hrd" "seq_usability = sps_vui"
  proof -
  show hrds: "seq_delays = sps_hrd" by (simp add: seq_delays_def sps_hrd_def seq_parts(1) cong: if_cong)
  show "seq_usability = sps_vui" by (simp add: seq_usability_def sps_vui_def seq_parts(4-7) hrds cong: if_cong)
qed

lemma seq_body_same: "seq_body = sps_body"
  by (simp add: seq_body_def sps_body_def seq_parts(2,3) seq_vui cong: if_cong)

section \<open>\<open>ParseSqs\<close>\<close>

text \<open>
  \<open>ParseSqs\<close> copies the unit without its header and without emulation prevention bytes to a new array
  \<open>p_nal\<close>, and reads as many bytes as the unit had, also those behind the copy: \<open>mem\<close> is what the fresh
  array holds there. The copy writes fewer bytes than the array has.
\<close>

function sps_copy :: "byte list \<Rightarrow> nat \<Rightarrow> nat \<Rightarrow> byte list \<Rightarrow> byte list res" where
  "sps_copy pb_dec i_dec tmp p_nal =
     (if tmp < i_dec then
        andThen (if int tmp < int i_dec - 3 then
            andThen (at pb_dec tmp) (\<lambda>a. if a \<noteq> 0 then Inr False else
            andThen (at pb_dec (tmp + 1)) (\<lambda>b. if b \<noteq> 0 then Inr False else
            andThen (at pb_dec (tmp + 2)) (\<lambda>c. Inr (c = 3))))
          else Inr False) (\<lambda>emulation.
        if emulation then sps_copy pb_dec i_dec (tmp + 3) (p_nal @ [0, 0])
        else andThen (at pb_dec tmp) (\<lambda>a. sps_copy pb_dec i_dec (tmp + 1) (p_nal @ [a])))
      else Inr p_nal)"
  by pat_completeness auto
termination
  by (relation "measure (\<lambda>(pb_dec, i_dec, tmp, p_nal). i_dec - tmp)") auto

declare sps_copy.simps [simp del]

definition ParseSqs_bytes :: "(nat \<Rightarrow> byte) \<Rightarrow> byte list \<Rightarrow> nat \<Rightarrow> h264_sps \<Rightarrow> (bool \<times> h264_sps) res" where
  "ParseSqs_bytes mem pb_dec i_dec StreamSps =
     andThen (sps_copy pb_dec i_dec 1 []) (\<lambda>p_nal.
     let (ok, (s, sps)) = run_state sps_body
           (bs_init (p_nal @ map mem [length p_nal..<i_dec]) i_dec, StreamSps)
     in Inr (ok, sps))"

section \<open>Slice headers\<close>

definition slice_body :: "h264_sps \<Rightarrow> int \<Rightarrow> (h264_slice, unit) reader" where
  "slice_body sps i_nal_type = do {
     ue;
     t \<leftarrow> ue; upd (i_slice_type_update (\<lambda>_. t));
     ue;
     f \<leftarrow> rd_int (s32 (log2_max_frame_num sps + 4)); upd (i_frame_num_update (\<lambda>_. f));
     (if frame_mbs_only_flag sps = 0 then do {
        field \<leftarrow> rd_int 1;
        if field \<noteq> 0 then do { rd 1; State_Monad.return () } else State_Monad.return () }
      else State_Monad.return ());
     (if i_nal_type = 5 then do { ue; State_Monad.return () } else State_Monad.return ());
     upd (i_pic_order_cnt_lsb_update (\<lambda>_. 0));
     if poc_type sps = 0 then do {
       v \<leftarrow> rd_int (s32 (log2_max_poc_lsb sps + 4)); upd (i_pic_order_cnt_lsb_update (\<lambda>_. v)) }
     else if poc_type sps = 1 \<and> delta_pic_order_always_zero_flag sps = 0 then do {
       se; State_Monad.return () }
     else State_Monad.return () }"

text \<open>The stand-alone decoder of \<open>bit/h264_slice.h\<close>, from its own lines.\<close>

definition decode_slice_body :: "h264_sps \<Rightarrow> int \<Rightarrow> (h264_slice, unit) reader" where
  "decode_slice_body p_sps i_nal_type = do {
     ue;
     slice_type \<leftarrow> ue;
     upd (\<lambda>p_slice. p_slice\<lparr>i_slice_type := slice_type\<rparr>);
     ue;
     frame_num \<leftarrow> rd_int (s32 (log2_max_frame_num p_sps + 4));
     upd (\<lambda>p_slice. p_slice\<lparr>i_frame_num := frame_num\<rparr>);
     (if frame_mbs_only_flag p_sps = 0 then do {
        i_field_pic_flag \<leftarrow> rd_int 1;
        if i_field_pic_flag \<noteq> 0 then do { rd 1; State_Monad.return () } else State_Monad.return () }
      else State_Monad.return ());
     (if i_nal_type = 5 then do { ue; State_Monad.return () } else State_Monad.return ());
     upd (\<lambda>p_slice. p_slice\<lparr>i_pic_order_cnt_lsb := 0\<rparr>);
     if poc_type p_sps = 0 then do {
       lsb \<leftarrow> rd_int (s32 (log2_max_poc_lsb p_sps + 4));
       upd (\<lambda>p_slice. p_slice\<lparr>i_pic_order_cnt_lsb := lsb\<rparr>) }
     else if poc_type p_sps = 1 \<and> delta_pic_order_always_zero_flag p_sps = 0 then do { se; State_Monad.return () }
     else State_Monad.return () }"

definition h264_decode_slice :: "h264_slice \<Rightarrow> byte list \<Rightarrow> nat \<Rightarrow> int \<Rightarrow> h264_sps \<Rightarrow> h264_slice" where
  "h264_decode_slice p_slice p_nal n_nal_size i_nal_type p_sps =
     snd (snd (run_state (decode_slice_body p_sps i_nal_type) (bs_init p_nal n_nal_size, p_slice)))"

lemma decode_slice_same: "decode_slice_body = slice_body"
  by (intro ext) (simp add: decode_slice_body_def slice_body_def)

text \<open>
  The copy of \<open>ParseSlice\<close> into its array of 64 zero bytes. \<open>p_nal\<close> is the memory from the pointer to the
  end of the node's array.
\<close>

function slice_copy :: "byte list \<Rightarrow> int \<Rightarrow> nat \<Rightarrow> byte list \<Rightarrow> byte list res" where
  "slice_copy p_nal parcount t p_slice =
     (if int t < parcount then
        andThen (if int t < parcount - 2 then
            andThen (at p_nal t) (\<lambda>a. if a \<noteq> 0 then Inr False else
            andThen (at p_nal (t + 1)) (\<lambda>b. if b \<noteq> 0 then Inr False else
            andThen (at p_nal (t + 2)) (\<lambda>c. Inr (c = 3))))
          else Inr False) (\<lambda>emulation.
        if emulation then slice_copy p_nal parcount (t + 3) (p_slice @ [0, 0])
        else andThen (at p_nal t) (\<lambda>a. slice_copy p_nal parcount (t + 1) (p_slice @ [a])))
      else Inr p_slice)"
  by pat_completeness auto
termination
  by (relation "measure (\<lambda>(p_nal, parcount, t, p_slice). nat (parcount - int t))") auto

declare slice_copy.simps [simp del]

definition ParseSlice_bytes ::
  "h264_sps option \<Rightarrow> h264_slice \<Rightarrow> byte list \<Rightarrow> int \<Rightarrow> int \<Rightarrow> h264_slice res" where
  "ParseSlice_bytes StreamSps CurSlice p_nal n_nal_size i_nal_type =
     andThen (slice_copy p_nal (if 64 < n_nal_size then 64 else n_nal_size) 0 []) (\<lambda>p_slice.
     case StreamSps of
       None \<Rightarrow> Inl NullPointer
     | Some sps \<Rightarrow> Inr (snd (snd (run_state (slice_body sps i_nal_type)
         (bs_init (p_slice @ replicate (64 - length p_slice) 0) (length p_slice), CurSlice)))))"

section \<open>The helpers of \<open>bit/h264.h\<close>\<close>

definition h264_get_nal_type :: "byte list \<Rightarrow> int res" where
  "h264_get_nal_type p_nal = andThen (at p_nal 3) (\<lambda>b. Inr (uint (b AND 0x1f)))"

function decode_annexb_loop :: "byte list \<Rightarrow> byte list \<Rightarrow> byte list" where
  "decode_annexb_loop src dst =
     (if src \<noteq> [] then
        if 3 < length src \<and> src ! 0 = 0 \<and> src ! 1 = 0 \<and> src ! 2 = 3
        then decode_annexb_loop (drop 3 src) (dst @ [0, 0])
        else decode_annexb_loop (tl src) (dst @ [hd src])
      else dst)"
  by pat_completeness auto
termination
  by (relation "measure (\<lambda>(src, dst). length src)") auto

declare decode_annexb_loop.simps [simp del]

definition h264_decode_annexb :: "byte list \<Rightarrow> byte list" where
  "h264_decode_annexb src = decode_annexb_loop src []"

function frame_end_scan :: "byte list \<Rightarrow> nat \<Rightarrow> nat \<Rightarrow> bool res" where
  "frame_end_scan p_nal nal_length i =
     (if i < nal_length then andThen (at p_nal i) (\<lambda>b.
        if b AND 0x80 \<noteq> 0 then Inr True else frame_end_scan p_nal nal_length (i + 1))
      else Inr False)"
  by pat_completeness auto
termination
  by (relation "measure (\<lambda>(p_nal, nal_length, i). nal_length - i)") auto

declare frame_end_scan.simps [simp del]

text \<open>The result and the flag \<open>p_found_frame_start\<close> afterwards.\<close>

definition h264_find_frame_end :: "bool \<Rightarrow> byte list \<Rightarrow> nat \<Rightarrow> int \<Rightarrow> (bool \<times> bool) res" where
  "h264_find_frame_end found p_nal nal_length i_nal_type =
     (let found = (if i_nal_type = 1 \<or> i_nal_type = 2 \<or> i_nal_type = 5 then True else found);
          found = (if i_nal_type = 7 \<or> i_nal_type = 8 \<or> i_nal_type = 9 then False else found)
      in if found then andThen (frame_end_scan p_nal nal_length 3) (\<lambda>marker.
           if marker then Inr (True, False) else Inr (False, found))
         else Inr (False, found))"

lemma frame_end_scan_eq:
  assumes "nal_length \<le> length p_nal"
  shows "frame_end_scan p_nal nal_length i = Inr (\<exists>j \<in> set [i..<nal_length]. p_nal ! j AND 0x80 \<noteq> 0)"
  using assms
proof (induction "nal_length - i" arbitrary: i)
  case 0
  then show ?case by (simp add: frame_end_scan.simps [of p_nal nal_length i])
next
  case (Suc k)
  then have "i < nal_length" "frame_end_scan p_nal nal_length (i + 1) =
      Inr (\<exists>j \<in> set [i + 1..<nal_length]. p_nal ! j AND 0x80 \<noteq> 0)" by simp_all
  with Suc.prems show ?case
    by (simp add: frame_end_scan.simps [of p_nal nal_length i] at_def upt_conv_Cons)
qed

section \<open>Emulation prevention\<close>

text \<open>
  The encoder's side of the standard: a byte 3 goes before a byte of at most 3 that would follow two zeros.
  \<open>z\<close> counts the zeros just written.
\<close>

fun escape :: "nat \<Rightarrow> byte list \<Rightarrow> byte list" where
  "escape z [] = []"
| "escape z (b # bs) =
     (if z = 2 \<and> b \<le> 3 then 3 # b # escape (if b = 0 then 1 else 0) bs
      else b # escape (if b = 0 then z + 1 else 0) bs)"

fun zeros :: "nat \<Rightarrow> byte list \<Rightarrow> nat" where
  "zeros z [] = z"
| "zeros z (b # bs) = zeros (if b = 0 then (if z = 2 then 1 else z + 1) else 0) bs"

text \<open>What the three copying loops compute; they differ in how many bytes must be left, 4 or 3.\<close>

function strip :: "nat \<Rightarrow> byte list \<Rightarrow> byte list" where
  "strip k xs =
     (if xs = [] then []
      else if k \<le> length xs \<and> xs ! 0 = 0 \<and> xs ! 1 = 0 \<and> xs ! 2 = 3 then [0, 0] @ strip k (drop 3 xs)
      else hd xs # strip k (tl xs))"
  by pat_completeness auto
termination
  by (relation "measure (\<lambda>(k, xs). length xs)") auto

declare strip.simps [simp del]

lemma strip_Nil [simp]: "strip k [] = []"
  by (simp add: strip.simps)

lemma strip_other [simp]: "b \<noteq> 0 \<Longrightarrow> strip k (b # xs) = b # strip k xs"
  by (simp add: strip.simps [of k "b # xs"])

lemma strip_zero_other: "c \<noteq> 0 \<Longrightarrow> strip k (0 # c # xs) = 0 # c # strip k xs"
  by (subst strip.simps) simp

lemma strip_zeros_other: "c \<noteq> 0 \<Longrightarrow> c \<noteq> 3 \<Longrightarrow> strip k (0 # 0 # c # xs) = 0 # 0 # c # strip k xs"
  by (subst strip.simps) (simp add: strip_zero_other)

lemma strip_emulation: "k \<le> length xs + 3 \<Longrightarrow> strip k (0 # 0 # 3 # xs) = 0 # 0 # strip k xs"
  by (subst strip.simps) simp

lemma strip_one_zero: "3 \<le> k \<Longrightarrow> strip k [0] = [0]"
  by (subst strip.simps) simp

lemma strip_two_zeros: "3 \<le> k \<Longrightarrow> strip k [0, 0] = [0, 0]"
  by (subst strip.simps) (simp add: strip_one_zero)

text \<open>\<open>z\<close> zeros that are still pending in front of the escaped rest, by cases.\<close>

lemma strip_escape:
  assumes "3 \<le> k" and "k \<le> 4" and "z \<le> 2" and "t = [] \<or> k = 3 \<and> t = [3] \<and> zeros z xs = 2"
  shows "strip k (replicate z 0 @ escape z xs @ t) = replicate z 0 @ xs"
  using assms(3,4)
proof (induction xs arbitrary: z)
  case Nil
  have "z = 0 \<or> z = 1 \<or> z = 2" using Nil.prems(1) by linarith
  with Nil.prems(2) consider "z = 0" "t = []" | "z = 1" "t = []" | "z = 2" "t = []" | "z = 2" "t = [3]" "k = 3"
    by (cases "t = []") fastforce+
  then show ?case
  proof cases
    case 4
    then show ?thesis using strip_emulation [of k "[]"] by (simp add: numeral_2_eq_2)
  qed (use assms(1) strip_one_zero strip_two_zeros in \<open>auto simp: numeral_2_eq_2\<close>)
next
  case (Cons b bs)
  show ?case
  proof (cases "z = 2 \<and> b \<le> 3")
    case True
    have tail: "strip k (b # escape (if b = 0 then 1 else 0) bs @ t) = b # bs"
    proof (cases "b = 0")
      case b: True
      then show ?thesis using Cons.IH [of 1] Cons.prems True by simp
    next
      case b: False
      then show ?thesis using Cons.IH [of 0] Cons.prems True by simp
    qed
    have "k \<le> length (b # escape (if b = 0 then 1 else 0) bs @ t) + 3" using assms(2) by simp
    from strip_emulation [OF this] show ?thesis using True tail by (simp add: numeral_2_eq_2)
  next
    case False
    show ?thesis
    proof (cases "b = 0")
      case b: True
      have "b \<le> 3" using b by simp
      then have "z < 2" using False Cons.prems(1) by auto
      then show ?thesis using Cons.IH [of "Suc z"] Cons.prems b by (simp add: replicate_app_Cons_same)
    next
      case b: False
      have IH: "strip k (escape 0 bs @ t) = bs" using Cons.IH [of 0] Cons.prems b by simp
      consider "z = 0" | "z = 1" | "z = 2" "b \<noteq> 3" using False Cons.prems(1) by fastforce
      then show ?thesis
        using b False IH by cases (simp_all add: strip_zero_other strip_zeros_other numeral_2_eq_2)
    qed
  qed
qed

text \<open>A truncated escaped string is the escape of a prefix, or that and an emulation byte.\<close>

lemma take_escape:
  assumes "z \<le> 2"
  shows "\<exists>m t. take n (escape z xs) = escape z (take m xs) @ t \<and> (t = [] \<or> t = [3] \<and> zeros z (take m xs) = 2)"
  using assms
proof (induction xs arbitrary: z n)
  case (Cons b bs)
  show ?case
  proof (cases "n = 0")
    case True
    then show ?thesis by (intro exI [of _ 0] exI [of _ "[]"]) simp
  next
    case n: False
    then obtain n' where n': "n = Suc n'" by (cases n) auto
    show ?thesis
    proof (cases "z = 2 \<and> b \<le> 3")
      case True
      show ?thesis
      proof (cases n')
        case 0
        then show ?thesis using True n' by (intro exI [of _ 0] exI [of _ "[3]"]) simp
      next
        case (Suc n'')
        have "(if b = 0 then 1 else 0 :: nat) \<le> 2" by simp
        then obtain m t where "take n'' (escape (if b = 0 then 1 else 0) bs) = escape (if b = 0 then 1 else 0) (take m bs) @ t"
            "t = [] \<or> t = [3] \<and> zeros (if b = 0 then 1 else 0) (take m bs) = 2"
          using Cons.IH by blast
        then show ?thesis using True n' Suc by (intro exI [of _ "Suc m"] exI [of _ t]) auto
      qed
    next
      case False
      let ?z = "if b = 0 then z + 1 else 0"
      have "b \<le> 3" if "b = 0" using that by simp
      then have z: "?z \<le> 2" "b = 0 \<Longrightarrow> z \<noteq> 2" using False Cons.prems by auto
      obtain m t where "take n' (escape ?z bs) = escape ?z (take m bs) @ t"
          "t = [] \<or> t = [3] \<and> zeros ?z (take m bs) = 2"
        using Cons.IH [OF z(1)] by blast
      then show ?thesis using False n' z(2) by (intro exI [of _ "Suc m"] exI [of _ t]) auto
    qed
  qed
qed simp

lemma length_escape: "z \<le> 2 \<Longrightarrow> 2 * length (escape z xs) \<le> 3 * length xs + z"
proof (induction xs arbitrary: z)
  case (Cons b bs)
  have "b \<le> 3" if "b = 0" using that by simp
  then show ?case
    using Cons.IH [of 1] Cons.IH [of 0] Cons.IH [of "Suc z"] Cons.prems by (cases "z = 2") auto
qed simp

text \<open>The loops compute \<open>strip\<close>.\<close>

lemma decode_annexb_strip: "h264_decode_annexb src = strip 4 src"
proof -
  have "decode_annexb_loop src dst = dst @ strip 4 src" for dst
  proof (induction src dst rule: decode_annexb_loop.induct)
    case (1 src dst)
    then show ?case
      by (subst decode_annexb_loop.simps, subst strip.simps) (simp add: Suc_le_eq numeral_eq_Suc)
  qed
  then show ?thesis by (simp add: h264_decode_annexb_def)
qed

lemma drop_take_nth: "t + j < n \<Longrightarrow> n \<le> length xs \<Longrightarrow> drop t (take n xs) ! j = xs ! (t + j)"
  by simp

lemma sps_copy_strip:
  assumes "n \<le> length pb"
  shows "sps_copy pb n t out = Inr (out @ strip 4 (drop t (take n pb)))"
proof (induction "n - t" arbitrary: t out rule: less_induct)
  case less
  let ?xs = "drop t (take n pb)"
  show ?case
  proof (cases "t < n")
    case False
    then show ?thesis by (subst sps_copy.simps) simp
  next
    case True
    have nth: "?xs ! j = pb ! (t + j)" if "t + j < n" for j using that assms by simp
    have len: "length ?xs = n - t" using assms by simp
    have hd: "hd ?xs = pb ! t" "tl ?xs = drop (t + 1) (take n pb)" "drop 3 ?xs = drop (t + 3) (take n pb)"
      using True assms nth [of 0] len by (simp_all add: hd_conv_nth tl_drop drop_Suc [symmetric] add.commute)
    have "4 \<le> length ?xs \<and> ?xs ! 0 = 0 \<and> ?xs ! 1 = 0 \<and> ?xs ! 2 = 3 \<longleftrightarrow>
        int t < int n - 3 \<and> pb ! t = 0 \<and> pb ! (t + 1) = 0 \<and> pb ! (t + 2) = 3"
      using nth [of 0] nth [of 1] nth [of 2] len by auto
    moreover have "n - (t + 3) < n - t" "n - (t + 1) < n - t" using True by simp_all
    note IH = less [OF this(1), of "out @ [0, 0]"] less [OF this(2), of "out @ [pb ! t]"]
    ultimately show ?thesis
      using True assms hd len IH by (subst sps_copy.simps, subst strip.simps) auto
  qed
qed

lemma slice_copy_strip:
  assumes "n \<le> length p"
  shows "slice_copy p (int n) t out = Inr (out @ strip 3 (drop t (take n p)))"
proof (induction "n - t" arbitrary: t out rule: less_induct)
  case less
  let ?xs = "drop t (take n p)"
  show ?case
  proof (cases "t < n")
    case False
    then show ?thesis by (subst slice_copy.simps) simp
  next
    case True
    have nth: "?xs ! j = p ! (t + j)" if "t + j < n" for j using that assms by simp
    have len: "length ?xs = n - t" using assms by simp
    have hd: "hd ?xs = p ! t" "tl ?xs = drop (t + 1) (take n p)" "drop 3 ?xs = drop (t + 3) (take n p)"
      using True assms nth [of 0] len by (simp_all add: hd_conv_nth tl_drop drop_Suc [symmetric] add.commute)
    have "3 \<le> length ?xs \<and> ?xs ! 0 = 0 \<and> ?xs ! 1 = 0 \<and> ?xs ! 2 = 3 \<longleftrightarrow>
        int t < int n - 2 \<and> p ! t = 0 \<and> p ! (t + 1) = 0 \<and> p ! (t + 2) = 3"
      using nth [of 0] nth [of 1] nth [of 2] len by auto
    moreover have "n - (t + 3) < n - t" "n - (t + 1) < n - t" using True by simp_all
    note IH = less [OF this(1), of "out @ [0, 0]"] less [OF this(2), of "out @ [p ! t]"]
    ultimately show ?thesis
      using True assms hd len IH by (subst slice_copy.simps, subst strip.simps) auto
  qed
qed

section \<open>What a reader consumes and yields\<close>

text \<open>
  From any cursor before \<open>bits\<close>, \<open>m\<close> returns \<open>v\<close>, turns the structure \<open>c\<close> into \<open>c'\<close> and stops behind
  \<open>bits\<close>. The rules follow the code one call at a time.
\<close>

definition yields :: "('c, 'a) reader \<Rightarrow> 'c \<Rightarrow> bool list \<Rightarrow> 'a \<Rightarrow> 'c \<Rightarrow> bool" where
  "yields m c bits v c' \<longleftrightarrow>
     (\<forall>s rest. bs_at s (bits @ rest) \<longrightarrow> (\<exists>s'. run_state m (s, c) = (v, (s', c')) \<and> bs_at s' rest))"

named_theorems yields_rules \<open>one rule per call of the bit reader\<close>

lemma yields_run:
  assumes "yields m c bits v c'" and "bs_at s (bits @ rest)"
  obtains s' where "run_state m (s, c) = (v, (s', c'))" and "bs_at s' rest"
  using assms by (auto simp: yields_def)

lemma yields_bind:
  assumes "yields m c bits v c1" and "yields (f v) c1 rest w c2"
  shows "yields (State_Monad.bind m f) c (bits @ rest) w c2"
  unfolding yields_def
proof (intro allI impI)
  fix s r assume "bs_at s ((bits @ rest) @ r)"
  then have "bs_at s (bits @ (rest @ r))" by simp
  then obtain s1 where s1: "run_state m (s, c) = (v, (s1, c1))" "bs_at s1 (rest @ r)"
    using yields_run [OF assms(1)] by metis
  then obtain s2 where "run_state (f v) (s1, c1) = (w, (s2, c2))" "bs_at s2 r"
    using yields_run [OF assms(2)] by metis
  with s1 show "\<exists>s'. run_state (State_Monad.bind m f) (s, c) = (w, (s', c2)) \<and> bs_at s' r" by auto
qed

lemma yields_return [yields_rules]: "yields (State_Monad.return v) c [] v c"
  by (simp add: yields_def)

lemma yields_upd_last [yields_rules]: "yields (upd f) c [] () (f c)"
  by (simp add: yields_def upd_def)

lemma yields_upd [yields_rules]: "yields (f ()) (g c) rest w c2 \<Longrightarrow> yields (State_Monad.bind (upd g) f) c rest w c2"
  by (simp add: yields_def upd_def)

lemma yields_ue [yields_rules]:
  assumes "v < 2 ^ 31" and "yields (f (int v)) c rest w c2"
  shows "yields (State_Monad.bind ue f) c (ue_code v @ rest) w c2"
proof -
  have "yields ue c (ue_code v) (int v) c"
    unfolding yields_def
  proof (intro allI impI)
    fix s r assume "bs_at s (ue_code v @ r)"
    with bs_read_ue_at [OF this assms(1)]
    show "\<exists>s'. run_state ue (s, c) = (int v, (s', c)) \<and> bs_at s' r" by (auto simp: ue_def case_prod_beta)
  qed
  then show ?thesis by (rule yields_bind) (rule assms(2))
qed

lemma yields_se_last [yields_rules]:
  assumes "\<bar>v\<bar> < 2 ^ 30"
  shows "yields se c (se_code v) v c"
  unfolding yields_def
proof (intro allI impI)
  fix s r assume "bs_at s (se_code v @ r)"
  with bs_read_se_at [OF this assms]
  show "\<exists>s'. run_state se (s, c) = (v, (s', c)) \<and> bs_at s' r" by (auto simp: se_def case_prod_beta)
qed

lemma yields_se [yields_rules]:
  assumes "\<bar>v\<bar> < 2 ^ 30" and "yields (f v) c rest w c2"
  shows "yields (State_Monad.bind se f) c (se_code v @ rest) w c2"
  by (rule yields_bind, rule yields_se_last [OF assms(1)], rule assms(2))

lemma yields_rd_last:
  assumes "n = int k" and "v < 2 ^ k" and "k \<le> 32"
  shows "yields (rd n) c (to_bits k v) (word_of_nat v) c"
  unfolding yields_def
proof (intro allI impI)
  fix s r assume "bs_at s (to_bits k v @ r)"
  with bs_read_at [OF this assms(2,3)]
  show "\<exists>s'. run_state (rd n) (s, c) = (word_of_nat v, (s', c)) \<and> bs_at s' r"
    by (auto simp: rd_def assms(1) case_prod_beta)
qed

lemma yields_rd:
  assumes "n = int k" and "v < 2 ^ k" and "k \<le> 32" and "yields (f (word_of_nat v)) c rest w c2"
  shows "yields (State_Monad.bind (rd n) f) c (to_bits k v @ rest) w c2"
  by (rule yields_bind, rule yields_rd_last [OF assms(1-3)], rule assms(4))

lemma yields_rd_int:
  assumes "n = int k" and "v < 2 ^ k" and "k < 32" and "yields (f (int v)) c rest w c2"
  shows "yields (State_Monad.bind (rd_int n) f) c (to_bits k v @ rest) w c2"
proof -
  have "(2 :: nat) ^ k \<le> 2 ^ 31" using assms(3) by (intro power_increasing) auto
  then have "sint (word_of_nat v :: uint32) = int v" using assms(2) by (intro sint_word_of_nat) linarith
  then show ?thesis
    unfolding rd_int_def State_Monad.bind_assoc bind_left_identity
    using assms(3,4) by (intro yields_rd [OF assms(1,2)]) simp_all
qed

text \<open>Bits that are read and forgotten, single bits, and skipped bits.\<close>

lemma to_bits_one: "to_bits 1 (of_bool b) = [b]"
  using to_bits_Suc [of 0 "of_bool b"] by (simp add: bit_0)

lemma yields_rd_bits:
  assumes "n = int (length bits)" and "length bits \<le> 32" and "yields m c rest w c2"
  shows "yields (State_Monad.bind (rd n) (\<lambda>_. m)) c (bits @ rest) w c2"
proof -
  have "bits_val bits < 2 ^ length bits" by (rule bits_val_less)
  from yields_rd [OF assms(1) this assms(2,3)] show ?thesis by (simp add: to_bits_bits_val)
qed

lemma yields_rd_int1:
  assumes "yields (f (of_bool b)) c rest w c2"
  shows "yields (State_Monad.bind (rd_int 1) f) c ([b] @ rest) w c2"
proof -
  have "yields (State_Monad.bind (rd_int 1) f) c (to_bits 1 (of_bool b) @ rest) w c2"
    using assms by (intro yields_rd_int) (cases b; simp)+
  then show ?thesis unfolding to_bits_one .
qed

lemma yields_flag:
  assumes "yields (f b) c rest w c2"
  shows "yields (State_Monad.bind flag f) c ([b] @ rest) w c2"
proof -
  have "yields (State_Monad.bind flag f) c (to_bits 1 (of_bool b) @ rest) w c2"
    unfolding flag_def State_Monad.bind_assoc bind_left_identity
    using assms by (intro yields_rd) (cases b; simp)+
  then show ?thesis unfolding to_bits_one .
qed

lemma yields_skip_last: "n = int (length bits) \<Longrightarrow> yields (skip n) c bits () c"
  using bs_skip_at [of _ bits _ "length bits"] by (simp add: yields_def skip_def)

lemma yields_skip:
  assumes "n = int (length bits)" and "yields (f ()) c rest w c2"
  shows "yields (State_Monad.bind (skip n) f) c (bits @ rest) w c2"
  by (rule yields_bind, rule yields_skip_last [OF assms(1)], rule assms(2))

lemma yields_times:
  assumes "\<And>bits. bits \<in> set bl \<Longrightarrow> \<exists>v. yields m c bits v c"
  shows "yields (times (length bl) m) c (concat bl) () c"
  using assms
proof (induction bl)
  case Nil
  then show ?case by (simp add: yields_return)
next
  case (Cons bits bl)
  then obtain v where "yields m c bits v c" by auto
  with Cons show ?case by (auto intro: yields_bind)
qed

lemma yields_nil: "yields m c (bits @ []) v c' \<Longrightarrow> yields m c bits v c'"
  by simp

end
