(* ===== verification/H264Syntax.thy ===== *)
theory H264Syntax
  imports H264Params
begin

text \<open>
  The other side of the parsers of \<open>H264Params\<close>: the syntax of sequence parameter sets and slice headers as
  the H.264 standard writes it, and the round trips through the code that reads it.

  \<open>sps_bits\<close> and \<open>slice_bits\<close> write a header to bits; \<open>sps_fill\<close> and \<open>slice_fill\<close> say what the parser must leave
  in the structure. Scaling matrices and the plane of a slice are the parts of the syntax that the code does not read;
  sets with scaling matrices are not written here.
\<close>

section \<open>Syntax\<close>

record hrd =
  hrd_scales :: "bool list"
  hrd_cpb :: "(nat \<times> nat \<times> bool) list"
  hrd_lengths :: "bool list"

record sps_syntax =
  x_profile :: nat
  x_level :: "bool list"
  x_id :: nat
  x_chroma :: nat
  x_plane :: bool
  x_luma_depth :: nat
  x_chroma_depth :: nat
  x_bypass :: bool
  x_frame_num :: nat
  x_poc_type :: nat
  x_poc_lsb :: nat
  x_delta_zero :: bool
  x_non_ref :: int
  x_top_bottom :: int
  x_offsets :: "int list"
  x_refs :: nat
  x_gaps :: bool
  x_width :: nat
  x_height :: nat
  x_mbs_only :: bool
  x_adaptive :: bool
  x_direct :: bool
  x_crop :: "(nat \<times> nat \<times> nat \<times> nat) option"
  x_vui :: bool
  x_sar :: "(nat \<times> nat \<times> nat) option"
  x_overscan :: "bool option"
  x_signal :: "(bool list \<times> bool \<times> bool list option) option"
  x_chroma_loc :: "(nat \<times> nat) option"
  x_timing :: "(nat \<times> nat \<times> bool) option"
  x_nal_hrd :: "hrd option"
  x_vcl_hrd :: "hrd option"
  x_low_delay :: bool
  x_pic_struct :: bool
  x_restriction :: "(bool \<times> nat \<times> nat \<times> nat \<times> nat \<times> nat \<times> nat) option"

text \<open>An optional part behind its flag.\<close>

definition opt_bits :: "('a \<Rightarrow> bool list) \<Rightarrow> 'a option \<Rightarrow> bool list" where
  "opt_bits f x = [x \<noteq> None] @ (if x \<noteq> None then f (the x) else [])"

definition high_bits :: "sps_syntax \<Rightarrow> bool list" where
  "high_bits x =
     ue_code (x_chroma x) @ (if x_chroma x = 3 then [x_plane x] @ [] else []) @
     ue_code (x_luma_depth x) @ ue_code (x_chroma_depth x) @ [x_bypass x] @ [False] @ []"

definition poc_bits :: "sps_syntax \<Rightarrow> bool list" where
  "poc_bits x =
     ue_code (x_frame_num x) @ ue_code (x_poc_type x) @
     (if x_poc_type x = 0 then ue_code (x_poc_lsb x) @ []
      else if x_poc_type x = 1 then
        [x_delta_zero x] @ se_code (x_non_ref x) @ se_code (x_top_bottom x) @
        ue_code (length (x_offsets x)) @ concat (map se_code (x_offsets x))
      else [])"

definition size_bits :: "sps_syntax \<Rightarrow> bool list" where
  "size_bits x =
     ue_code (x_refs x) @ [x_gaps x] @ ue_code (x_width x) @ ue_code (x_height x) @ [x_mbs_only x] @
     (if \<not> x_mbs_only x then [x_adaptive x] @ [] else []) @ [x_direct x] @
     opt_bits (\<lambda>(l, r, t, b). ue_code l @ ue_code r @ ue_code t @ ue_code b @ []) (x_crop x)"

definition sar_bits :: "sps_syntax \<Rightarrow> bool list" where
  "sar_bits x = opt_bits (\<lambda>(idc, n, d). to_bits 8 idc @
     (if idc = 255 then to_bits 16 n @ to_bits 16 d @ [] else [])) (x_sar x)"

definition video_bits :: "sps_syntax \<Rightarrow> bool list" where
  "video_bits x =
     [x_overscan x \<noteq> None] @ (if x_overscan x \<noteq> None then [the (x_overscan x)] @ [] else []) @
     [x_signal x \<noteq> None] @ (if x_signal x \<noteq> None then (case the (x_signal x) of (fmt, rng, colour) \<Rightarrow>
         fmt @ [rng] @ [colour \<noteq> None] @ (if colour \<noteq> None then
           take 8 (the colour) @ take 8 (drop 8 (the colour)) @ drop 16 (the colour) @ [] else [])) else []) @
     [x_chroma_loc x \<noteq> None] @ (if x_chroma_loc x \<noteq> None then
         ue_code (fst (the (x_chroma_loc x))) @ ue_code (snd (the (x_chroma_loc x))) @ [] else [])"

definition timing_bits :: "sps_syntax \<Rightarrow> bool list" where
  "timing_bits x = opt_bits (\<lambda>(u, t, f). to_bits 32 u @ to_bits 32 t @ [f] @ []) (x_timing x)"

definition hrd_bits :: "hrd \<Rightarrow> bool list" where
  "hrd_bits h =
     ue_code (length (hrd_cpb h) - 1) @ take 4 (hrd_scales h) @ drop 4 (hrd_scales h) @
     concat (map (\<lambda>(a, b, c). ue_code a @ ue_code b @ [c]) (hrd_cpb h)) @
     take 5 (hrd_lengths h) @ take 5 (drop 5 (hrd_lengths h)) @ take 5 (drop 10 (hrd_lengths h)) @
     drop 15 (hrd_lengths h) @ []"

definition hrds_bits :: "sps_syntax \<Rightarrow> bool list" where
  "hrds_bits x =
     [x_nal_hrd x \<noteq> None] @ (if x_nal_hrd x \<noteq> None then hrd_bits (the (x_nal_hrd x)) else []) @
     [x_vcl_hrd x \<noteq> None] @ (if x_vcl_hrd x \<noteq> None then hrd_bits (the (x_vcl_hrd x)) else []) @
     (if x_nal_hrd x \<noteq> None \<or> x_vcl_hrd x \<noteq> None then [x_low_delay x] @ [] else []) @ [x_pic_struct x] @ []"

definition restriction_bits :: "sps_syntax \<Rightarrow> bool list" where
  "restriction_bits x = opt_bits (\<lambda>(m, a, b, c, d, reorder, n).
     [m] @ ue_code a @ ue_code b @ ue_code c @ ue_code d @ ue_code reorder @ ue_code n @ []) (x_restriction x)"

definition vui_bits :: "sps_syntax \<Rightarrow> bool list" where
  "vui_bits x = [x_vui x] @
     (if x_vui x then sar_bits x @ video_bits x @ timing_bits x @ hrds_bits x @ restriction_bits x else [])"

text \<open>The profiles whose sets have the high syntax, as the standard lists them.\<close>

definition high_profile :: "nat \<Rightarrow> bool" where
  "high_profile p \<longleftrightarrow> p \<in> {100, 110, 122, 244, 44, 83, 86, 118, 128, 138, 139, 134, 135}"

definition sps_bits :: "sps_syntax \<Rightarrow> bool list" where
  "sps_bits x =
     to_bits 8 (x_profile x) @ x_level x @ ue_code (x_id x) @
     (if high_profile (x_profile x) then high_bits x else []) @ poc_bits x @ size_bits x @ vui_bits x"

text \<open>
  The sets that the code can read. Numbers are in the ranges of the standard or, where it has wider ones, below 2 ^ 31
  (2 ^ 30 for signed ones), which the code's \<open>int\<close>s can hold; at most 255 offsets. The code takes the profiles from 100
  on for those with the high syntax: 44, 83 and 86 have it too and are misread.
\<close>

definition hrd_ok :: "hrd \<Rightarrow> bool" where
  "hrd_ok h \<longleftrightarrow> length (hrd_scales h) = 8 \<and> length (hrd_lengths h) = 20 \<and>
     0 < length (hrd_cpb h) \<and> length (hrd_cpb h) \<le> 32 \<and>
     (\<forall>(a, b, c) \<in> set (hrd_cpb h). a < 2 ^ 31 \<and> b < 2 ^ 31)"

definition sps_ok :: "sps_syntax \<Rightarrow> bool" where
  "sps_ok x \<longleftrightarrow> x_profile x < 256 \<and> (high_profile (x_profile x) \<longleftrightarrow> 100 \<le> x_profile x) \<and> length (x_level x) = 16 \<and> x_id x < 32 \<and>
     x_chroma x < 4 \<and> x_luma_depth x < 7 \<and> x_chroma_depth x < 7 \<and>
     x_frame_num x \<le> 12 \<and> x_poc_type x < 3 \<and> x_poc_lsb x \<le> 12 \<and>
     \<bar>x_non_ref x\<bar> < 2 ^ 30 \<and> \<bar>x_top_bottom x\<bar> < 2 ^ 30 \<and> length (x_offsets x) < 256 \<and>
     list_all (\<lambda>v. \<bar>v\<bar> < 2 ^ 30) (x_offsets x) \<and>
     x_refs x < 2 ^ 31 \<and> x_width x < 2 ^ 16 \<and> x_height x < 2 ^ 16 \<and>
     pred_option (\<lambda>(l, r, t, b). l < 2 ^ 31 \<and> r < 2 ^ 31 \<and> t < 2 ^ 31 \<and> b < 2 ^ 31) (x_crop x) \<and>
     pred_option (\<lambda>(idc, n, d). idc < 256 \<and> n < 2 ^ 16 \<and> d < 2 ^ 16) (x_sar x) \<and>
     pred_option (\<lambda>(fmt, rng, colour). length fmt = 3 \<and> pred_option (\<lambda>c. length c = 24) colour) (x_signal x) \<and>
     pred_option (\<lambda>(a, b). a < 2 ^ 31 \<and> b < 2 ^ 31) (x_chroma_loc x) \<and>
     pred_option (\<lambda>(u, t, f). u < 2 ^ 32 \<and> t < 2 ^ 32) (x_timing x) \<and>
     pred_option hrd_ok (x_nal_hrd x) \<and> pred_option hrd_ok (x_vcl_hrd x) \<and>
     pred_option (\<lambda>(m, a, b, c, d, r, n). a < 2 ^ 31 \<and> b < 2 ^ 31 \<and> c < 2 ^ 31 \<and> d < 2 ^ 31 \<and> r \<le> 16 \<and> n < 2 ^ 31)
       (x_restriction x)"

section \<open>What the parser must find\<close>

definition fill_high :: "sps_syntax \<Rightarrow> h264_sps \<Rightarrow> h264_sps" where
  "fill_high x c =
     (let c = c\<lparr>scaling_matrix_present := 0\<rparr>
      in if 100 \<le> x_profile x then c\<lparr>transform_bypass := of_bool (x_bypass x)\<rparr> else c)"

definition fill_poc :: "sps_syntax \<Rightarrow> h264_sps \<Rightarrow> h264_sps" where
  "fill_poc x c =
     (let c = c\<lparr>log2_max_frame_num := int (x_frame_num x), poc_type := int (x_poc_type x)\<rparr>
      in if x_poc_type x = 0 then c\<lparr>log2_max_poc_lsb := int (x_poc_lsb x)\<rparr>
         else if x_poc_type x = 1 then c\<lparr>delta_pic_order_always_zero_flag := of_bool (x_delta_zero x)\<rparr>
         else c)"

definition fill_size :: "sps_syntax \<Rightarrow> h264_sps \<Rightarrow> h264_sps" where
  "fill_size x c =
     c\<lparr>mb_width := 16 * (int (x_width x) + 1), mb_height := 16 * (int (x_height x) + 1),
       frame_mbs_only_flag := of_bool (x_mbs_only x), crop := of_bool (x_crop x \<noteq> None)\<rparr>"

definition fill_sar :: "sps_syntax \<Rightarrow> h264_sps \<Rightarrow> h264_sps" where
  "fill_sar x c =
     (let (n, d) = (case x_sar x of
          None \<Rightarrow> (0, 0)
        | Some (idc, n, d) \<Rightarrow> if idc < 17 then sar_table ! idc else if idc = 255 then (int n, int d) else (0, 0))
      in c\<lparr>sar := \<lparr>num = n, den = d\<rparr>\<rparr>)"

definition fill_timing :: "sps_syntax \<Rightarrow> h264_sps \<Rightarrow> h264_sps" where
  "fill_timing x c =
     (case x_timing x of
        None \<Rightarrow> c\<lparr>timing_info_present_flag := 0\<rparr>
      | Some (u, t, f) \<Rightarrow> c\<lparr>timing_info_present_flag := 1, num_units_in_tick := u, time_scale := t,
          fixed_frame_rate_flag := of_bool f\<rparr>)"

definition fill_restriction :: "sps_syntax \<Rightarrow> h264_sps \<Rightarrow> h264_sps" where
  "fill_restriction x c =
     (case x_restriction x of
        None \<Rightarrow> c\<lparr>bitstream_restriction_flag := 0\<rparr>
      | Some (m, a, b, c', d, reorder, n) \<Rightarrow>
          c\<lparr>bitstream_restriction_flag := 1, num_reorder_frames := int reorder\<rparr>)"

definition fill_vui :: "sps_syntax \<Rightarrow> h264_sps \<Rightarrow> h264_sps" where
  "fill_vui x c =
     (let c = c\<lparr>vui_parameters_present_flag := of_bool (x_vui x)\<rparr>
      in if x_vui x then fill_restriction x (fill_timing x (fill_sar x c)) else c)"

definition sps_fill :: "sps_syntax \<Rightarrow> h264_sps \<Rightarrow> h264_sps" where
  "sps_fill x c =
     fill_vui x (fill_size x (fill_poc x (fill_high x (c\<lparr>profile_idc := int (x_profile x)\<rparr>))))"

section \<open>The parser finds it\<close>

lemma yields_when:
  assumes "b = b'" and "b' \<Longrightarrow> yields m c bits () c"
  shows "yields (if b then m else State_Monad.return ()) c (if b' then bits else []) () c"
  using assms by (simp add: yields_return)

lemma yields_if:
  assumes "b \<Longrightarrow> yields m c bits v c'" and "\<not> b \<Longrightarrow> yields m' c bits v c'"
  shows "yields (if b then m else m') c bits v c'"
  using assms by simp

lemmas yields_intros =
  yields_upd yields_upd_last yields_ue yields_se yields_rd_int1 yields_flag yields_rd_bits yields_skip
  yields_rd_int yields_rd yields_when yields_return

lemma yields_high:
  assumes "sps_ok x"
  shows "yields (sps_high (int (x_profile x))) c (if 100 \<le> x_profile x then high_bits x else []) () (fill_high x c)"
proof (cases "100 \<le> x_profile x")
  case True
  have r: "x_chroma x < 2 ^ 31" "x_luma_depth x < 2 ^ 31" "x_chroma_depth x < 2 ^ 31" "100 \<le> int (x_profile x)"
    using assms True by (simp_all add: sps_ok_def)
  let ?m = "do { rd 1; State_Monad.return () } :: (h264_sps, unit) reader"
  have plane: "yields (if int (x_chroma x) = 3 then ?m else State_Monad.return ()) c
      (if x_chroma x = 3 then [x_plane x] @ [] else []) () c" for c
    by (intro yields_intros) auto
  have "yields (sps_high (int (x_profile x))) c (high_bits x) ()
      (c\<lparr>scaling_matrix_present := 0, transform_bypass := of_bool (x_bypass x)\<rparr>)"
    unfolding sps_high_def high_bits_def if_P [OF r(4)]
    by (rule yields_upd, rule yields_ue [OF r(1)], rule yields_bind [OF plane], rule yields_ue [OF r(2)],
        rule yields_ue [OF r(3)], rule yields_rd_int1, rule yields_upd) (simp add: yields_skip_last)
  with True show ?thesis by (simp add: fill_high_def)
next
  case False
  then show ?thesis
    by (auto simp: sps_high_def fill_high_def Let_def intro: yields_intros)
qed

lemma yields_eq: "yields m c bits v c1 \<Longrightarrow> c1 = c' \<Longrightarrow> yields m c bits v c'"
  by simp

lemma yields_offsets:
  assumes "list_all (\<lambda>v. \<bar>v\<bar> < 2 ^ 30) vs"
  shows "yields (times (length vs) se) c (concat (map se_code vs)) () c"
proof -
  have "\<exists>v. yields se c bits v c" if "bits \<in> set (map se_code vs)" for bits
    using that assms yields_se_last by (fastforce simp: list_all_iff)
  then have "yields (times (length (map se_code vs)) se) c (concat (map se_code vs)) () c"
    by (intro yields_times) auto
  then show ?thesis by simp
qed

lemma yields_poc:
  assumes "sps_ok x"
  shows "yields sps_poc c (poc_bits x) () (fill_poc x c)"
proof -
  have r: "x_frame_num x < 2 ^ 31" "x_poc_type x < 2 ^ 31" "x_poc_lsb x < 2 ^ 31" "\<bar>x_non_ref x\<bar> < 2 ^ 30"
      "\<bar>x_top_bottom x\<bar> < 2 ^ 30" "length (x_offsets x) < 2 ^ 31" "list_all (\<lambda>v. \<bar>v\<bar> < 2 ^ 30) (x_offsets x)"
      "x_frame_num x \<le> 12" "x_poc_lsb x \<le> 12" "length (x_offsets x) < 256"
    using assms by (simp_all add: sps_ok_def)
  consider "x_poc_type x = 0" | "x_poc_type x = 1" | "int (x_poc_type x) \<noteq> 0 \<and> int (x_poc_type x) \<noteq> 1"
    by linarith
  then show ?thesis
  proof cases
    case 1
    have poc: "int (x_poc_type x) = 0" using 1 by simp
    show ?thesis
      unfolding sps_poc_def poc_bits_def if_P [OF 1]
      by (rule yields_eq, rule yields_ue [OF r(1)], rule yields_upd, rule yields_ue [OF r(2)], rule yields_upd,
          subst if_P [OF poc], rule yields_ue [OF r(3)], rule yields_upd_last)
        (use 1 r(8,9) in \<open>simp add: fill_poc_def\<close>)
  next
    case 2
    have loop: "nat (if 256 < int (length (x_offsets x)) then 256 else int (length (x_offsets x))) = length (x_offsets x)"
      using r(10) by simp
    have poc: "int (x_poc_type x) = 1" "int (x_poc_type x) \<noteq> 0" "x_poc_type x \<noteq> 0" using 2 by simp_all
    show ?thesis
      unfolding sps_poc_def poc_bits_def if_P [OF 2] if_not_P [OF poc(3)]
      by (rule yields_eq, rule yields_ue [OF r(1)], rule yields_upd, rule yields_ue [OF r(2)], rule yields_upd,
          subst if_not_P [OF poc(2)], subst if_P [OF poc(1)], rule yields_rd_int1, rule yields_upd, rule yields_se [OF r(4)],
          rule yields_se [OF r(5)], rule yields_ue [OF r(6)], subst loop, rule yields_offsets [OF r(7)])
        (use 2 r(8) in \<open>simp add: fill_poc_def\<close>)
  next
    case 3
    then have poc: "x_poc_type x \<noteq> 0" "x_poc_type x \<noteq> 1" by auto
    show ?thesis
      unfolding sps_poc_def poc_bits_def if_not_P [OF poc(1)] if_not_P [OF poc(2)]
      by (rule yields_eq, rule yields_ue [OF r(1)], rule yields_upd, rule yields_ue [OF r(2)], rule yields_upd,
          subst if_not_P [OF conjunct1 [OF 3]], subst if_not_P [OF conjunct2 [OF 3]], rule yields_return)
        (use poc r(8) in \<open>simp add: fill_poc_def\<close>)
  qed
qed

lemma yields_size:
  assumes "sps_ok x"
  shows "yields sps_size c (size_bits x) () (fill_size x c)"
proof -
  have r: "x_refs x < 2 ^ 31" "x_width x < 2 ^ 31" "x_height x < 2 ^ 31" "x_width x < 2 ^ 16" "x_height x < 2 ^ 16"
      "pred_option (\<lambda>(l, r, t, b). l < 2 ^ 31 \<and> r < 2 ^ 31 \<and> t < 2 ^ 31 \<and> b < 2 ^ 31) (x_crop x)"
    using assms by (simp_all add: sps_ok_def)
  have dim: "s32 (16 * (int w + 1)) = 16 * (int w + 1)" if "w < 2 ^ 16" for w
    using that by (intro s32_id) auto
  let ?crop = "do { ue; ue; ue; ue; State_Monad.return () } :: (h264_sps, unit) reader"
  have crop: "yields (if of_bool (x_crop x \<noteq> None) \<noteq> (0 :: int) then ?crop else State_Monad.return ()) c
      (if x_crop x \<noteq> None then (\<lambda>(l, r, t, b). ue_code l @ ue_code r @ ue_code t @ ue_code b @ []) (the (x_crop x)) else []) () c" for c
  proof (cases "x_crop x")
    case (Some lrtb)
    obtain l r' t b where p: "lrtb = (l, r', t, b)" by (cases lrtb)
    have q: "l < 2 ^ 31" "r' < 2 ^ 31" "t < 2 ^ 31" "b < 2 ^ 31" using r(6) Some p by auto
    have "yields ?crop c (ue_code l @ ue_code r' @ ue_code t @ ue_code b @ []) () c"
      by (rule yields_ue [OF q(1)], rule yields_ue [OF q(2)], rule yields_ue [OF q(3)], rule yields_ue [OF q(4)], rule yields_return)
    then show ?thesis using Some p by simp
  qed (simp add: yields_return)
  have mbs: "yields (if of_bool (x_mbs_only x) = (0 :: int) then skip 1 else State_Monad.return ()) c
      (if \<not> x_mbs_only x then [x_adaptive x] @ [] else []) () c" for c
    by (rule yields_when) (auto intro: yields_skip_last)
  have one: "1 = int (length [b])" for b :: bool by simp
  show ?thesis
    unfolding sps_size_def size_bits_def opt_bits_def
    by (rule yields_eq, rule yields_ue [OF r(1)], rule yields_skip [OF one], rule yields_ue [OF r(2)], rule yields_upd,
        rule yields_ue [OF r(3)], rule yields_upd, rule yields_rd_int1, rule yields_upd, rule yields_bind [OF mbs],
        rule yields_skip [OF one], rule yields_rd_int1, rule yields_upd, rule crop)
      (simp only: fill_size_def dim [OF r(4)] dim [OF r(5)])
qed

lemma yields_sar:
  assumes "sps_ok x"
  shows "yields sps_sar c (sar_bits x) () (fill_sar x c)"
proof (cases "x_sar x")
  case None
  then have bits: "sar_bits x = [False] @ []" by (simp add: sar_bits_def opt_bits_def)
  have "yields (set_sar 0 0) c [] () (fill_sar x c)"
    unfolding set_sar_def by (rule yields_eq, rule yields_upd_last) (simp add: fill_sar_def None)
  then show ?thesis unfolding sps_sar_def bits by (intro yields_flag) simp
next
  case (Some ind)
  obtain idc n d where p: "ind = (idc, n, d)" by (cases ind)
  have q: "idc < 2 ^ 8" "n < 2 ^ 16" "d < 2 ^ 16" using assms Some p by (auto simp: sps_ok_def)
  have bits: "sar_bits x = [True] @ to_bits 8 idc @ (if idc = 255 then to_bits 16 n @ to_bits 16 d @ [] else [])"
    by (simp add: sar_bits_def opt_bits_def Some p)
  have body: "yields (if int idc < 17 then (case sar_table ! nat (int idc) of (n, d) \<Rightarrow> set_sar n d)
      else if int idc = 255 then do { n \<leftarrow> rd_int 16; d \<leftarrow> rd_int 16; set_sar n d } else set_sar 0 0) c
      (if idc = 255 then to_bits 16 n @ to_bits 16 d @ [] else []) () (fill_sar x c)"
  proof -
    consider "idc < 17" | "idc = 255" | "17 \<le> idc" "idc \<noteq> 255" by linarith
    then show ?thesis
    proof cases
      case 1
      then show ?thesis
        by (cases "sar_table ! idc") (auto simp: set_sar_def fill_sar_def Some p intro: yields_eq [OF yields_upd_last])
    next
      case 2
      have "yields (do { n \<leftarrow> rd_int 16; d \<leftarrow> rd_int 16; set_sar n d }) c (to_bits 16 n @ to_bits 16 d @ []) () (fill_sar x c)"
        unfolding set_sar_def
        by (rule yields_eq, rule yields_rd_int [OF _ q(2)], simp, simp, rule yields_rd_int [OF _ q(3)], simp, simp,
            rule yields_upd_last) (simp add: fill_sar_def Some p 2)
      then show ?thesis using 2 by (simp del: append_Nil2)
    next
      case 3
      then show ?thesis by (auto simp: set_sar_def fill_sar_def Some p intro: yields_eq [OF yields_upd_last])
    qed
  qed
  have "yields (if True then do { i_sar \<leftarrow> rd_int 8;
      if i_sar < 17 then (case sar_table ! nat i_sar of (n, d) \<Rightarrow> set_sar n d)
      else if i_sar = 255 then do { n \<leftarrow> rd_int 16; d \<leftarrow> rd_int 16; set_sar n d } else set_sar 0 0 } else set_sar 0 0) c
      (to_bits 8 idc @ (if idc = 255 then to_bits 16 n @ to_bits 16 d @ [] else [])) () (fill_sar x c)"
    unfolding if_True by (rule yields_rd_int [OF _ q(1)], simp, simp, rule body)
  then show ?thesis unfolding sps_sar_def bits by (rule yields_flag)
qed

lemma not_flag: "\<not> of_bool False \<noteq> (0 :: int)"
  by simp

lemma yields_video:
  assumes "sps_ok x"
  shows "yields sps_video c (video_bits x) () c"
proof -
  let ?overscan = "do { rd 1; State_Monad.return () } :: (h264_sps, unit) reader"
  let ?colour = "do { rd 8; rd 8; rd 8; State_Monad.return () } :: (h264_sps, unit) reader"
  let ?signal = "do { rd 3; rd 1; colour \<leftarrow> flag; if colour then ?colour else State_Monad.return () } :: (h264_sps, unit) reader"
  let ?chroma = "do { ue; ue; State_Monad.return () } :: (h264_sps, unit) reader"
  have one: "1 = int (length [b])" "length [b] \<le> 32" for b :: bool by simp_all
  have overscan: "yields (if x_overscan x \<noteq> None then ?overscan else State_Monad.return ()) c
      (if x_overscan x \<noteq> None then [the (x_overscan x)] @ [] else []) () c"
    by (rule yields_when [OF refl], rule yields_rd_bits [OF one], rule yields_return)
  have colour: "yields (if colour \<noteq> None then ?colour else State_Monad.return ()) c (if colour \<noteq> None then
      take 8 (the colour) @ take 8 (drop 8 (the colour)) @ drop 16 (the colour) @ [] else []) () c"
    if "pred_option (\<lambda>c. length c = 24) colour" for colour
  proof (cases colour)
    case (Some cs)
    then have "length cs = 24" using that by simp
    then have "yields ?colour c (take 8 cs @ take 8 (drop 8 cs) @ drop 16 cs @ []) () c"
      by (intro yields_rd_bits yields_return) simp_all
    then show ?thesis using Some by simp
  qed (simp add: yields_return)
  have signal: "yields (if x_signal x \<noteq> None then ?signal else State_Monad.return ()) c
      (if x_signal x \<noteq> None then (case the (x_signal x) of (fmt, rng, colour) \<Rightarrow>
         fmt @ [rng] @ [colour \<noteq> None] @ (if colour \<noteq> None then
           take 8 (the colour) @ take 8 (drop 8 (the colour)) @ drop 16 (the colour) @ [] else [])) else []) () c"
  proof (cases "x_signal x")
    case (Some sg)
    obtain fmt rng col where sg: "sg = (fmt, rng, col)" by (cases sg)
    have ok: "length fmt = 3" "pred_option (\<lambda>c. length c = 24) col" using assms Some sg by (auto simp: sps_ok_def)
    have "yields ?signal c (fmt @ [rng] @ [col \<noteq> None] @ (if col \<noteq> None then
        take 8 (the col) @ take 8 (drop 8 (the col)) @ drop 16 (the col) @ [] else [])) () c"
      by (rule yields_rd_bits, simp add: ok, simp add: ok, rule yields_rd_bits [OF one], rule yields_flag, rule colour [OF ok(2)])
    then show ?thesis using Some sg by (simp del: append_Nil2)
  qed (simp add: yields_return)
  have chroma: "yields (if x_chroma_loc x \<noteq> None then ?chroma else State_Monad.return ()) c
      (if x_chroma_loc x \<noteq> None then
         ue_code (fst (the (x_chroma_loc x))) @ ue_code (snd (the (x_chroma_loc x))) @ [] else []) () c"
  proof (cases "x_chroma_loc x")
    case (Some ab)
    have q: "fst ab < 2 ^ 31" "snd ab < 2 ^ 31" using assms Some by (auto simp: sps_ok_def case_prod_beta)
    have "yields ?chroma c (ue_code (fst ab) @ ue_code (snd ab) @ []) () c"
      by (rule yields_ue [OF q(1)], rule yields_ue [OF q(2)], rule yields_return)
    then show ?thesis using Some by simp
  qed (simp add: yields_return)
  show ?thesis
    unfolding sps_video_def video_bits_def
    by (rule yields_flag, rule yields_bind [OF overscan], rule yields_flag, rule yields_bind [OF signal],
        rule yields_flag, rule chroma)
qed

lemma yields_timing:
  assumes "sps_ok x"
  shows "yields sps_timing c (timing_bits x) () (fill_timing x c)"
proof (cases "x_timing x")
  case None
  then have bits: "timing_bits x = [False] @ []" by (simp add: timing_bits_def opt_bits_def)
  show ?thesis unfolding sps_timing_def bits
    by (rule yields_eq, rule yields_rd_int1, rule yields_upd, subst if_not_P [OF not_flag], rule yields_return)
      (simp add: fill_timing_def None)
next
  case (Some utf)
  obtain u t f where p: "utf = (u, t, f)" by (cases utf)
  have q: "u < 2 ^ 32" "t < 2 ^ 32" using assms Some p by (auto simp: sps_ok_def)
  then have w: "unat (word_of_nat u :: uint32) = u" "unat (word_of_nat t :: uint32) = t"
    by (simp_all add: unat_of_nat)
  have bits: "timing_bits x = [True] @ to_bits 32 u @ to_bits 32 t @ [f] @ []"
    by (simp add: timing_bits_def opt_bits_def Some p)
  have one: "of_bool True \<noteq> (0 :: int)" by simp
  show ?thesis unfolding sps_timing_def bits
    by (rule yields_eq, rule yields_rd_int1, rule yields_upd, subst if_P [OF one],
        rule yields_rd [OF _ q(1)], simp, simp, rule yields_upd, rule yields_rd [OF _ q(2)], simp, simp, rule yields_upd,
        rule yields_rd_int1, rule yields_upd_last) (simp add: fill_timing_def Some p w)
qed

lemma yields_hrd:
  assumes "hrd_ok h"
  shows "yields h264_decode_hrd_parameters c (hrd_bits h) () c"
proof -
  have ok: "length (hrd_scales h) = 8" "length (hrd_lengths h) = 20" "0 < length (hrd_cpb h)"
      "length (hrd_cpb h) - 1 < 2 ^ 31" "length (hrd_cpb h) \<le> 32"
    using assms by (auto simp: hrd_ok_def)
  let ?one = "do { ue; ue; rd 1 } :: ('c, uint32) reader"
  let ?bits = "\<lambda>(a, b, c). ue_code a @ ue_code b @ [c]"
  have "\<exists>v. yields ?one c bits v c" if bits: "bits \<in> set (map ?bits (hrd_cpb h))" for bits
  proof -
    obtain t where t: "t \<in> set (hrd_cpb h)" "bits = ?bits t" using bits unfolding set_map image_iff by blast
    obtain a b f where "t = (a, b, f)" by (cases t)
    with t have abf: "(a, b, f) \<in> set (hrd_cpb h)" "bits = ue_code a @ ue_code b @ [f]" by simp_all
    then have q: "a < 2 ^ 31" "b < 2 ^ 31" using assms by (auto simp: hrd_ok_def)
    have "yields ?one c (ue_code a @ ue_code b @ [f]) (word_of_nat (of_bool f)) c"
      using yields_rd_last [of 1 1 "of_bool f" c]
      by (intro yields_ue [OF q(1)] yields_ue [OF q(2)]) (cases f; simp add: to_bits_one [unfolded One_nat_def])
    with abf show ?thesis by blast
  qed
  then have "yields (times (length (map ?bits (hrd_cpb h))) ?one) c (concat (map ?bits (hrd_cpb h))) () c"
    by (rule yields_times)
  moreover have "nat (s32 (int (length (hrd_cpb h) - 1) + 1)) = length (map ?bits (hrd_cpb h))"
  proof -
    obtain j where "length (hrd_cpb h) = Suc j" "j < 32" using ok(3,5) by (cases "length (hrd_cpb h)") auto
    then show ?thesis by (simp add: s32_id)
  qed
  ultimately have loop: "yields (times (nat (s32 (int (length (hrd_cpb h) - 1) + 1))) ?one) c
      (concat (map ?bits (hrd_cpb h))) () c" by simp
  show ?thesis
    unfolding h264_decode_hrd_parameters_def hrd_bits_def
    by (rule yields_ue [OF ok(4)], rule yields_rd_bits, simp add: ok, simp add: ok, rule yields_rd_bits, simp add: ok,
        simp add: ok, rule yields_bind [OF loop], (rule yields_rd_bits, simp add: ok, simp add: ok)+, rule yields_return)
qed

lemma yields_hrds:
  assumes "sps_ok x"
  shows "yields sps_hrd c (hrds_bits x) () c"
proof -
  have hrd: "yields (if y \<noteq> None then h264_decode_hrd_parameters else State_Monad.return ()) c
      (if y \<noteq> None then hrd_bits (the y) else []) () c" if "pred_option hrd_ok y" for y
    using that by (cases y) (simp_all add: yields_hrd yields_return)
  have one: "1 = int (length [b])" "length [b] \<le> 32" for b :: bool by simp_all
  have low: "yields (if x_nal_hrd x \<noteq> None \<or> x_vcl_hrd x \<noteq> None then do { rd 1; State_Monad.return () } else State_Monad.return ()) c
      (if x_nal_hrd x \<noteq> None \<or> x_vcl_hrd x \<noteq> None then [x_low_delay x] @ [] else []) () c"
    by (rule yields_when [OF refl], rule yields_rd_bits [OF one], rule yields_return)
  have ok: "pred_option hrd_ok (x_nal_hrd x)" "pred_option hrd_ok (x_vcl_hrd x)" using assms by (simp_all add: sps_ok_def)
  show ?thesis
    unfolding sps_hrd_def hrds_bits_def
    by (rule yields_flag, rule yields_bind [OF hrd [OF ok(1)]], rule yields_flag, rule yields_bind [OF hrd [OF ok(2)]],
        rule yields_bind [OF low], rule yields_rd_bits [OF one], rule yields_return)
qed

lemma yields_restriction:
  assumes "sps_ok x"
  shows "yields sps_restriction c (restriction_bits x) () (fill_restriction x c)"
proof (cases "x_restriction x")
  case None
  then have bits: "restriction_bits x = [False] @ []" by (simp add: restriction_bits_def opt_bits_def)
  show ?thesis unfolding sps_restriction_def bits
    by (rule yields_eq, rule yields_rd_int1, rule yields_upd, subst if_not_P [OF not_flag], rule yields_return)
      (simp add: fill_restriction_def None)
next
  case (Some r)
  obtain m a b c' d reorder n where p: "r = (m, a, b, c', d, reorder, n)" by (cases r)
  have q: "a < 2 ^ 31" "b < 2 ^ 31" "c' < 2 ^ 31" "d < 2 ^ 31" "reorder < 2 ^ 31" "n < 2 ^ 31" "reorder \<le> 16"
    using assms Some p by (auto simp: sps_ok_def)
  have bits: "restriction_bits x = [True] @ [m] @ ue_code a @ ue_code b @ ue_code c' @ ue_code d @ ue_code reorder @ ue_code n @ []"
    by (simp add: restriction_bits_def opt_bits_def Some p)
  have one: "of_bool True \<noteq> (0 :: int)" "1 = int (length [m])" "length [m] \<le> 32" by simp_all
  have few: "\<not> 16 < u32 (int reorder)" "s32 (int (u32 (int reorder))) = int reorder"
    using q(7) by (simp_all add: s32_id)
  show ?thesis unfolding sps_restriction_def bits
    by (rule yields_eq, rule yields_rd_int1, rule yields_upd, subst if_P [OF one(1)], rule yields_rd_bits [OF one(2,3)],
        rule yields_ue [OF q(1)], rule yields_ue [OF q(2)], rule yields_ue [OF q(3)], rule yields_ue [OF q(4)],
        rule yields_ue [OF q(5)], rule yields_ue [OF q(6)], subst if_not_P [OF few(1)], rule yields_upd_last)
      (simp add: fill_restriction_def Some p few)
qed

lemma yields_vui:
  assumes "sps_ok x"
  shows "yields sps_vui c (vui_bits x) () (fill_vui x c)"
proof (cases "x_vui x")
  case True
  have one: "of_bool True \<noteq> (0 :: int)" by simp
  have bits: "vui_bits x = [True] @ sar_bits x @ video_bits x @ timing_bits x @ hrds_bits x @ restriction_bits x"
    using True by (simp add: vui_bits_def)
  show ?thesis unfolding sps_vui_def bits
    by (rule yields_eq, rule yields_rd_int1, rule yields_upd, subst if_P [OF one],
        rule yields_bind [OF yields_sar [OF assms]], rule yields_bind [OF yields_video [OF assms]],
        rule yields_bind [OF yields_timing [OF assms]], rule yields_bind [OF yields_hrds [OF assms]],
        rule yields_restriction [OF assms]) (simp add: fill_vui_def True)
next
  case False
  have bits: "vui_bits x = [False] @ []" using False by (simp add: vui_bits_def)
  show ?thesis unfolding sps_vui_def bits
    by (rule yields_eq, rule yields_rd_int1, rule yields_upd, subst if_not_P [OF not_flag], rule yields_return)
      (simp add: fill_vui_def False)
qed

lemma yields_sps:
  assumes "sps_ok x"
  shows "yields sps_body c (sps_bits x) True (sps_fill x c)"
proof -
  have q: "x_profile x < 2 ^ 8" "1 + 1 + 1 + 5 + 8 = int (length (x_level x))" "x_id x < 2 ^ 31" "\<not> 32 \<le> int (x_id x)"
    using assms by (simp_all add: sps_ok_def)
  have end_: "sps_bits x = to_bits 8 (x_profile x) @ x_level x @ ue_code (x_id x) @
     (if 100 \<le> x_profile x then high_bits x else []) @ poc_bits x @ size_bits x @ vui_bits x @ []"
    using assms by (simp add: sps_bits_def sps_ok_def)
  show ?thesis unfolding sps_body_def end_
    by (rule yields_eq, rule yields_rd_int [OF _ q(1)], simp, simp, rule yields_upd, rule yields_skip [OF q(2)],
        rule yields_ue [OF q(3)], subst if_not_P [OF q(4)], rule yields_bind [OF yields_high [OF assms]],
        rule yields_bind [OF yields_poc [OF assms]], rule yields_bind [OF yields_size [OF assms]],
        rule yields_bind [OF yields_vui [OF assms]], rule yields_return)
      (simp add: sps_fill_def)
qed

section \<open>Slice headers\<close>

record slice_syntax =
  y_first_mb :: nat
  y_type :: nat
  y_pps :: nat
  y_colour :: nat
  y_frame_num :: nat
  y_field :: bool
  y_bottom :: bool
  y_idr :: nat
  y_lsb :: nat
  y_delta :: int

text \<open>A set with separate colour planes puts the plane into each slice header.\<close>

definition separate_planes :: "sps_syntax \<Rightarrow> bool" where
  "separate_planes x \<longleftrightarrow> high_profile (x_profile x) \<and> x_chroma x = 3 \<and> x_plane x"

definition slice_bits :: "sps_syntax \<Rightarrow> int \<Rightarrow> slice_syntax \<Rightarrow> bool list" where
  "slice_bits x nal_type y =
     ue_code (y_first_mb y) @ ue_code (y_type y) @ ue_code (y_pps y) @
     (if separate_planes x then to_bits 2 (y_colour y) else []) @ to_bits (x_frame_num x + 4) (y_frame_num y) @
     (if \<not> x_mbs_only x then [y_field y] @ (if y_field y then [y_bottom y] @ [] else []) else []) @
     (if nal_type = 5 then ue_code (y_idr y) @ [] else []) @
     (if x_poc_type x = 0 then to_bits (x_poc_lsb x + 4) (y_lsb y) @ []
      else if x_poc_type x = 1 \<and> \<not> x_delta_zero x then se_code (y_delta y) @ [] else [])"

text \<open>The slices that the code can read: it does not know the plane.\<close>

definition slice_ok :: "sps_syntax \<Rightarrow> slice_syntax \<Rightarrow> bool" where
  "slice_ok x y \<longleftrightarrow> \<not> separate_planes x \<and> y_first_mb y < 2 ^ 31 \<and> y_type y < 10 \<and> y_pps y < 256 \<and>
     y_frame_num y < 2 ^ (x_frame_num x + 4) \<and> y_idr y < 2 ^ 16 \<and>
     y_lsb y < 2 ^ (x_poc_lsb x + 4) \<and> \<bar>y_delta y\<bar> < 2 ^ 30"

definition slice_fill :: "sps_syntax \<Rightarrow> slice_syntax \<Rightarrow> h264_slice" where
  "slice_fill x y = \<lparr>i_slice_type = int (y_type y), i_frame_num = int (y_frame_num y),
     i_pic_order_cnt_lsb = (if x_poc_type x = 0 then int (y_lsb y) else 0)\<rparr>"

lemma fill_restriction_keeps:
  "log2_max_frame_num (fill_restriction x c) = log2_max_frame_num c"
  "frame_mbs_only_flag (fill_restriction x c) = frame_mbs_only_flag c"
  "poc_type (fill_restriction x c) = poc_type c"
  "log2_max_poc_lsb (fill_restriction x c) = log2_max_poc_lsb c"
  "delta_pic_order_always_zero_flag (fill_restriction x c) = delta_pic_order_always_zero_flag c"
  by (cases "x_restriction x"; auto simp: fill_restriction_def Let_def split: prod.splits)+

lemma fill_timing_keeps:
  "log2_max_frame_num (fill_timing x c) = log2_max_frame_num c"
  "frame_mbs_only_flag (fill_timing x c) = frame_mbs_only_flag c"
  "poc_type (fill_timing x c) = poc_type c"
  "log2_max_poc_lsb (fill_timing x c) = log2_max_poc_lsb c"
  "delta_pic_order_always_zero_flag (fill_timing x c) = delta_pic_order_always_zero_flag c"
  by (cases "x_timing x"; auto simp: fill_timing_def Let_def split: prod.splits)+

lemma fill_sar_keeps:
  "log2_max_frame_num (fill_sar x c) = log2_max_frame_num c"
  "frame_mbs_only_flag (fill_sar x c) = frame_mbs_only_flag c"
  "poc_type (fill_sar x c) = poc_type c"
  "log2_max_poc_lsb (fill_sar x c) = log2_max_poc_lsb c"
  "delta_pic_order_always_zero_flag (fill_sar x c) = delta_pic_order_always_zero_flag c"
  by (cases "x_sar x"; auto simp: fill_sar_def Let_def split: prod.splits)+

lemma fill_keeps:
  "log2_max_frame_num (fill_vui x c) = log2_max_frame_num c"
  "frame_mbs_only_flag (fill_vui x c) = frame_mbs_only_flag c"
  "poc_type (fill_vui x c) = poc_type c"
  "log2_max_poc_lsb (fill_vui x c) = log2_max_poc_lsb c"
  "delta_pic_order_always_zero_flag (fill_vui x c) = delta_pic_order_always_zero_flag c"
  by (simp_all add: fill_vui_def Let_def fill_restriction_keeps fill_timing_keeps fill_sar_keeps)

text \<open>What a slice needs of the parameter set is what the parser of the set left there.\<close>

lemma sps_fill_slice:
  "log2_max_frame_num (sps_fill x c) = int (x_frame_num x)"
  "frame_mbs_only_flag (sps_fill x c) = of_bool (x_mbs_only x)"
  "poc_type (sps_fill x c) = int (x_poc_type x)"
  "x_poc_type x = 0 \<Longrightarrow> log2_max_poc_lsb (sps_fill x c) = int (x_poc_lsb x)"
  "x_poc_type x = 1 \<Longrightarrow> delta_pic_order_always_zero_flag (sps_fill x c) = of_bool (x_delta_zero x)"
  by (simp_all add: sps_fill_def fill_size_def fill_poc_def fill_keeps Let_def)

lemma yields_slice:
  assumes "sps_ok x" and "slice_ok x y"
  shows "yields (slice_body (sps_fill x c0) nal_type) c (slice_bits x nal_type y) () (slice_fill x y)"
proof -
  have q: "y_first_mb y < 2 ^ 31" "y_type y < 2 ^ 31" "y_pps y < 2 ^ 31" "y_idr y < 2 ^ 31" "\<bar>y_delta y\<bar> < 2 ^ 30"
      "y_frame_num y < 2 ^ (x_frame_num x + 4)" "x_frame_num x + 4 < 32" "y_lsb y < 2 ^ (x_poc_lsb x + 4)"
      "x_poc_lsb x + 4 < 32" "s32 (int (x_frame_num x) + 4) = int (x_frame_num x + 4)"
      "s32 (int (x_poc_lsb x) + 4) = int (x_poc_lsb x + 4)"
    using assms by (simp_all add: sps_ok_def slice_ok_def s32_id)
  have one: "1 = int (length [b])" "length [b] \<le> 32" for b :: bool by simp_all
  let ?field = "do { field \<leftarrow> rd_int 1; if field \<noteq> 0 then do { rd 1; State_Monad.return () } else State_Monad.return () }
      :: (h264_slice, unit) reader"
  have field: "yields (if frame_mbs_only_flag (sps_fill x c0) = 0 then ?field else State_Monad.return ()) c
      (if \<not> x_mbs_only x then [y_field y] @ (if y_field y then [y_bottom y] @ [] else []) else []) () c" for c
    by (rule yields_when, simp add: sps_fill_slice, rule yields_rd_int1, rule yields_when, simp,
        rule yields_rd_bits [OF one], rule yields_return)
  have idr: "yields (if nal_type = 5 then do { ue; State_Monad.return () } else State_Monad.return ()) c
      (if nal_type = 5 then ue_code (y_idr y) @ [] else []) () c" for c :: h264_slice
    by (rule yields_when [OF refl], rule yields_ue [OF q(4)], rule yields_return)
  let ?sps = "sps_fill x c0"
  let ?c = "c\<lparr>i_slice_type := int (y_type y), i_frame_num := int (y_frame_num y), i_pic_order_cnt_lsb := 0\<rparr>"
  have last: "yields (if poc_type ?sps = 0 then do {
       v \<leftarrow> rd_int (s32 (log2_max_poc_lsb ?sps + 4)); upd (i_pic_order_cnt_lsb_update (\<lambda>_. v)) }
     else if poc_type ?sps = 1 \<and> delta_pic_order_always_zero_flag ?sps = 0 then do { se; State_Monad.return () }
     else State_Monad.return ()) ?c
     (if x_poc_type x = 0 then to_bits (x_poc_lsb x + 4) (y_lsb y) @ []
      else if x_poc_type x = 1 \<and> \<not> x_delta_zero x then se_code (y_delta y) @ [] else []) () (slice_fill x y)"
  proof (cases "x_poc_type x = 0")
    case True
    then have p: "poc_type ?sps = 0" "s32 (log2_max_poc_lsb ?sps + 4) = int (x_poc_lsb x + 4)"
      by (simp_all add: sps_fill_slice q)
    show ?thesis unfolding if_P [OF p(1)] if_P [OF True] p(2)
      by (rule yields_eq, rule yields_rd_int [OF refl q(8,9)], rule yields_upd_last) (simp add: slice_fill_def True)
  next
    case False
    then have p: "poc_type ?sps \<noteq> 0"
        "(poc_type ?sps = 1 \<and> delta_pic_order_always_zero_flag ?sps = 0) = (x_poc_type x = 1 \<and> \<not> x_delta_zero x)"
      by (auto simp: sps_fill_slice)
    have fill: "?c = slice_fill x y" using False by (simp add: slice_fill_def)
    show ?thesis unfolding if_not_P [OF p(1)] if_not_P [OF False] p(2) fill
      by (rule yields_when [OF refl], rule yields_se [OF q(5)], rule yields_return)
  qed
  have plane: "\<not> separate_planes x" using assms(2) by (simp add: slice_ok_def)
  show ?thesis
    unfolding slice_body_def slice_bits_def sps_fill_slice(1) q(10) if_not_P [OF plane] append_Nil
    by (rule yields_ue [OF q(1)], rule yields_ue [OF q(2)], rule yields_upd, rule yields_ue [OF q(3)],
        rule yields_rd_int [OF refl q(6,7)], rule yields_upd, rule yields_bind [OF field], rule yields_bind [OF idr],
        rule yields_upd, rule last)
qed

section \<open>Properties\<close>

text \<open>Emulation prevention is undone: what the encoder escaped comes back, through each of the three copies
  of the loop, for every payload.\<close>

theorem unescape_roundtrip:
  "h264_decode_annexb (escape 0 xs) = xs \<and>
   sps_copy (h # escape 0 xs) (Suc (length (escape 0 xs))) 1 [] = Inr xs \<and>
   slice_copy (escape 0 xs @ behind) (int (length (escape 0 xs))) 0 [] = Inr xs"
proof -
  have "strip 4 (escape 0 xs) = xs" "strip 3 (escape 0 xs) = xs"
    using strip_escape [of 4 0 "[]" xs] strip_escape [of 3 0 "[]" xs] by simp_all
  then show ?thesis
    by (simp add: decode_annexb_strip sps_copy_strip slice_copy_strip)
qed

lemma ParseSqs_prefix:
  assumes "n \<le> length pb"
  shows "ParseSqs_bytes mem pb n sps = ParseSqs_bytes mem (take n pb) n sps"
  using assms by (simp add: ParseSqs_bytes_def sps_copy_strip)

lemma ParseSqs_reads:
  assumes "sps_ok x" and "bytes_bits rbsp = sps_bits x @ trailing"
  shows "ParseSqs_bytes mem (h # escape 0 rbsp) (Suc (length (escape 0 rbsp))) sps = Inr (True, sps_fill x sps)"
proof -
  let ?n = "Suc (length (escape 0 rbsp))"
  have copy: "sps_copy (h # escape 0 rbsp) ?n 1 [] = Inr rbsp"
    using strip_escape [of 4 0 "[]" rbsp] by (simp add: sps_copy_strip)
  let ?mem = "rbsp @ map mem [length rbsp..<?n]"
  have "length rbsp \<le> length (escape 0 rbsp)"
  proof -
    have "length xs \<le> length (escape z xs)" for z and xs :: "byte list"
      by (induction xs arbitrary: z) (auto intro: le_SucI)
    then show ?thesis .
  qed
  then have len: "length ?mem = ?n" by simp
  then have "bs_at (bs_init ?mem ?n) (bytes_bits ?mem)" using bs_at_init [of ?n ?mem] by simp
  then have "bs_at (bs_init ?mem ?n) (sps_bits x @ trailing @ bytes_bits (map mem [length rbsp..<?n]))"
    using assms(2) by (simp add: bytes_bits_simps)
  then obtain s where "run_state sps_body (bs_init ?mem ?n, sps) = (True, (s, sps_fill x sps))"
    using yields_run [OF yields_sps [OF assms(1)]] by metis
  then show ?thesis
    by (simp only: ParseSqs_bytes_def copy andThen_simps Let_def prod.case)
qed


text \<open>A concrete set: main profile, 1280 by 720, 25 frames per second.\<close>

definition sample_sps :: sps_syntax where
  "sample_sps = \<lparr>x_profile = 77, x_level = replicate 16 False, x_id = 0, x_chroma = 1, x_plane = False,
     x_luma_depth = 0, x_chroma_depth = 0, x_bypass = False, x_frame_num = 4, x_poc_type = 0, x_poc_lsb = 2,
     x_delta_zero = False, x_non_ref = 0, x_top_bottom = 0, x_offsets = [], x_refs = 3, x_gaps = False,
     x_width = 79, x_height = 44, x_mbs_only = True, x_adaptive = False, x_direct = True, x_crop = None,
     x_vui = True, x_sar = Some (1, 0, 0), x_overscan = None, x_signal = None, x_chroma_loc = None,
     x_timing = Some (1, 50, True), x_nal_hrd = None, x_vcl_hrd = None, x_low_delay = False,
     x_pic_struct = False, x_restriction = None\<rparr>"

lemma sample_sps_ok: "sps_ok sample_sps"
  by (simp add: sps_ok_def high_profile_def sample_sps_def)

definition sample_bytes :: "byte list" where
  "sample_bytes = [77, 0, 0, 150, 200, 2, 128, 45, 216, 8, 128, 0, 0, 0, 128, 0, 0, 25, 66]"

lemma sample_codes:
  "ue_code 0 = [True]"
  "ue_code 2 = [False, True, True]"
  "ue_code 3 = [False, False, True, False, False]"
  "ue_code 4 = [False, False, True, False, True]"
  "ue_code 44 = [False, False, False, False, False, True, False, True, True, False, True]"
  "ue_code 79 = [False, False, False, False, False, False, True, False, True, False, False, False, False]"
  "to_bits 8 77 = [False, True, False, False, True, True, False, True]"
  "to_bits 8 1 = [False, False, False, False, False, False, False, True]"
  "to_bits 32 1 = replicate 24 False @ [False, False, False, False, False, False, False, True]"
  "to_bits 32 50 = replicate 24 False @ [False, False, True, True, False, False, True, False]"
  by code_simp+

lemma sample_sps_bits:
  "sps_bits sample_sps = to_bits 8 77 @ replicate 16 False @ ue_code 0 @ ue_code 4 @ ue_code 0 @ ue_code 2 @
     ue_code 3 @ [False] @ ue_code 79 @ ue_code 44 @ [True, True, False, True, True] @ to_bits 8 1 @
     [False, False, False, True] @ to_bits 32 1 @ to_bits 32 50 @ [True, False, False, False, False]"
  by (simp add: sps_bits_def high_profile_def poc_bits_def size_bits_def vui_bits_def sar_bits_def video_bits_def timing_bits_def
      hrds_bits_def restriction_bits_def opt_bits_def sample_sps_def)

lemma sample_bytes_bits: "bytes_bits sample_bytes = sps_bits sample_sps @ [True, False]"
  unfolding sample_sps_bits sample_codes by code_simp


text \<open>The parser sees the first 64 bytes only.\<close>

lemma ParseSlice_reads:
  assumes "sps_ok x" and "slice_ok x y" and "bytes_bits rbsp = slice_bits x nal_type y @ trailing"
    and "length (slice_bits x nal_type y) \<le> 336" and "64 \<le> length (escape 0 rbsp)" and "64 \<le> n"
    and "take 64 p = take 64 (escape 0 rbsp)"
  shows "ParseSlice_bytes (Some (sps_fill x sps)) c p n nal_type = Inr (slice_fill x y)"
proof -
  have len: "64 \<le> length p" using arg_cong [OF assms(7), of length] assms(5) by simp
  let ?bits = "slice_bits x nal_type y"
  obtain m t where mt: "take 64 (escape 0 rbsp) = escape 0 (take m rbsp) @ t"
      "t = [] \<or> t = [3] \<and> zeros 0 (take m rbsp) = 2"
    using take_escape [of 0 64 rbsp] by auto
  let ?q = "take m rbsp"
  have "strip 3 (escape 0 ?q @ t) = ?q" using strip_escape [of 3 0 t ?q] mt(2) by auto
  moreover have "take 64 p = escape 0 ?q @ t" using mt(1) assms(7) by simp
  moreover have "slice_copy p (int 64) 0 [] = Inr (strip 3 (take 64 p))"
    using slice_copy_strip [of 64 p 0 "[]"] len by simp
  moreover have "(if 64 < n then 64 else n) = 64" using assms(6) by simp
  ultimately have copy: "slice_copy p (if 64 < n then 64 else n) 0 [] = Inr ?q" by simp
  have "64 = length (escape 0 ?q) + length t" using arg_cong [OF mt(1), of length] assms(5) by simp
  then have "42 \<le> length ?q" using length_escape [of 0 ?q] mt(2) by auto
  then have long: "length ?bits \<le> length (bytes_bits ?q)"
    unfolding length_bytes_bits using assms(4) by linarith
  have "bytes_bits ?q @ bytes_bits (drop m rbsp) = ?bits @ trailing"
    by (subst bytes_bits_simps(3) [symmetric], subst append_take_drop_id, rule assms(3))
  then have "take (length ?bits) (bytes_bits ?q @ bytes_bits (drop m rbsp)) = ?bits" by simp
  then have "take (length ?bits) (bytes_bits ?q) = ?bits" using long by (simp only: take_append diff_is_0_eq' take_0 append_Nil2)
  then have "bytes_bits ?q = ?bits @ drop (length ?bits) (bytes_bits ?q)" 
    using append_take_drop_id [of "length ?bits" "bytes_bits ?q"] by simp
  moreover have "bs_at (bs_init (?q @ replicate (64 - length ?q) 0) (length ?q)) (bytes_bits ?q)"
  proof -
    have eq: "take (length ?q) (?q @ replicate (64 - length ?q) 0) = ?q" by (simp only: take_append diff_self_eq_0 take_0 append_Nil2 take_all order_refl)
    have "length ?q \<le> length (?q @ replicate (64 - length ?q) 0)" by (simp only: length_append le_add1)
    from bs_at_init [OF this] show ?thesis by (simp only: eq)
  qed
  ultimately obtain s where "run_state (slice_body (sps_fill x sps) nal_type)
      (bs_init (?q @ replicate (64 - length ?q) 0) (length ?q), c) = ((), (s, slice_fill x y))"
    using yields_run [OF yields_slice [OF assms(1,2)]] by metis
  then show ?thesis
    by (simp only: ParseSlice_bytes_def copy andThen_simps option.case snd_conv)
qed

text \<open>C24. \<open>ParseSlice\<close> reads back slice type, frame number and picture order count of the slices of at least 64 bytes whose
  header takes at most 336 bits and whose set does not have separate colour planes, given the parameter set that
  \<open>ParseSqs\<close> left. It may look at 64 escaped bytes only, which always hold 42 bytes of the header.\<close>

theorem ParseSlice_roundtrip:
  assumes "sps_ok x" and "slice_ok x y" and "bytes_bits rbsp = slice_bits x nal_type y @ trailing"
    and "length (slice_bits x nal_type y) \<le> 336" and "64 \<le> length (escape 0 rbsp)" and "64 \<le> n"
  shows "ParseSlice_bytes (Some (sps_fill x sps)) c (escape 0 rbsp @ behind) n nal_type = Inr (slice_fill x y)"
  by (rule ParseSlice_reads [OF assms]) (use assms(5) in simp)

definition sample_slice :: slice_syntax where
  "sample_slice = \<lparr>y_first_mb = 0, y_type = 5, y_pps = 0, y_colour = 0, y_frame_num = 3, y_field = False,
     y_bottom = False, y_idr = 0, y_lsb = 6, y_delta = 0\<rparr>"

theorem ParseSlice_roundtrip_witness:
  "\<forall>sps c. ParseSlice_bytes (Some (sps_fill sample_sps sps)) c (escape 0 ([154, 6, 53] @ replicate 64 85) @ []) 64 1 =
    Inr \<lparr>i_slice_type = 5, i_frame_num = 3, i_pic_order_cnt_lsb = 6\<rparr>"
proof -
  have fill: "slice_fill sample_sps sample_slice = \<lparr>i_slice_type = 5, i_frame_num = 3, i_pic_order_cnt_lsb = 6\<rparr>"
    by (simp add: slice_fill_def sample_sps_def sample_slice_def)
  have ok: "slice_ok sample_sps sample_slice" by (simp add: slice_ok_def separate_planes_def sample_sps_def sample_slice_def)
  have bits: "slice_bits sample_sps 1 sample_slice @ [True, False, True] = bytes_bits [154, 6, 53]" by code_simp
  have eq: "bytes_bits ([154, 6, 53] @ replicate 64 85) =
      slice_bits sample_sps 1 sample_slice @ ([True, False, True] @ bytes_bits (replicate 64 85))"
    by (simp only: bytes_bits_simps(3) bits [symmetric] append_assoc)
  have short: "length (slice_bits sample_sps 1 sample_slice) \<le> 336"
    using arg_cong [OF bits, of length] by simp
  have long: "64 \<le> length (escape 0 ([154, 6, 53] @ replicate 64 85))" by code_simp
  show ?thesis
    by (intro allI, subst fill [symmetric])
      (rule ParseSlice_roundtrip [OF sample_sps_ok ok eq short long order_refl])
qed

text \<open>C25. The member function agrees with the stand-alone decoder in \<open>bit/\<close>, of whose code it is a changed copy: \<open>ParseSqs\<close>
  leaves in the structure what \<open>h264_decode_seq_parameter_set\<close> leaves there when it is given what \<open>h264_decode_annexb\<close> makes of
  the unit without its header, followed by uninitialised bytes up to the unit's size.\<close>

theorem ParseSqs_annexb:
  assumes "n \<le> length pb"
  shows "ParseSqs_bytes mem pb n sps = (let p = h264_decode_annexb (drop 1 (take n pb)) in
    Inr (h264_decode_seq_parameter_set (p @ map mem [length p..<n]) n sps))"
  using assms
  by (simp add: ParseSqs_bytes_def h264_decode_seq_parameter_set_def seq_body_same decode_annexb_strip sps_copy_strip Let_def
      case_prod_beta)

theorem ParseSqs_annexb_witness:
  "\<forall>mem sps. ParseSqs_bytes mem [0x67, 0, 0, 3, 1] 5 sps =
    Inr (h264_decode_seq_parameter_set ([0, 0, 1] @ map mem [length [0, 0, 1 :: byte]..<5]) 5 sps)"
proof (intro allI)
  fix mem sps
  have p: "h264_decode_annexb (drop 1 (take 5 [0x67, 0, 0, 3, 1])) = [0, 0, 1]" by code_simp
  have "5 \<le> length [0x67, 0, 0, 3, 1 :: byte]" by simp
  from ParseSqs_annexb [OF this, of mem sps]
  show "ParseSqs_bytes mem [0x67, 0, 0, 3, 1] 5 sps =
    Inr (h264_decode_seq_parameter_set ([0, 0, 1] @ map mem [length [0, 0, 1 :: byte]..<5]) 5 sps)"
    by (simp only: p Let_def)
qed

text \<open>A parameter set with an id of 32 or more is refused, and all it has changed is the profile.\<close>

theorem ParseSqs_bad_id:
  assumes "bytes_bits rbsp = to_bits 8 profile @ level @ ue_code i @ trailing"
    and "profile < 256" and "length level = 16" and "32 \<le> i" and "i < 2 ^ 31"
  shows "h264_decode_seq_parameter_set rbsp (length rbsp) sps = (False, sps\<lparr>profile_idc := int profile\<rparr>)"
proof -
  have q: "profile < 2 ^ 8" "1 + 1 + 1 + 5 + 8 = int (length level)" "32 \<le> int i" using assms by simp_all
  have "yields sps_body sps (to_bits 8 profile @ level @ ue_code i @ []) False (sps\<lparr>profile_idc := int profile\<rparr>)"
    unfolding sps_body_def
    by (rule yields_eq, rule yields_rd_int [OF _ q(1)], simp, simp, rule yields_upd, rule yields_skip [OF q(2)],
        rule yields_ue [OF assms(5)], subst if_P [OF q(3)], rule yields_return) simp
  moreover have "bs_at (bs_init rbsp (length rbsp)) ((to_bits 8 profile @ level @ ue_code i @ []) @ trailing)"
    using bs_at_init [of "length rbsp" rbsp] assms(1) by simp
  ultimately obtain s where "run_state sps_body (bs_init rbsp (length rbsp), sps) = (False, (s, sps\<lparr>profile_idc := int profile\<rparr>))"
    by (rule yields_run)
  then show ?thesis by (simp add: h264_decode_seq_parameter_set_def seq_body_same)
qed

theorem ParseSqs_bad_id_witness:
  "\<forall>sps. h264_decode_seq_parameter_set [77, 0, 30, 4, 32] (length [77, 0, 30, 4, 32 :: byte]) sps = (False, sps\<lparr>profile_idc := 77\<rparr>)"
proof -
  have "bytes_bits [77, 0, 30, 4, 32] = to_bits 8 77 @ to_bits 16 30 @ ue_code 32 @ [False, False, False, False, False]"
    by code_simp
  then show ?thesis using ParseSqs_bad_id [of "[77, 0, 30, 4, 32]" 77 "to_bits 16 30" 32] by simp
qed

end
