(* ===== verification/MediaStream.thy ===== *)
theory MediaStream
  imports MediaBuffer
begin

text \<open>
  The media stream of \<open>MediaStream.h\<close> and \<open>MediaStream.cpp\<close>: its state, the base class's own operations, and
  the contract of its packet queue that the RTP side relies on.

  The queue holds owned pointers to buffers; popping one hands it to the caller. The fields the
  constructor leaves uninitialised are arguments of its model.
\<close>

section \<open>State\<close>

record StreamInfo =
  frame_count :: int      \<comment> \<open>\<open>int64_t\<close>: pictures before the current key frame\<close>
  pframe_count :: int     \<comment> \<open>\<open>int64_t\<close>: pictures so far\<close>
  ssrc :: int             \<comment> \<open>\<open>int32_t\<close>\<close>
  lsb_count :: int
  fps :: int
  filename :: string

record media_stream =
  filepos :: nat          \<comment> \<open>\<open>uint64_t\<close>\<close>
  OnStream :: bool
  IsPlay :: bool
  sqsnumber :: nat        \<comment> \<open>\<open>unsigned short\<close>\<close>
  fileindex :: int
  MediaInfo :: StreamInfo
  bufferlist :: "buffer list"

text \<open>\<open>ssrc\<close>, \<open>fps\<close> and \<open>fileindex\<close> keep what the memory held.\<close>

definition new_MediaStream :: "int \<Rightarrow> int \<Rightarrow> int \<Rightarrow> media_stream" where
  "new_MediaStream ssrc0 fps0 fileindex0 =
     \<lparr>filepos = 0, OnStream = False, IsPlay = False, sqsnumber = 0, fileindex = fileindex0,
      MediaInfo = \<lparr>frame_count = 0, pframe_count = 0, ssrc = ssrc0, lsb_count = 0, fps = fps0, filename = []\<rparr>,
      bufferlist = []\<rparr>"

section \<open>Operations of the base class\<close>

definition MediaStream_AddNode :: "'a media_stream_scheme \<Rightarrow> 'a media_stream_scheme" where
  "MediaStream_AddNode st = st"

definition MediaStream_DevNode :: "buffer \<Rightarrow> nat \<Rightarrow> 'a media_stream_scheme \<Rightarrow> 'a media_stream_scheme" where
  "MediaStream_DevNode buf pos st = st"

definition MediaStream_GetNode :: "'a media_stream_scheme \<Rightarrow> buffer \<times> 'a media_stream_scheme" where
  "MediaStream_GetNode st = (Buffer 0, st)"

definition GetListLen :: "'a media_stream_scheme \<Rightarrow> nat" where
  "GetListLen st = u32 (int (length (bufferlist st)))"

text \<open>\<open>bufferlist.push\<close>, the queue's other operation.\<close>

definition push_node :: "buffer \<Rightarrow> 'a media_stream_scheme \<Rightarrow> 'a media_stream_scheme" where
  "push_node b st = st\<lparr>bufferlist := bufferlist st @ [b]\<rparr>"

text \<open>The destructor pops and frees what is left; the buffers it frees are the result.\<close>

function MediaStream_drain :: "media_stream \<Rightarrow> buffer list \<Rightarrow> buffer list \<times> media_stream" where
  "MediaStream_drain st freed =
     (case bufferlist st of
        [] \<Rightarrow> (freed, st)
      | buf # rest \<Rightarrow> MediaStream_drain (st\<lparr>bufferlist := rest\<rparr>) (freed @ [buf]))"
  by pat_completeness auto
termination
  by (relation "measure (\<lambda>(st, freed). length (bufferlist st))") auto

declare MediaStream_drain.simps [simp del]

section \<open>The contract of a packet queue\<close>

text \<open>
  What the RTP side needs of a stream: a queue of nodes that is filled at its end and emptied from its
  front, an empty buffer standing for "no node".
\<close>

locale node_queue =
  fixes nodes :: "'s \<Rightarrow> buffer list"
    and push :: "buffer \<Rightarrow> 's \<Rightarrow> 's"
    and get :: "'s \<Rightarrow> buffer \<times> 's"
  assumes nodes_push: "nodes (push b s) = nodes s @ [b]"
    and get_empty: "nodes s = [] \<Longrightarrow> get s = (Buffer 0, s)"
    and get_front: "nodes s = b # bs \<Longrightarrow> fst (get s) = b \<and> nodes (snd (get s)) = bs"
begin

fun push_all :: "buffer list \<Rightarrow> 's \<Rightarrow> 's" where
  "push_all [] s = s"
| "push_all (b # bs) s = push_all bs (push b s)"

fun get_all :: "nat \<Rightarrow> 's \<Rightarrow> buffer list \<times> 's" where
  "get_all 0 s = ([], s)"
| "get_all (Suc n) s = (let (b, s) = get s; (bs, s) = get_all n s in (b # bs, s))"

lemma nodes_push_all: "nodes (push_all bs s) = nodes s @ bs"
  by (induction bs arbitrary: s) (simp_all add: nodes_push)

lemma get_all_nodes:
  "n \<le> length (nodes s) \<Longrightarrow>
    fst (get_all n s) = take n (nodes s) \<and> nodes (snd (get_all n s)) = drop n (nodes s)"
proof (induction n arbitrary: s)
  case (Suc n)
  then obtain b bs where s: "nodes s = b # bs" by (cases "nodes s") auto
  from get_front [OF this] have "fst (get s) = b" "nodes (snd (get s)) = bs" by auto
  with Suc s show ?case by (simp add: case_prod_beta Let_def)
qed simp

text \<open>First in, first out: what is pushed on an empty queue comes back in the same order.\<close>

lemma fifo: "nodes s = [] \<Longrightarrow> fst (get_all (length bs) (push_all bs s)) = bs"
  using get_all_nodes [of "length bs" "push_all bs s"] by (simp add: nodes_push_all)

end

lemma MediaStream_drain_all:
  "MediaStream_drain st freed = (freed @ bufferlist st, st\<lparr>bufferlist := []\<rparr>)"
proof (induction st freed rule: MediaStream_drain.induct)
  case (1 st freed)
  show ?case
  proof (cases "bufferlist st")
    case Nil
    then show ?thesis by (subst MediaStream_drain.simps) simp
  next
    case (Cons buf rest)
    with 1 [OF Cons] show ?thesis by (subst MediaStream_drain.simps) simp
  qed
qed

end
