(* ===== verification/H264Stream.thy ===== *)
theory H264Stream
  imports MediaStream
begin

text \<open>
  The packetiser of \<open>h264MediaStream.cpp\<close>: splitting chunks of an Annex B byte stream into NAL units
  (\<open>DevNode\<close>) and NAL units into nodes that fit the MTU (\<open>DevLargeNode\<close>), and the node queue.

  A node starts with 16 bytes reserved for the RTP-over-TCP header (\<open>RTP_HEADSIZE\<close>), whose first bytes
  carry notes to the sender: byte 0 is 0 for a whole NAL unit and 1 for an FU-A fragment, whose byte 1 is
  1 for the first, 0 for the last and another value for a middle fragment, and whose byte 2 is the NAL header.
\<close>

section \<open>State and queue\<close>

record h264_dev = media_stream +
  DevCount :: int

definition NETMTU :: nat where "NETMTU = 1480"

definition RTP_HEADSIZE :: nat where "RTP_HEADSIZE = 16"

text \<open>\<open>NETMTU - RTP_HEADSIZE - 2\<close>, the most that an unfragmented unit may have and the stride of fragments.\<close>

abbreviation MAXNAL :: nat where "MAXNAL \<equiv> NETMTU - RTP_HEADSIZE - 2"

lemma sizes [simp]: "NETMTU = 1480" "RTP_HEADSIZE = 16"
  by (simp_all add: NETMTU_def RTP_HEADSIZE_def)

definition GetNode :: "'a media_stream_scheme \<Rightarrow> buffer \<times> 'a media_stream_scheme" where
  "GetNode st =
     (if length (bufferlist st) \<noteq> 0 then (hd (bufferlist st), st\<lparr>bufferlist := tl (bufferlist st)\<rparr>)
      else (Buffer 0, st))"

definition PullNode :: "buffer \<Rightarrow> 'a media_stream_scheme \<Rightarrow> 'a media_stream_scheme" where
  "PullNode Pulldata st = st"

definition GetNalType :: "buffer \<Rightarrow> byte res" where
  "GetNalType buf =
     andThen (GetByte buf 0) (\<lambda>b0.
     if b0 = 0 then andThen (GetByte buf RTP_HEADSIZE) (\<lambda>b. Inr (b AND 0x1f))
     else if b0 = 1 then
       andThen (GetByte buf 1) (\<lambda>b1.
       if b1 = 1 then andThen (GetByte buf 2) (\<lambda>b. Inr (b AND 0x1f)) else Inr 0)
     else Inr (b0 AND 0x1f))"

interpretation queue: node_queue bufferlist push_node GetNode
  by unfold_locales (auto simp: push_node_def GetNode_def)

section \<open>Fragmenting a NAL unit\<close>

text \<open>The three \<open>SetByte\<close> calls that leave notes in the header.\<close>

definition set_notes :: "buffer \<Rightarrow> byte \<Rightarrow> byte \<Rightarrow> byte \<Rightarrow> buffer res" where
  "set_notes b n0 n1 n2 =
     andThen (SetByte b n0 0) (\<lambda>b. andThen (SetByte b n1 1) (\<lambda>b. SetByte b n2 2))"

definition fu :: "byte list" where "fu = [0, 0]"

definition RtpHead :: buffer where "RtpHead = Buffer 16"

lemma u32_step:
  assumes "1462 < u32 (int sta - int pos)"
  shows "u32 (int sta - int (u32 (int pos + 1462))) = u32 (int sta - int pos) - 1462"
proof -
  let ?M = "2 ^ 32 :: int"
  have m: "(int sta - (int pos + 1462) mod ?M) mod ?M = ((int sta - int pos) mod ?M - 1462) mod ?M"
    by (simp add: mod_simps algebra_simps)
  have "1462 < (int sta - int pos) mod ?M" using assms by (simp add: u32_def)
  then have "((int sta - int pos) mod ?M - 1462) mod ?M = (int sta - int pos) mod ?M - 1462"
    by (intro mod_pos_pos_trivial) (auto intro: less_le_trans [OF diff_less_eq [THEN iffD2]])
  with m show ?thesis by (simp add: u32_def nat_diff_distrib)
qed

text \<open>
  The \<open>while\<close> loop of \<open>DevLargeNode\<close> with its variables \<open>pos\<close> and \<open>IsFU_A\<close>. Every turn adds one fragment and
  lowers the remaining length by \<open>MAXNAL\<close>.
\<close>

function large_loop ::
  "buffer \<Rightarrow> byte \<Rightarrow> nat \<Rightarrow> nat \<Rightarrow> bool \<Rightarrow> 'a h264_dev_scheme \<Rightarrow> (nat \<times> bool \<times> 'a h264_dev_scheme) res" where
  "large_loop buf nal_type sta pos IsFU_A st =
     (if 1480 - 16 - 2 < u32 (int sta - int pos) then
        let st = st\<lparr>DevCount := s32 (DevCount st + 1)\<rparr> in
        andThen (fill_all fill_from
          [(FromRef RtpHead, 0, RTP_HEADSIZE), (FromPtr fu, 0, 2),
           (FromRef buf, u32 (int pos + 1), NETMTU - RTP_HEADSIZE - 3)] (Buffer NETMTU)) (\<lambda>NewNode.
        andThen (set_notes NewNode 0x01 (word_of_int (DevCount st)) nal_type) (\<lambda>NewNode.
        large_loop buf nal_type sta (u32 (int pos + (1480 - 16 - 2))) True (push_node NewNode st)))
      else Inr (pos, IsFU_A, st))"
  by pat_completeness auto
termination
proof (relation "measure (\<lambda>(buf, nal_type, sta, pos, IsFU_A, st). u32 (int sta - int pos))", goal_cases)
  case (2 buf nal_type sta pos IsFU_A st st' b b')
  then show ?case using u32_step [of sta pos] by simp
qed simp

declare large_loop.simps [simp del]

definition DevLargeNode ::
  "buffer \<Rightarrow> nat \<Rightarrow> int \<Rightarrow> int \<Rightarrow> 'a h264_dev_scheme \<Rightarrow> 'a h264_dev_scheme res" where
  "DevLargeNode buf pos len dpage st =
     (let sta = u32 (int pos + len);
          pdata = GetBuffer buf in
      andThen (at pdata pos) (\<lambda>nal_type.
      andThen (large_loop buf nal_type sta pos (0 < dpage) st) (\<lambda>(pos, IsFU_A, st).
      if IsFU_A then
        let st = st\<lparr>DevCount := (if dpage = 1 then s32 (DevCount st + 1) else 0)\<rparr>;
            size = u32 (int sta - int pos) in
        andThen (fill_all fill_from
          [(FromRef RtpHead, 0, RTP_HEADSIZE), (FromPtr fu, 0, 2),
           (if dpage = 1 \<and> DevCount st = 1 then (FromRef buf, u32 (int pos + 1), u32 (int size - 1))
            else (FromRef buf, pos, size))] (Buffer (u32 (int size + 16 + 2)))) (\<lambda>NewNode.
        andThen (set_notes NewNode 0x01 (word_of_int (DevCount st)) nal_type) (\<lambda>NewNode.
        Inr (push_node NewNode st)))
      else
        let size = u32 (int sta - int pos) in
        andThen (fill_all fill_from
          [(FromRef RtpHead, 0, RTP_HEADSIZE), (FromRef buf, pos, size)] (Buffer (u32 (int size + 16)))) (\<lambda>NewNode.
        andThen (SetByte NewNode (word_of_int (DevCount st)) 0) (\<lambda>NewNode.
        Inr ((push_node NewNode st)\<lparr>DevCount := 0\<rparr>))))))"

section \<open>Splitting a chunk into NAL units\<close>

text \<open>The test for a start code at \<open>sta\<close>, with the short-circuit order of its reads.\<close>

definition start_code :: "byte list \<Rightarrow> nat \<Rightarrow> bool res" where
  "start_code pdata sta =
     andThen (at pdata sta) (\<lambda>b0. if b0 \<noteq> 0 then Inr False else
     andThen (at pdata (sta + 1)) (\<lambda>b1. if b1 \<noteq> 0 then Inr False else
     andThen (at pdata (sta + 2)) (\<lambda>b2. if b2 = 1 then Inr True else if b2 \<noteq> 0 then Inr False else
     andThen (at pdata (sta + 3)) (\<lambda>b3. Inr (b3 = 1)))))"

text \<open>
  The \<open>for\<close> loop of \<open>DevNode\<close>. \<open>sta\<close> stays below the size of an array in a 32-bit address space, so its
  increments do not wrap.
\<close>

function dev_loop ::
  "buffer \<Rightarrow> nat \<Rightarrow> nat \<Rightarrow> bool \<Rightarrow> 'a h264_dev_scheme \<Rightarrow> (nat \<times> 'a h264_dev_scheme) res" where
  "dev_loop buf sta pos NalFlag st =
     (if sta < u32 (int (GetSizeValue buf) - 4) then
        let pdata = GetBuffer buf in
        andThen (start_code pdata sta) (\<lambda>found.
        if \<not> found then dev_loop buf (sta + 1) pos NalFlag st
        else if \<not> NalFlag then
          andThen (if 0 < DevCount st then
                     if sta = 0 then DevLargeNode buf 0 0 2 st
                     else DevLargeNode buf 0 (s32 (int sta - 1)) 2 st
                   else Inr st) (\<lambda>st.
          andThen (at pdata (sta + 2)) (\<lambda>b2.
          let sta' = sta + (if b2 = 0 then 3 else 2) in
          dev_loop buf (sta' + 1) (u32 (int pos + int sta' + 1)) True st))
        else
          andThen (at pdata pos) (\<lambda>hdr.
          andThen (at pdata (sta + 2)) (\<lambda>b2.
          let code = (if b2 = 0 then 4 else 3);
              size = u32 (int sta - int pos);
              pos' = u32 (int pos + int size + int code) in
          if 6 \<le> uint (hdr AND 0x1f) then
            andThen (fill_all fill_from [(FromRef buf, pos, size)] (Buffer size)) (\<lambda>NewNode.
            dev_loop buf (sta + code + 1) pos' True (push_node NewNode st))
          else
            andThen (DevLargeNode buf pos (s32 (int sta - int pos)) 0 st) (\<lambda>st.
            dev_loop buf (sta + code + 1) pos' True st))))
      else Inr (pos, st))"
  by pat_completeness auto
termination
  by (relation "measure (\<lambda>(buf, sta, pos, NalFlag, st). u32 (int (GetSizeValue buf) - 4) - sta)") auto

declare dev_loop.simps [simp del]

definition DevNode :: "buffer \<Rightarrow> nat \<Rightarrow> 'a h264_dev_scheme \<Rightarrow> 'a h264_dev_scheme res" where
  "DevNode buf pos st =
     andThen (dev_loop buf pos pos False st) (\<lambda>(pos, st).
     andThen (DevLargeNode buf pos (s32 (int (GetSizeValue buf) - int pos)) 1 st) (\<lambda>st.
     Inr (st\<lparr>filepos := (filepos st + GetSizeValue buf) mod 2 ^ 64\<rparr>)))"

definition DevNode_shared :: "buffer \<Rightarrow> nat \<Rightarrow> 'a h264_dev_scheme \<Rightarrow> 'a h264_dev_scheme res" where
  "DevNode_shared buf pos st =
     (let size = u32 (int (GetSizeValue buf) - int pos) in
      andThen (FullBuffer_ptr (Buffer size) (drop pos (GetBuffer buf)) size) (\<lambda>(ok, sbuf).
      DevNode sbuf 0 st))"

section \<open>What a fragmented NAL unit looks like\<close>

text \<open>The bytes of a fragment and of an unfragmented unit.\<close>

definition fu_bytes :: "byte \<Rightarrow> byte \<Rightarrow> byte list \<Rightarrow> byte list" where
  "fu_bytes n1 h body = [1, n1, h] @ replicate 15 0 @ body"

definition single_bytes :: "byte \<Rightarrow> byte list \<Rightarrow> byte list" where
  "single_bytes n0 body = n0 # replicate 15 0 @ body"

definition good_nodes :: "buffer list \<Rightarrow> byte list list \<Rightarrow> bool" where
  "good_nodes ns bodies \<longleftrightarrow> map content ns = bodies \<and> (\<forall>b \<in> set ns. buf_wf b \<and> 0 < MTU b)"

lemma good_nodes_simps [simp]:
  "good_nodes [] bodies = (bodies = [])"
  "good_nodes (b # ns) (xs # ys) = (content b = xs \<and> buf_wf b \<and> 0 < MTU b \<and> good_nodes ns ys)"
  by (auto simp: good_nodes_def)

lemma good_nodes_append: "good_nodes ns xs \<Longrightarrow> good_nodes ms ys \<Longrightarrow> good_nodes (ns @ ms) (xs @ ys)"
  by (auto simp: good_nodes_def)

lemma RtpHead_wf [simp]: "buf_wf RtpHead" "pbuffer RtpHead = replicate 16 0"
  by (simp_all add: RtpHead_def buf_wf_Buffer)

abbreviation fu_head :: "(fill_source \<times> nat \<times> nat) list" where
  "fu_head \<equiv> [(FromRef RtpHead, 0, 16), (FromPtr fu, 0, 2)]"

lemma fu_head_fill:
  assumes "18 \<le> mtu" and "mtu < 2 ^ 16"
  shows "\<exists>b. fill_all fill_from fu_head (Buffer mtu) = Inr b \<and> buf_wf b \<and> MTU b = mtu \<and>
    content b = replicate 18 0 \<and> bpos b = mtu - 18"
proof -
  have b0: "buf_wf (Buffer mtu)" "content (Buffer mtu) = []" "bpos (Buffer mtu) = mtu"
    using assms(2) by (simp_all add: buf_wf_Buffer)
  have zeros: "concat (map (\<lambda>(src, start, n). segment start n (fill_bytes src)) fu_head) = replicate 18 0"
    by (simp add: fill_bytes_def fu_def segment_def) code_simp
  obtain b where b: "fill_all fill_from fu_head (Buffer mtu) = Inr b" "buf_wf b" "content b = replicate 18 0"
      "bpos b = mtu - 18"
    using pkt.fill_all_fits [OF b0(1), of fu_head] assms(1) b0 zeros by (auto simp: fill_bytes_def fu_def)
  moreover have "MTU b = mtu" using MTU_content [OF b(2)] b(3,4) assms(1) by simp
  ultimately show ?thesis by blast
qed

lemma fu_split: "[(FromRef RtpHead, 0, 16), (FromPtr fu, 0, 2), c] = fu_head @ [c]"
  by simp

lemma fill_all_single: "fill_all fill [(src, start, n)] b = andThen (fill b src start n) (\<lambda>(ok, b). Inr b)"
  by (cases "fill b src start n") (auto simp: fill_next_def)

lemma fu_fill:
  assumes "18 + n \<le> mtu" and "mtu < 2 ^ 16" and "start + n \<le> length (pbuffer buf)"
  shows "\<exists>b. fill_all fill_from [(FromRef RtpHead, 0, 16), (FromPtr fu, 0, 2), (FromRef buf, start, n)] (Buffer mtu) = Inr b \<and>
    buf_wf b \<and> MTU b = mtu \<and> content b = replicate 18 0 @ segment start n (pbuffer buf)"
proof -
  have n: "18 \<le> mtu" "n \<le> mtu - 18" using assms(1) by simp_all
  obtain b1 where b1: "fill_all fill_from fu_head (Buffer mtu) = Inr b1" "buf_wf b1" "MTU b1 = mtu"
      "content b1 = replicate 18 0" "bpos b1 = mtu - 18"
    using fu_head_fill [OF n(1) assms(2)] by blast
  show ?thesis
  proof (cases "n = 0")
    case True
    with b1 show ?thesis
      unfolding fu_split fill_all_append b1(1) by (simp add: fill_all_single fill_from_ref_none del: fill_all.simps)
  next
    case False
    then obtain b2 where b2: "fill_from b1 (FromRef buf) start n = Inr (True, b2)" "buf_wf b2"
        "content b2 = replicate 18 0 @ segment start n (pbuffer buf)" "bpos b2 = mtu - 18 - n"
      using pkt.fill_fits [OF b1(2), of n start "FromRef buf"] n assms(3) b1 by (auto simp: fill_bytes_def)
    moreover have "MTU b2 = mtu" using MTU_content [OF b2(2)] b2(3,4) assms by simp
    ultimately show ?thesis
      unfolding fu_split fill_all_append b1(1) by (simp add: fill_all_single del: fill_all.simps)
  qed
qed

lemma fu_fill_none:
  assumes "18 \<le> mtu" and "mtu < 2 ^ 16" and "mtu - 18 < n"
  shows "\<exists>b. fill_all fill_from [(FromRef RtpHead, 0, 16), (FromPtr fu, 0, 2), (FromRef buf, start, n)] (Buffer mtu) = Inr b \<and>
    buf_wf b \<and> MTU b = mtu \<and> content b = replicate 18 0"
proof -
  obtain b1 where b1: "fill_all fill_from fu_head (Buffer mtu) = Inr b1" "buf_wf b1" "MTU b1 = mtu"
      "content b1 = replicate 18 0" "bpos b1 = mtu - 18"
    using fu_head_fill [OF assms(1,2)] by blast
  with assms(3) show ?thesis
    unfolding fu_split fill_all_append b1(1) by (simp add: fill_all_single fill_from_ref_full del: fill_all.simps)
qed

lemma single_fill:
  assumes "mtu = 16 + n" and "mtu < 2 ^ 16" and "start + n \<le> length (pbuffer buf)"
  shows "\<exists>b. fill_all fill_from [(FromRef RtpHead, 0, 16), (FromRef buf, start, n)] (Buffer mtu) = Inr b \<and>
    buf_wf b \<and> MTU b = mtu \<and> content b = replicate 16 0 @ segment start n (pbuffer buf)"
proof -
  have b0: "buf_wf (Buffer mtu)" "content (Buffer mtu) = []" "bpos (Buffer mtu) = mtu"
    using assms(2) by (simp_all add: buf_wf_Buffer)
  obtain b1 where b1: "fill_from (Buffer mtu) (FromRef RtpHead) 0 16 = Inr (True, b1)" "buf_wf b1"
      "content b1 = replicate 16 0" "bpos b1 = n"
    using pkt.fill_fits [OF b0(1), of 16 0 "FromRef RtpHead"] assms(1) b0
    by (auto simp: fill_bytes_def segment_def)
  have mtu: "MTU b1 = mtu" using MTU_content [OF b1(2)] b1(3,4) assms(1) by simp
  show ?thesis
  proof (cases "n = 0")
    case True
    then show ?thesis using b1 mtu by (simp add: fill_next_def fill_from_ref_none)
  next
    case False
    obtain b2 where b2: "fill_from b1 (FromRef buf) start n = Inr (True, b2)" "buf_wf b2"
        "content b2 = replicate 16 0 @ segment start n (pbuffer buf)" "bpos b2 = 0"
      using pkt.fill_fits [OF b1(2), of n start "FromRef buf"] assms(3) b1 False by (auto simp: fill_bytes_def)
    moreover have "MTU b2 = mtu" using MTU_content [OF b2(2)] b2(3,4) assms by simp
    ultimately show ?thesis using b1 by (simp add: fill_next_def)
  qed
qed

lemma set_notes_wf:
  assumes "buf_wf b" and "content b = replicate 18 0 @ body"
  shows "\<exists>b'. set_notes b 1 n1 h = Inr b' \<and> buf_wf b' \<and> MTU b' = MTU b \<and> content b' = fu_bytes n1 h body"
proof -
  obtain b1 where b1: "SetByte b 1 0 = Inr b1" "buf_wf b1" "MTU b1 = MTU b" "content b1 = (content b)[0 := 1]"
    using SetByte_wf [OF assms(1), of 0 1] assms(2) by auto
  obtain b2 where b2: "SetByte b1 n1 1 = Inr b2" "buf_wf b2" "MTU b2 = MTU b" "content b2 = (content b1)[1 := n1]"
    using SetByte_wf [OF b1(2), of 1 n1] b1 assms(2) by auto
  obtain b3 where b3: "SetByte b2 h 2 = Inr b3" "buf_wf b3" "MTU b3 = MTU b" "content b3 = (content b2)[2 := h]"
    using SetByte_wf [OF b2(2), of 2 h] b2 b1 assms(2) by auto
  have "replicate 18 (0 :: byte) = 0 # 0 # 0 # replicate 15 0" by code_simp
  then have "content b3 = fu_bytes n1 h body"
    using b1 b2 b3 assms(2) by (simp add: fu_bytes_def numeral_2_eq_2)
  with b1 b2 b3 show ?thesis by (simp add: set_notes_def)
qed

text \<open>The nodes made of \<open>len\<close> bytes from \<open>pos\<close>, and the value \<open>DevCount\<close> ends with.\<close>

definition mid_nodes :: "byte list \<Rightarrow> byte \<Rightarrow> nat \<Rightarrow> int \<Rightarrow> nat \<Rightarrow> byte list list" where
  "mid_nodes data h pos dc m =
     map (\<lambda>k. fu_bytes (word_of_int (dc + 1 + int k)) h (segment (pos + 1462 * k + 1) 1461 data)) [0..<m]"

definition large_nodes :: "byte list \<Rightarrow> nat \<Rightarrow> nat \<Rightarrow> int \<Rightarrow> int \<Rightarrow> byte list list \<times> int" where
  "large_nodes data pos len dpage dc =
     (let m = (len - 1) div 1462; p = pos + 1462 * m; rest = len - 1462 * m; h = data ! pos in
      if 0 < dpage \<or> 0 < m then
        let c = (if dpage = 1 then dc + int m + 1 else 0) in
        (mid_nodes data h pos dc m @
           [fu_bytes (word_of_int c) h
             (if dpage = 1 \<and> c = 1 then segment (p + 1) (rest - 1) data else segment p rest data)], c)
      else ([single_bytes (word_of_int dc) (segment pos len data)], 0))"

lemma mid_nodes_0 [simp]: "mid_nodes data h pos dc 0 = []"
  by (simp add: mid_nodes_def)

lemma mid_nodes_Suc:
  "mid_nodes data h pos dc (Suc m) =
    fu_bytes (word_of_int (dc + 1)) h (segment (pos + 1) 1461 data) # mid_nodes data h (pos + 1462) (dc + 1) m"
  by (simp add: mid_nodes_def upt_conv_Cons map_Suc_upt [symmetric] comp_def algebra_simps del: upt_Suc)

lemma large_loop_nodes:
  assumes "sta = pos + len" and "sta \<le> length (pbuffer buf)" and "sta < 2 ^ 32"
    and "0 \<le> DevCount st" and "DevCount st + int len < 2 ^ 31"
  defines "m \<equiv> (len - 1) div 1462"
  shows "\<exists>ns. large_loop buf h sta pos f st = Inr (pos + 1462 * m, f \<or> 0 < m,
      st\<lparr>bufferlist := bufferlist st @ ns, DevCount := DevCount st + int m\<rparr>) \<and>
    good_nodes ns (mid_nodes (pbuffer buf) h pos (DevCount st) m)"
  using assms(1-5) unfolding m_def
proof (induction len arbitrary: pos f st rule: less_induct)
  case (less len)
  have size: "u32 (int sta - int pos) = len" using less.prems by simp
  show ?case
  proof (cases "1462 < len")
    case False
    then have "(len - 1) div 1462 = 0" by simp
    moreover have "large_loop buf h sta pos f st = Inr (pos, f, st)"
      using False size by (subst large_loop.simps) simp
    ultimately show ?thesis by (intro exI [of _ "[]"]) simp
  next
    case True
    define m where "m = (len - 1462 - 1) div 1462"
    have m: "(len - 1) div 1462 = Suc m"
      using True div_add_self2 [of 1462 "len - 1462 - 1"] by (simp add: m_def)
    have pos: "u32 (int pos + 1) = pos + 1" "u32 (int pos + 1462) = pos + 1462"
      using less.prems True by (simp_all add: u32_id)
    let ?st = "st\<lparr>DevCount := DevCount st + 1\<rparr>"
    have dc: "s32 (DevCount st + 1) = DevCount st + 1" using less.prems True by (intro s32_id) auto
    obtain b1 where b1: "fill_all fill_from [(FromRef RtpHead, 0, 16), (FromPtr fu, 0, 2), (FromRef buf, pos + 1, 1461)]
        (Buffer 1480) = Inr b1" "buf_wf b1" "MTU b1 = 1480" "content b1 = replicate 18 0 @ segment (pos + 1) 1461 (pbuffer buf)"
      using fu_fill [of 1461 1480 "pos + 1" buf] less.prems True by auto
    obtain b2 where b2: "set_notes b1 1 (word_of_int (DevCount st + 1)) h = Inr b2" "buf_wf b2" "MTU b2 = 1480"
        "content b2 = fu_bytes (word_of_int (DevCount st + 1)) h (segment (pos + 1) 1461 (pbuffer buf))"
      using set_notes_wf [OF b1(2,4)] b1(3) by metis
    have step: "large_loop buf h sta pos f st = large_loop buf h sta (pos + 1462) True (push_node b2 ?st)"
      using True b1(1) b2(1) by (subst large_loop.simps) (simp add: size dc pos del: fill_all.simps)
    obtain ns where ns: "large_loop buf h sta (pos + 1462) True (push_node b2 ?st) = Inr (pos + 1462 + 1462 * m, True,
        st\<lparr>bufferlist := bufferlist st @ b2 # ns, DevCount := DevCount st + 1 + int m\<rparr>)"
        "good_nodes ns (mid_nodes (pbuffer buf) h (pos + 1462) (DevCount st + 1) m)"
      using less.IH [of "len - 1462" "pos + 1462" "push_node b2 ?st" True] less.prems True
      by (auto simp: push_node_def m_def)
    have "good_nodes (b2 # ns) (mid_nodes (pbuffer buf) h pos (DevCount st) (Suc m))"
      using b2 ns(2) by (simp add: mid_nodes_Suc)
    with ns(1) show ?thesis
      unfolding step m by (intro exI [of _ "b2 # ns"]) (simp add: algebra_simps)
  qed
qed

text \<open>The code behind the loop, when it makes the last fragment and when it makes a single node.\<close>

lemma DevLargeNode_fu:
  assumes "at (GetBuffer buf) pos = Inr h"
    and "large_loop buf h (u32 (int pos + len)) pos (0 < dpage) st = Inr (p, True, st1)"
    and "(if dpage = 1 then s32 (DevCount st1 + 1) else 0) = c"
    and "u32 (int (u32 (int pos + len)) - int p) = rest" and "u32 (int rest + 16 + 2) = mtu"
    and "fill_all fill_from [(FromRef RtpHead, 0, 16), (FromPtr fu, 0, 2),
        if dpage = 1 \<and> c = 1 then (FromRef buf, u32 (int p + 1), u32 (int rest - 1)) else (FromRef buf, p, rest)]
        (Buffer mtu) = Inr b1"
    and "set_notes b1 1 (word_of_int c) h = Inr b2"
  shows "DevLargeNode buf pos len dpage st = Inr (push_node b2 (st1\<lparr>DevCount := c\<rparr>))"
proof -
  have "DevCount (st1\<lparr>DevCount := c\<rparr>) = c" by simp
  then show ?thesis
    unfolding DevLargeNode_def Let_def
    by (simp only: assms andThen_simps prod.case if_True sizes)
qed

lemma DevLargeNode_single:
  assumes "at (GetBuffer buf) pos = Inr h"
    and "large_loop buf h (u32 (int pos + len)) pos (0 < dpage) st = Inr (p, False, st1)"
    and "u32 (int (u32 (int pos + len)) - int p) = rest" and "u32 (int rest + 16) = mtu"
    and "fill_all fill_from [(FromRef RtpHead, 0, 16), (FromRef buf, p, rest)] (Buffer mtu) = Inr b1"
    and "SetByte b1 (word_of_int (DevCount st1)) 0 = Inr b2"
  shows "DevLargeNode buf pos len dpage st = Inr ((push_node b2 st1)\<lparr>DevCount := 0\<rparr>)"
  unfolding DevLargeNode_def Let_def
  by (simp only: assms andThen_simps prod.case if_False sizes)

lemma DevLargeNode_nodes:
  assumes "pos + len \<le> length (pbuffer buf)" and "pos < length (pbuffer buf)" and "length (pbuffer buf) < 2 ^ 31"
    and "0 \<le> DevCount st" and "DevCount st + int len + 1 < 2 ^ 31"
  shows "\<exists>ns. DevLargeNode buf pos (int len) dpage st =
      Inr (st\<lparr>bufferlist := bufferlist st @ ns, DevCount := snd (large_nodes (pbuffer buf) pos len dpage (DevCount st))\<rparr>) \<and>
    good_nodes ns (fst (large_nodes (pbuffer buf) pos len dpage (DevCount st)))"
proof -
  define m where "m = (len - 1) div 1462"
  define p where "p = pos + 1462 * m"
  define rest where "rest = len - 1462 * m"
  let ?data = "pbuffer buf" let ?h = "pbuffer buf ! pos"
  have rest: "rest \<le> 1462" "p + rest = pos + len" "1462 * m \<le> len"
    unfolding rest_def p_def m_def by (cases "len = 0"; linarith | simp; presburger)+
  have sta: "u32 (int pos + int len) = pos + len" using assms by (simp add: u32_id)
  have size: "u32 (int (pos + len) - int p) = rest"
  proof -
    have "p \<le> pos + len" "pos + len < 2 ^ 32" using assms rest by simp_all
    from u32_diff [OF this] rest show ?thesis by simp
  qed
  obtain ms where ms: "large_loop buf ?h (pos + len) pos (0 < dpage) st = Inr (p, 0 < dpage \<or> 0 < m,
      st\<lparr>bufferlist := bufferlist st @ ms, DevCount := DevCount st + int m\<rparr>)"
      "good_nodes ms (mid_nodes ?data ?h pos (DevCount st) m)"
    using large_loop_nodes [OF refl, of pos len buf st ?h "0 < dpage"] assms unfolding m_def p_def by auto
  show ?thesis
  proof (cases "0 < dpage \<or> 0 < m")
    case True
    define c where "c = (if dpage = 1 then DevCount st + int m + 1 else 0)"
    have c: "(if dpage = 1 then s32 (DevCount st + int m + 1) else 0) = c"
      using assms rest(3) by (auto simp: c_def intro!: s32_id)
    define body where "body = (if dpage = 1 \<and> c = 1 then segment (p + 1) (rest - 1) ?data else segment p rest ?data)"
    let ?last = "if dpage = 1 \<and> c = 1 then (FromRef buf, u32 (int p + 1), u32 (int rest - 1)) else (FromRef buf, p, rest)"
    have mtu: "u32 (int rest + 16 + 2) = rest + 18" using rest by (simp add: u32_id)
    have "\<exists>b. fill_all fill_from [(FromRef RtpHead, 0, 16), (FromPtr fu, 0, 2), ?last] (Buffer (rest + 18)) = Inr b \<and>
        buf_wf b \<and> MTU b = rest + 18 \<and> content b = replicate 18 0 @ body"
    proof (cases "dpage = 1 \<and> c = 1")
      case first: True
      show ?thesis
      proof (cases "rest = 0")
        case True
        have u: "u32 (- 1) = 2 ^ 32 - 1" using u32_neg [of 1] by simp
        show ?thesis using fu_fill_none [of 18 "u32 (- 1)" buf "u32 (int p + 1)"] first True
          by (simp add: body_def u)
      next
        case False
        have "u32 (int p + 1) = p + 1" "u32 (int rest - 1) = rest - 1"
          using False rest assms by (simp_all add: u32_id of_nat_diff [symmetric] del: of_nat_diff)
        then show ?thesis using fu_fill [of "rest - 1" "rest + 18" "p + 1" buf] first False rest assms
          by (simp add: body_def)
      qed
    next
      case False
      then show ?thesis using fu_fill [of rest "rest + 18" p buf] rest assms by (auto simp: body_def)
    qed
    then obtain b1 where b1: "fill_all fill_from [(FromRef RtpHead, 0, 16), (FromPtr fu, 0, 2), ?last] (Buffer (rest + 18)) = Inr b1"
        "buf_wf b1" "MTU b1 = rest + 18" "content b1 = replicate 18 0 @ body" by blast
    obtain b2 where b2: "set_notes b1 1 (word_of_int c) ?h = Inr b2" "buf_wf b2" "MTU b2 = rest + 18"
        "content b2 = fu_bytes (word_of_int c) ?h body"
      using set_notes_wf [OF b1(2,4)] b1(3) by metis
    have spec: "large_nodes ?data pos len dpage (DevCount st) =
        (mid_nodes ?data ?h pos (DevCount st) m @ [fu_bytes (word_of_int c) ?h body], c)"
      unfolding large_nodes_def Let_def m_def [symmetric] p_def [symmetric] rest_def [symmetric]
        c_def [symmetric] body_def
      using True by simp
    have at: "at (GetBuffer buf) pos = Inr ?h" using assms(2) by (simp add: GetBuffer_def)
    let ?st = "st\<lparr>bufferlist := bufferlist st @ ms, DevCount := DevCount st + int m\<rparr>"
    have "DevCount ?st = DevCount st + int m" by simp
    with c have c': "(if dpage = 1 then s32 (DevCount ?st + 1) else 0) = c" by (simp only:)
    have loop: "large_loop buf ?h (u32 (int pos + int len)) pos (0 < dpage) st = Inr (p, True, ?st)"
      using ms(1) True by (simp only: sta)
    have "u32 (int (u32 (int pos + int len)) - int p) = rest" using size by (simp only: sta)
    from DevLargeNode_fu [OF at loop c' this mtu b1(1) b2(1)]
    have "DevLargeNode buf pos (int len) dpage st =
        Inr (st\<lparr>bufferlist := bufferlist st @ ms @ [b2], DevCount := c\<rparr>)"
      by (simp add: push_node_def)
    moreover have "good_nodes (ms @ [b2]) (fst (large_nodes ?data pos len dpage (DevCount st)))"
      using good_nodes_append [OF ms(2), of "[b2]"] b2 by (simp add: spec)
    ultimately show ?thesis by (auto simp: spec)
  next
    case False
    then have m0: "m = 0" "ms = []" using ms(2) by (auto simp: good_nodes_def)
    then have p: "p = pos" "rest = len" by (simp_all add: p_def rest_def)
    have mtu: "u32 (int len + 16) = 16 + len" using rest p by (simp add: u32_id)
    obtain b1 where b1: "fill_all fill_from [(FromRef RtpHead, 0, 16), (FromRef buf, pos, len)] (Buffer (16 + len)) = Inr b1"
        "buf_wf b1" "MTU b1 = 16 + len" "content b1 = replicate 16 0 @ segment pos len ?data"
      using single_fill [of "16 + len" len pos buf] rest p assms by auto
    have zeros: "replicate 16 (0 :: byte) = 0 # replicate 15 0" by code_simp
    obtain b2 where b2: "SetByte b1 (word_of_int (DevCount st)) 0 = Inr b2" "buf_wf b2" "MTU b2 = 16 + len"
        "content b2 = single_bytes (word_of_int (DevCount st)) (segment pos len ?data)"
      using SetByte_wf [OF b1(2), of 0 "word_of_int (DevCount st)"] b1 zeros by (auto simp: single_bytes_def)
    have spec: "large_nodes ?data pos len dpage (DevCount st) =
        ([single_bytes (word_of_int (DevCount st)) (segment pos len ?data)], 0)"
      unfolding large_nodes_def Let_def m_def [symmetric] using False by simp
    have at: "at (GetBuffer buf) pos = Inr ?h" using assms(2) by (simp add: GetBuffer_def)
    have "large_loop buf ?h (u32 (int pos + int len)) pos (0 < dpage) st = Inr (pos, False, st)"
      using ms(1) False m0 p by (simp add: sta)
    then have "DevLargeNode buf pos (int len) dpage st = Inr (st\<lparr>bufferlist := bufferlist st @ [b2], DevCount := 0\<rparr>)"
      using DevLargeNode_single [OF at _ _ mtu b1(1) b2(1), of "int len"] p size sta
      by (simp add: push_node_def del: fill_all.simps)
    then show ?thesis using b2 by (auto simp: spec)
  qed
qed

section \<open>The splitting loop, turn by turn\<close>

definition is_start :: "byte list \<Rightarrow> nat \<Rightarrow> bool" where
  "is_start data i \<longleftrightarrow> data ! i = 0 \<and> data ! (i + 1) = 0 \<and>
     (data ! (i + 2) = 1 \<or> data ! (i + 2) = 0 \<and> data ! (i + 3) = 1)"

definition code_len :: "byte list \<Rightarrow> nat \<Rightarrow> nat" where
  "code_len data i = (if data ! (i + 2) = 0 then 4 else 3)"

lemma start_code_in: "i + 3 < length data \<Longrightarrow> start_code data i = Inr (is_start data i)"
  by (auto simp: start_code_def is_start_def)

text \<open>A chunk as the file reader delivers it: at least 5 bytes, and a well-formed buffer.\<close>

definition chunk_wf :: "buffer \<Rightarrow> bool" where
  "chunk_wf buf \<longleftrightarrow> buf_wf buf \<and> 5 \<le> GetSizeValue buf"

lemma chunk_size:
  assumes "chunk_wf buf"
  shows "GetSizeValue buf \<le> length (pbuffer buf)" and "length (pbuffer buf) < 2 ^ 16"
    and "u32 (int (GetSizeValue buf) - 4) = GetSizeValue buf - 4"
proof -
  show "GetSizeValue buf \<le> length (pbuffer buf)" "length (pbuffer buf) < 2 ^ 16"
    using assms GetSizeValue_wf [of buf] by (auto simp: chunk_wf_def buf_wf_def)
  with assms show "u32 (int (GetSizeValue buf) - 4) = GetSizeValue buf - 4"
    using u32_diff [of 4 "GetSizeValue buf"] by (simp add: chunk_wf_def)
qed

lemma chunk_facts:
  assumes "chunk_wf buf"
  shows "5 \<le> GetSizeValue buf" and "GetSizeValue buf \<le> length (pbuffer buf)" and "length (pbuffer buf) < 2 ^ 16"
    and "u32 (int (GetSizeValue buf) - 4) = GetSizeValue buf - 4" and "GetBuffer buf = pbuffer buf"
  using assms chunk_size [OF assms] by (simp_all add: chunk_wf_def GetBuffer_def)

lemma dev_loop_end: "chunk_wf buf \<Longrightarrow> GetSizeValue buf - 4 \<le> sta \<Longrightarrow> dev_loop buf sta pos f st = Inr (pos, st)"
  by (subst dev_loop.simps) (simp add: chunk_facts)

lemma dev_loop_skip:
  "chunk_wf buf \<Longrightarrow> sta < GetSizeValue buf - 4 \<Longrightarrow> \<not> is_start (pbuffer buf) sta \<Longrightarrow>
    dev_loop buf sta pos f st = dev_loop buf (sta + 1) pos f st"
  using chunk_facts [of buf] by (subst dev_loop.simps) (simp add: start_code_in)

lemma dev_loop_first:
  assumes chunk: "chunk_wf buf" and "sta < GetSizeValue buf - 4" and "is_start (pbuffer buf) sta" and "pos + sta < 2 ^ 31"
  shows "dev_loop buf sta pos False st =
    andThen (if 0 < DevCount st then DevLargeNode buf 0 (int (sta - 1)) 2 st else Inr st)
      (dev_loop buf (sta + code_len (pbuffer buf) sta) (pos + sta + code_len (pbuffer buf) sta) True)"
proof -
  have len: "sta + 3 < length (pbuffer buf)" using assms(2) chunk_facts [OF chunk] by linarith
  have "s32 (int sta - 1) = int (sta - 1)" if "0 < sta"
    using that assms(4) by (subst s32_id) (auto simp: of_nat_diff)
  then have dev: "(if sta = 0 then DevLargeNode buf 0 0 2 st else DevLargeNode buf 0 (s32 (int sta - 1)) 2 st) =
      DevLargeNode buf 0 (int (sta - 1)) 2 st" by auto
  have code: "sta + (if pbuffer buf ! (sta + 2) = 0 then 3 else 2) + 1 = sta + code_len (pbuffer buf) sta"
      "u32 (int pos + int (sta + (if pbuffer buf ! (sta + 2) = 0 then 3 else 2)) + 1) = pos + sta + code_len (pbuffer buf) sta"
    using assms(4) by (simp_all add: code_len_def u32_id nat_add_distrib)
  have "at (pbuffer buf) (sta + 2) = Inr (pbuffer buf ! (sta + 2))" using len by simp
  then show ?thesis
    by (subst dev_loop.simps) (simp only: chunk_facts [OF chunk] assms start_code_in [OF len] andThen_simps
        if_True if_False simp_thms Let_def dev code)
qed

lemma dev_loop_next:
  assumes chunk: "chunk_wf buf" and "sta < GetSizeValue buf - 4" and "is_start (pbuffer buf) sta" and "pos \<le> sta"
  shows "dev_loop buf sta pos True st =
    (if 6 \<le> uint (pbuffer buf ! pos AND 0x1f) then
       andThen (fill_all fill_from [(FromRef buf, pos, sta - pos)] (Buffer (sta - pos))) (\<lambda>b.
       dev_loop buf (sta + code_len (pbuffer buf) sta + 1) (sta + code_len (pbuffer buf) sta) True (push_node b st))
     else andThen (DevLargeNode buf pos (int (sta - pos)) 0 st)
       (dev_loop buf (sta + code_len (pbuffer buf) sta + 1) (sta + code_len (pbuffer buf) sta) True))"
proof -
  have len: "sta + 3 < length (pbuffer buf)" using assms(2) chunk_facts [OF chunk] by linarith
  have u: "u32 (int sta - int pos) = sta - pos" "s32 (int sta - int pos) = int (sta - pos)"
    using assms len chunk_facts [OF chunk] by (simp_all add: u32_diff s32_id of_nat_diff)
  have v: "u32 (int pos + int (sta - pos) + int k) = sta + k" if "k \<le> 4" for k
    using assms len chunk_facts [OF chunk] that by (simp add: u32_id)
  show ?thesis
    using assms chunk_facts [OF chunk] len u v [of 3] v [of 4]
    by (subst dev_loop.simps) (simp add: start_code_in code_len_def Let_def del: fill_all.simps)
qed

lemma raw_fill:
  assumes "0 < k" and "k < 2 ^ 16" and "pos + k \<le> length (pbuffer buf)"
  shows "\<exists>b. fill_all fill_from [(FromRef buf, pos, k)] (Buffer k) = Inr b \<and>
    good_nodes [b] [segment pos k (pbuffer buf)]"
proof -
  obtain b where b: "fill_from (Buffer k) (FromRef buf) pos k = Inr (True, b)" "buf_wf b"
      "content b = segment pos k (pbuffer buf)" "bpos b = 0"
    using pkt.fill_fits [OF buf_wf_Buffer [OF assms(2)], of k pos "FromRef buf"] assms by (auto simp: fill_bytes_def)
  then have "MTU b = k" using MTU_content [OF b(2)] assms(3) by simp
  with b assms(1) show ?thesis by (simp add: fill_all_single del: fill_all.simps)
qed

text \<open>What one unit between two start codes turns into, and the effect on the stream.\<close>

definition unit_nodes :: "byte list \<Rightarrow> nat \<Rightarrow> nat \<Rightarrow> int \<Rightarrow> byte list list \<times> int" where
  "unit_nodes data pos len dc =
     (if 6 \<le> uint (data ! pos AND 0x1f) then ([segment pos len data], dc)
      else large_nodes data pos len 0 dc)"

lemma large_nodes_count:
  "dpage \<noteq> 1 \<Longrightarrow> snd (large_nodes data pos len dpage dc) = 0"
  by (simp add: large_nodes_def Let_def)

lemma dev_loop_unit:
  assumes chunk: "chunk_wf buf" and sta: "sta < GetSizeValue buf - 4" "is_start (pbuffer buf) sta" "pos \<le> sta"
    and dc: "0 \<le> DevCount st" "DevCount st + 2 ^ 16 < 2 ^ 31"
  shows "\<exists>ns. dev_loop buf sta pos True st =
      dev_loop buf (sta + code_len (pbuffer buf) sta + 1) (sta + code_len (pbuffer buf) sta) True
        (st\<lparr>bufferlist := bufferlist st @ ns, DevCount := snd (unit_nodes (pbuffer buf) pos (sta - pos) (DevCount st))\<rparr>) \<and>
    good_nodes ns (fst (unit_nodes (pbuffer buf) pos (sta - pos) (DevCount st)))"
proof -
  note len = chunk_facts [OF chunk]
  have bounds: "sta + 4 < length (pbuffer buf)" "pos + (sta - pos) \<le> length (pbuffer buf)" "sta - pos < 2 ^ 16"
    using sta len by linarith+
  show ?thesis
  proof (cases "6 \<le> uint (pbuffer buf ! pos AND 0x1f)")
    case True
    have "pos \<noteq> sta" using True sta(2) by (auto simp: is_start_def)
    then obtain b where b: "fill_all fill_from [(FromRef buf, pos, sta - pos)] (Buffer (sta - pos)) = Inr b"
        "good_nodes [b] [segment pos (sta - pos) (pbuffer buf)]"
      using raw_fill [of "sta - pos" pos buf] sta bounds by (auto simp del: fill_all.simps)
    have "dev_loop buf sta pos True st =
        dev_loop buf (sta + code_len (pbuffer buf) sta + 1) (sta + code_len (pbuffer buf) sta) True (push_node b st)"
      using dev_loop_next [OF chunk sta] True b(1) by (simp del: fill_all.simps)
    moreover have "push_node b st = st\<lparr>bufferlist := bufferlist st @ [b], DevCount := DevCount st\<rparr>"
      by (simp add: push_node_def)
    ultimately show ?thesis using b(2) True by (intro exI [of _ "[b]"]) (simp add: unit_nodes_def)
  next
    case False
    obtain ns where ns: "DevLargeNode buf pos (int (sta - pos)) 0 st =
        Inr (st\<lparr>bufferlist := bufferlist st @ ns,
          DevCount := snd (large_nodes (pbuffer buf) pos (sta - pos) 0 (DevCount st))\<rparr>)"
        "good_nodes ns (fst (large_nodes (pbuffer buf) pos (sta - pos) 0 (DevCount st)))"
      using DevLargeNode_nodes [of pos "sta - pos" buf st 0] sta len bounds dc by auto
    then show ?thesis
      using dev_loop_next [OF chunk sta, of st] False by (intro exI [of _ ns]) (simp add: unit_nodes_def)
  qed
qed

lemma dev_loop_open:
  assumes chunk: "chunk_wf buf" and sta: "sta < GetSizeValue buf - 4" "is_start (pbuffer buf) sta"
    and dc: "0 \<le> DevCount st" "DevCount st + 2 ^ 16 < 2 ^ 31"
  defines "prev \<equiv> (if 0 < DevCount st then fst (large_nodes (pbuffer buf) 0 (sta - 1) 2 (DevCount st)) else [])"
  shows "\<exists>ns. dev_loop buf sta 0 False st =
      dev_loop buf (sta + code_len (pbuffer buf) sta) (sta + code_len (pbuffer buf) sta) True
        (st\<lparr>bufferlist := bufferlist st @ ns, DevCount := 0\<rparr>) \<and> good_nodes ns prev"
proof -
  note len = chunk_facts [OF chunk]
  have bounds: "0 < length (pbuffer buf)" "0 + (sta - 1) \<le> length (pbuffer buf)"
    using sta(1) len by linarith+
  have "sta < 2 ^ 16" using sta(1) len by linarith
  then have room: "DevCount st + int (sta - 1) + 1 < 2 ^ 31" and small: "0 + sta < 2 ^ 31"
    using dc by simp_all
  show ?thesis
  proof (cases "0 < DevCount st")
    case True
    obtain ns where ns: "DevLargeNode buf 0 (int (sta - 1)) 2 st =
        Inr (st\<lparr>bufferlist := bufferlist st @ ns,
          DevCount := snd (large_nodes (pbuffer buf) 0 (sta - 1) 2 (DevCount st))\<rparr>)"
        "good_nodes ns (fst (large_nodes (pbuffer buf) 0 (sta - 1) 2 (DevCount st)))"
      using DevLargeNode_nodes [OF bounds(2,1) _ dc(1) room, of 2] len(3) by auto
    then show ?thesis
      using dev_loop_first [OF chunk sta small, of st] True by (auto simp: large_nodes_count prev_def)
  next
    case False
    with dc have "DevCount st = 0" by simp
    then have "st = st\<lparr>bufferlist := bufferlist st @ [], DevCount := 0\<rparr>" by simp
    then show ?thesis
      using dev_loop_first [OF chunk sta small, of st] False by (intro exI [of _ "[]"]) (simp add: prev_def)
  qed
qed

text \<open>Whatever the bytes, the loop ends with a position inside the chunk, having only added good nodes.\<close>

lemma unit_nodes_count: "0 \<le> dc \<Longrightarrow> 0 \<le> snd (unit_nodes data pos len dc) \<and> snd (unit_nodes data pos len dc) \<le> dc"
  by (simp add: unit_nodes_def large_nodes_count)

lemma code_len_le: "code_len data i \<le> 4"
  by (simp add: code_len_def)

lemma good_nodes_contents: "good_nodes ns bodies \<Longrightarrow> good_nodes ns (map content ns)"
  by (simp add: good_nodes_def)

lemma dev_loop_safe:
  assumes "chunk_wf buf" and "pos \<le> sta" and "pos < GetSizeValue buf" and "f \<or> pos = 0"
    and "0 \<le> DevCount st" and "DevCount st + 2 ^ 16 < 2 ^ 31"
  shows "\<exists>pos' ns dc. dev_loop buf sta pos f st = Inr (pos', st\<lparr>bufferlist := bufferlist st @ ns, DevCount := dc\<rparr>) \<and>
    pos' < GetSizeValue buf \<and> 0 \<le> dc \<and> dc \<le> DevCount st \<and> good_nodes ns (map content ns)"
  using assms
proof (induction "GetSizeValue buf - sta" arbitrary: sta pos f st rule: less_induct)
  case less
  note chunk = less.prems(1) and dc = less.prems(5,6)
  let ?code = "code_len (pbuffer buf) sta"
  consider (stop) "GetSizeValue buf - 4 \<le> sta" | (skip) "sta < GetSizeValue buf - 4" "\<not> is_start (pbuffer buf) sta"
    | (first) "sta < GetSizeValue buf - 4" "is_start (pbuffer buf) sta" "\<not> f"
    | (unit) "sta < GetSizeValue buf - 4" "is_start (pbuffer buf) sta" "f"
    by linarith
  then show ?case
  proof cases
    case stop
    then show ?thesis
      using less.prems by (intro exI [of _ pos] exI [of _ "[]"] exI [of _ "DevCount st"]) (simp add: dev_loop_end)
  next
    case skip
    then show ?thesis
      unfolding dev_loop_skip [OF chunk skip] using less.prems by (intro less.hyps) auto
  next
    case first
    then have "pos = 0" "f = False" using less.prems(4) by auto
    obtain ns where ns: "dev_loop buf sta 0 False st = dev_loop buf (sta + ?code) (sta + ?code) True
        (st\<lparr>bufferlist := bufferlist st @ ns, DevCount := 0\<rparr>)" "good_nodes ns (map content ns)"
      using dev_loop_open [OF chunk first(1,2) dc] good_nodes_contents by blast
    have "0 < ?code" "sta + ?code < GetSizeValue buf" using first(1) code_len_le [of "pbuffer buf" sta]
      by (auto simp: code_len_def)
    then obtain pos' ms dc' where "dev_loop buf (sta + ?code) (sta + ?code) True
        (st\<lparr>bufferlist := bufferlist st @ ns, DevCount := 0\<rparr>) =
        Inr (pos', st\<lparr>bufferlist := bufferlist st @ (ns @ ms), DevCount := dc'\<rparr>)"
        "pos' < GetSizeValue buf" "0 \<le> dc'" "dc' \<le> 0" "good_nodes ms (map content ms)"
      using less.hyps [of "sta + ?code" "sta + ?code" True "st\<lparr>bufferlist := bufferlist st @ ns, DevCount := 0\<rparr>"]
        chunk by fastforce
    then show ?thesis
      using ns good_nodes_append [OF ns(2)] dc unfolding \<open>pos = 0\<close> \<open>f = False\<close>
      by (intro exI [of _ pos'] exI [of _ "ns @ ms"] exI [of _ dc']) simp
  next
    case unit
    let ?dc = "snd (unit_nodes (pbuffer buf) pos (sta - pos) (DevCount st))"
    let ?st = "\<lambda>ns. st\<lparr>bufferlist := bufferlist st @ ns, DevCount := ?dc\<rparr>"
    obtain ns where ns: "dev_loop buf sta pos True st = dev_loop buf (sta + ?code + 1) (sta + ?code) True (?st ns)"
        "good_nodes ns (map content ns)"
      using dev_loop_unit [OF chunk unit(1,2) less.prems(2) dc] good_nodes_contents by blast
    have pos: "sta + ?code \<le> sta + ?code + 1" "sta + ?code < GetSizeValue buf" "True \<or> sta + ?code = 0"
        "GetSizeValue buf - (sta + ?code + 1) < GetSizeValue buf - sta"
      using unit(1) code_len_le [of "pbuffer buf" sta] by auto
    have count: "0 \<le> ?dc" "?dc \<le> DevCount st" using unit_nodes_count [OF dc(1)] by auto
    then have dc1: "0 \<le> DevCount (?st ns)" "DevCount (?st ns) + 2 ^ 16 < 2 ^ 31" using dc by simp_all
    obtain pos' ms dc' where "dev_loop buf (sta + ?code + 1) (sta + ?code) True (?st ns) =
        Inr (pos', st\<lparr>bufferlist := bufferlist st @ (ns @ ms), DevCount := dc'\<rparr>)"
        "pos' < GetSizeValue buf" "0 \<le> dc'" "dc' \<le> ?dc" "good_nodes ms (map content ms)"
      using less.hyps [OF pos(4) chunk pos(1-3) dc1] by auto
    then show ?thesis
      using ns good_nodes_append [OF ns(2)] unit(3) count
      by (intro exI [of _ pos'] exI [of _ "ns @ ms"] exI [of _ dc']) simp
  qed
qed

lemma DevNode_nodes:
  assumes chunk: "chunk_wf buf" and dc: "0 \<le> DevCount st" "DevCount st + 2 ^ 16 < 2 ^ 31"
    and loop: "dev_loop buf 0 0 False st = Inr (pos, st\<lparr>bufferlist := bufferlist st @ ns, DevCount := c\<rparr>)"
    and pos: "pos < GetSizeValue buf" and c: "0 \<le> c" "c \<le> DevCount st"
  defines "tail \<equiv> large_nodes (pbuffer buf) pos (GetSizeValue buf - pos) 1 c"
  shows "\<exists>ms. DevNode buf 0 st = Inr (st\<lparr>bufferlist := bufferlist st @ ns @ ms, DevCount := snd tail,
      filepos := (filepos st + GetSizeValue buf) mod 2 ^ 64\<rparr>) \<and> good_nodes ms (fst tail)"
proof -
  note len = chunk_facts [OF chunk]
  let ?n = "GetSizeValue buf" let ?st = "st\<lparr>bufferlist := bufferlist st @ ns, DevCount := c\<rparr>"
  have bounds: "pos + (?n - pos) \<le> length (pbuffer buf)" "pos < length (pbuffer buf)" "?n - pos < 2 ^ 16"
    using pos len by linarith+
  then have "0 \<le> DevCount ?st" "DevCount ?st + int (?n - pos) + 1 < 2 ^ 31" using c dc by simp_all
  then obtain ms where ms: "DevLargeNode buf pos (int (?n - pos)) 1 ?st =
      Inr (?st\<lparr>bufferlist := bufferlist ?st @ ms, DevCount := snd tail\<rparr>)" "good_nodes ms (fst tail)"
    using DevLargeNode_nodes [OF bounds(1,2), of ?st 1] len(3) by (auto simp: tail_def)
  have "s32 (int ?n - int pos) = int (?n - pos)"
    using pos bounds by (subst s32_id) (auto simp: of_nat_diff)
  with loop ms show ?thesis by (auto simp: DevNode_def)
qed

lemma DevNode_appends:
  assumes "chunk_wf buf" and "0 \<le> DevCount st" and "DevCount st + 2 ^ 16 < 2 ^ 31"
  shows "\<exists>ns dc. DevNode buf 0 st = Inr (st\<lparr>bufferlist := bufferlist st @ ns, DevCount := dc,
      filepos := (filepos st + GetSizeValue buf) mod 2 ^ 64\<rparr>) \<and>
    ns \<noteq> [] \<and> list_all (\<lambda>b. buf_wf b \<and> 0 < GetMtuValue b) ns \<and> 0 < dc \<and> dc \<le> DevCount st + int (GetSizeValue buf)"
proof -
  have "0 < GetSizeValue buf" using assms(1) by (simp add: chunk_wf_def)
  then obtain pos ns c where loop: "dev_loop buf 0 0 False st = Inr (pos, st\<lparr>bufferlist := bufferlist st @ ns, DevCount := c\<rparr>)"
      "pos < GetSizeValue buf" "0 \<le> c" "c \<le> DevCount st" "good_nodes ns (map content ns)"
    using dev_loop_safe [OF assms(1), of 0 0 False st] assms(2,3) by auto
  let ?tail = "large_nodes (pbuffer buf) pos (GetSizeValue buf - pos) 1 c"
  obtain ms where ms: "DevNode buf 0 st = Inr (st\<lparr>bufferlist := bufferlist st @ ns @ ms, DevCount := snd ?tail,
      filepos := (filepos st + GetSizeValue buf) mod 2 ^ 64\<rparr>)" "good_nodes ms (fst ?tail)"
    using DevNode_nodes [OF assms loop(1-4)] by auto
  have "fst ?tail \<noteq> []" "0 < snd ?tail" using loop(3) by (simp_all add: large_nodes_def Let_def)
  moreover have "snd ?tail \<le> DevCount st + int (GetSizeValue buf)"
    using loop(2,4) by (simp add: large_nodes_def Let_def)
  ultimately show ?thesis using ms loop(5)
    by (intro exI [of _ "ns @ ms"] exI [of _ "snd ?tail"])
      (auto simp: good_nodes_def list_all_iff GetMtuValue_def)
qed

section \<open>Well-formed streams\<close>

text \<open>
  NAL units as an encoder delimits them: a unit neither contains a start code nor ends in a zero byte
  (the emulation prevention of the standard sees to it), and each is preceded by a start code of three or
  four bytes.
\<close>

definition nal_ok :: "byte list \<Rightarrow> bool" where
  "nal_ok nal \<longleftrightarrow> 2 \<le> length nal \<and> last nal \<noteq> 0 \<and>
     (\<forall>i < length nal - 2. \<not> (nal ! i = 0 \<and> nal ! (i + 1) = 0 \<and> (nal ! (i + 2) = 0 \<or> nal ! (i + 2) = 1)))"

definition code_bytes :: "bool \<Rightarrow> byte list" where
  "code_bytes long = (if long then [0, 0, 0, 1] else [0, 0, 1])"

definition annexb :: "(bool \<times> byte list) list \<Rightarrow> byte list" where
  "annexb us = concat (map (\<lambda>(long, nal). code_bytes long @ nal) us)"

lemma annexb_simps [simp]:
  "annexb [] = []" "annexb ((long, nal) # us) = code_bytes long @ nal @ annexb us"
  "annexb (us @ vs) = annexb us @ annexb vs"
  by (simp_all add: annexb_def)

lemma is_start_drop: "i + 3 < length data \<Longrightarrow> is_start data i = is_start (drop i data) 0"
  by (simp add: is_start_def)

lemma is_start_code: "drop i data = code_bytes long @ b # rest \<Longrightarrow> is_start data i \<and> code_len data i = length (code_bytes long)"
proof -
  assume d: "drop i data = code_bytes long @ b # rest"
  have "length (drop i data) \<ge> 4" by (simp add: d code_bytes_def)
  then have nth: "data ! (i + k) = drop i data ! k" if "k < 4" for k using that by simp
  show ?thesis
    using nth [of 0] nth [of 1] nth [of 2] nth [of 3]
    by (auto simp: d is_start_def code_len_def code_bytes_def numeral_2_eq_2 numeral_3_eq_3)
qed

text \<open>No start code begins inside a unit, whatever comes after it.\<close>

lemma no_start_inside:
  assumes "drop pos data = nal @ rest" and "nal_ok nal" and "k < length nal" and "pos + k + 3 < length data"
  shows "\<not> is_start data (pos + k)"
proof
  assume start: "is_start data (pos + k)"
  have nth: "data ! (pos + j) = nal ! j" if "j < length nal" for j
  proof -
    have "data ! (pos + j) = drop pos data ! j" using that assms(3,4) by (subst nth_drop) auto
    then show ?thesis using that by (simp add: assms(1) nth_append)
  qed
  have last: "nal ! (length nal - 1) \<noteq> 0" using assms(2) by (metis last_conv_nth list.size(3) nal_ok_def not_numeral_le_zero)
  consider "k < length nal - 2" | "k = length nal - 2" | "k = length nal - 1" using assms(3) by linarith
  then show False
  proof cases
    case 1
    then show False using start assms(2) nth [of k] nth [of "k + 1"] nth [of "k + 2"]
      by (auto simp: is_start_def nal_ok_def add.assoc)
  next
    case 2
    then have "k + 1 = length nal - 1" "k + 1 < length nal" using assms(2) by (auto simp: nal_ok_def)
    then have "data ! (pos + k + 1) \<noteq> 0" using last nth [of "k + 1"] by (metis add.assoc)
    then show False using start by (simp add: is_start_def)
  next
    case 3
    then show False using start last nth [of k] assms(3) by (simp add: is_start_def)
  qed
qed

lemma dev_loop_walk:
  assumes "chunk_wf buf" and "drop pos (pbuffer buf) = nal @ rest" and "nal_ok nal"
    and "pos + k \<le> sta" and "sta = min (pos + length nal) (GetSizeValue buf - 4)"
  shows "dev_loop buf (pos + k) q f st = dev_loop buf sta q f st"
  using assms(4)
proof (induction "sta - (pos + k)" arbitrary: k)
  case (Suc d)
  have k: "k < length nal" "pos + k < GetSizeValue buf - 4" using Suc.hyps(2) assms(5) by simp_all
  have "\<not> is_start (pbuffer buf) (pos + k)"
    using no_start_inside [OF assms(2,3) k(1)] k(2) chunk_facts [OF assms(1)] by simp
  then have "dev_loop buf (pos + k) q f st = dev_loop buf (pos + k + 1) q f st"
    by (rule dev_loop_skip [OF assms(1) k(2)])
  also have "\<dots> = dev_loop buf sta q f st" using Suc.hyps(1) [of "k + 1"] Suc.hyps(2) by simp
  finally show ?case .
qed simp

text \<open>The nodes of a unit, by its own bytes.\<close>

definition nal_nodes :: "byte list \<Rightarrow> byte list list" where
  "nal_nodes nal =
     (if 6 \<le> uint (nal ! 0 AND 0x1f) then [nal] else fst (large_nodes nal 0 (length nal) 0 0))"

lemma segment_segment: "i + n \<le> len \<Longrightarrow> segment i n (segment pos len xs) = segment (pos + i) n xs"
  by (simp add: segment_def drop_take take_take add.commute min_def)

lemma large_nodes_segment:
  assumes "pos + len \<le> length data" and "0 < len"
  shows "large_nodes data pos len dpage dc = large_nodes (segment pos len data) 0 len dpage dc"
proof -
  define m where "m = (len - 1) div 1462"
  have m: "1462 * m \<le> len"
    using times_div_less_eq_dividend [of 1462 "len - 1"] unfolding m_def by linarith
  let ?nal = "segment pos len data"
  have h: "?nal ! 0 = data ! pos" using assms by (simp add: nth_segment)
  have "mid_nodes data h pos dc m = mid_nodes ?nal h 0 dc m" for h
    unfolding mid_nodes_def
  proof (intro map_cong refl)
    fix k assume "k \<in> set [0..<m]"
    then have "1462 * Suc k \<le> 1462 * m" by (intro mult_le_mono2) simp
    then have "1462 * k + 1 + 1461 \<le> len" using m by simp
    then have "segment (1462 * k + 1) 1461 ?nal = segment (pos + (1462 * k + 1)) 1461 data"
      by (rule segment_segment)
    then show "fu_bytes (word_of_int (dc + 1 + int k)) h (segment (pos + 1462 * k + 1) 1461 data) =
        fu_bytes (word_of_int (dc + 1 + int k)) h (segment (0 + 1462 * k + 1) 1461 ?nal)"
      by (simp only: add_0 add.assoc)
  qed
  moreover have "segment (1462 * m) (len - 1462 * m) ?nal = segment (pos + 1462 * m) (len - 1462 * m) data"
    using m by (intro segment_segment) simp
  moreover have "segment (1462 * m + 1) (len - 1462 * m - 1) ?nal =
      segment (pos + 1462 * m + 1) (len - 1462 * m - 1) data"
  proof (cases "len = 1462 * m")
    case False
    then have "1462 * m + 1 + (len - 1462 * m - 1) \<le> len" using m by simp
    then show ?thesis using segment_segment [of "1462 * m + 1"] by (simp only: add.assoc)
  qed simp
  moreover have "segment 0 len ?nal = segment pos len data" by (simp add: segment_def)
  ultimately show ?thesis
    unfolding large_nodes_def Let_def m_def [symmetric] h by simp
qed

lemma drop_length:
  assumes "drop pos data = nal @ rest" and "nal \<noteq> []"
  shows "pos + length nal + length rest = length data"
proof -
  have "length data - pos = length nal + length rest" using arg_cong [OF assms(1), of length] by simp
  moreover have "0 < length nal" using assms(2) by simp
  ultimately show ?thesis by linarith
qed

lemma unit_nodes_nal:
  assumes "drop pos data = nal @ rest" and "nal \<noteq> []"
  shows "unit_nodes data pos (length nal) 0 = (nal_nodes nal, 0)"
proof -
  have len: "pos + length nal \<le> length data" "0 < length nal"
    using drop_length [OF assms] assms(2) by simp_all
  have seg: "segment pos (length nal) data = nal" by (simp add: segment_def assms(1))
  have "data ! pos = nal ! 0" using nth_segment [OF len] by (simp add: seg)
  then show ?thesis
    using large_nodes_segment [OF len, of 0 0] by (simp add: unit_nodes_def nal_nodes_def seg large_nodes_count prod_eq_iff)
qed

lemma dev_loop_units:
  assumes chunk: "chunk_wf buf" and full: "GetSizeValue buf = length (pbuffer buf)"
    and ok: "nal_ok nal" "\<forall>(long, nal) \<in> set us. nal_ok nal" and k: "k \<le> 1" and dc: "DevCount st = 0"
    and at: "drop pos (pbuffer buf) = nal @ annexb us"
  shows "\<exists>ns pos'. dev_loop buf (pos + k) pos True st = Inr (pos', st\<lparr>bufferlist := bufferlist st @ ns, DevCount := 0\<rparr>) \<and>
    drop pos' (pbuffer buf) = last (nal # map snd us) \<and>
    good_nodes ns (concat (map nal_nodes (butlast (nal # map snd us))))"
  using ok k dc at
proof (induction us arbitrary: nal pos k st)
  case Nil
  let ?n = "GetSizeValue buf"
  have "nal \<noteq> []" using Nil.prems(1) by (auto simp: nal_ok_def)
  then have n: "pos + length nal = ?n" using drop_length [OF Nil.prems(5)] full by simp
  have "dev_loop buf (pos + k) pos True st = Inr (pos, st)"
  proof (cases "pos + k \<le> ?n - 4")
    case True
    then show ?thesis
      using dev_loop_walk [OF chunk Nil.prems(5,1) True, of pos True st] n
        dev_loop_end [OF chunk, of "?n - 4" pos True st] by simp
  qed (simp add: dev_loop_end [OF chunk])
  then show ?case using Nil.prems by (intro exI [of _ "[]"] exI [of _ pos]) simp
next
  case (Cons u us)
  obtain long nal' where u: "u = (long, nal')" by (cases u)
  define q where "q = pos + length nal"
  let ?n = "GetSizeValue buf"
  have ok': "nal_ok nal'" "2 \<le> length nal'" and ok2: "2 \<le> length nal" using Cons.prems u by (auto simp: nal_ok_def)
  have q: "drop q (pbuffer buf) = code_bytes long @ nal' @ annexb us"
  proof -
    have "drop q (pbuffer buf) = drop (length nal) (drop pos (pbuffer buf))" by (simp add: q_def add.commute)
    then show ?thesis using Cons.prems(5) by (simp add: u)
  qed
  have "q + length (code_bytes long) + length (nal' @ annexb us) = length (pbuffer buf)"
    using drop_length [OF q] by (simp add: code_bytes_def)
  moreover have "3 \<le> length (code_bytes long)" by (simp add: code_bytes_def)
  ultimately have qn: "q < ?n - 4" using ok'(2) full by simp
  obtain b rest where "nal' @ annexb us = b # rest" using ok'(2) by (cases nal') auto
  then have start: "is_start (pbuffer buf) q" "code_len (pbuffer buf) q = length (code_bytes long)"
    using is_start_code [of q "pbuffer buf" long b rest] q by auto
  have "min (pos + length nal) (?n - 4) = q" using qn by (simp add: q_def)
  then have walk: "dev_loop buf (pos + k) pos True st = dev_loop buf q pos True st"
    using dev_loop_walk [OF chunk Cons.prems(5,1) _ refl, of k pos True st] Cons.prems(3) ok2 by (simp add: q_def)
  have unit: "unit_nodes (pbuffer buf) pos (q - pos) 0 = (nal_nodes nal, 0)"
    using unit_nodes_nal [OF Cons.prems(5)] ok2 by (fastforce simp: q_def)
  let ?p = "q + length (code_bytes long)"
  obtain ns where ns: "dev_loop buf q pos True st =
      dev_loop buf (?p + 1) ?p True (st\<lparr>bufferlist := bufferlist st @ ns, DevCount := 0\<rparr>)"
      "good_nodes ns (nal_nodes nal)"
    using dev_loop_unit [OF chunk qn start(1), of pos st] Cons.prems(4) unit start(2) by (auto simp: q_def)
  have p: "drop ?p (pbuffer buf) = nal' @ annexb us"
  proof -
    have "drop ?p (pbuffer buf) = drop (length (code_bytes long)) (drop q (pbuffer buf))" by (simp add: add.commute)
    then show ?thesis by (simp add: q)
  qed
  obtain ms pos' where "dev_loop buf (?p + 1) ?p True (st\<lparr>bufferlist := bufferlist st @ ns, DevCount := 0\<rparr>) =
      Inr (pos', st\<lparr>bufferlist := bufferlist st @ (ns @ ms), DevCount := 0\<rparr>)"
      "drop pos' (pbuffer buf) = last (nal' # map snd us)"
      "good_nodes ms (concat (map nal_nodes (butlast (nal' # map snd us))))"
    using Cons.IH [OF ok'(1) _ _ _ p, of 1 "st\<lparr>bufferlist := bufferlist st @ ns, DevCount := 0\<rparr>"] Cons.prems(2)
    by auto
  then show ?case
    using walk ns good_nodes_append [OF ns(2)] u by (intro exI [of _ "ns @ ms"] exI [of _ pos']) simp
qed

text \<open>Reassembling a unit from its nodes as a receiver does: the header from the fragments' notes.\<close>

definition reassemble :: "byte list list \<Rightarrow> byte list" where
  "reassemble nodes =
     (case nodes of
        [] \<Rightarrow> []
      | node # _ \<Rightarrow> if node ! 0 = 0 then drop 16 node else node ! 2 # concat (map (drop 18) nodes))"

lemma drop_fu_bytes [simp]: "drop 18 (fu_bytes n1 h body) = body" "fu_bytes n1 h body ! 0 = 1" "fu_bytes n1 h body ! 2 = h"
  by (simp_all add: fu_bytes_def)

lemma length_concat_mids: "pos + 1462 * m \<le> length data \<Longrightarrow>
  length (concat (map (drop 18) (mid_nodes data h pos dc m))) = 1461 * m"
proof -
  assume le: "pos + 1462 * m \<le> length data"
  have "map (length \<circ> drop 18) (mid_nodes data h pos dc m) = map (\<lambda>_. 1461) [0..<m]"
    unfolding mid_nodes_def map_map
  proof (intro map_cong refl)
    fix k assume "k \<in> set [0..<m]"
    then have "1462 * Suc k \<le> 1462 * m" by (intro mult_le_mono2) simp
    then show "((length \<circ> drop 18) \<circ> (\<lambda>k. fu_bytes (word_of_int (dc + 1 + int k)) h (segment (pos + 1462 * k + 1) 1461 data))) k = 1461"
      using le by simp
  qed
  then have "sum_list (map (length \<circ> drop 18) (mid_nodes data h pos dc m)) = sum_list (map (\<lambda>_. 1461) [0..<m])"
    by (simp only:)
  then show ?thesis by (simp only: length_concat map_map) (simp add: sum_list_triv)
qed

lemma reassemble_large:
  assumes "nal \<noteq> []"
  defines "m \<equiv> (length nal - 1) div 1462"
  shows "reassemble (fst (large_nodes nal 0 (length nal) 0 0)) =
    (if m = 0 then nal
     else nal ! 0 # concat (map (drop 18) (mid_nodes nal (nal ! 0) 0 0 m)) @ drop (1462 * m) nal)"
proof (cases "m = 0")
  case True
  then show ?thesis
    by (simp add: large_nodes_def m_def reassemble_def single_bytes_def segment_def)
next
  case False
  then obtain j where j: "m = Suc j" by (cases m) auto
  have "segment (1462 * m) (length nal - 1462 * m) nal = drop (1462 * m) nal" by (simp add: segment_def)
  then show ?thesis
    unfolding large_nodes_def Let_def m_def [symmetric]
    using j by (simp add: reassemble_def mid_nodes_Suc)
qed

text \<open>The rest of a chunk, from behind its first start code on.\<close>

lemma DevNode_after:
  assumes chunk: "chunk_wf (buffer_of data)" and ok: "nal_ok nal" "\<forall>(long, nal) \<in> set us. nal_ok nal"
    and dc: "0 \<le> DevCount st" "DevCount st + 2 ^ 16 < 2 ^ 31" and at: "drop p data = nal @ annexb us"
    and first: "dev_loop (buffer_of data) 0 0 False st =
      dev_loop (buffer_of data) p p True (st\<lparr>bufferlist := bufferlist st @ ms, DevCount := 0\<rparr>)"
  defines "rest \<equiv> last (nal # map snd us)"
  shows "\<exists>ns. DevNode (buffer_of data) 0 st =
      Inr (st\<lparr>bufferlist := bufferlist st @ ms @ ns, DevCount := snd (large_nodes rest 0 (length rest) 1 0),
        filepos := (filepos st + length data) mod 2 ^ 64\<rparr>) \<and>
    good_nodes ns (concat (map nal_nodes (butlast (nal # map snd us))) @ fst (large_nodes rest 0 (length rest) 1 0))"
proof -
  let ?buf = "buffer_of data"
  have size: "GetSizeValue ?buf = length data" "pbuffer ?buf = data"
    using chunk by (simp_all add: buffer_of_def GetSizeValue_def chunk_wf_def buf_wf_def u32_id)
  have p: "drop p (pbuffer ?buf) = nal @ annexb us" by (simp add: size at)
  obtain ns pos' where loop: "dev_loop ?buf 0 0 False st = Inr (pos', st\<lparr>bufferlist := bufferlist st @ ms @ ns, DevCount := 0\<rparr>)"
      and pos': "drop pos' data = rest" and ns: "good_nodes ns (concat (map nal_nodes (butlast (nal # map snd us))))"
    using dev_loop_units [OF chunk _ ok _ _ p, of 0 "st\<lparr>bufferlist := bufferlist st @ ms, DevCount := 0\<rparr>"] first size
    by (auto simp: rest_def)
  have "rest \<in> set (nal # map snd us)" unfolding rest_def by (rule last_in_set) simp
  then have "rest \<noteq> []" using ok by (auto simp: nal_ok_def)
  then have bound: "pos' + length rest = length data" "0 < length rest"
    using drop_length [of pos' data rest "[]"] pos' by auto
  then have lenr: "length data - pos' = length rest" and seg: "segment pos' (length rest) data = rest"
    using pos' by (simp_all add: segment_def)
  have tail: "large_nodes data pos' (length rest) 1 0 = large_nodes rest 0 (length rest) 1 0"
    using large_nodes_segment [of pos' "length rest" data 1 0] bound seg by simp
  obtain ts where ts: "DevNode ?buf 0 st = Inr (st\<lparr>bufferlist := bufferlist st @ ms @ ns @ ts,
      DevCount := snd (large_nodes rest 0 (length rest) 1 0),
      filepos := (filepos st + length data) mod 2 ^ 64\<rparr>)" "good_nodes ts (fst (large_nodes rest 0 (length rest) 1 0))"
    using DevNode_nodes [OF chunk dc, where pos = pos' and ns = "ms @ ns" and c = 0] loop dc bound by (auto simp: size lenr tail)
  then show ?thesis using good_nodes_append [OF ns ts(2)] by (intro exI [of _ "ns @ ts"]) simp
qed

lemma annexb_chunk:
  assumes "4 < length data" and "length data < 2 ^ 16"
  shows "chunk_wf (buffer_of data)" "GetSizeValue (buffer_of data) = length data" "pbuffer (buffer_of data) = data"
  using assms by (simp_all add: chunk_wf_def buf_wf_def buffer_of_def GetSizeValue_def u32_id)

lemma start_of_unit:
  assumes "drop i data = annexb ((long, nal) # us)" and "nal_ok nal"
  shows "is_start data i" and "code_len data i = length (code_bytes long)" and "i + 4 < length data"
    and "drop (i + length (code_bytes long)) data = nal @ annexb us"
proof -
  have "nal @ annexb us \<noteq> []" using assms(2) by (auto simp: nal_ok_def)
  then obtain b rest where "nal @ annexb us = b # rest" by (meson neq_Nil_conv)
  then show "is_start data i" "code_len data i = length (code_bytes long)"
    using is_start_code [of i data long b rest] assms(1) by auto
  have "i + length (code_bytes long) + length (nal @ annexb us) = length data"
    using drop_length [of i data "code_bytes long" "nal @ annexb us"] assms(1) by (simp add: code_bytes_def)
  moreover have "3 \<le> length (code_bytes long)" "2 \<le> length nal" using assms(2) by (simp_all add: code_bytes_def nal_ok_def)
  ultimately show "i + 4 < length data" by simp
  have "drop (i + length (code_bytes long)) data = drop (length (code_bytes long)) (drop i data)" by (simp add: add.commute)
  then show "drop (i + length (code_bytes long)) data = nal @ annexb us" by (simp add: assms(1))
qed

lemma units_split:
  assumes "us = (long, nal) # vs"
  shows "last (nal # map snd vs) = snd (last us)"
    and "map nal_nodes (butlast (nal # map snd vs)) = map (nal_nodes \<circ> snd) (butlast us)"
proof -
  have us: "nal # map snd vs = map snd us" "us \<noteq> []" using assms by simp_all
  show "last (nal # map snd vs) = snd (last us)" unfolding us(1) using us(2) by (rule last_map)
  show "map nal_nodes (butlast (nal # map snd vs)) = map (nal_nodes \<circ> snd) (butlast us)"
    unfolding us(1) by (simp add: map_butlast)
qed

lemma DevNode_units:
  assumes "\<forall>(long, nal) \<in> set us. nal_ok nal" and "us \<noteq> []"
    and "length (annexb us) < 2 ^ 16" and "DevCount st = 0"
  defines "rest \<equiv> snd (last us)"
  shows "\<exists>ns. DevNode (buffer_of (annexb us)) 0 st =
      Inr (st\<lparr>bufferlist := bufferlist st @ ns,
        DevCount := snd (large_nodes rest 0 (length rest) 1 0),
        filepos := (filepos st + length (annexb us)) mod 2 ^ 64\<rparr>) \<and>
    good_nodes ns (concat (map (nal_nodes \<circ> snd) (butlast us)) @ fst (large_nodes rest 0 (length rest) 1 0))"
proof -
  obtain long nal vs where us: "us = (long, nal) # vs" using assms(2) by (cases us) auto
  then have ok: "nal_ok nal" "\<forall>(long, nal) \<in> set vs. nal_ok nal" using assms(1) by auto
  have "drop 0 (annexb us) = annexb ((long, nal) # vs)" by (simp add: us)
  note start = start_of_unit [OF this ok(1)]
  have chunk: "chunk_wf (buffer_of (annexb us))" "GetSizeValue (buffer_of (annexb us)) = length (annexb us)"
      "pbuffer (buffer_of (annexb us)) = annexb us"
    using annexb_chunk [of "annexb us"] start(3) assms(3) by simp_all
  have "st\<lparr>bufferlist := bufferlist st @ [], DevCount := 0\<rparr> = st" using assms(4) by (cases st) simp
  then have "dev_loop (buffer_of (annexb us)) 0 0 False st =
      dev_loop (buffer_of (annexb us)) (0 + length (code_bytes long)) (0 + length (code_bytes long)) True
        (st\<lparr>bufferlist := bufferlist st @ [], DevCount := 0\<rparr>)"
    using dev_loop_first [OF chunk(1), of 0 0 st] start assms(4) by (simp only: chunk) simp
  from DevNode_after [OF chunk(1) ok _ _ start(4) this] show ?thesis
    using assms(4) unfolding units_split [OF us] rest_def by simp
qed

text \<open>A chunk that begins inside a unit, with fragments of it already queued.\<close>

lemma DevNode_continued:
  assumes "nal_ok remain" and "\<forall>(long, nal) \<in> set us. nal_ok nal" and "us \<noteq> []"
    and "length (remain @ annexb us) < 2 ^ 16" and "0 < DevCount st" and "DevCount st + 2 ^ 16 < 2 ^ 31"
  defines "rest \<equiv> snd (last us)"
  shows "\<exists>ns. DevNode (buffer_of (remain @ annexb us)) 0 st =
      Inr (st\<lparr>bufferlist := bufferlist st @ ns,
        DevCount := snd (large_nodes rest 0 (length rest) 1 0),
        filepos := (filepos st + length (remain @ annexb us)) mod 2 ^ 64\<rparr>) \<and>
    good_nodes ns (fst (large_nodes (butlast remain) 0 (length remain - 1) 2 (DevCount st)) @
      concat (map (nal_nodes \<circ> snd) (butlast us)) @ fst (large_nodes rest 0 (length rest) 1 0))"
proof -
  let ?data = "remain @ annexb us" let ?b = "buffer_of ?data"
  obtain long nal vs where us: "us = (long, nal) # vs" using assms(3) by (cases us) auto
  then have ok: "nal_ok nal" "\<forall>(long, nal) \<in> set vs. nal_ok nal" using assms(2) by auto
  have "drop (length remain) ?data = annexb ((long, nal) # vs)" by (simp add: us)
  note start = start_of_unit [OF this ok(1)]
  have chunk: "chunk_wf ?b" "GetSizeValue ?b = length ?data" "pbuffer ?b = ?data"
    using annexb_chunk [of ?data] start(3) assms(4) by simp_all
  have "dev_loop ?b (0 + 0) 0 False st = dev_loop ?b (length remain) 0 False st"
    using start(3) by (intro dev_loop_walk [OF chunk(1) _ assms(1), of 0 "annexb us"]) (simp_all add: chunk)
  moreover have sta: "length remain < GetSizeValue ?b - 4" "is_start (pbuffer ?b) (length remain)"
    using start by (simp_all add: chunk)
  moreover obtain ms where "dev_loop ?b (length remain) 0 False st =
      dev_loop ?b (length remain + length (code_bytes long)) (length remain + length (code_bytes long)) True
        (st\<lparr>bufferlist := bufferlist st @ ms, DevCount := 0\<rparr>)"
      and ms: "good_nodes ms (fst (large_nodes ?data 0 (length remain - 1) 2 (DevCount st)))"
    using dev_loop_open [OF chunk(1) sta, of st] start(2) assms(5,6) unfolding chunk by auto
  ultimately have "dev_loop ?b 0 0 False st =
      dev_loop ?b (length remain + length (code_bytes long)) (length remain + length (code_bytes long)) True
        (st\<lparr>bufferlist := bufferlist st @ ms, DevCount := 0\<rparr>)" by simp
  from DevNode_after [OF chunk(1) ok _ assms(6) start(4) this] obtain ns where
    ns: "DevNode ?b 0 st = Inr (st\<lparr>bufferlist := bufferlist st @ ms @ ns,
        DevCount := snd (large_nodes rest 0 (length rest) 1 0), filepos := (filepos st + length ?data) mod 2 ^ 64\<rparr>)"
      "good_nodes ns (concat (map (nal_nodes \<circ> snd) (butlast us)) @ fst (large_nodes rest 0 (length rest) 1 0))"
    using assms(5) unfolding units_split [OF us] rest_def by auto
  have "2 \<le> length remain" using assms(1) by (simp add: nal_ok_def)
  then have "large_nodes ?data 0 (length remain - 1) 2 (DevCount st) = large_nodes (butlast remain) 0 (length remain - 1) 2 (DevCount st)"
    using large_nodes_segment [of 0 "length remain - 1" ?data 2 "DevCount st"] by (simp add: segment_def butlast_conv_take)
  then show ?thesis using ns good_nodes_append [OF ms ns(2)] by (intro exI [of _ "ms @ ns"]) simp
qed

text \<open>What a receiver makes of the nodes of a slice.\<close>

lemma reassemble_nodes:
  assumes "nal \<noteq> []"
  shows "length (reassemble (fst (large_nodes nal 0 (length nal) 0 0))) = length nal - ((length nal - 1) div 1462 - 1) \<and>
    (reassemble (fst (large_nodes nal 0 (length nal) 0 0)) = nal \<longleftrightarrow> length nal \<le> 2924)"
proof -
  define m where "m = (length nal - 1) div 1462"
  have nodes: "reassemble (fst (large_nodes nal 0 (length nal) 0 0)) = (if m = 0 then nal
      else nal ! 0 # concat (map (drop 18) (mid_nodes nal (nal ! 0) 0 0 m)) @ drop (1462 * m) nal)"
    using reassemble_large [OF assms] by (simp add: m_def)
  have le: "1462 * m \<le> length nal - 1" unfolding m_def by (rule times_div_less_eq_dividend)
  then have len: "length (reassemble (fst (large_nodes nal 0 (length nal) 0 0))) = length nal - (m - 1)"
    using assms length_concat_mids [of 0 m nal "nal ! 0" 0] by (cases m) (auto simp: nodes)
  have "reassemble (fst (large_nodes nal 0 (length nal) 0 0)) = nal" if "m \<le> 1"
  proof (cases "m = 0")
    case False
    with that have m: "m = 1" by simp
    then have "nal ! 0 # segment 1 1461 nal @ drop 1462 nal = nal"
      using le assms by (cases nal) (simp_all add: segment_def drop_Cons' numeral_eq_Suc)
    then show ?thesis using nodes m by (simp add: mid_nodes_def)
  qed (simp add: nodes)
  moreover have "m \<le> 1" if "reassemble (fst (large_nodes nal 0 (length nal) 0 0)) = nal"
    using len that assms le by (cases nal) auto
  moreover have "m \<le> 1 \<longleftrightarrow> length nal \<le> 2924"
    using assms div_less_iff_less_mult [of 1462 "length nal - 1" 2] unfolding m_def by (cases nal) auto
  ultimately show ?thesis using len by (auto simp: m_def)
qed

lemma DevLargeNode_whole:
  assumes "pos + len \<le> length (pbuffer buf)" and "0 < len" and "length (pbuffer buf) < 2 ^ 30" and "DevCount st = 0"
  shows "\<exists>ns. DevLargeNode buf pos (int len) 0 st = Inr (st\<lparr>bufferlist := bufferlist st @ ns\<rparr>) \<and>
    map content ns = fst (large_nodes (segment pos len (pbuffer buf)) 0 len 0 0)"
proof -
  have bounds: "pos < length (pbuffer buf)" "length (pbuffer buf) < 2 ^ 31" "0 \<le> DevCount st" "DevCount st + int len + 1 < 2 ^ 31"
    using assms by simp_all
  have none: "snd (large_nodes (segment pos len (pbuffer buf)) 0 len 0 0) = 0" by (simp add: large_nodes_def Let_def)
  have st: "st\<lparr>bufferlist := xs, DevCount := 0\<rparr> = st\<lparr>bufferlist := xs\<rparr>" for xs using assms(4) by (cases st) simp
  from DevLargeNode_nodes [OF assms(1) bounds, of 0] show ?thesis
    unfolding assms(4) large_nodes_segment [OF assms(1,2)] none st by (auto simp: good_nodes_def)
qed

section \<open>Properties\<close>

text \<open>C27. A whole chunk of NAL units as an encoder writes them, read when no fragment is pending, is split at
  exactly its start codes: every unit but the last becomes its nodes, in order, the last becomes the fragments
  of a unit that continues, and \<open>filepos\<close> advances by the size of the chunk.\<close>

theorem DevNode_splits:
  assumes "\<forall>(long, nal) \<in> set us. nal_ok nal" and "us \<noteq> []"
    and "length (annexb us) < 2 ^ 16" and "DevCount st = 0"
  defines "rest \<equiv> snd (last us)"
  shows "\<exists>ns. DevNode (buffer_of (annexb us)) 0 st =
      Inr (st\<lparr>bufferlist := bufferlist st @ ns,
        DevCount := snd (large_nodes rest 0 (length rest) 1 0),
        filepos := (filepos st + length (annexb us)) mod 2 ^ 64\<rparr>) \<and>
    map content ns = concat (map (nal_nodes \<circ> snd) (butlast us)) @ fst (large_nodes rest 0 (length rest) 1 0)"
  using DevNode_units [OF assms(1-4)] unfolding rest_def good_nodes_def by blast

theorem DevNode_splits_witness:
  "\<exists>ns. DevNode (buffer_of [0, 0, 0, 1, 0x67, 9, 0, 0, 1, 0x41, 7, 0, 0, 1, 0x41, 8]) 0
      \<lparr>filepos = 0, OnStream = False, IsPlay = False, sqsnumber = 0, fileindex = 0,
       MediaInfo = undefined, bufferlist = [], DevCount = 0\<rparr> = Inr
      \<lparr>filepos = 16, OnStream = False, IsPlay = False, sqsnumber = 0, fileindex = 0,
       MediaInfo = undefined, bufferlist = ns, DevCount = 1\<rparr> \<and>
    map content ns = [[0x67, 9], 0 # replicate 15 0 @ [0x41, 7], [1, 1, 0x41] @ replicate 15 0 @ [8]]"
proof -
  let ?us = "[(True, [0x67, 9]), (False, [0x41, 7]), (False, [0x41, 8])]"
  have ok: "\<forall>(long, nal) \<in> set ?us. nal_ok nal" by (simp add: nal_ok_def)
  have xs: "annexb ?us = [0, 0, 0, 1, 0x67, 9, 0, 0, 1, 0x41, 7, 0, 0, 1, 0x41, 8]"
    by (simp add: code_bytes_def)
  have nodes: "concat (map (nal_nodes \<circ> snd) (butlast ?us)) @ fst (large_nodes [0x41, 8] 0 (length [0x41, 8 :: byte]) 1 0) =
      [[0x67, 9], 0 # replicate 15 0 @ [0x41, 7], [1, 1, 0x41] @ replicate 15 0 @ [8]]" by code_simp
  have count: "snd (large_nodes [0x41, 8] 0 (length [0x41, 8 :: byte]) 1 0) = 1" by code_simp
  show ?thesis
    using DevNode_splits [OF ok, of "\<lparr>filepos = 0, OnStream = False, IsPlay = False, sqsnumber = 0,
        fileindex = 0, MediaInfo = undefined, bufferlist = [], DevCount = 0\<rparr>", unfolded xs] nodes count
    by simp
qed

text \<open>C28. A chunk that begins inside a slice, with fragments of the slice queued already: its bytes up to the first
  start code become further fragments, the last of them marked as the end, and splitting goes on behind. But
  the end is taken one byte early, so that the last byte of every slice that crosses two blocks is lost, and
  the fragments are noted with the chunk's first byte in place of the slice's header.\<close>

theorem DevNode_continues:
  assumes "nal_ok remain" and "\<forall>(long, nal) \<in> set us. nal_ok nal" and "us \<noteq> []"
    and "length (remain @ annexb us) < 2 ^ 16" and "0 < DevCount st" and "DevCount st + 2 ^ 16 < 2 ^ 31"
  defines "rest \<equiv> snd (last us)" and "kept \<equiv> butlast remain"
  shows "\<exists>ns. DevNode (buffer_of (remain @ annexb us)) 0 st =
      Inr (st\<lparr>bufferlist := bufferlist st @ ns,
        DevCount := snd (large_nodes rest 0 (length rest) 1 0),
        filepos := (filepos st + length (remain @ annexb us)) mod 2 ^ 64\<rparr>) \<and>
    map content ns = fst (large_nodes kept 0 (length kept) 2 (DevCount st)) @
      concat (map (nal_nodes \<circ> snd) (butlast us)) @ fst (large_nodes rest 0 (length rest) 1 0) \<and>
    (length remain \<le> 1463 \<longrightarrow> fst (large_nodes kept 0 (length kept) 2 (DevCount st)) = [fu_bytes 0 (hd remain) kept])"
proof -
  have "2 \<le> length remain" using assms(1) by (simp add: nal_ok_def)
  then have "butlast remain ! 0 = hd remain" by (cases remain) (auto simp: nth_butlast)
  then have one: "length remain \<le> 1463 \<Longrightarrow> fst (large_nodes (butlast remain) 0 (length (butlast remain)) 2 (DevCount st)) =
      [fu_bytes 0 (hd remain) (butlast remain)]"
    by (simp add: large_nodes_def segment_def Let_def)
  obtain ns where ns: "DevNode (buffer_of (remain @ annexb us)) 0 st =
      Inr (st\<lparr>bufferlist := bufferlist st @ ns, DevCount := snd (large_nodes rest 0 (length rest) 1 0),
        filepos := (filepos st + length (remain @ annexb us)) mod 2 ^ 64\<rparr>)"
    "map content ns = fst (large_nodes kept 0 (length kept) 2 (DevCount st)) @
      concat (map (nal_nodes \<circ> snd) (butlast us)) @ fst (large_nodes rest 0 (length rest) 1 0)"
    using DevNode_continued [OF assms(1-6)] unfolding rest_def kept_def good_nodes_def by auto
  show ?thesis using one ns unfolding kept_def by (intro exI [of _ ns] conjI impI) assumption+
qed

theorem DevNode_continues_witness:
  "\<exists>ns. DevNode (buffer_of [9, 8, 0, 0, 1, 0x67, 9, 0, 0, 1, 0x41, 8]) 0
      \<lparr>filepos = 16, OnStream = False, IsPlay = False, sqsnumber = 0, fileindex = 0,
       MediaInfo = undefined, bufferlist = [], DevCount = 1\<rparr> = Inr
      \<lparr>filepos = 28, OnStream = False, IsPlay = False, sqsnumber = 0, fileindex = 0,
       MediaInfo = undefined, bufferlist = ns, DevCount = 1\<rparr> \<and>
    map content ns = [[1, 0, 9] @ replicate 15 0 @ [9], [0x67, 9], [1, 1, 0x41] @ replicate 15 0 @ [8]]"
proof -
  let ?us = "[(False, [0x67, 9]), (False, [0x41, 8])]" let ?remain = "[9, 8 :: byte]"
  have ok: "nal_ok ?remain" "\<forall>(long, nal) \<in> set ?us. nal_ok nal" by (simp_all add: nal_ok_def)
  have xs: "?remain @ annexb ?us = [9, 8, 0, 0, 1, 0x67, 9, 0, 0, 1, 0x41, 8]"
    by (simp add: code_bytes_def)
  have nodes: "fst (large_nodes (butlast ?remain) 0 (length (butlast ?remain)) 2 1) @
      concat (map (nal_nodes \<circ> snd) (butlast ?us)) @ fst (large_nodes [0x41, 8] 0 (length [0x41, 8 :: byte]) 1 0) =
      [[1, 0, 9] @ replicate 15 0 @ [9], [0x67, 9], [1, 1, 0x41] @ replicate 15 0 @ [8]]" by code_simp
  have count: "snd (large_nodes [0x41, 8] 0 (length [0x41, 8 :: byte]) 1 0) = 1" by code_simp
  show ?thesis
    using DevNode_continues [OF ok, of "\<lparr>filepos = 16, OnStream = False, IsPlay = False, sqsnumber = 0,
        fileindex = 0, MediaInfo = undefined, bufferlist = [], DevCount = 1\<rparr>", unfolded xs] nodes count
    by auto
qed

text \<open>Whatever the bytes of a chunk (of 5 bytes up to 64 KB) and whatever fragment was pending, splitting
  it never reads or writes out of bounds; it only appends nodes, each well-formed and not empty, and at
  least one, and \<open>DevCount\<close> ends positive: the last bytes always count as a unit that continues.\<close>

theorem DevNode_safe:
  assumes "chunk_wf buf" and "0 \<le> DevCount st" and "DevCount st + 2 ^ 16 < 2 ^ 31"
  shows "\<exists>ns dc. DevNode buf 0 st = Inr (st\<lparr>bufferlist := bufferlist st @ ns, DevCount := dc,
      filepos := (filepos st + GetSizeValue buf) mod 2 ^ 64\<rparr>) \<and>
    ns \<noteq> [] \<and> list_all (\<lambda>b. buf_wf b \<and> 0 < GetMtuValue b) ns \<and> 0 < dc"
  using DevNode_appends [OF assms] by auto

theorem DevNode_safe_witness:
  "\<exists>ns dc. DevNode (buffer_of [0, 0, 1, 0, 0, 1, 0, 0]) 0
      \<lparr>filepos = 0, OnStream = False, IsPlay = False, sqsnumber = 0, fileindex = 0,
       MediaInfo = undefined, bufferlist = [], DevCount = 5\<rparr> = Inr
      \<lparr>filepos = 8, OnStream = False, IsPlay = False, sqsnumber = 0, fileindex = 0,
       MediaInfo = undefined, bufferlist = ns, DevCount = dc\<rparr> \<and> ns \<noteq> []"
proof -
  have "chunk_wf (buffer_of [0, 0, 1, 0, 0, 1, 0, 0])" "GetSizeValue (buffer_of [0, 0, 1, 0, 0, 1, 0, 0]) = 8"
    by (simp_all add: chunk_wf_def buf_wf_def buffer_of_def GetSizeValue_def u32_def)
  then show ?thesis
    using DevNode_safe [of "buffer_of [0, 0, 1, 0, 0, 1, 0, 0]" "\<lparr>filepos = 0, OnStream = False, IsPlay = False,
        sqsnumber = 0, fileindex = 0, MediaInfo = undefined, bufferlist = [], DevCount = 5\<rparr>"] by auto
qed

text \<open>C29. \<open>DevLargeNode\<close> on a whole slice: a receiver that puts the nodes it queues together gets the slice back exactly when
  it has at most 2924 bytes, that is at most two fragments; of a longer one, a byte is lost at the start of every middle
  fragment, since the loop advances by one byte more than a fragment carries.\<close>

theorem DevLargeNode_reassemble:
  assumes "pos + len \<le> length (pbuffer buf)" and "0 < len" and "length (pbuffer buf) < 2 ^ 30" and "DevCount st = 0"
  shows "\<exists>ns. DevLargeNode buf pos (int len) 0 st = Inr (st\<lparr>bufferlist := bufferlist st @ ns\<rparr>) \<and>
    length (reassemble (map content ns)) = len - ((len - 1) div 1462 - 1) \<and>
    (reassemble (map content ns) = segment pos len (pbuffer buf) \<longleftrightarrow> len \<le> 2924)"
proof -
  have n: "length (segment pos len (pbuffer buf)) = len" using assms(1) by (rule length_segment)
  then have "segment pos len (pbuffer buf) \<noteq> []" using assms(2) by auto
  from reassemble_nodes [OF this] DevLargeNode_whole [OF assms] show ?thesis unfolding n by metis
qed

theorem DevLargeNode_reassemble_witness:
  "\<forall>st. \<exists>ns st'. DevLargeNode (buffer_of (replicate 4000 0x41)) 0 (int 4000) 0 (st\<lparr>DevCount := 0\<rparr>) = Inr st' \<and>
    bufferlist st' = bufferlist st @ ns \<and> length (reassemble (map content ns)) = 3999"
proof
  fix st
  have "0 + 4000 \<le> length (pbuffer (buffer_of (replicate 4000 0x41)))" "(0 :: nat) < 4000"
    "length (pbuffer (buffer_of (replicate 4000 0x41))) < 2 ^ 30" "DevCount (st\<lparr>DevCount := 0\<rparr>) = 0"
    by (simp_all add: buffer_of_def)
  from DevLargeNode_reassemble [OF this]
  show "\<exists>ns st'. DevLargeNode (buffer_of (replicate 4000 0x41)) 0 (int 4000) 0 (st\<lparr>DevCount := 0\<rparr>) = Inr st' \<and>
      bufferlist st' = bufferlist st @ ns \<and> length (reassemble (map content ns)) = 3999" by auto
qed

text \<open>A chunk that is empty stops the program at an assertion when it is passed as a shared buffer, which
  is what \<open>SETUP\<close> does with the first block of a file of less than 10240 bytes.\<close>

theorem DevNode_shared_empty:
  "DevNode_shared (Buffer 0) 0 st = Inl AssertFailed"
  by (simp add: DevNode_shared_def FullBuffer_ptr_def GetSizeValue_def u32_def Buffer_def u16_def)

text \<open>The queue is first in, first out: nodes pushed on an empty queue are handed out in the order they
  came in, and then \<open>GetNode\<close> answers with an empty buffer and leaves the stream alone.\<close>

theorem GetNode_fifo:
  assumes "bufferlist st = []"
  shows "fst (queue.get_all (length bs) (queue.push_all bs st)) = bs \<and> GetNode st = (Buffer 0, st)"
  using queue.fifo [OF assms] queue.get_empty [OF assms] by blast

theorem GetNode_fifo_witness:
  "fst (queue.get_all (length [Buffer 3, Buffer 4]) (queue.push_all [Buffer 3, Buffer 4] (new_MediaStream 0 0 0))) =
    [Buffer 3, Buffer 4]"
proof -
  have "bufferlist (new_MediaStream 0 0 0) = []" by (simp add: new_MediaStream_def)
  from GetNode_fifo [OF this] show ?thesis by blast
qed

end
