(* ===== verification/RtpOverTcp.thy ===== *)
theory RtpOverTcp
  imports HardwareIO Base64 H264Syntax H264Stream "HOL-Library.Signed_Division"
begin

text \<open>
  The sender of \<open>RtpOverTcp.cpp\<close> with the rest of the stream it works on: the parser state of
  \<open>h264MediaStream\<close>, its constructor and wrappers, the factory of \<open>StreamBuilder.cpp\<close> and \<open>TCPForH264\<close>, which
  turns the next node of a stream into an RTP packet framed for the RTSP connection.

  The members \<open>fps\<close>, \<open>frame_count\<close>, \<open>pframe_count\<close> and \<open>ssrc\<close> that \<open>TCPForH264\<close> names are those of the
  stream's \<open>MediaInfo\<close>.
\<close>

section \<open>The H.264 stream\<close>

record h264_stream = h264_dev +
  StreamSps :: "h264_sps option"
  CurSlice :: "h264_slice option"
  CurNalType :: byte
  poc :: nat

text \<open>What \<open>new\<close> returns is not initialised; these are the values it may hold.\<close>

record uninit =
  junk_ssrc :: int
  junk_fps :: int
  junk_fileindex :: int
  junk_poc :: nat
  junk_sps :: h264_sps
  junk_slice :: h264_slice
  junk_bytes :: "nat \<Rightarrow> byte"

definition new_h264MediaStream :: "uninit \<Rightarrow> h264_stream" where
  "new_h264MediaStream m =
     h264_dev.extend
       (media_stream.extend (new_MediaStream (junk_ssrc m) (junk_fps m) (junk_fileindex m)) \<lparr>DevCount = 0\<rparr>)
       \<lparr>StreamSps = None, CurSlice = None, CurNalType = 0, poc = junk_poc m\<rparr>"

lemma new_h264MediaStream_fields [simp]:
  "bufferlist (new_h264MediaStream m) = []" "DevCount (new_h264MediaStream m) = 0"
  "StreamSps (new_h264MediaStream m) = None" "CurSlice (new_h264MediaStream m) = None"
  "filepos (new_h264MediaStream m) = 0" "sqsnumber (new_h264MediaStream m) = 0"
  "frame_count (MediaInfo (new_h264MediaStream m)) = 0" "pframe_count (MediaInfo (new_h264MediaStream m)) = 0"
  by (simp_all add: new_h264MediaStream_def new_MediaStream_def h264_dev.defs media_stream.defs)

text \<open>The destructor frees both structures, then the base class frees the queue.\<close>

definition delete_h264MediaStream :: "h264_stream \<Rightarrow> h264_sps list \<times> h264_slice list \<times> buffer list" where
  "delete_h264MediaStream st =
     ((case StreamSps st of None \<Rightarrow> [] | Some s \<Rightarrow> [s]),
      (case CurSlice st of None \<Rightarrow> [] | Some c \<Rightarrow> [c]),
      fst (MediaStream_drain (media_stream.truncate st) []))"

definition ParseSqs :: "uninit \<Rightarrow> buffer option \<Rightarrow> h264_stream \<Rightarrow> (bool \<times> h264_stream) res" where
  "ParseSqs m SqsNode st =
     (case SqsNode of
        None \<Rightarrow> Inl AssertFailed
      | Some node \<Rightarrow>
          andThen (ParseSqs_bytes (junk_bytes m) (GetBuffer node) (GetSizeValue node)
              (case StreamSps st of None \<Rightarrow> junk_sps m | Some sps \<Rightarrow> sps)) (\<lambda>(ok, sps).
          Inr (ok, st\<lparr>StreamSps := Some sps\<rparr>)))"

definition ParseSlice :: "uninit \<Rightarrow> byte list \<Rightarrow> int \<Rightarrow> int \<Rightarrow> h264_stream \<Rightarrow> h264_stream res" where
  "ParseSlice m p_nal n_nal_size i_nal_type st =
     andThen (ParseSlice_bytes (StreamSps st)
         (case CurSlice st of None \<Rightarrow> junk_slice m | Some c \<Rightarrow> c) p_nal n_nal_size i_nal_type) (\<lambda>c.
     Inr (st\<lparr>CurSlice := Some c\<rparr>))"

definition h264Base64Ps :: "buffer option \<Rightarrow> string \<Rightarrow> (bool \<times> string) res" where
  "h264Base64Ps buf psbase =
     (case buf of
        None \<Rightarrow> Inl AssertFailed
      | Some b \<Rightarrow> andThen (Base64Encode (GetBuffer b) (GetSizeValue b) psbase) (\<lambda>(n, psbase). Inr (True, psbase)))"

datatype MediaType = H264 | AAC | UNDEFINED

definition CreateNew :: "uninit \<Rightarrow> string \<Rightarrow> h264_stream option \<times> MediaType" where
  "CreateNew m MediaExt =
     (if MediaExt = ''.h264'' \<or> MediaExt = ''.H264'' then (Some (new_h264MediaStream m), H264)
      else (None, UNDEFINED))"

section \<open>\<open>TCPForH264\<close>\<close>

text \<open>The next node, after a refill from the file when the queue is empty.\<close>

definition fetch_node :: "file_manager \<Rightarrow> h264_stream \<Rightarrow> (buffer \<times> file_manager \<times> h264_stream) res" where
  "fetch_node fm Media =
     (let (node, Media) = GetNode Media in
      if GetMtuValue node = 0 then
        andThen (GetBufferFormFile fm (fileindex Media) (filepos Media) 10240) (\<lambda>(bufget, fm).
        if GetMtuValue bufget = 10240 then
          andThen (DevNode_shared bufget 0 Media) (\<lambda>Media.
          let (node, Media) = GetNode Media in Inr (node, fm, Media))
        else Inr (node, fm, Media))
      else Inr (node, fm, Media))"

text \<open>A parameter set: the first is parsed; the answer is an empty buffer in any case.\<close>

definition sps_node :: "uninit \<Rightarrow> buffer \<Rightarrow> h264_stream \<Rightarrow> h264_stream res" where
  "sps_node m node Media =
     andThen (if StreamSps Media = None then
         andThen (FullBuffer_shared (CreateBuf (GetSizeValue node)) (Some node) 0 (GetSizeValue node)) (\<lambda>(ok, sps).
         andThen (ParseSqs m (Some sps) Media) (\<lambda>(ok, Media). Inr Media))
       else Inr Media) (\<lambda>Media.
     case StreamSps Media of
       None \<Rightarrow> Inl NullPointer
     | Some sps \<Rightarrow>
         andThen (guard (time_scale sps \<noteq> 0) DivisionByZero) (\<lambda>_.
         Inr (Media\<lparr>MediaInfo := (MediaInfo Media)\<lparr>fps := s32 (int (num_units_in_tick sps div time_scale sps))\<rparr>\<rparr>)))"

text \<open>Consecutive \<open>SetByte\<close> calls from an index on.\<close>

primrec set_bytes :: "nat \<Rightarrow> byte list \<Rightarrow> buffer \<Rightarrow> buffer res" where
  "set_bytes i [] b = Inr b"
| "set_bytes i (x # xs) b = andThen (SetByte b x i) (set_bytes (i + 1) xs)"

text \<open>The value of an \<open>int64_t\<close> after an assignment of \<open>x\<close>.\<close>

definition s64 :: "int \<Rightarrow> int" where
  "s64 x = (x + 2 ^ 63) mod 2 ^ 64 - 2 ^ 63"

definition count_picture :: "h264_stream \<Rightarrow> h264_stream" where
  "count_picture Media =
     Media\<lparr>MediaInfo := (MediaInfo Media)\<lparr>pframe_count := s64 (pframe_count (MediaInfo Media) + 1)\<rparr>\<rparr>"

text \<open>The slice header is read from the whole unit or the first fragment; fragments get their FU bytes.\<close>

definition prepare_node :: "uninit \<Rightarrow> buffer \<Rightarrow> h264_stream \<Rightarrow> (bool \<times> buffer \<times> h264_stream) res" where
  "prepare_node m node Media =
     andThen (GetByte node 0) (\<lambda>b0.
     if b0 = 0 then
       andThen (GetNalType node) (\<lambda>t.
       andThen (ParseSlice m (drop (RTP_HEADSIZE + 1) (GetBuffer node))
           (s32 (int (if 64 < u32 (int (GetSizeValue node) - int RTP_HEADSIZE) then 64 else GetSizeValue node)))
           (uint t) Media) (\<lambda>Media.
       Inr (True, node, count_picture Media)))
     else if b0 = 1 then
       andThen (GetByte node 1) (\<lambda>b1.
       if b1 = 1 then
         andThen (GetNalType node) (\<lambda>t.
         andThen (ParseSlice m (drop (RTP_HEADSIZE + 2) (GetBuffer node)) 64 (uint t) (Media\<lparr>CurNalType := t\<rparr>)) (\<lambda>Media.
         andThen (GetByte node 2) (\<lambda>b2.
         andThen (set_bytes RTP_HEADSIZE [b2 AND 0x60 OR 28, 0x80 OR CurNalType Media] node) (\<lambda>node.
         Inr (False, node, count_picture Media)))))
       else andThen (GetByte node 2) (\<lambda>b2.
         if b1 = 0 then
           andThen (set_bytes RTP_HEADSIZE [b2 AND 0x60 OR 28, 0x40 OR CurNalType Media] node) (\<lambda>node.
           Inr (True, node, Media))
         else
           andThen (set_bytes RTP_HEADSIZE [b2 AND 0x60 OR 28, CurNalType Media] node) (\<lambda>node.
           Inr (False, node, Media))))
     else Inr (False, node, Media))"

definition key_slice :: "h264_slice \<Rightarrow> bool" where
  "key_slice c \<longleftrightarrow> i_slice_type c = 2 \<or> i_slice_type c = 7 \<or> i_slice_type c = 4 \<or> i_slice_type c = 9"

text \<open>
  The 64-bit products wrap as the compiler's do (formally an overflow is undefined), which needs \<open>2 ^ 63 div
  (180000 * units)\<close> pictures; the quotient is cut to \<open>int\<close>.
\<close>

definition timestamp_of :: "StreamInfo \<Rightarrow> h264_sps \<Rightarrow> h264_slice \<Rightarrow> int res" where
  "timestamp_of info sps c =
     andThen (guard (time_scale sps \<noteq> 0) DivisionByZero) (\<lambda>_.
     Inr (s32 (s64 ((if key_slice c then frame_count info * 90000 * 2
                     else (frame_count info * 2 + i_pic_order_cnt_lsb c) * 90000) * int (num_units_in_tick sps))
               sdiv int (time_scale sps))))"

text \<open>The bytes of a 32-bit integer, high byte first, as the shifts and masks take them.\<close>

definition be32 :: "int \<Rightarrow> byte list" where
  "be32 v = [word_of_int (v div 2 ^ 24), word_of_int (v div 2 ^ 16), word_of_int (v div 2 ^ 8), word_of_int v]"

definition be16 :: "nat \<Rightarrow> byte list" where
  "be16 v = [word_of_nat (v div 2 ^ 8), word_of_nat v]"

definition rtp_header :: "bool \<Rightarrow> buffer \<Rightarrow> h264_stream \<Rightarrow> (buffer \<times> h264_stream) res" where
  "rtp_header IsFinal node Media =
     andThen (set_bytes 0 ([0x24, 0] @ be16 (u16 (int (GetSizeValue node) - 4))) node) (\<lambda>node.
     andThen (set_bytes 4 ([0x80, (if IsFinal then 0x80 else 0) OR 96] @ be16 (sqsnumber Media)) node) (\<lambda>node.
     let Media = Media\<lparr>sqsnumber := u16 (int (sqsnumber Media) + 1)\<rparr> in
     case CurSlice Media of
       None \<Rightarrow> Inl NullPointer
     | Some c \<Rightarrow> (case StreamSps Media of
         None \<Rightarrow> Inl NullPointer
       | Some sps \<Rightarrow>
           andThen (timestamp_of (MediaInfo Media) sps c) (\<lambda>timestamp.
           let info = MediaInfo Media;
               Media = Media\<lparr>MediaInfo := (if key_slice c then info\<lparr>frame_count := pframe_count info\<rparr> else info)\<rparr> in
           andThen (set_bytes 8 (be32 timestamp @ be32 (ssrc info)) node) (\<lambda>node.
           Inr (node, Media))))))"

definition TCPForH264 :: "uninit \<Rightarrow> file_manager \<Rightarrow> h264_stream \<Rightarrow> (buffer \<times> file_manager \<times> h264_stream) res" where
  "TCPForH264 m fm st =
     andThen (fetch_node fm st) (\<lambda>(node, fm, Media).
     andThen (GetNalType node) (\<lambda>ftype.
     if ftype = 6 \<or> ftype = 8 then Inr (Buffer 0, fm, Media)
     else if ftype = 7 then andThen (sps_node m node Media) (\<lambda>Media. Inr (Buffer 0, fm, Media))
     else andThen (prepare_node m node Media) (\<lambda>(IsFinal, node, Media).
       andThen (rtp_header IsFinal node Media) (\<lambda>(node, Media). Inr (node, fm, Media)))))"

lemma timestamp_of_pframe [simp]: "timestamp_of (info\<lparr>pframe_count := n\<rparr>) sps c = timestamp_of info sps c"
  by (simp add: timestamp_of_def)

section \<open>Packets\<close>

text \<open>
  What RFC 3550 asks of the header (version 2, no padding, extension or sources, payload type 96) inside the
  interleaving frame of RFC 2326 (dollar sign, channel 0, length).
\<close>

definition rtp_packet :: "bool \<Rightarrow> nat \<Rightarrow> int \<Rightarrow> int \<Rightarrow> byte list \<Rightarrow> byte list" where
  "rtp_packet marker seq ts src payload =
     [0x24, 0] @ be16 (12 + length payload) @ [0x80, if marker then 0xE0 else 0x60] @ be16 seq @ be32 ts @ be32 src @ payload"

lemma set_bytes_wf:
  assumes "buf_wf b" and "i + length bs \<le> length (content b)"
  shows "\<exists>b'. set_bytes i bs b = Inr b' \<and> buf_wf b' \<and> MTU b' = MTU b \<and> bpos b' = bpos b \<and>
    content b' = take i (content b) @ bs @ drop (i + length bs) (content b)"
  using assms
proof (induction bs arbitrary: i b)
  case (Cons x xs)
  then have i: "i < length (content b)" by simp
  obtain b1 where b1: "SetByte b x i = Inr b1" "buf_wf b1" "MTU b1 = MTU b" "bpos b1 = bpos b"
      "content b1 = (content b)[i := x]"
    using SetByte_wf [OF Cons.prems(1) i] by auto
  have "i + 1 + length xs \<le> length (content b1)" using Cons.prems(2) b1(5) by simp
  from Cons.IH [OF b1(2) this] obtain b' where b': "set_bytes (i + 1) xs b1 = Inr b'" "buf_wf b'" "MTU b' = MTU b1"
      "bpos b' = bpos b1" "content b' = take (i + 1) (content b1) @ xs @ drop (i + 1 + length xs) (content b1)" by auto
  have "take (i + 1) ((content b)[i := x]) = take i (content b) @ [x]"
    using i by (simp add: take_Suc_conv_app_nth)
  then show ?case using b1 b' by (intro exI [of _ b']) simp
qed auto

lemma set_bytes_next:
  assumes "buf_wf b" and "content b = xs @ rest" and "length xs = i" and "length bs \<le> length rest"
  shows "\<exists>b'. set_bytes i bs b = Inr b' \<and> buf_wf b' \<and> content b' = xs @ bs @ drop (length bs) rest"
  using set_bytes_wf [OF assms(1), of i bs] assms(2-4) by auto

lemma length_be [simp]: "length (be16 n) = 2" "length (be32 v) = 4"
  by (simp_all add: be16_def be32_def)

lemma rtp_header_packet:
  assumes "buf_wf node" and "16 \<le> length (content node)"
    and "CurSlice Media = Some c" and "StreamSps Media = Some sps" and "timestamp_of (MediaInfo Media) sps c = Inr ts"
  shows "\<exists>node'. rtp_header m node Media = Inr (node', Media\<lparr>sqsnumber := u16 (int (sqsnumber Media) + 1),
        MediaInfo := (if key_slice c then (MediaInfo Media)\<lparr>frame_count := pframe_count (MediaInfo Media)\<rparr>
          else MediaInfo Media)\<rparr>) \<and>
      buf_wf node' \<and> content node' = rtp_packet m (sqsnumber Media) ts (ssrc (MediaInfo Media)) (drop 16 (content node))"
proof -
  let ?n = "GetSizeValue node"
  have n: "length (content node) = ?n" "?n < 2 ^ 16" "16 \<le> ?n"
    using assms(1,2) length_content [OF assms(1)] MTU_content [OF assms(1)] by (auto simp: buf_wf_def)
  then have len: "u16 (int ?n - 4) = 12 + length (drop 16 (content node))" using u16_diff [of 4 ?n] by simp
  let ?h1 = "[0x24, 0] @ be16 (u16 (int ?n - 4))" and ?h2 = "[0x80, (if m then 0x80 else 0) OR 96] @ be16 (sqsnumber Media)"
  let ?h3 = "be32 ts @ be32 (ssrc (MediaInfo Media))"
  have l: "length ?h1 = 4" "length ?h2 = 4" "length ?h3 = 8" by simp_all
  obtain b1 where b1: "set_bytes 0 ?h1 node = Inr b1" "buf_wf b1" "content b1 = ?h1 @ drop 4 (content node)"
    using set_bytes_next [OF assms(1), of "[]" "content node" 0 ?h1] assms(2) l by force
  obtain b2 where b2: "set_bytes 4 ?h2 b1 = Inr b2" "buf_wf b2" "content b2 = (?h1 @ ?h2) @ drop 8 (content node)"
    using set_bytes_next [OF b1(2,3) l(1), of ?h2] assms(2) unfolding l by force
  obtain b3 where b3: "set_bytes 8 ?h3 b2 = Inr b3" "buf_wf b3" "content b3 = (?h1 @ ?h2) @ ?h3 @ drop 16 (content node)"
    using set_bytes_next [OF b2(2,3), of 8 ?h3] assms(2) unfolding l length_append by force
  have "content b3 = rtp_packet m (sqsnumber Media) ts (ssrc (MediaInfo Media)) (drop 16 (content node))"
    unfolding b3(3) rtp_packet_def len by simp
  then show ?thesis
    using b1(1) b2(1) b3(1,2) assms(3,4,5) by (simp add: rtp_header_def Let_def)
qed

section \<open>Sending queued nodes\<close>

text \<open>Repeated calls of \<open>TCPForH264\<close>.\<close>

primrec send_all :: "uninit \<Rightarrow> nat \<Rightarrow> file_manager \<Rightarrow> h264_stream \<Rightarrow> (buffer list \<times> file_manager \<times> h264_stream) res" where
  "send_all m 0 fm st = Inr ([], fm, st)"
| "send_all m (Suc n) fm st =
     andThen (TCPForH264 m fm st) (\<lambda>(p, fm, st).
     andThen (send_all m n fm st) (\<lambda>(ps, fm, st). Inr (p # ps, fm, st)))"

text \<open>The payload of an FU-A packet of RFC 6184: indicator, header with start and end bit, fragment.\<close>

definition fu_payload :: "byte \<Rightarrow> bool \<Rightarrow> bool \<Rightarrow> byte list \<Rightarrow> byte list" where
  "fu_payload h s e body = [h AND 0x60 OR 28, (if s then 0x80 else if e then 0x40 else 0) OR (h AND 0x1f)] @ body"

lemma fetch_queued:
  assumes "bufferlist st = node # rest" and "0 < MTU node"
  shows "fetch_node fm st = Inr (node, fm, st\<lparr>bufferlist := rest\<rparr>)"
  using assms by (simp add: fetch_node_def GetNode_def GetMtuValue_def)

lemma TCP_step:
  assumes "bufferlist st = node # rest" and "0 < MTU node"
    and "GetNalType node = Inr t" and "t \<noteq> 6" "t \<noteq> 7" "t \<noteq> 8"
    and "prepare_node m node (st\<lparr>bufferlist := rest\<rparr>) = Inr (final, node1, st1)"
    and "rtp_header final node1 st1 = Inr (node2, st2)"
  shows "TCPForH264 m fm st = Inr (node2, fm, st2)"
  using assms(3-) by (simp add: TCPForH264_def fetch_queued [OF assms(1,2)])

lemma pbuffer_content: "buf_wf b \<Longrightarrow> pbuffer b = content b @ drop (MTU b - bpos b) (pbuffer b)"
  by (simp add: content_def)

lemma GetByte_nth: "buf_wf b \<Longrightarrow> content b = xs \<Longrightarrow> i < length xs \<Longrightarrow> GetByte b i = Inr (xs ! i)"
  using GetByte_wf by blast

lemma fu_bytes_nth [simp]:
  "fu_bytes n1 h body ! 0 = 1" "fu_bytes n1 h body ! Suc 0 = n1" "fu_bytes n1 h body ! 2 = h"
  "length (fu_bytes n1 h body) = 18 + length body"
  by (simp_all add: fu_bytes_def)

lemma single_bytes_nth [simp]:
  "single_bytes n0 (h # body) ! 0 = n0" "single_bytes n0 (h # body) ! 16 = h"
  "length (single_bytes n0 body) = 16 + length body"
  by (simp_all add: single_bytes_def nth_append)

lemma set_fu:
  assumes "buf_wf node" and "content node = fu_bytes n1 h body"
  shows "\<exists>node'. set_bytes 16 [x, y] node = Inr node' \<and> buf_wf node' \<and>
    16 \<le> length (content node') \<and> drop 16 (content node') = [x, y] @ body"
proof -
  let ?pre = "[1, n1, h] @ replicate 13 0"
  have "content node = ?pre @ ([0, 0] @ body)"
    using assms(2) by (simp add: fu_bytes_def numeral_eq_Suc)
  from set_bytes_next [OF assms(1) this, of 16 "[x, y]"]
  obtain node' where "set_bytes 16 [x, y] node = Inr node'" "buf_wf node'" "content node' = ?pre @ [x, y] @ body"
    by auto
  then show ?thesis by (intro exI [of _ node']) simp
qed

text \<open>A middle or last fragment gets the type noted from the first one.\<close>

lemma prepare_continued:
  assumes "buf_wf node" and "content node = fu_bytes n1 h body" and "n1 \<noteq> 1"
  shows "\<exists>node'. prepare_node m node Media = Inr (n1 = 0, node', Media) \<and> buf_wf node' \<and> 16 \<le> length (content node') \<and>
    drop 16 (content node') = [h AND 0x60 OR 28, (if n1 = 0 then 0x40 else 0) OR CurNalType Media] @ body"
proof -
  have g: "GetByte node 0 = Inr 1" "GetByte node 1 = Inr n1" "GetByte node 2 = Inr h"
    using GetByte_nth [OF assms(1,2)] by simp_all
  let ?y = "(if n1 = 0 then 0x40 else 0) OR CurNalType Media"
  obtain node' where n: "set_bytes 16 [h AND 0x60 OR 28, ?y] node = Inr node'" "buf_wf node'"
      "16 \<le> length (content node')" "drop 16 (content node') = [h AND 0x60 OR 28, ?y] @ body"
    using set_fu [OF assms(1,2)] by blast
  show ?thesis
    using g n assms(3) by (intro exI [of _ node']) (auto simp: prepare_node_def simp del: set_bytes.simps)
qed

text \<open>The first fragment, whose slice header \<open>ParseSlice\<close> reads.\<close>

lemma prepare_first:
  assumes "buf_wf node" and "content node = fu_bytes 1 h body"
    and "ParseSlice m (body @ drop (MTU node - bpos node) (pbuffer node)) 64 (uint (h AND 0x1f)) (Media\<lparr>CurNalType := h AND 0x1f\<rparr>) = Inr Media1"
    and "CurNalType Media1 = h AND 0x1f"
  shows "\<exists>node'. prepare_node m node Media = Inr (False, node', count_picture Media1) \<and> buf_wf node' \<and>
    16 \<le> length (content node') \<and> drop 16 (content node') = fu_payload h True False body"
proof -
  have g: "GetByte node 0 = Inr 1" "GetByte node 1 = Inr 1" "GetByte node 2 = Inr h"
    using GetByte_nth [OF assms(1,2)] by simp_all
  have p: "drop 18 (pbuffer node) = body @ drop (MTU node - bpos node) (pbuffer node)"
    by (subst pbuffer_content [OF assms(1)]) (simp add: assms(2) fu_bytes_def)
  obtain node' where n: "set_bytes 16 [h AND 0x60 OR 28, 0x80 OR (h AND 0x1f)] node = Inr node'" "buf_wf node'"
      "16 \<le> length (content node')" "drop 16 (content node') = [h AND 0x60 OR 28, 0x80 OR (h AND 0x1f)] @ body"
    using set_fu [OF assms(1,2)] by blast
  show ?thesis
    using g n assms(3,4) p
    by (intro exI [of _ node']) (simp add: prepare_node_def fu_payload_def GetNalType_def GetBuffer_def del: set_bytes.simps)
qed

text \<open>A whole unit. The size of a node below 80 bytes would make the parser read on behind it.\<close>

lemma prepare_single:
  assumes "buf_wf node" and "content node = single_bytes 0 (h # body)" and "64 \<le> length body"
    and "ParseSlice m (body @ drop (MTU node - bpos node) (pbuffer node)) 64 (uint (h AND 0x1f)) Media = Inr Media1"
  shows "prepare_node m node Media = Inr (True, node, count_picture Media1)"
proof -
  have g: "GetByte node 0 = Inr 0" "GetByte node 16 = Inr h"
    using GetByte_nth [OF assms(1,2)] by simp_all
  have p: "drop 17 (pbuffer node) = body @ drop (MTU node - bpos node) (pbuffer node)"
    by (subst pbuffer_content [OF assms(1)]) (simp add: assms(2) single_bytes_def)
  have n: "GetSizeValue node = 17 + length body" "GetSizeValue node < 2 ^ 16"
    using length_content [OF assms(1)] MTU_content [OF assms(1)] assms(1,2) by (auto simp: buf_wf_def)
  then have "u32 (int (GetSizeValue node) - int RTP_HEADSIZE) = 1 + length body"
    using u32_diff [of 16 "GetSizeValue node"] by simp
  then show ?thesis
    using g assms(3,4) p by (simp add: prepare_node_def GetNalType_def GetBuffer_def s32_id)
qed

text \<open>Media information after a picture's header: a key picture moves the reference for the timestamps.\<close>

definition after_key :: "h264_slice \<Rightarrow> StreamInfo \<Rightarrow> StreamInfo" where
  "after_key c info = (if key_slice c then info\<lparr>frame_count := pframe_count info\<rparr> else info)"

lemma after_key_idem [simp]: "after_key c (after_key c info) = after_key c info"
  by (simp add: after_key_def)

lemma TCP_continued:
  assumes "bufferlist st = node # rest" and "buf_wf node" and "0 < MTU node"
    and "content node = fu_bytes n1 h body" and "n1 \<noteq> 1"
    and "CurSlice st = Some c" and "StreamSps st = Some sps" and "timestamp_of (MediaInfo st) sps c = Inr ts"
  shows "\<exists>p. TCPForH264 m fm st = Inr (p, fm, st\<lparr>bufferlist := rest,
        sqsnumber := u16 (int (sqsnumber st) + 1), MediaInfo := after_key c (MediaInfo st)\<rparr>) \<and>
    content p = rtp_packet (n1 = 0) (sqsnumber st) ts (ssrc (MediaInfo st))
      ([h AND 0x60 OR 28, (if n1 = 0 then 0x40 else 0) OR CurNalType st] @ body)"
proof -
  have "GetByte node 0 = Inr 1" "GetByte node 1 = Inr n1"
    using GetByte_nth [OF assms(2,4)] by simp_all
  then have t: "GetNalType node = Inr 0" using assms(5) by (simp add: GetNalType_def)
  let ?st = "st\<lparr>bufferlist := rest\<rparr>" and ?pay = "[h AND 0x60 OR 28, (if n1 = 0 then 0x40 else 0) OR CurNalType st] @ body"
  obtain node1 where n: "prepare_node m node ?st = Inr (n1 = 0, node1, ?st)" "buf_wf node1"
      "16 \<le> length (content node1)" "drop 16 (content node1) = ?pay"
    using prepare_continued [OF assms(2,4,5), of m ?st] by auto
  obtain p where p: "rtp_header (n1 = 0) node1 ?st = Inr (p, ?st\<lparr>sqsnumber := u16 (int (sqsnumber ?st) + 1),
        MediaInfo := after_key c (MediaInfo ?st)\<rparr>)"
      "content p = rtp_packet (n1 = 0) (sqsnumber ?st) ts (ssrc (MediaInfo ?st)) (drop 16 (content node1))"
    using rtp_header_packet [OF n(2,3), of ?st c sps ts "n1 = 0"] assms(6-8) unfolding after_key_def by auto
  from TCP_step [OF assms(1,3) t _ _ _ n(1) p(1)] p(2) n(4) show ?thesis by auto
qed

lemma TCP_fragment:
  assumes "bufferlist st = node # rest" and "buf_wf node" and "0 < MTU node"
    and "content node = fu_bytes n1 h body" and "n1 \<noteq> 1" and "CurNalType st = h AND 0x1f"
    and "CurSlice st = Some c" and "StreamSps st = Some sps" and "timestamp_of (MediaInfo st) sps c = Inr ts"
  shows "\<exists>p. TCPForH264 m fm st = Inr (p, fm, st\<lparr>bufferlist := rest,
        sqsnumber := u16 (int (sqsnumber st) + 1), MediaInfo := after_key c (MediaInfo st)\<rparr>) \<and>
    content p = rtp_packet (n1 = 0) (sqsnumber st) ts (ssrc (MediaInfo st)) (fu_payload h False (n1 = 0) body)"
  using TCP_continued [OF assms(1-5,7-9)] by (simp add: fu_payload_def assms(6))

lemma send_fragments:
  assumes "good_nodes ns (map (\<lambda>(k, b). fu_bytes k h b) frs)" and "1 \<notin> fst ` set frs"
    and "bufferlist st = ns @ rest" and "sqsnumber st < 2 ^ 16"
    and "CurNalType st = h AND 0x1f" and "CurSlice st = Some c" and "StreamSps st = Some sps"
    and "after_key c (MediaInfo st) = MediaInfo st" and "timestamp_of (MediaInfo st) sps c = Inr ts"
  shows "\<exists>ps. send_all m (length frs) fm st = Inr (ps, fm, st\<lparr>bufferlist := rest,
        sqsnumber := (sqsnumber st + length frs) mod 2 ^ 16\<rparr>) \<and>
    map content ps = map (\<lambda>(i, k, b). rtp_packet (k = 0) ((sqsnumber st + i) mod 2 ^ 16) ts (ssrc (MediaInfo st))
        (fu_payload h False (k = 0) b)) (enumerate 0 frs)"
  using assms
proof (induction frs arbitrary: ns st)
  case Nil
  then show ?case by (cases st) (simp add: good_nodes_def)
next
  case (Cons kb frs)
  obtain k b where kb: "kb = (k, b)" by force
  from Cons.prems(1) obtain node ms where ns: "ns = node # ms" "content node = fu_bytes k h b" "buf_wf node"
      "0 < MTU node" "good_nodes ms (map (\<lambda>(k, b). fu_bytes k h b) frs)"
    by (cases ns) (auto simp: kb good_nodes_def)
  have k: "k \<noteq> 1" "1 \<notin> fst ` set frs" using Cons.prems(2) by (auto simp: kb)
  let ?s = "sqsnumber st" and ?st1 = "st\<lparr>bufferlist := ms @ rest, sqsnumber := u16 (int (sqsnumber st) + 1)\<rparr>"
  have "bufferlist st = node # (ms @ rest)" using Cons.prems(3) ns(1) by simp
  from TCP_fragment [OF this ns(3,4,2) k(1) Cons.prems(5-7,9)]
  obtain p where p: "TCPForH264 m fm st = Inr (p, fm, ?st1)"
      "content p = rtp_packet (k = 0) ?s ts (ssrc (MediaInfo st)) (fu_payload h False (k = 0) b)"
    using Cons.prems(8) by (force cong: h264_stream.fold_congs)
  have s1: "sqsnumber ?st1 = Suc ?s mod 2 ^ 16" "sqsnumber ?st1 < 2 ^ 16"
    using Cons.prems(4) by (simp_all add: u16_def nat_mod_distrib nat_add_distrib)
  from Cons.IH [OF ns(5) k(2) _ s1(2), of]
  obtain ps where ps: "send_all m (length frs) fm ?st1 = Inr (ps, fm, ?st1\<lparr>bufferlist := rest,
        sqsnumber := (sqsnumber ?st1 + length frs) mod 2 ^ 16\<rparr>)"
      "map content ps = map (\<lambda>(i, k, b). rtp_packet (k = 0) ((sqsnumber ?st1 + i) mod 2 ^ 16) ts
        (ssrc (MediaInfo st)) (fu_payload h False (k = 0) b)) (enumerate 0 frs)"
    using Cons.prems(5-9) by auto
  have "map (\<lambda>(i, k, b). rtp_packet (k = 0) ((sqsnumber ?st1 + i) mod 2 ^ 16) ts (ssrc (MediaInfo st))
        (fu_payload h False (k = 0) b)) (enumerate 0 frs) =
      map (\<lambda>(i, k, b). rtp_packet (k = 0) ((?s + i) mod 2 ^ 16) ts (ssrc (MediaInfo st))
        (fu_payload h False (k = 0) b)) (enumerate 1 frs)"
    unfolding s1(1) by (rule nth_equalityI) (auto simp: nth_enumerate_eq mod_simps)
  moreover have "(sqsnumber ?st1 + length frs) mod 2 ^ 16 = (?s + length (kb # frs)) mod 2 ^ 16"
    unfolding s1(1) by (simp add: mod_simps)
  ultimately show ?case
    using p ps Cons.prems(4) by (intro exI [of _ "p # ps"]) (simp add: kb)
qed

section \<open>The packets of a slice\<close>

text \<open>A slice as an encoder writes it, whose parameter set the stream has read.\<close>

definition slice_nal :: "sps_syntax \<Rightarrow> slice_syntax \<Rightarrow> byte \<Rightarrow> byte list \<Rightarrow> bool" where
  "slice_nal x y h rbsp \<longleftrightarrow> sps_ok x \<and> slice_ok x y \<and> uint (h AND 0x1f) < 6 \<and> 64 \<le> length (escape 0 rbsp) \<and>
     length (slice_bits x (uint (h AND 0x1f)) y) \<le> 336 \<and>
     (\<exists>trailing. bytes_bits rbsp = slice_bits x (uint (h AND 0x1f)) y @ trailing)"

lemma ParseSlice_nal:
  assumes "slice_nal x y h rbsp" and "StreamSps st = Some (sps_fill x sps)"
    and "take 64 p = take 64 (escape 0 rbsp)"
  shows "ParseSlice m p 64 (uint (h AND 0x1f)) st = Inr (st\<lparr>CurSlice := Some (slice_fill x y)\<rparr>)"
proof -
  obtain trailing where s: "sps_ok x" "slice_ok x y" "bytes_bits rbsp = slice_bits x (uint (h AND 0x1f)) y @ trailing"
      "length (slice_bits x (uint (h AND 0x1f)) y) \<le> 336" "64 \<le> length (escape 0 rbsp)"
    using assms(1) by (auto simp: slice_nal_def)
  have "ParseSlice_bytes (Some (sps_fill x sps)) c p 64 (uint (h AND 0x1f)) = Inr (slice_fill x y)" for c
    by (rule ParseSlice_reads [OF s _ assms(3)]) simp
  then show ?thesis by (simp add: ParseSlice_def assms(2))
qed

lemma nal_types: "uint (h AND 0x1f :: byte) < 6 \<Longrightarrow> h AND 0x1f \<noteq> 6 \<and> h AND 0x1f \<noteq> 7 \<and> h AND 0x1f \<noteq> 8"
  by (intro conjI notI) simp_all

lemma send_single:
  assumes "slice_nal x y h rbsp" and "bufferlist st = node # rest" and "buf_wf node"
    and "content node = single_bytes 0 (h # escape 0 rbsp)"
    and "StreamSps st = Some (sps_fill x sps)"
    and "timestamp_of (MediaInfo st) (sps_fill x sps) (slice_fill x y) = Inr ts"
  shows "\<exists>p. TCPForH264 m fm st = Inr (p, fm, st\<lparr>bufferlist := rest, CurSlice := Some (slice_fill x y),
        sqsnumber := u16 (int (sqsnumber st) + 1),
        MediaInfo := after_key (slice_fill x y) ((MediaInfo st)\<lparr>pframe_count := s64 (pframe_count (MediaInfo st) + 1)\<rparr>)\<rparr>) \<and>
    content p = rtp_packet True (sqsnumber st) ts (ssrc (MediaInfo st)) (h # escape 0 rbsp)"
proof -
  have len: "64 \<le> length (escape 0 rbsp)" using assms(1) by (simp add: slice_nal_def)
  have mtu: "0 < MTU node" using MTU_content [OF assms(3)] by (simp add: assms(4))
  have g: "GetByte node 0 = Inr 0" "GetByte node 16 = Inr h"
    using GetByte_nth [OF assms(3,4)] by simp_all
  then have t: "GetNalType node = Inr (h AND 0x1f)" by (simp add: GetNalType_def)
  have n: "h AND 0x1f \<noteq> 6" "h AND 0x1f \<noteq> 7" "h AND 0x1f \<noteq> 8"
    using nal_types assms(1) by (auto simp: slice_nal_def)
  let ?c = "slice_fill x y" and ?st = "st\<lparr>bufferlist := rest\<rparr>"
  let ?st1 = "count_picture (?st\<lparr>CurSlice := Some ?c\<rparr>)"
  have parse: "ParseSlice m (escape 0 rbsp @ drop (MTU node - bpos node) (pbuffer node)) 64 (uint (h AND 0x1f)) ?st =
      Inr (?st\<lparr>CurSlice := Some ?c\<rparr>)"
    by (rule ParseSlice_nal [OF assms(1)]) (use assms(5) len in simp_all)
  have prep: "prepare_node m node ?st = Inr (True, node, ?st1)"
    by (rule prepare_single [OF assms(3,4) len parse])
  have "timestamp_of (MediaInfo ?st1) (sps_fill x sps) ?c = Inr ts"
    using assms(6) by (simp add: count_picture_def)
  then obtain p where p: "rtp_header True node ?st1 = Inr (p, ?st1\<lparr>sqsnumber := u16 (int (sqsnumber ?st1) + 1),
        MediaInfo := after_key ?c (MediaInfo ?st1)\<rparr>)"
      "content p = rtp_packet True (sqsnumber ?st1) ts (ssrc (MediaInfo ?st1)) (drop 16 (content node))"
    using rtp_header_packet [OF assms(3), of ?st1 ?c "sps_fill x sps" ts True] assms(4,5)
    unfolding after_key_def by (auto simp: count_picture_def)
  from TCP_step [OF assms(2) mtu t n(1,2,3) prep p(1)] p(2) show ?thesis
    by (simp add: count_picture_def assms(4) single_bytes_def)
qed

lemma send_first:
  assumes "slice_nal x y h rbsp" and "bufferlist st = node # rest" and "buf_wf node"
    and "content node = fu_bytes 1 h body" and "take 64 body = take 64 (escape 0 rbsp)"
    and "StreamSps st = Some (sps_fill x sps)"
    and "timestamp_of (MediaInfo st) (sps_fill x sps) (slice_fill x y) = Inr ts"
  shows "\<exists>p. TCPForH264 m fm st = Inr (p, fm, st\<lparr>bufferlist := rest, CurNalType := h AND 0x1f,
        CurSlice := Some (slice_fill x y), sqsnumber := u16 (int (sqsnumber st) + 1),
        MediaInfo := after_key (slice_fill x y) ((MediaInfo st)\<lparr>pframe_count := s64 (pframe_count (MediaInfo st) + 1)\<rparr>)\<rparr>) \<and>
    content p = rtp_packet False (sqsnumber st) ts (ssrc (MediaInfo st)) (fu_payload h True False body)"
proof -
  have len: "64 \<le> length (escape 0 rbsp)" using assms(1) by (simp add: slice_nal_def)
  then have len': "64 \<le> length body" using arg_cong [OF assms(5), of length] by simp
  have mtu: "0 < MTU node" using MTU_content [OF assms(3)] by (simp add: assms(4))
  have g: "GetByte node 0 = Inr 1" "GetByte node 1 = Inr 1" "GetByte node 2 = Inr h"
    using GetByte_nth [OF assms(3,4)] by simp_all
  then have t: "GetNalType node = Inr (h AND 0x1f)" by (simp add: GetNalType_def)
  have n: "h AND 0x1f \<noteq> 6" "h AND 0x1f \<noteq> 7" "h AND 0x1f \<noteq> 8"
    using nal_types assms(1) by (auto simp: slice_nal_def)
  let ?c = "slice_fill x y" and ?st = "st\<lparr>bufferlist := rest\<rparr>"
  let ?st1 = "?st\<lparr>CurNalType := h AND 0x1f, CurSlice := Some ?c\<rparr>"
  have "ParseSlice m (body @ drop (MTU node - bpos node) (pbuffer node)) 64 (uint (h AND 0x1f)) (?st\<lparr>CurNalType := h AND 0x1f\<rparr>) =
      Inr (?st\<lparr>CurNalType := h AND 0x1f\<rparr>\<lparr>CurSlice := Some ?c\<rparr>)"
    by (rule ParseSlice_nal [OF assms(1)]) (use assms(5,6) len' in simp_all)
  then have parse: "ParseSlice m (body @ drop (MTU node - bpos node) (pbuffer node)) 64 (uint (h AND 0x1f)) (?st\<lparr>CurNalType := h AND 0x1f\<rparr>) =
      Inr ?st1" by simp
  have "CurNalType ?st1 = h AND 0x1f" by simp
  from prepare_first [OF assms(3,4) parse this]
  obtain node1 where prep: "prepare_node m node ?st = Inr (False, node1, count_picture ?st1)" "buf_wf node1"
      "16 \<le> length (content node1)" "drop 16 (content node1) = fu_payload h True False body" by blast
  let ?st2 = "count_picture ?st1"
  have "timestamp_of (MediaInfo ?st2) (sps_fill x sps) ?c = Inr ts"
    using assms(7) by (simp add: count_picture_def)
  then obtain p where p: "rtp_header False node1 ?st2 = Inr (p, ?st2\<lparr>sqsnumber := u16 (int (sqsnumber ?st2) + 1),
        MediaInfo := after_key ?c (MediaInfo ?st2)\<rparr>)"
      "content p = rtp_packet False (sqsnumber ?st2) ts (ssrc (MediaInfo ?st2)) (drop 16 (content node1))"
    using rtp_header_packet [OF prep(2,3), of ?st2 ?c "sps_fill x sps" ts False] assms(6)
    unfolding after_key_def by (auto simp: count_picture_def)
  from TCP_step [OF assms(2) mtu t n(1,2,3) prep(1) p(1)] p(2) prep(4) show ?thesis
    by (simp add: count_picture_def)
qed

text \<open>The nodes of a unit of more than 1462 bytes, as notes and bodies.\<close>

definition unit_fragments :: "byte list \<Rightarrow> (byte \<times> byte list) list" where
  "unit_fragments nal =
     (let m = (length nal - 1) div 1462 in
      map (\<lambda>k. (word_of_int (1 + int k), segment (1462 * k + 1) 1461 nal)) [0..<m] @ [(0, drop (1462 * m) nal)])"

lemma nal_nodes_fragments:
  assumes "1462 < length nal" and "uint (nal ! 0 AND 0x1f) < 6"
  shows "nal_nodes nal = map (\<lambda>(k, b). fu_bytes k (nal ! 0) b) (unit_fragments nal)"
proof -
  have "1462 \<le> length nal - 1" using assms(1) by simp
  from div_le_mono [OF this, of 1462] have m: "0 < (length nal - 1) div 1462" by simp
  define m' where "m' = (length nal - 1) div 1462"
  have "segment (1462 * m') (length nal - 1462 * m') nal = drop (1462 * m') nal" by (simp add: segment_def)
  then show ?thesis
    using assms(2) m unfolding nal_nodes_def large_nodes_def unit_fragments_def Let_def m'_def [symmetric]
    by (simp add: mid_nodes_def comp_def)
qed

lemma unit_fragments_split:
  assumes "1462 < length nal" and "length nal \<le> 1462 * 255"
  shows "\<exists>frs. unit_fragments nal = (1, segment 1 1461 nal) # frs \<and> 1 \<notin> fst ` set frs \<and>
    length frs = (length nal - 1) div 1462 \<and> (\<forall>i < length frs. (fst (frs ! i) = 0) = (Suc i = length frs))"
proof -
  define m where "m = (length nal - 1) div 1462"
  have "1462 \<le> length nal - 1" using assms(1) by simp
  from div_le_mono [OF this, of 1462] obtain j where j: "m = Suc j" unfolding m_def by (cases "(length nal - 1) div 1462") auto
  have "length nal - 1 < 255 * 1462" using assms by simp
  then have "m < 255" unfolding m_def by (rule less_mult_imp_div_less)
  have "word_of_int (1 + int k) \<noteq> (0 :: byte)" "k \<noteq> 0 \<Longrightarrow> word_of_int (1 + int k) \<noteq> (1 :: byte)" if "k < m" for k
  proof -
    have "(word_of_int (1 + int k) :: byte) = of_nat (Suc k)" by simp
    moreover have "unat (of_nat (Suc k) :: byte) = Suc k mod 2 ^ 8" by (subst unat_of_nat) simp
    moreover have "Suc k mod 2 ^ 8 = Suc k" using that \<open>m < 255\<close> by simp
    ultimately have u: "unat (word_of_int (1 + int k) :: byte) = Suc k" by metis
    show "word_of_int (1 + int k) \<noteq> (0 :: byte)" using arg_cong [where f = unat] u by fastforce
    assume "k \<noteq> 0"
    with u show "word_of_int (1 + int k) \<noteq> (1 :: byte)" using arg_cong [where f = unat] by fastforce
  qed
  note w = this
  let ?f = "\<lambda>k. (word_of_int (1 + int k) :: byte, segment (1462 * k + 1) 1461 nal)"
  let ?frs = "map ?f [1..<m] @ [(0, drop (1462 * m) nal)]"
  have "[0..<m] = 0 # [1..<m]" by (simp add: j upt_conv_Cons)
  then have "unit_fragments nal = (1, segment 1 1461 nal) # ?frs"
    unfolding unit_fragments_def Let_def m_def [symmetric] by simp
  moreover have "1 \<notin> fst ` set ?frs" using w(2) by force
  moreover have "(fst (?frs ! i) = 0) = (Suc i = length ?frs)" if "i < length ?frs" for i
  proof (cases "Suc i < m")
    case True
    then have "i < m - Suc 0" by linarith
    then have "fst (?frs ! i) = word_of_int (1 + int (Suc i))" by (simp add: nth_append del: upt_Suc)
    then show ?thesis using w(1) [OF True] True j by simp
  next
    case False
    moreover have "length ?frs = m" by (simp add: j del: upt_Suc)
    ultimately have "i = length [1..<m]" using that by (simp only: length_upt)
    then have "?frs ! i = (0, drop (1462 * m) nal)"
      using nth_append_length [of "map ?f [1..<m]" "(0, drop (1462 * m) nal)" "[]"] by (simp only: length_map)
    then show ?thesis using \<open>i = length [1..<m]\<close> by (simp del: upt_Suc)
  qed
  moreover have "length ?frs = m" by (simp add: j del: upt_Suc)
  ultimately show ?thesis unfolding m_def [symmetric] by (intro exI [of _ ?frs]) blast
qed

text \<open>The packets the nodes of a fragmented unit become, and what they do to the stream.\<close>

definition unit_packets :: "nat \<Rightarrow> int \<Rightarrow> int \<Rightarrow> int \<Rightarrow> byte list \<Rightarrow> byte list list" where
  "unit_packets seq ts0 ts1 src nal =
     (let n = length (nal_nodes nal) in
      map (\<lambda>i. rtp_packet (i = n - 1) ((seq + i) mod 2 ^ 16) (if i = 0 then ts0 else ts1) src
          (fu_payload (nal ! 0) (i = 0) (i = n - 1) (drop 18 (nal_nodes nal ! i)))) [0..<n])"

lemma send_unit:
  assumes "slice_nal x y h rbsp" and "1462 \<le> length (escape 0 rbsp)" and "length (escape 0 rbsp) < 1462 * 255"
    and "bufferlist st = ns @ rest" and "good_nodes ns (nal_nodes (h # escape 0 rbsp))" and "sqsnumber st < 2 ^ 16"
    and "StreamSps st = Some (sps_fill x sps)"
    and "timestamp_of (MediaInfo st) (sps_fill x sps) (slice_fill x y) = Inr ts0"
    and "info = after_key (slice_fill x y) ((MediaInfo st)\<lparr>pframe_count := s64 (pframe_count (MediaInfo st) + 1)\<rparr>)"
    and "timestamp_of info (sps_fill x sps) (slice_fill x y) = Inr ts1"
  shows "\<exists>ps. send_all m (length ns) fm st = Inr (ps, fm, st\<lparr>bufferlist := rest, CurNalType := h AND 0x1f,
        CurSlice := Some (slice_fill x y), sqsnumber := (sqsnumber st + length ns) mod 2 ^ 16, MediaInfo := info\<rparr>) \<and>
      map content ps = unit_packets (sqsnumber st) ts0 ts1 (ssrc (MediaInfo st)) (h # escape 0 rbsp)"
proof -
  let ?nal = "h # escape 0 rbsp" and ?c = "slice_fill x y" and ?s = "sqsnumber st" and ?src = "ssrc (MediaInfo st)"
  have t: "uint (?nal ! 0 AND 0x1f) < 6" using assms(1) by (simp add: slice_nal_def)
  have "1462 < length ?nal" "length ?nal \<le> 1462 * 255" using assms(2,3) by simp_all
  note size = this
  obtain frs where frs: "unit_fragments ?nal = (1, segment 1 1461 ?nal) # frs" "1 \<notin> fst ` set frs"
      "\<forall>i < length frs. (fst (frs ! i) = 0) = (Suc i = length frs)" "length frs = length (escape 0 rbsp) div 1462"
    using unit_fragments_split [OF size] by auto
  have pos: "0 < length frs" using div_le_mono [OF assms(2), of 1462] frs(4) by simp
  let ?fu = "\<lambda>(k, b). fu_bytes k h b" and ?b0 = "segment 1 1461 ?nal"
  have nodes: "nal_nodes ?nal = fu_bytes 1 h ?b0 # map ?fu frs"
    using nal_nodes_fragments [OF size(1) t] by (simp add: frs(1))
  obtain node ms where ns: "ns = node # ms" "content node = fu_bytes 1 h ?b0" "buf_wf node" "good_nodes ms (map ?fu frs)"
    using assms(5) unfolding nodes by (cases ns) (auto simp: good_nodes_def)
  have ms: "length ms = length frs" using ns(4) by (auto simp: good_nodes_def dest: map_eq_imp_length_eq)
  have q: "bufferlist st = node # (ms @ rest)" using assms(4) ns(1) by simp
  have "take 64 ?b0 = take 64 (escape 0 rbsp)" using assms(2) by (simp add: segment_def min_def)
  note head = this
  let ?st1 = "st\<lparr>bufferlist := ms @ rest, CurNalType := h AND 0x1f, CurSlice := Some ?c,
      sqsnumber := u16 (int ?s + 1), MediaInfo := info\<rparr>"
  obtain p where p: "TCPForH264 m fm st = Inr (p, fm, ?st1)"
      "content p = rtp_packet False ?s ts0 ?src (fu_payload h True False ?b0)"
    using send_first [OF assms(1) q ns(3,2) head assms(7,8)] unfolding assms(9) by blast
  have s1: "sqsnumber ?st1 = Suc ?s mod 2 ^ 16" "sqsnumber ?st1 < 2 ^ 16"
    using assms(6) by (simp_all add: u16_def nat_mod_distrib nat_add_distrib)
  have src: "ssrc info = ?src" by (simp add: assms(9) after_key_def)
  have idem: "after_key ?c info = info" by (simp add: assms(9))
  obtain ps where ps: "send_all m (length frs) fm ?st1 = Inr (ps, fm, ?st1\<lparr>bufferlist := rest,
        sqsnumber := (sqsnumber ?st1 + length frs) mod 2 ^ 16\<rparr>)"
      "map content ps = map (\<lambda>(i, k, b). rtp_packet (k = 0) ((sqsnumber ?st1 + i) mod 2 ^ 16) ts1 ?src
        (fu_payload h False (k = 0) b)) (enumerate 0 frs)"
    using send_fragments [OF ns(4) frs(2), of ?st1 rest ?c "sps_fill x sps" ts1 m fm] s1(2) assms(7,10) idem src by auto
  have seq: "(sqsnumber ?st1 + i) mod 2 ^ 16 = (?s + Suc i) mod 2 ^ 16" for i
    unfolding s1(1) by (simp add: mod_simps)
  let ?n = "length (nal_nodes ?nal)"
  let ?pkt = "\<lambda>i. rtp_packet (i = ?n - 1) ((?s + i) mod 2 ^ 16) (if i = 0 then ts0 else ts1) ?src
      (fu_payload h (i = 0) (i = ?n - 1) (drop 18 (nal_nodes ?nal ! i)))"
  have n: "?n = Suc (length frs)" by (simp add: nodes)
  have "map content ps = map ?pkt [1..<?n]"
  proof (rule nth_equalityI)
    show "length (map content ps) = length (map ?pkt [1..<?n])" using arg_cong [OF ps(2), of length] n by (simp del: upt_Suc)
    fix i assume "i < length (map content ps)"
    then have i: "i < length frs" using arg_cong [OF ps(2), of length] by simp
    obtain k b where kb: "frs ! i = (k, b)" by force
    have last: "(k = 0) = (Suc i = ?n - 1)" using frs(3) i kb n by force
    have "map content ps ! i = rtp_packet (k = 0) ((?s + Suc i) mod 2 ^ 16) ts1 ?src (fu_payload h False (k = 0) b)"
      using i by (simp only: ps(2) seq) (simp add: nth_enumerate_eq kb)
    also have "\<dots> = ?pkt (Suc i)" unfolding last using i by (simp add: nodes kb)
    finally show "map content ps ! i = map ?pkt [1..<?n] ! i" using i n by (simp del: upt_Suc)
  qed
  moreover have "content p = ?pkt 0" using p(2) pos assms(6) by (simp add: n) (simp add: nodes)
  moreover have "[0..<?n] = 0 # [1..<?n]" by (simp add: n upt_conv_Cons del: upt_Suc)
  ultimately have packets: "map content (p # ps) = unit_packets ?s ts0 ts1 ?src ?nal"
    unfolding unit_packets_def Let_def by simp
  have "(sqsnumber ?st1 + length frs) mod 2 ^ 16 = (?s + length ns) mod 2 ^ 16" using seq ms ns(1) by simp
  with ps(1) p(1) packets show ?thesis
    by (intro exI [of _ "p # ps"]) (simp add: ns(1) ms)
qed

section \<open>Timestamps\<close>

lemma s64_id: "- (2 ^ 63) \<le> x \<Longrightarrow> x < 2 ^ 63 \<Longrightarrow> s64 x = x"
  by (simp add: s64_def)

lemma s32_diff: "\<exists>k. s32 x = x + 2 ^ 32 * k"
proof
  have "(x + 2 ^ 31) mod 2 ^ 32 = (x + 2 ^ 31) - 2 ^ 32 * ((x + 2 ^ 31) div 2 ^ 32)"
    by (simp only: minus_mult_div_eq_mod)
  then show "s32 x = x + 2 ^ 32 * (- ((x + 2 ^ 31) div 2 ^ 32))" by (simp add: s32_def)
qed

lemma be32_s32: "be32 (s32 x) = be32 x"
proof -
  obtain k where k: "s32 x = x + 2 ^ 32 * k" using s32_diff by blast
  have byte: "(word_of_int a :: byte) = word_of_int b" if "a = b + 2 ^ 8 * c" for a b c :: int
  proof -
    have "take_bit 8 a = take_bit 8 b" by (simp add: that take_bit_eq_mod)
    then show ?thesis by (simp only: word_of_int_eq_iff) simp
  qed
  have "(x + 2 ^ 32 * k) div 2 ^ 24 = x div 2 ^ 24 + 2 ^ 8 * k" "(x + 2 ^ 32 * k) div 2 ^ 16 = x div 2 ^ 16 + 2 ^ 8 * (2 ^ 8 * k)"
    "(x + 2 ^ 32 * k) div 2 ^ 8 = x div 2 ^ 8 + 2 ^ 8 * (2 ^ 16 * k)" "x + 2 ^ 32 * k = x + 2 ^ 8 * (2 ^ 24 * k)"
    by simp_all
  from this [THEN byte] show ?thesis by (simp only: be32_def k)
qed

text \<open>Half frames since the stream's first picture, and the exact time in the 90 kHz clock of the payload type.\<close>

definition ticks :: "StreamInfo \<Rightarrow> h264_slice \<Rightarrow> int" where
  "ticks info c = 2 * frame_count info + (if key_slice c then 0 else i_pic_order_cnt_lsb c)"

definition exact_time :: "h264_sps \<Rightarrow> int \<Rightarrow> int" where
  "exact_time sps n = n * 90000 * int (num_units_in_tick sps) div int (time_scale sps)"

lemma timestamp_of_exact:
  assumes "0 < time_scale sps" and "0 \<le> ticks info c" and "ticks info c * 90000 * int (num_units_in_tick sps) < 2 ^ 63"
  shows "timestamp_of info sps c = Inr (s32 (exact_time sps (ticks info c)))"
proof -
  let ?n = "ticks info c * 90000 * int (num_units_in_tick sps)"
  have "(if key_slice c then frame_count info * 90000 * 2
      else (frame_count info * 2 + i_pic_order_cnt_lsb c) * 90000) * int (num_units_in_tick sps) = ?n"
    by (simp add: ticks_def)
  moreover have "0 \<le> ?n" using assms(2) by simp
  moreover have "s64 ?n = ?n" using \<open>0 \<le> ?n\<close> assms(3) by (intro s64_id) auto
  moreover have "?n sdiv int (time_scale sps) = exact_time sps (ticks info c)"
    using \<open>0 \<le> ?n\<close> assms(1) by (simp add: exact_time_def signed_divide_int_def sgn_if)
  moreover have "guard (time_scale sps \<noteq> 0) DivisionByZero = Inr ()" using assms(1) by simp
  ultimately show ?thesis unfolding timestamp_of_def by (simp only: andThen_simps)
qed

section \<open>Nodes the sender cannot handle\<close>

lemma slice_copy_out:
  assumes "int (length p) < n" and "t \<le> length p"
  shows "slice_copy p n t out = Inl OutOfBounds"
  using assms(2)
proof (induction "length p - t" arbitrary: t out rule: less_induct)
  case less
  show ?case
  proof (cases "t = length p")
    case True
    then show ?thesis
      using assms(1) by (subst slice_copy.simps) (simp add: at_out)
  next
    case False
    then have t: "t < length p" "int t < n" using less.prems assms(1) by simp_all
    have "slice_copy p n (t + 1) out' = Inl OutOfBounds" for out' using less.hyps [of "t + 1"] t(1) by simp
    moreover have "slice_copy p n (t + 3) out' = Inl OutOfBounds" if "t + 2 < length p" for out'
      using less.hyps [of "t + 3"] that by simp
    moreover have "t + 2 < length p \<or> at p (t + 2) = Inl OutOfBounds" "t + 1 < length p \<or> at p (t + 1) = Inl OutOfBounds"
      using at_out [of p] by (auto simp: not_less [symmetric])
    ultimately show ?thesis
      using t by (subst slice_copy.simps) (auto simp: at_def andThen_def split: sum.splits)
  qed
qed

lemma send_short:
  assumes "bufferlist st = node # rest" and "buf_wf node" and "bpos node = 0"
    and "content node = single_bytes 0 (h # body)" and "uint (h AND 0x1f) < 6" and "length body < 64"
  shows "TCPForH264 m fm st = Inl OutOfBounds"
proof -
  have mtu: "0 < MTU node" using MTU_content [OF assms(2)] by (simp add: assms(4))
  have g: "GetByte node 0 = Inr 0" "GetByte node 16 = Inr h"
    using GetByte_nth [OF assms(2,4)] by simp_all
  then have t: "GetNalType node = Inr (h AND 0x1f)" by (simp add: GetNalType_def)
  have n: "h AND 0x1f \<noteq> 6" "h AND 0x1f \<noteq> 7" "h AND 0x1f \<noteq> 8" using nal_types [OF assms(5)] by auto
  have p: "drop 17 (pbuffer node) = body"
    using pbuffer_content [OF assms(2)] assms(2,3,4) by (simp add: buf_wf_def single_bytes_def)
  have size: "GetSizeValue node = 17 + length body"
    using length_content [OF assms(2)] assms(4) by simp
  have "u32 (int (GetSizeValue node) - int RTP_HEADSIZE) = 1 + length body"
    unfolding size using u32_diff [of 16 "17 + length body"] assms(6) by simp
  then have "\<not> 64 < u32 (int (GetSizeValue node) - int RTP_HEADSIZE)" using assms(6) by simp
  moreover have "s32 (int (GetSizeValue node)) = 17 + int (length body)" unfolding size using assms(6) by (simp add: s32_id)
  moreover have "slice_copy body k 0 [] = Inl OutOfBounds" if "int (length body) < k" for k
    using slice_copy_out [OF that] by simp
  moreover have "int (length body) < (if 64 < 17 + int (length body) then 64 else 17 + int (length body))"
    using assms(6) by simp
  ultimately have "prepare_node m node (st\<lparr>bufferlist := rest\<rparr>) = Inl OutOfBounds"
    using g p t by (simp add: prepare_node_def GetBuffer_def ParseSlice_def ParseSlice_bytes_def)
  then show ?thesis using t n by (simp add: TCPForH264_def fetch_queued [OF assms(1) mtu])
qed

lemma send_at_end:
  assumes "bufferlist st = []" and "GetBufferFormFile fm (fileindex st) (filepos st) 10240 = Inr (Buffer 0, fm')"
  shows "TCPForH264 m fm st = Inl OutOfBounds"
  using assms by (simp add: TCPForH264_def fetch_node_def GetNode_def GetMtuValue_def GetNalType_def GetByte_def at_out)

text \<open>An access unit delimiter of two bytes, or any other short unit that got no header.\<close>

lemma send_delimiter:
  assumes "bufferlist st = buffer_of [0x09, b] # rest"
  shows "TCPForH264 m fm st = Inl OutOfBounds"
proof -
  let ?node = "buffer_of [0x09, b]"
  have "fetch_node fm st = Inr (?node, fm, st\<lparr>bufferlist := rest\<rparr>)"
    by (rule fetch_queued [OF assms]) (simp add: buffer_of_def)
  moreover have "GetNalType ?node = Inr 9" by (simp add: GetNalType_def GetByte_def buffer_of_def)
  moreover have "prepare_node m ?node Media = Inr (False, ?node, Media)" for Media
    by (simp add: prepare_node_def GetByte_def buffer_of_def)
  moreover have "rtp_header False ?node Media = Inl OutOfBounds" for Media
    by (simp add: rtp_header_def SetByte_def buffer_of_def be16_def put_out)
  ultimately show ?thesis by (simp add: TCPForH264_def)
qed

section \<open>A sample stream\<close>

definition sample_stream :: "h264_sps \<Rightarrow> buffer list \<Rightarrow> h264_stream" where
  "sample_stream sps ns =
     \<lparr>filepos = 10240, OnStream = True, IsPlay = True, sqsnumber = 65535, fileindex = 0,
      MediaInfo = \<lparr>frame_count = 1, pframe_count = 3, ssrc = 7, lsb_count = 0, fps = 0, filename = []\<rparr>,
      bufferlist = ns, DevCount = 0, StreamSps = Some (sps_fill sample_sps sps), CurSlice = None,
      CurNalType = 0, poc = 0\<rparr>"

text \<open>A predicted and a key slice with \<open>n\<close> bytes of data.\<close>

definition sample_rbsp :: "nat \<Rightarrow> byte list" where
  "sample_rbsp n = [154, 6, 53] @ replicate n 85"

definition sample_key_rbsp :: "nat \<Rightarrow> byte list" where
  "sample_key_rbsp n = [136, 128, 70] @ replicate n 85"

definition sample_key :: slice_syntax where
  "sample_key = \<lparr>y_first_mb = 0, y_type = 7, y_pps = 0, y_colour = 0, y_frame_num = 0, y_field = False,
     y_bottom = False, y_idr = 0, y_lsb = 6, y_delta = 0\<rparr>"

lemma escape_nonzero: "0 \<notin> set xs \<Longrightarrow> escape 0 xs = xs"
  by (induction xs) auto

lemma sample_escape [simp]:
  "escape 0 (sample_rbsp n) = sample_rbsp n" "escape 0 (sample_key_rbsp n) = sample_key_rbsp n"
  "length (sample_rbsp n) = n + 3" "length (sample_key_rbsp n) = n + 3"
  by (rule escape_nonzero, simp add: sample_rbsp_def, rule escape_nonzero, simp add: sample_key_rbsp_def)
    (simp_all add: sample_rbsp_def sample_key_rbsp_def)

lemma sample_bits:
  "slice_bits sample_sps 1 sample_slice @ [True, False, True] = bytes_bits [154, 6, 53]"
  "slice_bits sample_sps 5 sample_key = bytes_bits [136, 128, 70]"
  by code_simp+

lemma sample_nal: "61 \<le> n \<Longrightarrow> slice_nal sample_sps sample_slice 0x41 (sample_rbsp n)"
proof -
  assume n: "61 \<le> n"
  have "slice_ok sample_sps sample_slice" by (simp add: slice_ok_def separate_planes_def sample_sps_def sample_slice_def)
  moreover have "bytes_bits (sample_rbsp n) = slice_bits sample_sps 1 sample_slice @ ([True, False, True] @ bytes_bits (replicate n 85))"
    unfolding sample_rbsp_def by (simp only: bytes_bits_simps(3) sample_bits [symmetric] append_assoc)
  moreover have "length (slice_bits sample_sps 1 sample_slice) \<le> 336"
    using arg_cong [OF sample_bits(1), of length] by simp
  ultimately show ?thesis using n sample_sps_ok unfolding slice_nal_def by auto
qed

lemma sample_key_nal: "61 \<le> n \<Longrightarrow> slice_nal sample_sps sample_key 0x65 (sample_key_rbsp n)"
proof -
  assume n: "61 \<le> n"
  have "slice_ok sample_sps sample_key" by (simp add: slice_ok_def separate_planes_def sample_sps_def sample_key_def)
  moreover have "bytes_bits (sample_key_rbsp n) = slice_bits sample_sps 5 sample_key @ bytes_bits (replicate n 85)"
    unfolding sample_key_rbsp_def by (simp only: bytes_bits_simps(3) sample_bits [symmetric] append_assoc)
  moreover have "length (slice_bits sample_sps 5 sample_key) \<le> 336"
    using arg_cong [OF sample_bits(2), of length] by simp
  ultimately show ?thesis using n sample_sps_ok unfolding slice_nal_def by auto
qed

lemma sample_time:
  "num_units_in_tick (sps_fill sample_sps sps) = 1" "time_scale (sps_fill sample_sps sps) = 50"
  by (simp_all add: sps_fill_def fill_vui_def fill_restriction_def fill_timing_def sample_sps_def)

lemma good_nodes_buffer_of:
  "\<forall>xs \<in> set bodies. 0 < length xs \<and> length xs < 2 ^ 16 \<Longrightarrow> good_nodes (map buffer_of bodies) bodies"
  by (induction bodies) (auto simp: buf_wf_def content_def buffer_of_def)

section \<open>Properties\<close>

text \<open>A queued slice that fits one packet leaves as one: marker set, the stream's sequence number, source
  and time, and the unit unchanged as payload; the stream counts the packet and the picture.\<close>

theorem TCPForH264_single:
  assumes "slice_nal x y h rbsp" and "bufferlist st = node # rest" and "buf_wf node"
    and "content node = single_bytes 0 (h # escape 0 rbsp)"
    and "StreamSps st = Some (sps_fill x sps)"
    and "timestamp_of (MediaInfo st) (sps_fill x sps) (slice_fill x y) = Inr ts"
  shows "\<exists>p. TCPForH264 m fm st = Inr (p, fm, st\<lparr>bufferlist := rest, CurSlice := Some (slice_fill x y),
        sqsnumber := u16 (int (sqsnumber st) + 1),
        MediaInfo := after_key (slice_fill x y) ((MediaInfo st)\<lparr>pframe_count := s64 (pframe_count (MediaInfo st) + 1)\<rparr>)\<rparr>) \<and>
    content p = rtp_packet True (sqsnumber st) ts (ssrc (MediaInfo st)) (h # escape 0 rbsp)"
  by (rule send_single [OF assms])

theorem TCPForH264_single_witness:
  "\<forall>sps m fm. \<exists>p st'. TCPForH264 m fm (sample_stream sps [buffer_of (single_bytes 0 (0x41 # sample_rbsp 64))]) = Inr (p, fm, st') \<and>
    sqsnumber st' = 0 \<and> content p = rtp_packet True 65535 14400 7 (0x41 # sample_rbsp 64)"
proof (intro allI)
  fix sps m fm
  let ?node = "buffer_of (single_bytes 0 (0x41 # sample_rbsp 64))"
  have nal: "slice_nal sample_sps sample_slice 0x41 (sample_rbsp 64)" by (rule sample_nal) simp
  have node: "buf_wf ?node" "content ?node = single_bytes 0 (0x41 # escape 0 (sample_rbsp 64))"
    by (simp_all add: buf_wf_def content_def buffer_of_def)
  have "ticks (MediaInfo (sample_stream sps [?node])) (slice_fill sample_sps sample_slice) = 8"
    by (simp add: ticks_def key_slice_def slice_fill_def sample_slice_def sample_sps_def sample_stream_def)
  then have ts: "timestamp_of (MediaInfo (sample_stream sps [?node])) (sps_fill sample_sps sps) (slice_fill sample_sps sample_slice) = Inr 14400"
    using timestamp_of_exact [of "sps_fill sample_sps sps" "MediaInfo (sample_stream sps [?node])" "slice_fill sample_sps sample_slice"]
    by (simp add: sample_time exact_time_def s32_id)
  have q: "bufferlist (sample_stream sps [?node]) = [?node]" "StreamSps (sample_stream sps [?node]) = Some (sps_fill sample_sps sps)"
    by (simp_all add: sample_stream_def)
  from TCPForH264_single [OF nal q(1) node q(2) ts]
  show "\<exists>p st'. TCPForH264 m fm (sample_stream sps [?node]) = Inr (p, fm, st') \<and>
      sqsnumber st' = 0 \<and> content p = rtp_packet True 65535 14400 7 (0x41 # sample_rbsp 64)"
    by (fastforce simp: sample_stream_def u16_def)
qed

text \<open>C20. A queued slice in fragments leaves as one RTP packet for each node. The bodies are those of the nodes, of which
  the middle ones lack a byte. Behind the RTP header each packet has the two bytes of a fragment (FU-A): the start
  bit on the first only, the end bit and the marker on the last only; sequence numbers are consecutive, the source is
  one. The times need not agree as they should within a picture: the first packet has the time computed before the
  picture counts move on, the others the one after that, which for a key picture is in general another one.\<close>

theorem TCPForH264_fragments:
  assumes "slice_nal x y h rbsp" and "1462 \<le> length (escape 0 rbsp)" and "length (escape 0 rbsp) < 1462 * 255"
    and "bufferlist st = ns @ rest" and "good_nodes ns (nal_nodes (h # escape 0 rbsp))" and "sqsnumber st < 2 ^ 16"
    and "StreamSps st = Some (sps_fill x sps)"
    and "timestamp_of (MediaInfo st) (sps_fill x sps) (slice_fill x y) = Inr ts0"
    and "info = after_key (slice_fill x y) ((MediaInfo st)\<lparr>pframe_count := s64 (pframe_count (MediaInfo st) + 1)\<rparr>)"
    and "timestamp_of info (sps_fill x sps) (slice_fill x y) = Inr ts1"
  shows "\<exists>ps. send_all m (length ns) fm st = Inr (ps, fm, st\<lparr>bufferlist := rest, CurNalType := h AND 0x1f,
        CurSlice := Some (slice_fill x y), sqsnumber := (sqsnumber st + length ns) mod 2 ^ 16, MediaInfo := info\<rparr>) \<and>
      map content ps = unit_packets (sqsnumber st) ts0 ts1 (ssrc (MediaInfo st)) (h # escape 0 rbsp)"
  by (rule send_unit [OF assms])

lemma nal_nodes_good:
  assumes "1462 < length nal" and "uint (nal ! 0 AND 0x1f) < 6" and "length nal < 2 ^ 16 - 18"
  shows "good_nodes (map buffer_of (nal_nodes nal)) (nal_nodes nal)"
proof (rule good_nodes_buffer_of, rule ballI)
  fix xs assume "xs \<in> set (nal_nodes nal)"
  then obtain k b where kb: "(k, b) \<in> set (unit_fragments nal)" "xs = fu_bytes k (nal ! 0) b"
    using nal_nodes_fragments [OF assms(1,2)] by auto
  then have "length b \<le> length nal" by (auto simp: unit_fragments_def Let_def segment_def)
  then show "0 < length xs \<and> length xs < 2 ^ 16" using kb(2) assms(3) by simp
qed

text \<open>The key picture after 3 pictures, the previous key picture having been the first.\<close>

theorem TCPForH264_fragments_witness:
  "\<forall>sps m fm. \<exists>ps st'. send_all m 2 fm (sample_stream sps (map buffer_of (nal_nodes (0x65 # sample_key_rbsp 2000)))) = Inr (ps, fm, st') \<and>
    map content ps = unit_packets 65535 3600 14400 7 (0x65 # sample_key_rbsp 2000)"
proof (intro allI)
  fix sps m fm
  let ?ns = "map buffer_of (nal_nodes (0x65 # sample_key_rbsp 2000))" and ?c = "slice_fill sample_sps sample_key"
  let ?st = "sample_stream sps ?ns"
  let ?info = "after_key ?c ((MediaInfo ?st)\<lparr>pframe_count := s64 (pframe_count (MediaInfo ?st) + 1)\<rparr>)"
  have nal: "slice_nal sample_sps sample_key 0x65 (sample_key_rbsp 2000)" by (rule sample_key_nal) simp
  have len: "1462 \<le> length (escape 0 (sample_key_rbsp 2000))" "length (escape 0 (sample_key_rbsp 2000)) < 1462 * 255" by simp_all
  have good: "good_nodes ?ns (nal_nodes (0x65 # escape 0 (sample_key_rbsp 2000)))"
    unfolding sample_escape by (rule nal_nodes_good) simp_all
  have two: "length ?ns = 2"
    using nal_nodes_fragments [of "0x65 # sample_key_rbsp 2000"] by (simp add: unit_fragments_def)
  have key: "key_slice ?c" by (simp add: key_slice_def slice_fill_def sample_key_def)
  have ts0: "timestamp_of (MediaInfo ?st) (sps_fill sample_sps sps) ?c = Inr 3600"
    using timestamp_of_exact [of "sps_fill sample_sps sps" "MediaInfo ?st" ?c] key
    by (simp add: sample_time exact_time_def s32_id ticks_def sample_stream_def)
  have ts1: "timestamp_of ?info (sps_fill sample_sps sps) ?c = Inr 14400"
    using timestamp_of_exact [of "sps_fill sample_sps sps" ?info ?c] key
    by (simp add: sample_time exact_time_def s32_id ticks_def sample_stream_def after_key_def s64_id)
  have q: "bufferlist ?st = ?ns @ []" "sqsnumber ?st < 2 ^ 16" "StreamSps ?st = Some (sps_fill sample_sps sps)"
    "sqsnumber ?st = 65535" "ssrc (MediaInfo ?st) = 7"
    by (simp_all add: sample_stream_def)
  from TCPForH264_fragments [OF nal len q(1) good q(2,3) ts0 refl ts1]
  show "\<exists>ps st'. send_all m 2 fm ?st = Inr (ps, fm, st') \<and>
      map content ps = unit_packets 65535 3600 14400 7 (0x65 # sample_key_rbsp 2000)"
    unfolding two q(4,5) sample_escape by blast
qed

text \<open>The times of the fragments of a key picture, before and after the picture counts.\<close>

lemma key_times:
  assumes "key_slice c" and "0 < time_scale sps"
    and "0 \<le> frame_count info" and "frame_count info \<le> pframe_count info"
    and "2 * (pframe_count info + 1) * 90000 * int (num_units_in_tick sps) < 2 ^ 31"
  shows "timestamp_of info sps c = Inr (exact_time sps (2 * frame_count info))"
    and "0 < num_units_in_tick sps \<Longrightarrow>
      timestamp_of (after_key c (info\<lparr>pframe_count := s64 (pframe_count info + 1)\<rparr>)) sps c =
        Inr (exact_time sps (2 * (pframe_count info + 1)))"
proof -
  let ?u = "int (num_units_in_tick sps)"
  have exact: "timestamp_of i sps c = Inr (exact_time sps (ticks i c))"
    if t: "0 \<le> ticks i c" "ticks i c * 90000 * ?u < 2 ^ 31" for i
  proof -
    have "0 \<le> ticks i c * 90000 * ?u" using t(1) by simp
    moreover have "exact_time sps (ticks i c) \<le> ticks i c * 90000 * ?u"
      unfolding exact_time_def using calculation assms(2) by (intro zdiv_mono2 [of _ 1, simplified]) simp_all
    moreover have "0 \<le> exact_time sps (ticks i c)"
      unfolding exact_time_def using calculation(1) by (simp add: pos_imp_zdiv_nonneg_iff assms(2))
    ultimately have "s32 (exact_time sps (ticks i c)) = exact_time sps (ticks i c)"
      using t(2) by (intro s32_id) linarith+
    then show ?thesis using timestamp_of_exact [OF assms(2) t(1)] t(2) by simp
  qed
  have tk: "ticks info c = 2 * frame_count info" using assms(1) by (simp add: ticks_def)
  have "2 * frame_count info * 90000 * ?u \<le> 2 * (pframe_count info + 1) * 90000 * ?u"
    using assms(4) by (intro mult_right_mono) simp_all
  then show "timestamp_of info sps c = Inr (exact_time sps (2 * frame_count info))"
    using exact [of info] assms(3,5) by (simp add: tk)
  assume u: "0 < num_units_in_tick sps"
  let ?info = "after_key c (info\<lparr>pframe_count := s64 (pframe_count info + 1)\<rparr>)"
  have "(pframe_count info + 1) * 1 \<le> (pframe_count info + 1) * ?u"
    using u assms(3,4) by (intro mult_left_mono) simp_all
  moreover have "2 * (pframe_count info + 1) * 90000 * ?u = 180000 * ((pframe_count info + 1) * ?u)" by simp
  ultimately have "180000 * (pframe_count info + 1) < 2 ^ 31" using assms(5) by linarith
  then have "pframe_count info + 1 < 2 ^ 63" by simp
  then have "s64 (pframe_count info + 1) = pframe_count info + 1" using assms(3,4) by (intro s64_id) simp_all
  then have "ticks ?info c = 2 * (pframe_count info + 1)" using assms(1) by (simp add: ticks_def after_key_def)
  then show "timestamp_of ?info sps c = Inr (exact_time sps (2 * (pframe_count info + 1)))"
    using exact [of ?info] assms(3,4,5) by simp
qed

lemma exact_time_less:
  assumes "0 < time_scale sps" and "int (time_scale sps) \<le> 180000 * int (num_units_in_tick sps)" and "a < b"
  shows "exact_time sps (2 * a) < exact_time sps (2 * b)"
proof -
  let ?u = "180000 * int (num_units_in_tick sps)" and ?s = "int (time_scale sps)"
  have "a * ?u + ?u \<le> b * ?u" using mult_right_mono [of "a + 1" b ?u] assms(3) by (simp add: algebra_simps)
  then have "a * ?u + 1 * ?s \<le> b * ?u" using assms(2) by simp
  from zdiv_mono1 [OF this, of ?s] assms(1) have "(a * ?u + ?s) div ?s \<le> b * ?u div ?s" by simp
  moreover have "(a * ?u + ?s) div ?s = a * ?u div ?s + 1" using assms(1) by (intro div_add_self2) simp
  ultimately have "a * ?u div ?s + 1 \<le> b * ?u div ?s" by (simp only:)
  then show ?thesis by (simp add: exact_time_def mult.assoc [symmetric] mult.commute)
qed

text \<open>The fragments of one key picture do not share a timestamp: from its second packet on they carry a
  later one, at every frame rate down to one tick of the 90 kHz clock.\<close>

theorem key_fragments_disagree:
  assumes "slice_nal x y h rbsp" and "1462 \<le> length (escape 0 rbsp)" and "length (escape 0 rbsp) < 1462 * 255"
    and "bufferlist st = ns @ rest" and "good_nodes ns (nal_nodes (h # escape 0 rbsp))" and "sqsnumber st < 2 ^ 16"
    and "StreamSps st = Some sps" and "sps = sps_fill x sps0"
    and "key_slice (slice_fill x y)" and "0 < time_scale sps"
    and "int (time_scale sps) \<le> 180000 * int (num_units_in_tick sps)"
    and "0 \<le> frame_count (MediaInfo st)" and "frame_count (MediaInfo st) \<le> pframe_count (MediaInfo st)"
    and "2 * (pframe_count (MediaInfo st) + 1) * 90000 * int (num_units_in_tick sps) < 2 ^ 31"
  shows "\<exists>ps st' ts0 ts1. send_all m (length ns) fm st = Inr (ps, fm, st') \<and> ts0 < ts1 \<and>
      map content ps = unit_packets (sqsnumber st) ts0 ts1 (ssrc (MediaInfo st)) (h # escape 0 rbsp)"
proof -
  have u: "0 < num_units_in_tick sps" using assms(10,11) by (cases "num_units_in_tick sps") simp_all
  note times = key_times [OF assms(9,10,12,13,14)]
  have "exact_time sps (2 * frame_count (MediaInfo st)) < exact_time sps (2 * (pframe_count (MediaInfo st) + 1))"
    by (rule exact_time_less) (use assms(10,11,13) in simp_all)
  moreover note send_unit [OF assms(1-6) assms(7) [unfolded assms(8)] times(1) [unfolded assms(8)] refl
      times(2) [OF u, unfolded assms(8)], of m fm]
  ultimately show ?thesis unfolding assms(8) by blast
qed

theorem key_fragments_disagree_witness:
  "\<forall>sps0 m fm. \<exists>ps st' ts0 ts1. send_all m (length (map buffer_of (nal_nodes (0x65 # sample_key_rbsp 2000)))) fm
      (sample_stream sps0 (map buffer_of (nal_nodes (0x65 # sample_key_rbsp 2000)))) = Inr (ps, fm, st') \<and> ts0 < ts1 \<and>
    map content ps = unit_packets (sqsnumber (sample_stream sps0 (map buffer_of (nal_nodes (0x65 # sample_key_rbsp 2000)))))
      ts0 ts1 (ssrc (MediaInfo (sample_stream sps0 (map buffer_of (nal_nodes (0x65 # sample_key_rbsp 2000))))))
      (0x65 # escape 0 (sample_key_rbsp 2000))"
proof (intro allI)
  fix sps0 m fm
  let ?ns = "map buffer_of (nal_nodes (0x65 # sample_key_rbsp 2000))"
  let ?st = "sample_stream sps0 ?ns" and ?sps = "sps_fill sample_sps sps0"
  have nal: "slice_nal sample_sps sample_key 0x65 (sample_key_rbsp 2000)" by (rule sample_key_nal) simp
  have len: "1462 \<le> length (escape 0 (sample_key_rbsp 2000))" "length (escape 0 (sample_key_rbsp 2000)) < 1462 * 255" by simp_all
  have good: "good_nodes ?ns (nal_nodes (0x65 # escape 0 (sample_key_rbsp 2000)))"
    unfolding sample_escape by (rule nal_nodes_good) simp_all
  have q: "bufferlist ?st = ?ns @ []" "sqsnumber ?st < 2 ^ 16" "StreamSps ?st = Some ?sps"
    by (simp_all add: sample_stream_def)
  have key: "key_slice (slice_fill sample_sps sample_key)" by (simp add: key_slice_def slice_fill_def sample_key_def)
  have t: "0 < time_scale ?sps" "int (time_scale ?sps) \<le> 180000 * int (num_units_in_tick ?sps)"
    "0 \<le> frame_count (MediaInfo ?st)" "frame_count (MediaInfo ?st) \<le> pframe_count (MediaInfo ?st)"
    "2 * (pframe_count (MediaInfo ?st) + 1) * 90000 * int (num_units_in_tick ?sps) < 2 ^ 31"
    by (simp_all add: sample_time) (simp_all add: sample_stream_def)
  show "\<exists>ps st' ts0 ts1. send_all m (length ?ns) fm ?st = Inr (ps, fm, st') \<and> ts0 < ts1 \<and>
      map content ps = unit_packets (sqsnumber ?st) ts0 ts1 (ssrc (MediaInfo ?st)) (0x65 # escape 0 (sample_key_rbsp 2000))"
    by (rule key_fragments_disagree [OF nal len q(1) good q(2,3) refl key t])
qed

text \<open>C36. The time of a picture is the exact one in the 90 kHz clock, modulo \<open>2 ^ 32\<close> as RTP counts, as long as the
  product of its numerator fits 64 bits.\<close>

theorem timestamp_exact:
  assumes "0 < time_scale sps" and "0 \<le> ticks info c" and "ticks info c * 90000 * int (num_units_in_tick sps) < 2 ^ 63"
  shows "\<exists>ts. timestamp_of info sps c = Inr ts \<and> - (2 ^ 31) \<le> ts \<and> ts < 2 ^ 31 \<and>
    be32 ts = be32 (exact_time sps (ticks info c))"
  using timestamp_of_exact [OF assms] pos_mod_bound [of "2 ^ 32" "exact_time sps (ticks info c) + 2 ^ 31"]
    pos_mod_sign [of "2 ^ 32" "exact_time sps (ticks info c) + 2 ^ 31"]
  by (simp add: be32_s32) (simp add: s32_def)

theorem timestamp_exact_witness:
  "\<forall>sps. \<exists>ts. timestamp_of (MediaInfo (sample_stream sps [])) (sps_fill sample_sps sps) (slice_fill sample_sps sample_slice) = Inr ts \<and>
    - (2 ^ 31) \<le> ts \<and> ts < 2 ^ 31 \<and> be32 ts = be32 (exact_time (sps_fill sample_sps sps) 8)"
proof
  fix sps
  let ?info = "MediaInfo (sample_stream sps [])" and ?c = "slice_fill sample_sps sample_slice"
  have t: "ticks ?info ?c = 8"
    by (simp add: ticks_def key_slice_def slice_fill_def sample_slice_def sample_sps_def sample_stream_def)
  have "0 < time_scale (sps_fill sample_sps sps)" "0 \<le> ticks ?info ?c"
    "ticks ?info ?c * 90000 * int (num_units_in_tick (sps_fill sample_sps sps)) < 2 ^ 63"
    by (simp_all add: t sample_time)
  from timestamp_exact [OF this]
  show "\<exists>ts. timestamp_of ?info (sps_fill sample_sps sps) ?c = Inr ts \<and>
      - (2 ^ 31) \<le> ts \<and> ts < 2 ^ 31 \<and> be32 ts = be32 (exact_time (sps_fill sample_sps sps) 8)"
    unfolding t .
qed

text \<open>A slice of less than 65 bytes makes the sender read behind the end of its node, whatever the stream's state.\<close>

theorem TCPForH264_short_slice:
  assumes "bufferlist st = node # rest" and "buf_wf node" and "bpos node = 0"
    and "content node = single_bytes 0 (h # body)" and "uint (h AND 0x1f) < 6" and "length body < 64"
  shows "TCPForH264 m fm st = Inl OutOfBounds"
  by (rule send_short [OF assms])

theorem TCPForH264_short_slice_witness:
  "\<forall>sps m fm. TCPForH264 m fm (sample_stream sps [buffer_of (single_bytes 0 (0x41 # replicate 63 85))]) = Inl OutOfBounds"
proof (intro allI)
  fix sps m fm
  let ?node = "buffer_of (single_bytes 0 (0x41 # replicate 63 85))"
  have "bufferlist (sample_stream sps [?node]) = [?node]" "buf_wf ?node" "bpos ?node = 0"
    "content ?node = single_bytes 0 (0x41 # replicate 63 85)" "uint ((0x41 :: byte) AND 0x1f) < 6"
    "length (replicate 63 (85 :: byte)) < 64"
    by (simp_all add: sample_stream_def buf_wf_def content_def buffer_of_def)
  then show "TCPForH264 m fm (sample_stream sps [?node]) = Inl OutOfBounds" by (rule TCPForH264_short_slice)
qed

text \<open>C37. At the end of the file the sender does not stop: it looks for the type of an empty buffer and reads
  outside it.\<close>

theorem TCPForH264_at_end:
  assumes "bufferlist st = []" and "GetBufferFormFile fm (fileindex st) (filepos st) 10240 = Inr (Buffer 0, fm')"
  shows "TCPForH264 m fm st = Inl OutOfBounds"
  by (rule send_at_end [OF assms])

theorem TCPForH264_at_end_witness:
  "\<forall>sps m. TCPForH264 m [(0, node_at ''a'' [1] 0 False)] (sample_stream sps []) = Inl OutOfBounds"
proof (intro allI)
  fix sps m
  let ?fm = "[(0, node_at ''a'' [1] 0 False)]" and ?st = "sample_stream sps []"
  have "\<exists>fm'. GetBufferFormFile ?fm (fileindex ?st) (filepos ?st) 10240 = Inr (Buffer 0, fm')"
    by (simp add: GetBufferFormFile_def sample_stream_def node_at_def Let_def fread_def fseek_def segment_def s32_def split: prod.splits)
  then obtain fm' where "GetBufferFormFile ?fm (fileindex ?st) (filepos ?st) 10240 = Inr (Buffer 0, fm')" by blast
  moreover have "bufferlist ?st = []" by (simp add: sample_stream_def)
  ultimately show "TCPForH264 m ?fm ?st = Inl OutOfBounds" by (intro TCPForH264_at_end)
qed

end
