(* ===== verification/CString.thy ===== *)
theory CString
  imports Prelude "HOL-Library.Sublist"
begin

text \<open>
  The string operations of the C and C++ libraries that the service uses: NUL terminated views, fixed
  character arrays, \<open>find\<close> and \<open>replace\<close> of \<open>std::string\<close>, and the conversions of \<open>_snprintf_s\<close>. A
  \<open>std::string\<close> is the list of its characters.
\<close>

section \<open>Characters and arrays\<close>

abbreviation NUL :: char where "NUL \<equiv> CHR 0x00"
abbreviation CR :: char where "CR \<equiv> CHR 0x0D"
abbreviation LF :: char where "LF \<equiv> CHR 0x0A"
abbreviation crlf :: string where "crlf \<equiv> [CR, LF]"

text \<open>\<open>info.c_str()[i]\<close>: the terminator is part of the array.\<close>

definition c_at :: "string \<Rightarrow> nat \<Rightarrow> char res" where
  "c_at s i = at (s @ [NUL]) i"

text \<open>\<open>std::string\<close> made of a C string: everything before the first NUL; without one the copy leaves the array.\<close>

definition c_string :: "char list \<Rightarrow> string res" where
  "c_string xs = (if NUL \<in> set xs then Inr (takeWhile (\<lambda>c. c \<noteq> NUL) xs) else Inl OutOfBounds)"

definition c_str :: "string \<Rightarrow> string" where
  "c_str s = takeWhile (\<lambda>c. c \<noteq> NUL) s"

lemma c_at_simps:
  "i < length s \<Longrightarrow> c_at s i = Inr (s ! i)" "c_at s (length s) = Inr NUL"
  by (simp_all add: c_at_def at_def nth_append)

lemma c_string_padded: "NUL \<notin> set s \<Longrightarrow> 0 < n \<Longrightarrow> c_string (s @ replicate n NUL) = Inr s"
proof -
  assume s: "NUL \<notin> set s" and n: "0 < n"
  have "takeWhile (\<lambda>c. c \<noteq> NUL) (s @ replicate n NUL) = s @ takeWhile (\<lambda>c. c \<noteq> NUL) (replicate n NUL)"
    using s by (intro takeWhile_append2) auto
  then show ?thesis using n by (cases n) (auto simp: c_string_def)
qed

lemma c_str_id: "NUL \<notin> set s \<Longrightarrow> c_str s = s"
  unfolding c_str_def by (subst takeWhile_eq_all_conv) auto

text \<open>Comparisons \<open>decode_p[i + k] == c\<close> joined by \<open>&&\<close>, in their short-circuit order.\<close>

fun matches :: "string \<Rightarrow> nat \<Rightarrow> (nat \<times> char) list \<Rightarrow> bool res" where
  "matches s i [] = Inr True"
| "matches s i ((k, c) # cs) = andThen (c_at s (i + k)) (\<lambda>d. if d = c then matches s i cs else Inr False)"

section \<open>\<open>find\<close> and \<open>replace\<close>\<close>

fun find_sub :: "string \<Rightarrow> string \<Rightarrow> nat option" where
  "find_sub pat [] = (if pat = [] then Some 0 else None)"
| "find_sub pat (c # s) = (if prefix pat (c # s) then Some 0 else map_option Suc (find_sub pat s))"

text \<open>A position of \<open>None\<close> is \<open>npos\<close>, which \<open>replace\<close> rejects with an exception.\<close>

definition replace_at :: "string \<Rightarrow> nat option \<Rightarrow> nat \<Rightarrow> string \<Rightarrow> string res" where
  "replace_at s p n new =
     (case p of None \<Rightarrow> Inl OutOfRange | Some p \<Rightarrow> Inr (take p s @ new @ drop (p + n) s))"

lemma find_sub_Some: "find_sub pat s = Some i \<Longrightarrow> prefix pat (drop i s) \<and> i \<le> length s"
proof (induction s arbitrary: i)
  case (Cons c s)
  then show ?case by (cases i) (auto split: if_splits)
qed (auto split: if_splits)

lemma find_sub_first: "find_sub pat s = Some i \<Longrightarrow> j < i \<Longrightarrow> \<not> prefix pat (drop j s)"
proof (induction s arbitrary: i j)
  case (Cons c s)
  then show ?case by (cases j) (auto split: if_splits)
qed (auto split: if_splits)

lemma find_sub_None: "find_sub pat s = None \<longleftrightarrow> \<not> sublist pat s"
  by (induction s) (auto simp: sublist_Cons_right)

text \<open>A character that the pattern does not have separates the search.\<close>

lemma prefix_sep: "x \<notin> set pat \<Longrightarrow> prefix pat (xs @ x # ys) \<longleftrightarrow> prefix pat xs"
proof (induction xs arbitrary: pat)
  case Nil
  then show ?case by (cases pat) auto
next
  case (Cons c xs)
  then show ?case by (cases pat) auto
qed

lemma find_sub_sep:
  assumes "x \<notin> set pat" and "pat \<noteq> []"
  shows "find_sub pat (xs @ x # ys) = (case find_sub pat xs of Some i \<Rightarrow> Some i
    | None \<Rightarrow> map_option (\<lambda>i. Suc (length xs + i)) (find_sub pat ys))"
proof (induction xs)
  case Nil
  have "\<not> prefix pat (x # ys)" using assms by (cases pat) auto
  then show ?case using assms(2) by simp
next
  case (Cons c xs)
  then show ?case
    using prefix_sep [OF assms(1), of "c # xs" ys]
    by (auto simp: option.map_comp comp_def split: option.splits)
qed

lemma find_sub_prefix: "pat \<noteq> [] \<Longrightarrow> find_sub pat (pat @ s) = Some 0"
  by (cases pat) auto

lemma find_sub_behind:
  assumes "x \<notin> set pat" and "pat \<noteq> []" and "find_sub pat xs = None"
  shows "find_sub pat (xs @ x # pat @ ys) = Some (Suc (length xs))"
  using find_sub_sep [OF assms(1,2), of xs "pat @ ys"] assms by (simp add: find_sub_prefix)

lemma replace_behind:
  assumes "x \<notin> set pat" and "pat \<noteq> []" and "find_sub pat xs = None" and "n = length pat"
  shows "replace_at (xs @ x # pat @ ys) (find_sub pat (xs @ x # pat @ ys)) n new = Inr (xs @ x # new @ ys)"
  unfolding find_sub_behind [OF assms(1-3)] assms(4) by (simp add: replace_at_def)

lemma replace_found: "replace_at (xs @ pat @ ys) (Some (length xs)) (length pat) new = Inr (xs @ new @ ys)"
  by (simp add: replace_at_def)

section \<open>Conversions\<close>

definition digit :: "nat \<Rightarrow> char" where
  "digit d = char_of (if d < 10 then 48 + d else 55 + d)"

function radix :: "nat \<Rightarrow> nat \<Rightarrow> string" where
  "radix b n = (if b < 2 \<or> n < b then [digit n] else radix b (n div b) @ [digit (n mod b)])"
  by pat_completeness auto
termination
  by (relation "measure snd") (auto intro: div_less_dividend)

declare radix.simps [simp del]

definition decimal :: "nat \<Rightarrow> string" where
  "decimal n = radix 10 n"

definition signed_decimal :: "int \<Rightarrow> string" where
  "signed_decimal k = (if k < 0 then ''-'' @ decimal (nat (- k)) else decimal (nat k))"

text \<open>\<open>%0wX\<close> of an \<open>int\<close>, printed as unsigned.\<close>

definition hex_padded :: "nat \<Rightarrow> int \<Rightarrow> string" where
  "hex_padded w k = (let s = radix 16 (u32 k) in replicate (w - length s) (CHR ''0'') @ s)"

text \<open>\<open>_snprintf_s(buf, n, ...)\<close> with \<open>char buf[n]\<close>: a text that does not fit with its terminator is an invalid parameter.\<close>

definition snprintf_s :: "nat \<Rightarrow> string \<Rightarrow> string res" where
  "snprintf_s n s = (if length s < n then Inr s else Inl InvalidParameter)"

definition is_digit :: "char \<Rightarrow> bool" where
  "is_digit c \<longleftrightarrow> 48 \<le> (of_char c :: nat) \<and> (of_char c :: nat) \<le> 57"

text \<open>The loop \<open>v = v * 10 + decode_p[i] - '0'\<close> on an \<open>unsigned\<close>; the terminator ends it.\<close>

fun parse_digits :: "nat \<Rightarrow> string \<Rightarrow> nat" where
  "parse_digits v [] = v"
| "parse_digits v (c # s) =
     (if is_digit c then parse_digits (u32 (int v * 10 + int (of_char c) - 48)) s else v)"

lemma digit_is_digit [simp]: "d < 10 \<Longrightarrow> is_digit (digit d)"
  by (simp add: is_digit_def digit_def)

lemma of_char_digit: "d < 10 \<Longrightarrow> of_char (digit d) = (48 + d :: nat)"
  by (simp add: digit_def)

lemma radix_10_digits: "c \<in> set (radix 10 n) \<Longrightarrow> is_digit c"
proof (induction "10 :: nat" n rule: radix.induct)
  case (1 n)
  then show ?case by (subst (asm) radix.simps) (auto split: if_splits)
qed

lemma length_radix: "2 \<le> b \<Longrightarrow> n < b ^ k \<Longrightarrow> 0 < k \<Longrightarrow> length (radix b n) \<le> k"
proof (induction k arbitrary: n)
  case (Suc k)
  show ?case
  proof (cases "n < b")
    case True
    then show ?thesis by (simp add: radix.simps [of b n])
  next
    case False
    then have k: "0 < k" using Suc.prems(2) by (cases k) auto
    have "n div b < b ^ k" using Suc.prems(2) by (simp add: less_mult_imp_div_less mult.commute)
    from Suc.IH [OF Suc.prems(1) this k] show ?thesis using False Suc.prems(1) by (simp add: radix.simps [of b n])
  qed
qed simp

lemma length_decimal: "n < 10 ^ k \<Longrightarrow> 0 < k \<Longrightarrow> length (decimal n) \<le> k"
  by (simp add: decimal_def length_radix)

lemma parse_digits_append:
  "(\<forall>c \<in> set s. is_digit c) \<Longrightarrow> parse_digits v (s @ t) = parse_digits (parse_digits v s) t"
  by (induction s arbitrary: v) auto

lemma parse_decimal:
  assumes "n < 2 ^ 32" and "t = [] \<or> \<not> is_digit (hd t)"
  shows "parse_digits 0 (decimal n @ t) = n"
proof -
  have "parse_digits 0 (radix 10 n) = n"
    using assms(1)
  proof (induction "10 :: nat" n rule: radix.induct)
    case (1 n)
    show ?case
    proof (cases "n < 10")
      case True
      have "u32 (int n) = n" using 1(2) by (rule u32_of_nat)
      then show ?thesis using True by (simp add: radix.simps [of 10 n] of_char_digit)
    next
      case False
      then have IH: "parse_digits 0 (radix 10 (n div 10)) = n div 10" using 1 by (auto intro: le_less_trans [OF div_le_dividend])
      have "int (n div 10) * 10 + int (48 + n mod 10) - 48 = int n"
        using arg_cong [OF div_mult_mod_eq [of n 10], of int]
        by (simp only: of_nat_add of_nat_mult of_nat_numeral)
      then have "u32 (int (n div 10) * 10 + int (48 + n mod 10) - 48) = n" using 1(2) by simp
      then show ?thesis using False IH radix_10_digits
        by (simp add: radix.simps [of 10 n] parse_digits_append of_char_digit)
    qed
  qed
  then have "parse_digits 0 (decimal n @ t) = parse_digits n t"
    using parse_digits_append [of "radix 10 n" 0 t] radix_10_digits by (simp add: decimal_def)
  also have "\<dots> = n" using assms(2) by (cases t) auto
  finally show ?thesis .
qed

end
