(* ===== verification/MediaCreateSdp.thy ===== *)
theory MediaCreateSdp
  imports RtpOverTcp CString
begin

text \<open>
  Session descriptions: \<open>MediaCreateSdp.cpp\<close>. The singleton's constructor reads the first 4096 bytes of one
  file, looks for parameter sets with the packetiser and fills a template, which \<open>GetSdp\<close> later hands out by
  the file's name. The Windows file calls act on the \<open>disk\<close> of \<open>HardwareIO\<close>; whether the description's own
  file can be created and written is an argument.
\<close>

section \<open>Parameter sets of a chunk\<close>

definition stcode :: "byte list" where "stcode = [0, 0, 1]"

text \<open>\<open>CreateBuf\<close>, two fills and \<open>h264Base64Ps\<close>: the Base64 text of a parameter set behind a start code.\<close>

definition param_base64 :: "buffer \<Rightarrow> string \<Rightarrow> string res" where
  "param_base64 DataNode psbase =
     andThen (FullBuffer_ptr (CreateBuf (u32 (int (GetSizeValue DataNode) + 3))) stcode 3) (\<lambda>(ok, PS).
     andThen (FullBuffer_shared PS (Some DataNode) 0 (GetSizeValue DataNode)) (\<lambda>(ok, PS).
     andThen (h264Base64Ps (Some PS) psbase) (\<lambda>(ok, psbase). Inr psbase)))"

lemma ParseSqs_queue: "ParseSqs m node st = Inr (ok, st') \<Longrightarrow> bufferlist st' = bufferlist st"
  by (auto simp: ParseSqs_def andThen_def split: option.splits sum.splits)

lemma GetNode_measure:
  "GetNode st = (node, st') \<Longrightarrow> MTU node \<noteq> 0 \<Longrightarrow> length (bufferlist st') < length (bufferlist st)"
  by (auto simp: GetNode_def split: if_splits)

lemma GetNode_measure_le: "GetNode st = (node, st') \<Longrightarrow> length (bufferlist st') \<le> length (bufferlist st)"
  by (auto simp: GetNode_def split: if_splits)

lemma andThen_cong [fundef_cong]:
  "m = m' \<Longrightarrow> (\<And>x. m' = Inr x \<Longrightarrow> f x = f' x) \<Longrightarrow> andThen m f = andThen m' f'"
  by (cases m') simp_all

function sdp_loop ::
  "uninit \<Rightarrow> buffer \<Rightarrow> h264_stream \<Rightarrow> string \<Rightarrow> string \<Rightarrow> (string \<times> string \<times> h264_stream) res" where
  "sdp_loop m DataNode st SpsString PpsString =
     (if GetMtuValue DataNode \<noteq> 0 then
        andThen (GetNalType DataNode) (\<lambda>p.
        andThen (if p = 7 then
            andThen (ParseSqs m (Some DataNode) st) (\<lambda>(ok, st').
            andThen (param_base64 DataNode SpsString) (\<lambda>sps. Inr (st', sps)))
          else Inr (st, SpsString)) (\<lambda>(st', sps).
        andThen (if p = 8 then param_base64 DataNode PpsString else Inr PpsString) (\<lambda>pps.
        sdp_loop m (fst (GetNode st')) (snd (GetNode st')) sps pps)))
      else Inr (SpsString, PpsString, st))"
  by pat_completeness auto
termination
proof (relation "measure (\<lambda>(m, node, st, sps, pps). length (bufferlist st) + (if MTU node = 0 then 0 else 1))", goal_cases)
  case (2 m DataNode st SpsString PpsString p x st' sps pps)
  have q: "bufferlist st' = bufferlist st"
    using 2 ParseSqs_queue by (fastforce simp: andThen_def split: if_splits sum.splits)
  obtain node st'' where g: "GetNode st' = (node, st'')" by force
  show ?case
    using 2(1) q GetNode_measure [OF g] GetNode_measure_le [OF g] g by (auto simp: GetMtuValue_def)
qed simp

declare sdp_loop.simps [simp del]

section \<open>The template\<close>

definition H264CreateSdp :: "uninit \<Rightarrow> buffer \<Rightarrow> h264_stream \<Rightarrow> string \<Rightarrow> (bool \<times> string) res" where
  "H264CreateSdp m buf SdpMedia SdpTemp =
     andThen (DevNode buf 0 SdpMedia) (\<lambda>st.
     let (DataNode, st) = GetNode st in
     andThen (sdp_loop m DataNode st [] []) (\<lambda>(SpsString, PpsString, st).
     if SpsString = [] \<or> PpsString = [] then Inr (False, SdpTemp)
     else
       let ParSet = c_str SpsString @ '','' @ c_str PpsString in
       andThen (replace_at SdpTemp (find_sub ''tempforsps'' SdpTemp) 10 ParSet) (\<lambda>SdpTemp.
       case StreamSps st of None \<Rightarrow> Inl NullPointer | Some sps \<Rightarrow>
       andThen (snprintf_s 256 (hex_padded 6 (profile_idc sps))) (\<lambda>forchange.
       andThen (replace_at SdpTemp (find_sub ''profile_idc'' SdpTemp) 11 forchange) (\<lambda>SdpTemp.
       andThen (snprintf_s 256 (''0,0,'' @ signed_decimal (mb_height sps) @ '','' @ signed_decimal (mb_width sps))) (\<lambda>forchange.
       andThen (replace_at SdpTemp (find_sub ''rectofvideo'' SdpTemp) 11 forchange) (\<lambda>SdpTemp.
       Inr (True, SdpTemp))))))))"

definition sdp_template :: "string \<Rightarrow> string" where
  "sdp_template fname =
     ''v=0'' @ crlf @
     ''o=- sessionforreplace sessionforreplace IN IP4 127.0.0.1'' @ crlf @
     ''s='' @ fname @ crlf @
     ''c=IN IP4 127.0.0.1'' @ crlf @
     ''t=0 0'' @ crlf @
     ''a=control:*'' @ crlf @
     ''m=video 0 RTP/AVP loadtype'' @ crlf @
     ''b=AS:bandwidth'' @ crlf @
     ''a=rtpmap:loadtype H264/90000'' @ crlf @
     ''a=fmtp:loadtype profile-level-id=profile_idc; sprop-parameter-sets=tempforsps; packtization-mode=1;'' @ crlf @
     ''a=cliprect:rectofvideo'' @ crlf @
     ''a=mpeg4-esid:tmpforesid'' @ crlf @
     ''a=control:trackID=tmpforstid'' @ crlf"

section \<open>The singleton\<close>

text \<open>
  \<open>_splitpath_s\<close> with arrays of 256 characters for name and extension; when a part does not fit both are
  emptied. Directories end at a slash, a backslash or the colon of the drive.
\<close>

definition splitpath :: "string \<Rightarrow> string \<times> string" where
  "splitpath path =
     (let base = rev (takeWhile (\<lambda>c. c \<notin> {CHR 0x5C, CHR ''/'', CHR '':''}) (rev path));
          ext = rev (takeWhile (\<lambda>c. c \<noteq> CHR ''.'') (rev base));
          (name, ext) = (if CHR ''.'' \<in> set base
             then (take (length base - length ext - 1) base, ''.'' @ ext) else (base, []))
      in if length name < 256 \<and> length ext < 256 then (name, ext) else ([], []))"

text \<open>What the constructor depends on, and what it leaves: the list of descriptions and the disk.\<close>

record sdp_env =
  env_uninit :: uninit
  can_create :: bool
  can_write :: bool

type_synonym sdp_list = "(string \<times> string) list"

definition sdp_file :: string where "sdp_file = CHR 0x5C # ''MySession.sdp''"

definition write_sdp :: "sdp_env \<Rightarrow> disk \<Rightarrow> string \<Rightarrow> string \<Rightarrow> sdp_list \<times> disk" where
  "write_sdp e d fname sdpall =
     (if \<not> can_create e then ([], d)
      else if \<not> can_write e then ([], d(sdp_file \<mapsto> []))
      else ([(fname, sdpall)], d(sdp_file \<mapsto> map of_char sdpall)))"

definition new_MediaCreateSdp :: "sdp_env \<Rightarrow> disk \<Rightarrow> string \<Rightarrow> (sdp_list \<times> disk) res" where
  "new_MediaCreateSdp e d path =
     (let (fname, ext) = splitpath path in
      case d path of None \<Rightarrow> Inr ([], d)
      | Some valuetmp \<Rightarrow>
          let SizeGet = min 4096 (length valuetmp) in
          if SizeGet = 0 then Inr ([], d)
          else (case CreateNew (env_uninit e) ext of
              (None, tp) \<Rightarrow> Inr ([], d)
            | (Some st, tp) \<Rightarrow>
                andThen (FullBuffer_ptr (Buffer SizeGet) (take 4096 valuetmp) SizeGet) (\<lambda>(ok, buf).
                andThen (if tp = H264 then H264CreateSdp (env_uninit e) buf st (sdp_template fname)
                         else Inr (False, sdp_template fname)) (\<lambda>(ok, sdpall).
                Inr (write_sdp e d fname sdpall)))))"

definition GetInstance :: "sdp_env \<Rightarrow> string \<Rightarrow> sdp_list option \<times> disk \<Rightarrow> (sdp_list \<times> sdp_list option \<times> disk) res" where
  "GetInstance e path g =
     (case fst g of
        Some sdp \<Rightarrow> Inr (sdp, g)
      | None \<Rightarrow> andThen (new_MediaCreateSdp e (snd g) path) (\<lambda>(sdp, d). Inr (sdp, Some sdp, d)))"

fun GetSdp :: "sdp_list \<Rightarrow> string \<Rightarrow> string option" where
  "GetSdp [] fname = None"
| "GetSdp ((key, svalue) # rest) fname =
     (if key = fname then Some (c_str svalue) else GetSdp rest fname)"

text \<open>The destructor frees every name and description.\<close>

definition delete_MediaCreateSdp :: "sdp_list \<Rightarrow> string list" where
  "delete_MediaCreateSdp sdp = concat (map (\<lambda>(key, svalue). [key, svalue]) sdp)"

section \<open>Scanning the queue\<close>

definition node_type :: "byte list \<Rightarrow> byte" where
  "node_type xs =
     (if xs ! 0 = 0 then xs ! 16 AND 0x1f
      else if xs ! 0 = 1 then (if xs ! 1 = 1 then xs ! 2 AND 0x1f else 0)
      else xs ! 0 AND 0x1f)"

text \<open>A node long enough for its kind.\<close>

definition node_ok :: "byte list \<Rightarrow> bool" where
  "node_ok xs \<longleftrightarrow> xs \<noteq> [] \<and> (xs ! 0 = 0 \<longrightarrow> 16 < length xs) \<and> (xs ! 0 = 1 \<longrightarrow> 2 < length xs)"

lemma GetNalType_node: "buf_wf node \<Longrightarrow> node_ok (content node) \<Longrightarrow> GetNalType node = Inr (node_type (content node))"
  using GetByte_nth [of node "content node"] by (auto simp: GetNalType_def node_type_def node_ok_def)

lemma sdp_loop_skip:
  assumes "good_nodes (node # ns) bodies" and "\<forall>xs \<in> set bodies. node_ok xs \<and> node_type xs \<noteq> 7 \<and> node_type xs \<noteq> 8"
    and "bufferlist st = ns"
  shows "sdp_loop m node st sps pps = Inr (sps, pps, st\<lparr>bufferlist := []\<rparr>)"
  using assms
proof (induction ns arbitrary: node bodies st)
  case Nil
  then obtain xs where xs: "bodies = [xs]" "content node = xs" "buf_wf node" "0 < MTU node"
    by (auto simp: good_nodes_def)
  have "GetNalType node = Inr (node_type xs)" using GetNalType_node xs Nil.prems(2) by auto
  moreover have "sdp_loop m (Buffer 0) st sps pps = Inr (sps, pps, st)"
    by (subst sdp_loop.simps) (simp add: GetMtuValue_def)
  moreover have "st\<lparr>bufferlist := []\<rparr> = st" using Nil.prems(3) by (cases st) simp
  ultimately show ?case
    using xs Nil.prems(2,3) by (subst sdp_loop.simps) (simp add: GetMtuValue_def GetNode_def)
next
  case (Cons node' ns)
  then obtain xs bodies' where xs: "bodies = xs # bodies'" "content node = xs" "buf_wf node" "0 < MTU node"
      "good_nodes (node' # ns) bodies'"
    by (cases bodies) (auto simp: good_nodes_def)
  have "GetNalType node = Inr (node_type xs)" using GetNalType_node xs Cons.prems(2) by auto
  moreover have "sdp_loop m node' (st\<lparr>bufferlist := ns\<rparr>) sps pps = Inr (sps, pps, st\<lparr>bufferlist := ns\<rparr>\<lparr>bufferlist := []\<rparr>)"
    by (rule Cons.IH [OF xs(5)]) (use Cons.prems(2) xs(1) in simp_all)
  ultimately show ?case
    using xs Cons.prems(2,3) by (subst sdp_loop.simps) (simp add: GetMtuValue_def GetNode_def)
qed

lemma param_base64_spec:
  assumes "buf_wf node" and "content node = ps" and "length ps < 2 ^ 16 - 3"
  shows "param_base64 node old = Inr (b64_spec ([0, 0, 1] @ ps))"
proof -
  have n: "GetSizeValue node = length ps" using length_content [OF assms(1)] assms(2) by simp
  have wf: "buf_wf (Buffer (length ps + 3))" "content (Buffer (length ps + 3)) = []" "bpos (Buffer (length ps + 3)) = length ps + 3"
    using assms(3) by (simp_all add: buf_wf_Buffer)
  let ?b1 = "appended (Buffer (length ps + 3)) stcode" and ?src = "segment 0 (length ps) (pbuffer node)"
  have seg: "?src = ps"
    using pbuffer_content [OF assms(1)] assms(2) by (metis append_eq_conv_conj drop0 segment_def)
  have fit: "length ps \<le> length (pbuffer node)"
    using arg_cong [OF pbuffer_content [OF assms(1)], of length] assms(2) by simp
  have f1: "FullBuffer_ptr (CreateBuf (length ps + 3)) stcode 3 = Inr (True, ?b1)"
    using FullBuffer_ptr_append [OF wf(1), of 3 stcode] wf(3) by (simp add: CreateBuf_def stcode_def segment_def)
  have b1: "buf_wf ?b1" "content ?b1 = stcode" "bpos ?b1 = length ps"
    using appended_wf [OF wf(1), of stcode] wf by (simp_all add: stcode_def)
  let ?b2 = "appended ?b1 ps"
  have f2: "FullBuffer_shared ?b1 (Some node) 0 (length ps) = Inr (True, ?b2)"
    using FullBuffer_shared_append [OF b1(1), of 0 "length ps" node] b1(3) seg fit by simp
  have b2: "buf_wf ?b2" "content ?b2 = stcode @ ps" "bpos ?b2 = 0"
    using appended_wf [OF b1(1), of ps] b1 by simp_all
  then have "pbuffer ?b2 = stcode @ ps" "GetSizeValue ?b2 = length (stcode @ ps)"
    using pbuffer_content [OF b2(1)] length_content [OF b2(1)] by (simp_all add: buf_wf_def)
  moreover have "length (stcode @ ps) < 2 ^ 30" using assms(3) by (simp add: stcode_def)
  ultimately have "h264Base64Ps (Some ?b2) old = Inr (True, b64_spec (stcode @ ps))"
    using Base64Encode_spec [of "stcode @ ps" old] by (simp add: h264Base64Ps_def GetBuffer_def)
  moreover have "u32 (int (length ps) + 3) = length ps + 3" using u32_of_nat [of "length ps + 3"] assms(3) by simp
  ultimately show ?thesis using f1 f2 by (simp add: param_base64_def n stcode_def)
qed

text \<open>The types seen in the nodes of a unit: its own, or 0 for the later fragments.\<close>

lemma fu_node: "node_ok (fu_bytes k h b) \<and> node_type (fu_bytes k h b) \<in> {h AND 0x1f, 0}"
proof -
  have "fu_bytes k h b \<noteq> []" by (simp add: fu_bytes_def)
  then show ?thesis by (simp add: node_ok_def node_type_def)
qed

lemma large_nodes_kinds:
  "xs \<in> set (fst (large_nodes dat 0 len dpage 0)) \<Longrightarrow>
    (\<exists>k b. xs = fu_bytes k (dat ! 0) b) \<or> dpage \<le> 0 \<and> xs = single_bytes 0 (segment 0 len dat)"
  by (auto simp: large_nodes_def mid_nodes_def Let_def split: if_splits)

lemma node_types:
  assumes "nal \<noteq> []" and "xs \<in> set (fst (large_nodes nal 0 (length nal) dpage 0))"
  shows "node_ok xs \<and> node_type xs \<in> {nal ! 0 AND 0x1f, 0}"
  using large_nodes_kinds [OF assms(2)]
proof (elim disjE exE conjE)
  assume "xs = single_bytes 0 (segment 0 (length nal) nal)"
  then have xs: "xs = single_bytes 0 nal" by (simp only: segment_all)
  obtain h body where nal: "nal = h # body" using assms(1) by (cases nal) auto
  have "single_bytes 0 nal \<noteq> []" by (simp add: single_bytes_def)
  then show ?thesis by (simp add: xs nal node_ok_def node_type_def)
qed (simp only: fu_node)

lemma nal_nodes_types:
  assumes "nal \<noteq> []" and "xs \<in> set (nal_nodes nal)"
  shows "node_ok xs \<and> node_type xs \<in> {nal ! 0 AND 0x1f, 0}"
proof (cases "6 \<le> uint (nal ! 0 AND 0x1f)")
  case True
  then have "xs = nal" "nal ! 0 \<noteq> 0" "nal ! 0 \<noteq> 1" using assms(2) by (auto simp: nal_nodes_def)
  then show ?thesis using assms(1) by (simp add: node_ok_def node_type_def)
next
  case False
  then show ?thesis using node_types [OF assms(1)] assms(2) by (simp add: nal_nodes_def)
qed

section \<open>The description of a file\<close>

text \<open>A file (or its first 4096 bytes) that begins with a sequence and a picture parameter set.\<close>

definition sdp_units :: "sps_syntax \<Rightarrow> byte \<Rightarrow> byte list \<Rightarrow> byte list \<Rightarrow> (bool \<times> byte list) list \<Rightarrow> bool" where
  "sdp_units x h rbsp pps us \<longleftrightarrow>
     sps_ok x \<and> (\<exists>trailing. bytes_bits rbsp = sps_bits x @ trailing) \<and> h AND 0x1f = 7 \<and> pps ! 0 AND 0x1f = 8 \<and>
     (\<exists>l1 l2 others. us = (l1, h # escape 0 rbsp) # (l2, pps) # others \<and> others \<noteq> [] \<and>
       (\<forall>(l, nal) \<in> set us. nal_ok nal) \<and>
       (\<forall>(l, nal) \<in> set others. nal ! 0 AND 0x1f \<noteq> 7 \<and> nal ! 0 AND 0x1f \<noteq> 8))"

text \<open>The first fill: the two texts and the structure, when the queue has been scanned.\<close>

lemma sdp_scan:
  assumes "sdp_units x h rbsp pps us" and "length (annexb us) < 2 ^ 16 - 3"
    and "DevCount st = 0" and "bufferlist st = []" and "StreamSps st = None"
  shows "\<exists>st'. andThen (DevNode (buffer_of (annexb us)) 0 st) (\<lambda>st. let (DataNode, st) = GetNode st in
      sdp_loop m DataNode st [] []) = Inr (b64_spec ([0, 0, 1] @ h # escape 0 rbsp), b64_spec ([0, 0, 1] @ pps), st') \<and>
    StreamSps st' = Some (sps_fill x (junk_sps m))"
proof -
  obtain trailing l1 l2 others where u: "sps_ok x" "bytes_bits rbsp = sps_bits x @ trailing" "h AND 0x1f = 7" "pps ! 0 AND 0x1f = 8"
      "us = (l1, h # escape 0 rbsp) # (l2, pps) # others" "others \<noteq> []" "\<forall>(l, nal) \<in> set us. nal_ok nal"
      "\<forall>(l, nal) \<in> set others. nal ! 0 AND 0x1f \<noteq> 7 \<and> nal ! 0 AND 0x1f \<noteq> 8"
    using assms(1) unfolding sdp_units_def by blast
  let ?sps = "h # escape 0 rbsp"
  define rest where "rest = snd (last us)"
  define more_nodes where "more_nodes = concat (map (nal_nodes \<circ> snd) (butlast others)) @ fst (large_nodes rest 0 (length rest) 1 0)"
  have bodies: "concat (map (nal_nodes \<circ> snd) (butlast us)) @ fst (large_nodes rest 0 (length rest) 1 0) = ?sps # pps # more_nodes"
    using u(3,4,6) by (simp add: u(5) nal_nodes_def more_nodes_def)
  obtain ns where ns: "DevNode (buffer_of (annexb us)) 0 st = Inr (st\<lparr>bufferlist := ns,
      DevCount := snd (large_nodes rest 0 (length rest) 1 0), filepos := (filepos st + length (annexb us)) mod 2 ^ 64\<rparr>)"
      "good_nodes ns (?sps # pps # more_nodes)"
    using DevNode_units [OF u(7) _ _ assms(3)] assms(2,4) u(5) bodies unfolding rest_def by auto
  then obtain n1 n2 ms where q: "ns = n1 # n2 # ms" "content n1 = ?sps" "buf_wf n1" "0 < MTU n1"
      "content n2 = pps" "buf_wf n2" "0 < MTU n2" "good_nodes ms more_nodes"
    by (auto simp: good_nodes_def)
  have nal: "nal_ok ?sps" "nal_ok pps" using u(5,7) by auto
  have size: "length ?sps < 2 ^ 16 - 3" "length pps < 2 ^ 16 - 3" using assms(2) by (simp_all add: u(5))
  have t1: "node_ok ?sps" "node_type ?sps = 7" using u(3) by (auto simp: node_ok_def node_type_def)
  have "pps ! 0 \<noteq> 0" "pps ! 0 \<noteq> 1" using u(4) by auto
  then have t2: "node_ok pps" "node_type pps = 8" using u(4) nal(2) by (auto simp: node_ok_def node_type_def nal_ok_def)
  have nonempty: "nal \<noteq> []" if "(l, nal) \<in> set others" for l nal
    using that u(5,7) by (auto simp: nal_ok_def)
  have others: "node_ok xs \<and> node_type xs \<noteq> 7 \<and> node_type xs \<noteq> 8" if "xs \<in> set more_nodes" for xs
  proof -
    have last: "last us = last others" "last others \<in> set others" using u(5,6) by simp_all
    from that consider (nal) l nal where "(l, nal) \<in> set others" "xs \<in> set (nal_nodes nal)"
      | (tail) "xs \<in> set (fst (large_nodes rest 0 (length rest) 1 0))"
      by (auto simp: more_nodes_def dest: in_set_butlastD)
    then have "\<exists>l nal. (l, nal) \<in> set others \<and> node_ok xs \<and> node_type xs \<in> {nal ! 0 AND 0x1f, 0}"
    proof cases
      case nal
      then have "nal \<noteq> []" using nonempty by blast
      from nal_nodes_types [OF this nal(2)] nal(1) show ?thesis by blast
    next
      case tail
      obtain l where l: "(l, rest) \<in> set others" using last by (cases "last others") (simp add: rest_def)
      then have "rest \<noteq> []" using nonempty by blast
      from node_types [OF this tail] l show ?thesis by blast
    qed
    then show ?thesis using u(8) by fastforce
  qed
  let ?st = "st\<lparr>DevCount := snd (large_nodes rest 0 (length rest) 1 0),
      filepos := (filepos st + length (annexb us)) mod 2 ^ 64, bufferlist := n2 # ms\<rparr>"
  let ?st1 = "?st\<lparr>StreamSps := Some (sps_fill x (junk_sps m))\<rparr>"
  obtain tail where tail: "pbuffer n1 = ?sps @ tail" using pbuffer_content [OF q(3)] unfolding q(2) by blast
  have n1: "GetSizeValue n1 = length ?sps" using length_content [OF q(3)] unfolding q(2) by (rule sym)
  have n1: "GetSizeValue n1 = length ?sps" "take (length ?sps) (pbuffer n1) = ?sps" "length ?sps \<le> length (pbuffer n1)"
    by (rule n1) (simp_all add: tail)
  have "ParseSqs_bytes (junk_bytes m) (pbuffer n1) (length ?sps) (junk_sps m) = Inr (True, sps_fill x (junk_sps m))"
    by (subst ParseSqs_prefix [OF n1(3)], unfold n1(2))
      (use ParseSqs_reads [OF u(1,2), of "junk_bytes m" h] in simp)
  then have parse: "ParseSqs m (Some n1) ?st = Inr (True, ?st1)"
    using assms(5) by (simp add: ParseSqs_def GetBuffer_def n1(1))
  have step1: "sdp_loop m n1 ?st [] [] = sdp_loop m n2 (?st1\<lparr>bufferlist := ms\<rparr>) (b64_spec ([0, 0, 1] @ ?sps)) []"
    using GetNalType_node [OF q(3)] t1 q(2,4) parse param_base64_spec [OF q(3,2) size(1)]
    by (subst sdp_loop.simps) (simp add: GetMtuValue_def GetNode_def)
  have step2: "sdp_loop m n2 (?st1\<lparr>bufferlist := ms\<rparr>) sps [] =
      sdp_loop m (fst (GetNode (?st1\<lparr>bufferlist := ms\<rparr>))) (snd (GetNode (?st1\<lparr>bufferlist := ms\<rparr>))) sps (b64_spec ([0, 0, 1] @ pps))" for sps
    using GetNalType_node [OF q(6)] t2 q(5,7) param_base64_spec [OF q(6,5) size(2)]
    by (subst sdp_loop.simps) (simp add: GetMtuValue_def)
  have "more_nodes \<noteq> []" by (auto simp: more_nodes_def large_nodes_def Let_def)
  then obtain n3 ks where ms: "ms = n3 # ks" using q(8) by (cases ms) (auto simp: good_nodes_def)
  have "sdp_loop m n3 (?st1\<lparr>bufferlist := ks\<rparr>) sps pps = Inr (sps, pps, ?st1\<lparr>bufferlist := ks\<rparr>\<lparr>bufferlist := []\<rparr>)" for sps pps
    by (rule sdp_loop_skip [OF q(8) [unfolded ms]]) (use others in simp_all)
  then show ?thesis
    using ns(1) step1 step2 by (simp add: q(1) ms GetNode_def)
qed

section \<open>Filling the template\<close>

text \<open>The description with its fields, cut where the searches are.\<close>

definition head_before :: string where
  "head_before = ''v=0'' @ crlf @ ''o=- sessionforreplace sessionforreplace IN IP4 127.0.0.1'' @ crlf @ ''s''"

definition head_behind :: string where
  "head_behind = LF # ''c=IN IP4 127.0.0.1'' @ crlf @ ''t=0 0'' @ crlf @ ''a=control:*'' @ crlf @
     ''m=video 0 RTP/AVP loadtype'' @ crlf @ ''b=AS:bandwidth'' @ crlf @ ''a=rtpmap:loadtype H264/90000'' @ crlf @
     ''a=fmtp:loadtype profile-level-id''"

definition sdp_head :: "string \<Rightarrow> string" where
  "sdp_head name = head_before @ CHR ''='' # name @ CR # head_behind"

definition sdp_tail :: string where
  "sdp_tail = crlf @ ''a=mpeg4-esid:tmpforesid'' @ crlf @ ''a=control:trackID=tmpforstid'' @ crlf"

definition sdp_text :: "string \<Rightarrow> string \<Rightarrow> string \<Rightarrow> string \<Rightarrow> string" where
  "sdp_text name profile params rect =
     sdp_head name @ CHR ''='' # profile @ ''; sprop-parameter-sets'' @ CHR ''='' # params @
     ''; packtization-mode=1;'' @ crlf @ ''a=cliprect'' @ CHR '':'' # rect @ sdp_tail"

lemma sdp_template_text: "sdp_template name = sdp_text name ''profile_idc'' ''tempforsps'' ''rectofvideo''"
  by (simp add: sdp_template_def sdp_text_def sdp_head_def head_before_def head_behind_def sdp_tail_def)

text \<open>A name that has none of the words the program looks for.\<close>

definition name_ok :: "string \<Rightarrow> bool" where
  "name_ok name \<longleftrightarrow> (\<forall>pat \<in> {''tempforsps'', ''profile_idc'', ''rectofvideo'', ''sessionforreplace'', ''loadtype'',
     ''bandwidth'', ''tmpforesid'', ''tmpforstid'', ''content_count''}. find_sub pat name = None) \<and>
     CR \<notin> set name \<and> NUL \<notin> set name"

lemma head_none:
  "pat \<in> {''tempforsps'', ''profile_idc'', ''rectofvideo''} \<Longrightarrow> find_sub pat head_before = None \<and> find_sub pat head_behind = None \<and>
    CHR ''='' \<notin> set pat \<and> CR \<notin> set pat \<and> pat \<noteq> [] \<and> CHR '':'' \<notin> set pat \<and> CHR '';'' \<notin> set pat \<and> find_sub pat ''; sprop-parameter-sets'' = None"
  by (elim insertE emptyE) (simp_all add: head_before_def head_behind_def)

lemma find_head: "name_ok name \<Longrightarrow> pat \<in> {''tempforsps'', ''profile_idc'', ''rectofvideo''} \<Longrightarrow> find_sub pat (sdp_head name) = None"
  using head_none [of pat] by (auto simp: sdp_head_def find_sub_sep name_ok_def)

lemma fill_params:
  assumes "name_ok name"
  shows "replace_at (sdp_text name ''profile_idc'' ''tempforsps'' rect) (find_sub ''tempforsps'' (sdp_text name ''profile_idc'' ''tempforsps'' rect))
    10 params = Inr (sdp_text name ''profile_idc'' params rect)"
proof -
  let ?zs = "sdp_head name @ CHR ''='' # ''profile_idc; sprop-parameter-sets''"
  have "find_sub ''tempforsps'' ?zs = None" using find_head [OF assms] by (simp add: find_sub_sep)
  from replace_behind [OF _ _ this, of "CHR ''=''" 10] show ?thesis by (simp add: sdp_text_def)
qed

lemma fill_profile:
  assumes "name_ok name"
  shows "replace_at (sdp_text name ''profile_idc'' params rect) (find_sub ''profile_idc'' (sdp_text name ''profile_idc'' params rect))
    11 profile = Inr (sdp_text name profile params rect)"
proof -
  have "find_sub ''profile_idc'' (sdp_head name) = None" using find_head [OF assms] by simp
  from replace_behind [OF _ _ this, of "CHR ''=''" 11] show ?thesis by (simp add: sdp_text_def)
qed

lemma fill_rect:
  assumes "name_ok name" and "find_sub ''rectofvideo'' params = None" and "find_sub ''rectofvideo'' profile = None"
  shows "replace_at (sdp_text name profile params ''rectofvideo'') (find_sub ''rectofvideo'' (sdp_text name profile params ''rectofvideo''))
    11 rect = Inr (sdp_text name profile params rect)"
proof -
  let ?zs = "sdp_head name @ CHR ''='' # profile @ CHR '';'' # '' sprop-parameter-sets'' @ CHR ''='' # params @ CHR '';'' # '' packtization-mode=1;'' @ crlf @ ''a=cliprect''"
  have "find_sub ''rectofvideo'' ?zs = None"
    using find_head [OF assms(1)] assms(2,3) by (simp add: find_sub_sep)
  from replace_behind [OF _ _ this, of "CHR '':''" 11] show ?thesis by (simp add: sdp_text_def)
qed

lemma find_sub_absent: "x \<in> set pat \<Longrightarrow> x \<notin> set s \<Longrightarrow> find_sub pat s = None"
  unfolding find_sub_None by (meson set_mono_sublist subsetD)

lemma radix_16_chars: "c \<in> set (radix 16 n) \<Longrightarrow> \<exists>d < 16. c = digit d"
proof (induction "16 :: nat" n rule: radix.induct)
  case (1 n)
  then show ?case by (subst (asm) radix.simps) (auto split: if_splits intro: exI [of _ "n mod 16"])
qed

lemma hex_no_r: "find_sub ''rectofvideo'' (hex_padded w k) = None"
proof (rule find_sub_absent [of "CHR ''r''"])
  have "digit d \<noteq> CHR ''r''" if "d < 16" for d
  proof
    assume "digit d = CHR ''r''"
    then have "of_char (digit d) = (of_char (CHR ''r'') :: nat)" by simp
    with that show False by (auto simp: digit_def split: if_splits)
  qed
  then show "CHR ''r'' \<notin> set (hex_padded w k)"
    using radix_16_chars by (fastforce simp: hex_padded_def Let_def)
qed simp

lemma length_hex: "length (hex_padded 6 k) \<le> 8"
proof -
  have "u32 k < 16 ^ 8" using u32_less [of k] by simp
  then have "length (radix 16 (u32 k)) \<le> 8" using length_radix [of 16 "u32 k" 8] by simp
  then show ?thesis by (simp add: hex_padded_def Let_def)
qed

definition rect_text :: "sps_syntax \<Rightarrow> string" where
  "rect_text x = ''0,0,'' @ decimal (16 * (x_height x + 1)) @ '','' @ decimal (16 * (x_width x + 1))"

lemma rect_fits:
  assumes "sps_ok x"
  shows "''0,0,'' @ signed_decimal (16 * (int (x_height x) + 1)) @ '','' @ signed_decimal (16 * (int (x_width x) + 1)) = rect_text x"
    and "length (rect_text x) < 256"
proof -
  have "nat (16 * (int n + 1)) = 16 * (n + 1)" for n by simp
  then show "''0,0,'' @ signed_decimal (16 * (int (x_height x) + 1)) @ '','' @ signed_decimal (16 * (int (x_width x) + 1)) = rect_text x"
    by (simp add: signed_decimal_def rect_text_def)
  have "16 * (x_height x + 1) < 10 ^ 7" "16 * (x_width x + 1) < 10 ^ 7" using assms by (simp_all add: sps_ok_def)
  from this [THEN length_decimal] show "length (rect_text x) < 256" by (simp add: rect_text_def)
qed

lemma b64_no_NUL: "c_str (b64_spec ws) = b64_spec ws"
  by (simp add: c_str_def b64_spec_no_nul)

lemma sps_fill_sdp_fields:
  "profile_idc (sps_fill x c) = int (x_profile x)"
  "mb_height (sps_fill x c) = 16 * (int (x_height x) + 1)" "mb_width (sps_fill x c) = 16 * (int (x_width x) + 1)"
proof -
  have sar: "profile_idc (fill_sar x c) = profile_idc c" "mb_height (fill_sar x c) = mb_height c"
    "mb_width (fill_sar x c) = mb_width c" for c
    by (simp_all add: fill_sar_def split: prod.split)
  have timing: "profile_idc (fill_timing x c) = profile_idc c" "mb_height (fill_timing x c) = mb_height c"
    "mb_width (fill_timing x c) = mb_width c" for c
    by (simp_all add: fill_timing_def split: option.split)
  have restriction: "profile_idc (fill_restriction x c) = profile_idc c" "mb_height (fill_restriction x c) = mb_height c"
    "mb_width (fill_restriction x c) = mb_width c" for c
    by (simp_all add: fill_restriction_def split: option.split)
  have vui: "profile_idc (fill_vui x c) = profile_idc c" "mb_height (fill_vui x c) = mb_height c"
    "mb_width (fill_vui x c) = mb_width c" for c
    by (simp_all add: fill_vui_def Let_def restriction timing sar)
  have "profile_idc (fill_poc x c) = profile_idc c" "profile_idc (fill_high x c) = profile_idc c" for c
    by (simp_all add: fill_poc_def fill_high_def Let_def)
  then show "profile_idc (sps_fill x c) = int (x_profile x)"
    "mb_height (sps_fill x c) = 16 * (int (x_height x) + 1)" "mb_width (sps_fill x c) = 16 * (int (x_width x) + 1)"
    by (simp_all add: sps_fill_def vui fill_size_def)
qed

lemma file_buffer:
  "xs \<noteq> [] \<Longrightarrow> length xs < 2 ^ 16 \<Longrightarrow> FullBuffer_ptr (Buffer (length xs)) xs (length xs) = Inr (True, buffer_of xs)"
  using FullBuffer_ptr_append [of "Buffer (length xs)" "length xs" xs]
  by (simp add: buf_wf_Buffer appended_def buffer_of_def blit_def)

lemma H264CreateSdp_text:
  assumes "sdp_units x h rbsp pps us" and "length (annexb us) < 2 ^ 16 - 3" and "name_ok name"
    and "params = b64_spec ([0, 0, 1] @ h # escape 0 rbsp) @ '','' @ b64_spec ([0, 0, 1] @ pps)"
    and "find_sub ''rectofvideo'' params = None"
  shows "H264CreateSdp m (buffer_of (annexb us)) (new_h264MediaStream m) (sdp_template name) =
    Inr (True, sdp_text name (hex_padded 6 (int (x_profile x))) params (rect_text x))"
proof -
  let ?sps64 = "b64_spec ([0, 0, 1] @ h # escape 0 rbsp)" and ?pps64 = "b64_spec ([0, 0, 1] @ pps)"
  let ?hex = "hex_padded 6 (int (x_profile x))"
  obtain st' where scan: "andThen (DevNode (buffer_of (annexb us)) 0 (new_h264MediaStream m))
        (\<lambda>st. let (DataNode, st) = GetNode st in sdp_loop m DataNode st [] []) = Inr (?sps64, ?pps64, st')"
      and sps: "StreamSps st' = Some (sps_fill x (junk_sps m))"
    using sdp_scan [OF assms(1,2), of "new_h264MediaStream m"] by auto
  have x: "sps_ok x" using assms(1) by (simp add: sdp_units_def)
  have "length ?sps64 \<noteq> 0" "length ?pps64 \<noteq> 0" by (simp_all only: length_b64_spec) simp_all
  then have nonempty: "\<not> (?sps64 = [] \<or> ?pps64 = [])" by auto
  have par: "c_str ?sps64 @ '','' @ c_str ?pps64 = params" using assms(4) by (simp only: b64_no_NUL)
  have f1: "snprintf_s 256 ?hex = Inr ?hex" using length_hex [of "int (x_profile x)"] by (simp add: snprintf_s_def)
  have f2: "snprintf_s 256 (''0,0,'' @ signed_decimal (mb_height (sps_fill x (junk_sps m))) @ '','' @
      signed_decimal (mb_width (sps_fill x (junk_sps m)))) = Inr (rect_text x)"
    unfolding sps_fill_sdp_fields rect_fits(1) [OF x] using rect_fits(2) [OF x] by (simp only: snprintf_s_def if_True)
  have "H264CreateSdp m (buffer_of (annexb us)) (new_h264MediaStream m) (sdp_template name) =
      andThen (andThen (DevNode (buffer_of (annexb us)) 0 (new_h264MediaStream m))
        (\<lambda>st. let (DataNode, st) = GetNode st in sdp_loop m DataNode st [] [])) (\<lambda>(SpsString, PpsString, st).
     if SpsString = [] \<or> PpsString = [] then Inr (False, sdp_template name)
     else
       let ParSet = c_str SpsString @ '','' @ c_str PpsString; SdpTemp = sdp_template name in
       andThen (replace_at SdpTemp (find_sub ''tempforsps'' SdpTemp) 10 ParSet) (\<lambda>SdpTemp.
       case StreamSps st of None \<Rightarrow> Inl NullPointer | Some sps \<Rightarrow>
       andThen (snprintf_s 256 (hex_padded 6 (profile_idc sps))) (\<lambda>forchange.
       andThen (replace_at SdpTemp (find_sub ''profile_idc'' SdpTemp) 11 forchange) (\<lambda>SdpTemp.
       andThen (snprintf_s 256 (''0,0,'' @ signed_decimal (mb_height sps) @ '','' @ signed_decimal (mb_width sps))) (\<lambda>forchange.
       andThen (replace_at SdpTemp (find_sub ''rectofvideo'' SdpTemp) 11 forchange) (\<lambda>SdpTemp.
       Inr (True, SdpTemp)))))))"
    unfolding H264CreateSdp_def andThen_assoc by (simp only: Let_def split_beta)
  also have "\<dots> = Inr (True, sdp_text name ?hex params (rect_text x))"
    unfolding scan [unfolded Let_def] sdp_template_text andThen_simps prod.case if_not_P [OF nonempty] Let_def par fill_params [OF assms(3)]
      sps option.case sps_fill_sdp_fields(1) f1 fill_profile [OF assms(3)] f2
      fill_rect [OF assms(3,5) hex_no_r] by (rule refl)
  finally show ?thesis .
qed

lemma new_sdp_text:
  assumes "splitpath path = (name, ext)" and "ext = ''.h264'' \<or> ext = ''.H264''" and "d path = Some dat"
    and "take 4096 dat = annexb us" and "sdp_units x h rbsp pps us" and "name_ok name" and "can_create e" and "can_write e"
    and "params = b64_spec ([0, 0, 1] @ h # escape 0 rbsp) @ '','' @ b64_spec ([0, 0, 1] @ pps)"
    and "find_sub ''rectofvideo'' params = None"
    and "text = sdp_text name (hex_padded 6 (int (x_profile x))) params (rect_text x)"
  shows "new_MediaCreateSdp e d path = Inr ([(name, text)], d(sdp_file \<mapsto> map of_char text))"
proof -
  have "annexb us \<noteq> []" using assms(5) by (auto simp: sdp_units_def code_bytes_def)
  moreover have size: "min 4096 (length dat) = length (annexb us)" using arg_cong [OF assms(4), of length] by simp
  moreover have "length (annexb us) \<le> 4096" using size by simp
  ultimately have "FullBuffer_ptr (Buffer (length (annexb us))) (annexb us) (length (annexb us)) = Inr (True, buffer_of (annexb us))"
    "length (annexb us) \<noteq> 0" "length (annexb us) < 2 ^ 16 - 3"
    by (simp_all add: file_buffer)
  moreover note H264CreateSdp_text [OF assms(5) this(3) assms(6,9,10), of "env_uninit e"]
  ultimately show ?thesis
    using assms(1-4,7,8,11) size by (auto simp: new_MediaCreateSdp_def CreateNew_def write_sdp_def)
qed

section \<open>Properties\<close>

text \<open>C22. For a file of at most 4096 bytes, or the first 4096 of a longer one, that starts with a sequence and a
  picture parameter set, the constructor stores under the file's name the template with these fields: both
  sets in Base64, each with a start code in front, the profile in hexadecimal and the size. It also writes
  the text to its file.\<close>

theorem MediaCreateSdp_h264:
  assumes "splitpath path = (name, ext)" and "ext = ''.h264'' \<or> ext = ''.H264''" and "d path = Some dat"
    and "take 4096 dat = annexb us" and "sdp_units x h rbsp pps us" and "name_ok name" and "can_create e" and "can_write e"
    and "params = b64_spec ([0, 0, 1] @ h # escape 0 rbsp) @ '','' @ b64_spec ([0, 0, 1] @ pps)"
    and "find_sub ''rectofvideo'' params = None"
    and "text = sdp_text name (hex_padded 6 (int (x_profile x))) params (rect_text x)"
  shows "new_MediaCreateSdp e d path = Inr ([(name, text)], d(sdp_file \<mapsto> map of_char text))"
  using assms by (rule new_sdp_text)

definition sample_units :: "(bool \<times> byte list) list" where
  "sample_units = [(True, 0x67 # escape 0 sample_bytes), (True, [0x68, 0xEE, 0x3C, 0x80]), (False, [0x41, 7])]"

lemma sample_sdp_units: "sdp_units sample_sps 0x67 sample_bytes [0x68, 0xEE, 0x3C, 0x80] sample_units"
proof -
  have "\<forall>(l, nal) \<in> set sample_units. nal_ok nal" by code_simp
  then show ?thesis
    using sample_sps_ok sample_bytes_bits unfolding sdp_units_def sample_units_def
    by (intro conjI exI [of _ True] exI [of _ "[(False, [0x41, 7])]"]) auto
qed

lemma sample_path: "splitpath (CHR 0x5C # ''test.h264'') = (''test'', ''.h264'')"
  by code_simp

theorem MediaCreateSdp_h264_witness:
  "\<forall>m. \<exists>d'. new_MediaCreateSdp \<lparr>env_uninit = m, can_create = True, can_write = True\<rparr>
      [CHR 0x5C # ''test.h264'' \<mapsto> annexb sample_units] (CHR 0x5C # ''test.h264'') =
    Inr ([(''test'', sdp_text ''test'' ''00004D'' ''AAABZ00AAJbIAoAt2AiAAAADAIAAABlC,AAABaO48gA=='' ''0,0,720,1280'')], d')"
proof
  fix m
  let ?e = "\<lparr>env_uninit = m, can_create = True, can_write = True\<rparr>" and ?path = "CHR 0x5C # ''test.h264''"
  let ?params = "''AAABZ00AAJbIAoAt2AiAAAADAIAAABlC,AAABaO48gA==''"
  have len: "length (annexb sample_units) \<le> 4096" by code_simp
  have name: "name_ok ''test''" by code_simp
  have params: "?params = b64_spec ([0, 0, 1] @ 0x67 # escape 0 sample_bytes) @ '','' @ b64_spec ([0, 0, 1] @ [0x68, 0xEE, 0x3C, 0x80])"
    by code_simp
  have rect: "find_sub ''rectofvideo'' ?params = None" by code_simp
  have fields: "hex_padded 6 (int (x_profile sample_sps)) = ''00004D''" "rect_text sample_sps = ''0,0,720,1280''"
    by code_simp+
  have "new_MediaCreateSdp ?e [?path \<mapsto> annexb sample_units] ?path =
    Inr ([(''test'', sdp_text ''test'' ''00004D'' ?params ''0,0,720,1280'')],
      [?path \<mapsto> annexb sample_units](sdp_file \<mapsto> map of_char (sdp_text ''test'' ''00004D'' ?params ''0,0,720,1280'')))"
    unfolding fields [symmetric]
    by (rule MediaCreateSdp_h264 [where d = "[?path \<mapsto> annexb sample_units]" and dat = "annexb sample_units", OF sample_path _ _ _ sample_sdp_units name _ _ params rect refl]) (use len in simp_all)
  then show "\<exists>d'. new_MediaCreateSdp ?e [?path \<mapsto> annexb sample_units] ?path =
    Inr ([(''test'', sdp_text ''test'' ''00004D'' ?params ''0,0,720,1280'')], d')" by blast
qed

end
