(* ===== verification/RtspString.thy ===== *)
theory RtspString
  imports MediaCreateSdp
begin

text \<open>
  RTSP requests and replies: \<open>RtspString.cpp\<close>. Parsing reads \<open>info.c_str()\<close> and copies the address, the path
  and the sequence number through fixed character arrays; the replies replace the request in place.

  \<open>deal_info\<close> is kept between requests. The constructor leaves its numbers and its type as the memory held them.
\<close>

section \<open>State\<close>

datatype rtsp_type = ERRORTYPE | OPTIONS | DESCRIBE | SETUP | PLAY | PAUSE | TEARDOWN

record rtspinfo =
  rtype :: rtsp_type
  addr :: string
  file_path :: string
  cseq :: string
  session :: nat        \<comment> \<open>\<open>unsigned\<close>\<close>
  streamid :: nat       \<comment> \<open>\<open>unsigned\<close>\<close>
  clientport :: nat     \<comment> \<open>\<open>unsigned\<close>\<close>

definition new_rtsp_string :: "rtsp_type \<Rightarrow> nat \<Rightarrow> nat \<Rightarrow> nat \<Rightarrow> rtspinfo" where
  "new_rtsp_string type0 session0 streamid0 clientport0 =
     \<lparr>rtype = type0, addr = [], file_path = [], cseq = [], session = session0, streamid = streamid0,
      clientport = clientport0\<rparr>"

section \<open>Fields of the request line\<close>

text \<open>
  The loops of \<open>get_addr\<close> and \<open>get_filepath\<close> with their arrays of 128 characters. The answer is the returned
  position and, when the end was found, the copied string.
\<close>

function addr_loop :: "string \<Rightarrow> nat \<Rightarrow> char list \<Rightarrow> nat \<Rightarrow> (nat \<times> string option) res" where
  "addr_loop info i arr psize =
     (if i < length info then
        andThen (c_at info i) (\<lambda>c.
        andThen (if c = CHR ''/'' then andThen (c_at info (i + 1)) (\<lambda>c'. Inr (c' \<noteq> CHR ''/'')) else Inr False) (\<lambda>stop.
        if stop then andThen (c_string arr) (\<lambda>s. Inr (i + 1, Some s))
        else andThen (put arr psize c) (\<lambda>arr. addr_loop info (i + 1) arr (psize + 1))))
      else Inr (0, None))"
  by pat_completeness auto
termination
  by (relation "measure (\<lambda>(info, i, arr, psize). length info - i)") auto

declare addr_loop.simps [simp del]

definition get_addr :: "string \<Rightarrow> nat \<Rightarrow> rtspinfo \<Rightarrow> (nat \<times> rtspinfo) res" where
  "get_addr info pos d =
     andThen (addr_loop info pos (replicate 128 NUL) 0) (\<lambda>(p, s).
     Inr (p, case s of None \<Rightarrow> d | Some s \<Rightarrow> d\<lparr>addr := s\<rparr>))"

function path_loop :: "string \<Rightarrow> nat \<Rightarrow> char list \<Rightarrow> nat \<Rightarrow> (nat \<times> string option) res" where
  "path_loop info i arr psize =
     (if i < length info then
        andThen (c_at info i) (\<lambda>c.
        if c = CHR '' '' then andThen (c_string arr) (\<lambda>s. Inr (i + 1, Some s))
        else andThen (put arr psize c) (\<lambda>arr. path_loop info (i + 1) arr (psize + 1)))
      else Inr (0, None))"
  by pat_completeness auto
termination
  by (relation "measure (\<lambda>(info, i, arr, psize). length info - i)") auto

declare path_loop.simps [simp del]

definition get_filepath :: "string \<Rightarrow> nat \<Rightarrow> rtspinfo \<Rightarrow> (nat \<times> rtspinfo) res" where
  "get_filepath info pos d =
     andThen (path_loop info pos (replicate 128 NUL) 0) (\<lambda>(p, s).
     Inr (p, case s of None \<Rightarrow> d | Some s \<Rightarrow> d\<lparr>file_path := s\<rparr>))"

text \<open>The words that the parser compares with, by offset from the current character.\<close>

definition word_at :: "nat \<Rightarrow> string \<Rightarrow> (nat \<times> char) list" where
  "word_at k w = zip [k..<k + length w] w"

text \<open>The search for \<open>CSeq:\<close>; the bound is an unsigned difference.\<close>

function cseq_search :: "string \<Rightarrow> nat \<Rightarrow> nat \<Rightarrow> nat res" where
  "cseq_search info pos i =
     (if i < length info then
        andThen (if i < u32 (int (length info) - 5) then matches info i (word_at 0 ''CSeq:'') else Inr False) (\<lambda>found.
        if found then Inr (i + 5) else cseq_search info pos (i + 1))
      else Inr pos)"
  by pat_completeness auto
termination
  by (relation "measure (\<lambda>(info, pos, i). length info - i)") auto

declare cseq_search.simps [simp del]

text \<open>The copy of the number into an array of 16 characters.\<close>

function cseq_loop :: "string \<Rightarrow> nat \<Rightarrow> char list \<Rightarrow> nat \<Rightarrow> bool \<Rightarrow> (nat \<times> string option) res" where
  "cseq_loop info i count psize startcount =
     (if i < length info then
        andThen (c_at info i) (\<lambda>c.
        if c = CHR '' '' then cseq_loop info (i + 1) count psize startcount
        else if \<not> startcount then
          andThen (put count psize c) (\<lambda>count. cseq_loop info (i + 1) count (psize + 1) True)
        else if c = CR \<or> c = LF then
          (if startcount then andThen (c_string count) (\<lambda>s. Inr (i, Some s)) else Inr (0, None))
        else andThen (put count psize c) (\<lambda>count. cseq_loop info (i + 1) count (psize + 1) startcount))
      else Inr (0, None))"
  by pat_completeness auto
termination
  by (relation "measure (\<lambda>(info, i, count, psize, startcount). length info - i)") auto

declare cseq_loop.simps [simp del]

definition get_cseq :: "string \<Rightarrow> nat \<Rightarrow> rtspinfo \<Rightarrow> (nat \<times> rtspinfo) res" where
  "get_cseq info pos d =
     andThen (cseq_search info pos pos) (\<lambda>pos.
     andThen (cseq_loop info pos (replicate 16 NUL) 0 False) (\<lambda>(p, s).
     Inr (p, case s of None \<Rightarrow> d | Some s \<Rightarrow> d\<lparr>cseq := s\<rparr>)))"

section \<open>Parsing a request\<close>

text \<open>The search for the URL: \<open>pos\<close> when found, and the value \<open>i\<close> ends with.\<close>

function rtsp_search :: "string \<Rightarrow> nat \<Rightarrow> (nat \<times> nat) res" where
  "rtsp_search info i =
     (if i < length info then
        andThen (if i < u32 (int (length info) - 5) then matches info i (word_at 0 '' rtsp:'') else Inr False) (\<lambda>found.
        if found then Inr (i, i) else rtsp_search info (i + 1))
      else Inr (0, i))"
  by pat_completeness auto
termination
  by (relation "measure (\<lambda>(info, i). length info - i)") auto

declare rtsp_search.simps [simp del]

text \<open>The \<open>switch\<close> on one character, with the offsets that the code compares at.\<close>

definition method_at :: "string \<Rightarrow> nat \<Rightarrow> rtsp_type \<Rightarrow> rtsp_type res" where
  "method_at info i t =
     andThen (c_at info i) (\<lambda>c.
     if c = CHR ''O'' then andThen (matches info i (word_at 1 ''PTIONS'')) (\<lambda>b. Inr (if b then OPTIONS else t))
     else if c = CHR ''D'' then andThen (matches info i (word_at 1 ''ESCRIBE'')) (\<lambda>b. Inr (if b then DESCRIBE else t))
     else if c = CHR ''S'' then andThen (matches info i (word_at 1 ''ETUP'')) (\<lambda>b. Inr (if b then SETUP else t))
     else if c = CHR ''T'' then andThen (matches info i (word_at 2 ''EARDOWN'')) (\<lambda>b. Inr (if b then TEARDOWN else t))
     else if c = CHR ''P'' then
       andThen (matches info i (word_at 1 ''LAY'')) (\<lambda>b.
       if b then Inr PLAY
       else andThen (matches info i [(1, CHR ''A''), (1, CHR ''U''), (2, CHR ''S''), (3, CHR ''E'')])
              (\<lambda>b. Inr (if b then PAUSE else t)))
     else Inr t)"

function method_loop :: "string \<Rightarrow> nat \<Rightarrow> nat \<Rightarrow> rtsp_type \<Rightarrow> rtsp_type res" where
  "method_loop info pos i t =
     (if i < pos then andThen (method_at info i t) (\<lambda>t. method_loop info pos (i + 1) t) else Inr t)"
  by pat_completeness auto
termination
  by (relation "measure (\<lambda>(info, pos, i, t). pos - i)") auto

declare method_loop.simps [simp del]

definition deal_string :: "string \<Rightarrow> rtspinfo \<Rightarrow> rtspinfo res" where
  "deal_string info d =
     (let d = d\<lparr>rtype := ERRORTYPE\<rparr> in
      andThen (rtsp_search info 0) (\<lambda>(pos, i).
      if u32 (int (length info) - 5) < i then Inr d
      else andThen (method_loop info pos 0 ERRORTYPE) (\<lambda>t.
        let d = d\<lparr>rtype := t\<rparr> in
        if t = ERRORTYPE then Inr d
        else andThen (get_addr info (pos + 8) d) (\<lambda>(pos, d).
          if pos = 0 then Inr d
          else andThen (get_filepath info pos d) (\<lambda>(pos, d).
            if pos = 0 then Inr d
            else andThen (get_cseq info pos d) (\<lambda>(pos, d). Inr d))))))"

section \<open>Replies\<close>

definition deal_options :: "rtspinfo \<Rightarrow> string" where
  "deal_options d =
     ''RTSP/1.0 200 OK'' @ crlf @ ''CSeq: '' @ c_str (cseq d) @ crlf @
     ''Public: DESCRIBE, SETUP, TEARDOWN, PLAY, PAUSE'' @ crlf"

definition refusal :: "rtspinfo \<Rightarrow> string" where
  "refusal d = ''RTSP/1.0 405 Method Not Allowd'' @ crlf @ ''CSeq: '' @ cseq d @ crlf"

text \<open>The description comes from the singleton of \<open>MediaCreateSdp\<close>, made here if the program has not done so.\<close>

definition deal_describe ::
  "sdp_env \<Rightarrow> sdp_list option \<times> disk \<Rightarrow> rtspinfo \<Rightarrow> (string \<times> rtspinfo \<times> sdp_list option \<times> disk) res" where
  "deal_describe e g d =
     (let info = ''RTSP/1.0 200 OK'' @ crlf @ ''CSeq: '' @ cseq d @ crlf @ ''Server: ltRtspService'' @ crlf in
      andThen (snprintf_s 256 (''Content-Base: rtsp://'' @ c_str (addr d) @ ''/'' @ c_str (file_path d) @ crlf)) (\<lambda>MoreDiscribe.
      let info = info @ MoreDiscribe @ ''Content-Type: application/sdp'' @ crlf @
                 ''Content-Length: content_count'' @ crlf @ crlf in
      andThen (GetInstance e (file_path d) g) (\<lambda>(sdp, g).
      case GetSdp sdp (file_path d) of
        Some SdpInfo \<Rightarrow> Inr (info @ SdpInfo, d, g)
      | None \<Rightarrow> Inr (refusal d, d\<lparr>rtype := ERRORTYPE\<rparr>, g))))"

text \<open>A number behind a key word, 0 without the word.\<close>

definition number_behind :: "string \<Rightarrow> string \<Rightarrow> nat" where
  "number_behind key info =
     (case find_sub key info of None \<Rightarrow> 0 | Some pos \<Rightarrow> parse_digits 0 (drop (pos + length key) info))"

definition session_line :: "rtspinfo \<Rightarrow> string res" where
  "session_line d = snprintf_s 64 (''Session: '' @ decimal (session d) @ crlf)"

definition deal_setup :: "string \<Rightarrow> rtspinfo \<Rightarrow> (string \<times> rtspinfo) res" where
  "deal_setup info d =
     (let d = d\<lparr>streamid := number_behind ''trackID='' info, clientport := number_behind ''client_port='' info\<rparr>;
          info = (if find_sub ''RTP/AVP/TCP'' info = None then refusal d else info);
          info = ''RTSP/1.0 200 OK'' @ crlf @ ''CSeq: '' @ cseq d @ crlf @
                 ''Transport: RTP/AVP/TCP;interleaved=0-1'' @ crlf in
      andThen (session_line d) (\<lambda>tmp. Inr (info @ tmp, d)))"

definition deal_play :: "rtspinfo \<Rightarrow> string res" where
  "deal_play d =
     andThen (session_line d) (\<lambda>tmp.
     Inr (''RTSP/1.0 200 OK'' @ crlf @ ''CSeq: '' @ cseq d @ crlf @ tmp @
          ''RTP-Info: url=rtsp://127.0.0.1:1000/test/track=1;seq=0'' @ crlf))"

definition deal_pause :: "string \<Rightarrow> string" where "deal_pause info = info"

definition deal_teardown :: "string \<Rightarrow> string" where "deal_teardown info = info"

definition create_sdp :: "string \<Rightarrow> bool \<times> string" where "create_sdp info = (True, info)"

definition deal_requset ::
  "sdp_env \<Rightarrow> sdp_list option \<times> disk \<Rightarrow> string \<Rightarrow> rtspinfo \<Rightarrow> (string \<times> rtspinfo \<times> sdp_list option \<times> disk) res" where
  "deal_requset e g info d =
     andThen (deal_string info d) (\<lambda>d.
     case rtype d of
       OPTIONS \<Rightarrow> Inr (deal_options d, d, g)
     | DESCRIBE \<Rightarrow> deal_describe e g d
     | SETUP \<Rightarrow> andThen (deal_setup info d) (\<lambda>(info, d). Inr (info, d, g))
     | PLAY \<Rightarrow> andThen (deal_play d) (\<lambda>info. Inr (info, d, g))
     | TEARDOWN \<Rightarrow> Inr (deal_teardown info, d, g)
     | PAUSE \<Rightarrow> Inr (deal_pause info, d, g)
     | ERRORTYPE \<Rightarrow> Inr (info, d, g))"

section \<open>What the searches find\<close>

lemma word_at_simps [simp]:
  "word_at k [] = []" "word_at k (c # w) = (k, c) # word_at (Suc k) w"
  by (simp_all add: word_at_def upt_conv_Cons del: upt_Suc)

lemma matches_word:
  assumes "NUL \<notin> set w" and "i + k \<le> length s"
  shows "matches s i (word_at k w) = Inr (prefix w (drop (i + k) s))"
  using assms
proof (induction w arbitrary: k)
  case (Cons c w)
  show ?case
  proof (cases "i + k < length s")
    case True
    have "drop (i + k) s = s ! (i + k) # drop (i + Suc k) s" using Cons_nth_drop_Suc [OF True] by simp
    then show ?thesis using Cons.IH [of "Suc k"] Cons.prems True by (auto simp: c_at_simps)
  next
    case False
    then have "i + k = length s" using Cons.prems(2) by simp
    then show ?thesis using Cons.prems(1) by (auto simp: c_at_simps)
  qed
qed simp

lemma rtsp_search_found:
  assumes "p + 5 < length info" and "length info < 2 ^ 32" and "prefix '' rtsp:'' (drop p info)"
    and "\<forall>j < p. \<not> prefix '' rtsp:'' (drop j info)" and "i \<le> p"
  shows "rtsp_search info i = Inr (p, p)"
  using assms(5)
proof (induction "p - i" arbitrary: i)
  case 0
  have "u32 (int (length info) - 5) = length info - 5" using u32_diff [of 5 "length info"] assms(1,2) by simp
  then show ?case
    using 0 assms(1,3) less_diff_conv [of i "length info" 5]
    by (subst rtsp_search.simps) (simp add: matches_word del: word_at_simps)
next
  case (Suc n)
  have "u32 (int (length info) - 5) = length info - 5" using u32_diff [of 5 "length info"] assms(1,2) by simp
  moreover have "rtsp_search info (i + 1) = Inr (p, p)" using Suc by simp
  moreover have "\<not> prefix '' rtsp:'' (drop i info)" using assms(4) Suc.hyps(2) by simp
  ultimately show ?case
    using Suc.prems Suc.hyps(2) assms(1) by (subst rtsp_search.simps) (simp add: matches_word del: word_at_simps)
qed

lemma cseq_search_found:
  assumes "p + 5 < length info" and "length info < 2 ^ 32" and "prefix ''CSeq:'' (drop p info)"
    and "\<forall>j. i \<le> j \<longrightarrow> j < p \<longrightarrow> \<not> prefix ''CSeq:'' (drop j info)" and "i \<le> p"
  shows "cseq_search info pos i = Inr (p + 5)"
  using assms(4,5)
proof (induction "p - i" arbitrary: i)
  case 0
  have "u32 (int (length info) - 5) = length info - 5" using u32_diff [of 5 "length info"] assms(1,2) by simp
  then show ?case
    using 0 assms(1,3) less_diff_conv [of i "length info" 5]
    by (subst cseq_search.simps) (simp add: matches_word del: word_at_simps)
next
  case (Suc n)
  have "u32 (int (length info) - 5) = length info - 5" using u32_diff [of 5 "length info"] assms(1,2) by simp
  moreover have "cseq_search info pos (i + 1) = Inr (p + 5)" using Suc by simp
  moreover have "\<not> prefix ''CSeq:'' (drop i info)" using Suc.prems(1) Suc.hyps(2) by simp
  ultimately show ?case
    using Suc.prems Suc.hyps(2) assms(1) by (subst cseq_search.simps) (simp add: matches_word del: word_at_simps)
qed

lemma nth_drop_Cons: "drop i s = c # t \<Longrightarrow> i < length s \<and> s ! i = c \<and> drop (Suc i) s = t"
  by (metis drop_all list.distinct(1) not_le nth_via_drop drop_Suc tl_drop list.sel(3))

text \<open>The array after \<open>length done\<close> characters.\<close>

lemma put_done:
  "length done < n \<Longrightarrow> put (done @ replicate (n - length done) NUL) (length done) c =
    Inr ((done @ [c]) @ replicate (n - length (done @ [c])) NUL)"
proof -
  assume "length done < n"
  then obtain k where "n - length done = Suc k" by (cases "n - length done") auto
  then show ?thesis by (simp add: put_def)
qed

lemma addr_loop_host:
  assumes "drop i info = host @ CHR ''/'' # rest" and "CHR ''/'' \<notin> set host" and "rest = [] \<or> hd rest \<noteq> CHR ''/''"
    and "NUL \<notin> set (done @ host)" and "length (done @ host) < 128"
  shows "addr_loop info i (done @ replicate (128 - length done) NUL) (length done) = Inr (i + length host + 1, Some (done @ host))"
  using assms
proof (induction host arbitrary: i "done")
  case Nil
  have i: "i < length info" "info ! i = CHR ''/''" "drop (Suc i) info = rest"
    using nth_drop_Cons [of i info] Nil.prems(1) by auto
  have "\<exists>c. c_at info (i + 1) = Inr c \<and> c \<noteq> CHR ''/''"
  proof (cases rest)
    case Nil
    then have "Suc i = length info" using i by simp
    then show ?thesis by (simp add: c_at_simps)
  next
    case (Cons c rest')
    then show ?thesis using nth_drop_Cons [of "Suc i" info c rest'] i(3) Nil.prems(3) by (simp add: c_at_simps)
  qed
  moreover have "c_string (done @ replicate (128 - length done) NUL) = Inr done"
    using Nil.prems by (intro c_string_padded) simp_all
  ultimately show ?case using i by (subst addr_loop.simps) (auto simp: c_at_simps)
next
  case (Cons c host)
  have i: "i < length info" "info ! i = c" "drop (Suc i) info = host @ CHR ''/'' # rest"
    using nth_drop_Cons [of i info] Cons.prems(1) by auto
  have "addr_loop info (Suc i) ((done @ [c]) @ replicate (128 - length (done @ [c])) NUL) (length (done @ [c])) =
      Inr (Suc i + length host + 1, Some ((done @ [c]) @ host))"
    by (rule Cons.IH [OF i(3)]) (use Cons.prems in simp_all)
  moreover have "c \<noteq> CHR ''/''" using Cons.prems(2) by auto
  ultimately show ?case
    using i Cons.prems put_done [of "done" 128 c] by (subst addr_loop.simps) (simp add: c_at_simps)
qed

lemma path_loop_path:
  assumes "drop i info = path @ CHR '' '' # rest" and "CHR '' '' \<notin> set path"
    and "NUL \<notin> set (done @ path)" and "length (done @ path) < 128"
  shows "path_loop info i (done @ replicate (128 - length done) NUL) (length done) = Inr (i + length path + 1, Some (done @ path))"
  using assms
proof (induction path arbitrary: i "done")
  case Nil
  have i: "i < length info" "info ! i = CHR '' ''" using nth_drop_Cons [of i info] Nil.prems(1) by auto
  moreover have "c_string (done @ replicate (128 - length done) NUL) = Inr done"
    using Nil.prems by (intro c_string_padded) simp_all
  ultimately show ?case by (subst path_loop.simps) (simp add: c_at_simps)
next
  case (Cons c path)
  have i: "i < length info" "info ! i = c" "drop (Suc i) info = path @ CHR '' '' # rest"
    using nth_drop_Cons [of i info] Cons.prems(1) by auto
  have "path_loop info (Suc i) ((done @ [c]) @ replicate (128 - length (done @ [c])) NUL) (length (done @ [c])) =
      Inr (Suc i + length path + 1, Some ((done @ [c]) @ path))"
    by (rule Cons.IH [OF i(3)]) (use Cons.prems in simp_all)
  moreover have "c \<noteq> CHR '' ''" using Cons.prems(2) by auto
  ultimately show ?case
    using i Cons.prems put_done [of "done" 128 c] by (subst path_loop.simps) (simp add: c_at_simps)
qed

lemma cseq_loop_seq:
  assumes "drop i info = seq @ CR # rest" and "{CHR '' '', CR, LF, NUL} \<inter> set seq = {}"
    and "NUL \<notin> set done" and "length (done @ seq) < 16" and "done \<noteq> [] \<or> seq \<noteq> []"
  shows "cseq_loop info i (done @ replicate (16 - length done) NUL) (length done) (done \<noteq> []) = Inr (i + length seq, Some (done @ seq))"
  using assms
proof (induction seq arbitrary: i "done")
  case Nil
  have i: "i < length info" "info ! i = CR" using nth_drop_Cons [of i info] Nil.prems(1) by auto
  moreover have "c_string (done @ replicate (16 - length done) NUL) = Inr done"
    using Nil.prems by (intro c_string_padded) simp_all
  ultimately show ?case using Nil.prems(5) by (subst cseq_loop.simps) (simp add: c_at_simps)
next
  case (Cons c seq)
  have i: "i < length info" "info ! i = c" "drop (Suc i) info = seq @ CR # rest"
    using nth_drop_Cons [of i info] Cons.prems(1) by auto
  have "cseq_loop info (Suc i) ((done @ [c]) @ replicate (16 - length (done @ [c])) NUL) (length (done @ [c])) (done @ [c] \<noteq> []) =
      Inr (Suc i + length seq, Some ((done @ [c]) @ seq))"
    by (rule Cons.IH [OF i(3)]) (use Cons.prems in auto)
  moreover have "c \<noteq> CHR '' ''" "c \<noteq> CR" "c \<noteq> LF" using Cons.prems(2) by auto
  moreover have "(replicate 16 NUL)[0 := c] = c # replicate 15 NUL" by (simp add: eval_nat_numeral)
  ultimately show ?case
    using i Cons.prems put_done [of "done" 16 c]
    by (cases "done = []"; subst cseq_loop.simps) (simp_all add: c_at_simps)
qed

section \<open>Well-formed requests\<close>

fun method_name :: "rtsp_type \<Rightarrow> string" where
  "method_name OPTIONS = ''OPTIONS''"
| "method_name DESCRIBE = ''DESCRIBE''"
| "method_name SETUP = ''SETUP''"
| "method_name PLAY = ''PLAY''"
| "method_name PAUSE = ''PAUSE''"
| "method_name TEARDOWN = ''TEARDOWN''"
| "method_name ERRORTYPE = []"

text \<open>Request line, other header lines up to the one of the sequence number, and anything behind it.\<close>

definition request :: "rtsp_type \<Rightarrow> string \<Rightarrow> string \<Rightarrow> string \<Rightarrow> string \<Rightarrow> string \<Rightarrow> string" where
  "request m host path mid seq behind =
     method_name m @ '' rtsp://'' @ host @ ''/'' @ path @ '' RTSP/1.0'' @ CR # mid @ LF # ''CSeq: '' @ seq @ CR # behind"

definition request_ok :: "rtsp_type \<Rightarrow> string \<Rightarrow> string \<Rightarrow> string \<Rightarrow> string \<Rightarrow> string \<Rightarrow> bool" where
  "request_ok m host path mid seq behind \<longleftrightarrow>
     m \<in> {OPTIONS, DESCRIBE, SETUP, PLAY} \<and>
     CHR ''/'' \<notin> set host \<and> NUL \<notin> set host \<and> length host < 128 \<and>
     CHR '' '' \<notin> set path \<and> NUL \<notin> set path \<and> length path < 128 \<and> (path = [] \<or> hd path \<noteq> CHR ''/'') \<and>
     find_sub ''CSeq:'' mid = None \<and>
     seq \<noteq> [] \<and> {CHR '' '', CR, LF, NUL} \<inter> set seq = {} \<and> length seq < 16 \<and>
     length (request m host path mid seq behind) < 2 ^ 32"

text \<open>The type is read off the word in front of the URL.\<close>

lemma method_loop_simps:
  "i < pos \<Longrightarrow> method_loop info pos i t = andThen (method_at info i t) (\<lambda>t. method_loop info pos (i + 1) t)"
  "\<not> i < pos \<Longrightarrow> method_loop info pos i t = Inr t"
  by (subst method_loop.simps, simp)+

text \<open>
  The method a suffix of the request stands for. The comparison meant for \<open>PAUSE\<close> asks one character for
  two values; the one for \<open>TEARDOWN\<close> skips the second letter.
\<close>

definition method_of :: "string \<Rightarrow> rtsp_type \<Rightarrow> rtsp_type" where
  "method_of s t =
     (if prefix ''OPTIONS'' s then OPTIONS else if prefix ''DESCRIBE'' s then DESCRIBE
      else if prefix ''SETUP'' s then SETUP else if prefix ''T'' s \<and> prefix ''EARDOWN'' (drop 2 s) then TEARDOWN
      else if prefix ''PLAY'' s then PLAY else t)"

fun method_scan :: "nat \<Rightarrow> string \<Rightarrow> rtsp_type \<Rightarrow> rtsp_type" where
  "method_scan 0 s t = t"
| "method_scan (Suc n) s t = method_scan n (tl s) (method_of s t)"

lemma method_at_spec:
  assumes "i + 2 \<le> length info"
  shows "method_at info i t = Inr (method_of (drop i info) t)"
proof -
  define c s where "c = info ! i" and "s = drop (Suc i) info"
  then have s: "drop i info = c # s" "i < length info" "info ! i = c" "drop (Suc i) info = s"
    using Cons_nth_drop_Suc [of i info] assms by auto
  have d2: "drop 2 (drop i info) = drop (i + 2) info" "drop (i + 1) info = s"
    by (simp only: drop_drop add.commute) (use s in simp)
  have m1: "NUL \<notin> set w \<Longrightarrow> matches info i (word_at 1 w) = Inr (prefix w s)" for w
    using matches_word [of w i 1 info] assms d2(2) by simp
  have m2: "NUL \<notin> set w \<Longrightarrow> matches info i (word_at 2 w) = Inr (prefix w (drop 2 (drop i info)))" for w
    using matches_word [of w i 2 info] assms d2(1) by simp
  have "matches info i [(1, CHR ''A''), (1, CHR ''U''), (2, CHR ''S''), (3, CHR ''E'')] = Inr False"
    using assms by (simp add: c_at_simps)
  then show ?thesis
    using s by (simp add: method_at_def m1 m2 method_of_def c_at_simps del: matches.simps word_at_simps One_nat_def)
qed

lemma method_loop_spec:
  assumes "i \<le> pos" and "pos + 2 \<le> length info"
  shows "method_loop info pos i t = Inr (method_scan (pos - i) (drop i info) t)"
  using assms(1)
proof (induction "pos - i" arbitrary: i t)
  case (Suc n)
  have "method_at info i t = Inr (method_of (drop i info) t)" using Suc.hyps(2) assms(2) by (intro method_at_spec) simp
  moreover have "method_loop info pos (i + 1) t' = Inr (method_scan (pos - (i + 1)) (drop (i + 1) info) t')" for t'
    using Suc.hyps by simp
  moreover have "pos - i = Suc (pos - (i + 1))" using Suc.hyps(2) by simp
  ultimately show ?case using Suc.hyps(2) by (simp add: method_loop_simps drop_Suc tl_drop)
qed (simp add: method_loop_simps)

lemma method_scan_name:
  "m \<in> {OPTIONS, DESCRIBE, SETUP, PLAY} \<Longrightarrow> method_scan (length (method_name m)) (method_name m @ '' rtsp://'' @ s) ERRORTYPE = m"
  "m \<in> {PAUSE, TEARDOWN} \<Longrightarrow> method_scan (length (method_name m)) (method_name m @ '' rtsp://'' @ s) ERRORTYPE = ERRORTYPE"
  by (elim insertE emptyE; simp add: method_of_def)+

lemma rtsp_search_name:
  assumes "length (method_name m @ '' rtsp://'' @ s) < 2 ^ 32"
  shows "rtsp_search (method_name m @ '' rtsp://'' @ s) 0 = Inr (length (method_name m), length (method_name m))"
proof (rule rtsp_search_found [OF _ assms])
  have "find_sub '' rtsp:'' (method_name m @ CHR '' '' # ''rtsp://'' @ s) = Some (length (method_name m))"
    by (cases m) simp_all
  then show "\<forall>j < length (method_name m). \<not> prefix '' rtsp:'' (drop j (method_name m @ '' rtsp://'' @ s))"
    using find_sub_first by fastforce
qed simp_all

lemma deal_string_method:
  assumes "length (method_name m @ '' rtsp://'' @ s) < 2 ^ 32" and "info = method_name m @ '' rtsp://'' @ s"
    and "t = method_scan (length (method_name m)) info ERRORTYPE"
  shows "deal_string info d =
    (let d = d\<lparr>rtype := t\<rparr> in
     if t = ERRORTYPE then Inr d
     else andThen (get_addr info (length (method_name m) + 8) d) (\<lambda>(pos, d).
       if pos = 0 then Inr d
       else andThen (get_filepath info pos d) (\<lambda>(pos, d).
         if pos = 0 then Inr d else andThen (get_cseq info pos d) (\<lambda>(pos, d). Inr d))))"
proof -
  let ?k = "length (method_name m)"
  have len: "?k + 8 \<le> length info" "length info < 2 ^ 32" using assms(1,2) by simp_all
  have "u32 (int (length info) - 5) = length info - 5" using u32_diff [of 5 "length info"] len by simp
  then have "\<not> u32 (int (length info) - 5) < ?k" using len(1) by simp
  moreover have "method_loop info ?k 0 ERRORTYPE = Inr t"
    using method_loop_spec [of 0 ?k info ERRORTYPE] len(1) by (simp add: assms(3))
  moreover have "rtsp_search info 0 = Inr (?k, ?k)" unfolding assms(2) by (rule rtsp_search_name [OF assms(1)])
  ultimately show ?thesis by (simp add: deal_string_def Let_def)
qed

lemma drop_prefix: "s = xs @ ys \<Longrightarrow> n = length xs \<Longrightarrow> drop n s = ys"
  by simp

lemma get_addr_found:
  assumes "drop p info = host @ CHR ''/'' # rest" and "CHR ''/'' \<notin> set host" and "rest = [] \<or> hd rest \<noteq> CHR ''/''"
    and "NUL \<notin> set host" and "length host < 128"
  shows "get_addr info p d = Inr (p + length host + 1, d\<lparr>addr := host\<rparr>)"
  using addr_loop_host [OF assms(1-3), of "[]"] assms(4,5) by (simp add: get_addr_def)

lemma get_filepath_found:
  assumes "drop p info = path @ CHR '' '' # rest" and "CHR '' '' \<notin> set path"
    and "NUL \<notin> set path" and "length path < 128"
  shows "get_filepath info p d = Inr (p + length path + 1, d\<lparr>file_path := path\<rparr>)"
  using path_loop_path [OF assms(1,2), of "[]"] assms(3,4) by (simp add: get_filepath_def)

lemma get_cseq_found:
  assumes "drop q info = head @ LF # ''CSeq:'' @ CHR '' '' # seq @ CR # behind" and "find_sub ''CSeq:'' head = None"
    and "seq \<noteq> []" and "{CHR '' '', CR, LF, NUL} \<inter> set seq = {}" and "length seq < 16" and "length info < 2 ^ 32"
  shows "\<exists>p. get_cseq info q d = Inr (p, d\<lparr>cseq := seq\<rparr>)"
proof -
  define c where "c = q + Suc (length head)"
  define e where "e = c + 5"
  have found: "find_sub ''CSeq:'' (drop q info) = Some (Suc (length head))"
    unfolding assms(1) by (rule find_sub_behind [OF _ _ assms(2)]) simp_all
  have dc: "drop c info = ''CSeq:'' @ CHR '' '' # seq @ CR # behind"
    unfolding c_def by (subst add.commute, subst drop_drop [symmetric], unfold assms(1)) simp
  have de: "drop e info = CHR '' '' # seq @ CR # behind"
    unfolding e_def by (subst add.commute, subst drop_drop [symmetric], unfold dc) simp
  note d1 = nth_drop_Cons [OF de]
  have "\<not> prefix ''CSeq:'' (drop j info)" if "q \<le> j" "j < c" for j
    using find_sub_first [OF found, of "j - q"] that by (simp add: c_def add.commute)
  moreover have "prefix ''CSeq:'' (drop c info)" unfolding dc by simp
  moreover have "c + 5 < length info" "q \<le> c" using d1 by (simp_all add: e_def c_def)
  ultimately have search: "cseq_search info q q = Inr e"
    unfolding e_def using cseq_search_found assms(6) by blast
  have "drop (Suc e) info = seq @ CR # behind" using d1 by blast
  from cseq_loop_seq [OF this assms(4), of "[]"] assms(3,5)
  have "cseq_loop info (Suc e) (replicate 16 NUL) 0 False = Inr (Suc e + length seq, Some seq)" by simp
  then have "cseq_loop info e (replicate 16 NUL) 0 False = Inr (Suc e + length seq, Some seq)"
    using d1 by (subst cseq_loop.simps) (simp add: c_at_simps)
  then show ?thesis unfolding get_cseq_def search by simp
qed

lemma deal_string_parses:
  assumes "request_ok m host path mid seq behind"
  shows "deal_string (request m host path mid seq behind) d =
    Inr (d\<lparr>rtype := m, addr := host, file_path := path, cseq := seq\<rparr>)"
proof -
  let ?info = "request m host path mid seq behind" and ?k = "length (method_name m)"
  let ?rest = "path @ '' RTSP/1.0'' @ CR # mid @ LF # ''CSeq: '' @ seq @ CR # behind"
  have ok: "m \<in> {OPTIONS, DESCRIBE, SETUP, PLAY}" "CHR ''/'' \<notin> set host" "NUL \<notin> set host" "length host < 128"
    "CHR '' '' \<notin> set path" "NUL \<notin> set path" "length path < 128" "path = [] \<or> hd path \<noteq> CHR ''/''"
    "find_sub ''CSeq:'' mid = None" "seq \<noteq> []" "{CHR '' '', CR, LF, NUL} \<inter> set seq = {}" "length seq < 16"
    "length ?info < 2 ^ 32"
    using assms unfolding request_ok_def by blast+
  have info: "?info = method_name m @ '' rtsp://'' @ host @ CHR ''/'' # ?rest" by (simp add: request_def)
  have t: "m = method_scan ?k ?info ERRORTYPE" unfolding info using method_scan_name(1) [OF ok(1)] by simp
  have "drop (?k + 8) ?info = host @ CHR ''/'' # ?rest"
    by (rule drop_prefix [of _ "method_name m @ '' rtsp://''"]) (simp_all add: request_def)
  moreover have "?rest = [] \<or> hd ?rest \<noteq> CHR ''/''" using ok(8) by (cases path) auto
  ultimately have a: "get_addr ?info (?k + 8) d' = Inr (?k + 8 + length host + 1, d'\<lparr>addr := host\<rparr>)" for d'
    using get_addr_found ok(2,3,4) by blast
  let ?p = "?k + 8 + length host + 1" and ?q = "?k + 8 + length host + 1 + length path + 1"
  have "drop ?p ?info = path @ CHR '' '' # ''RTSP/1.0'' @ CR # mid @ LF # ''CSeq: '' @ seq @ CR # behind"
    by (rule drop_prefix [of _ "method_name m @ '' rtsp://'' @ host @ ''/''"]) (simp_all add: request_def)
  then have f: "get_filepath ?info ?p d' = Inr (?q, d'\<lparr>file_path := path\<rparr>)" for d'
    using get_filepath_found ok(5,6,7) by blast
  have dq: "drop ?q ?info = (''RTSP/1.0'' @ CR # mid) @ LF # ''CSeq:'' @ CHR '' '' # seq @ CR # behind"
    by (rule drop_prefix [of _ "method_name m @ '' rtsp://'' @ host @ ''/'' @ path @ '' ''"]) (simp_all add: request_def)
  have none: "find_sub ''CSeq:'' (''RTSP/1.0'' @ CR # mid) = None" using ok(9) by (simp add: find_sub_sep)
  have c: "\<exists>p. get_cseq ?info ?q d' = Inr (p, d'\<lparr>cseq := seq\<rparr>)" for d' :: rtspinfo
    by (rule get_cseq_found [OF dq none ok(10-13)])
  obtain p where c: "get_cseq ?info ?q (d\<lparr>rtype := m, addr := host, file_path := path\<rparr>) =
      Inr (p, d\<lparr>rtype := m, addr := host, file_path := path, cseq := seq\<rparr>)"
    using c by blast
  have len: "length (method_name m @ '' rtsp://'' @ host @ CHR ''/'' # ?rest) < 2 ^ 32" using ok(13) unfolding info .
  have pos: "(?p = 0) = False" "(?q = 0) = False" "(m = ERRORTYPE) = False" using ok(1) by auto
  show ?thesis
    unfolding deal_string_method [OF len info t] Let_def pos(3) if_False a andThen_simps prod.case pos(1) f pos(2) c
    by (rule refl)
qed

text \<open>An address that fills its array leaves no room for a terminator or is written behind it.\<close>

lemma addr_loop_overflow:
  assumes "drop i info = host @ CHR ''/'' # rest" and "CHR ''/'' \<notin> set host" and "rest = [] \<or> hd rest \<noteq> CHR ''/''"
    and "NUL \<notin> set (done @ host)" and "length done \<le> 128" and "128 \<le> length (done @ host)"
  shows "addr_loop info i (done @ replicate (128 - length done) NUL) (length done) = Inl OutOfBounds"
  using assms
proof (induction host arbitrary: i "done")
  case Nil
  have i: "i < length info" "info ! i = CHR ''/''" "drop (Suc i) info = rest"
    using nth_drop_Cons [of i info] Nil.prems(1) by auto
  have "\<exists>c. c_at info (i + 1) = Inr c \<and> c \<noteq> CHR ''/''"
  proof (cases rest)
    case Nil
    then have "Suc i = length info" using i by simp
    then show ?thesis by (simp add: c_at_simps)
  next
    case (Cons c rest')
    then show ?thesis using nth_drop_Cons [of "Suc i" info c rest'] i(3) Nil.prems(3) by (simp add: c_at_simps)
  qed
  moreover have "c_string (done @ replicate (128 - length done) NUL) = Inl OutOfBounds"
    using Nil.prems by (simp add: c_string_def)
  ultimately show ?case using i by (subst addr_loop.simps) (auto simp: c_at_simps)
next
  case (Cons c host)
  have i: "i < length info" "info ! i = c" "drop (Suc i) info = host @ CHR ''/'' # rest"
    using nth_drop_Cons [of i info] Cons.prems(1) by auto
  have c: "c \<noteq> CHR ''/''" using Cons.prems(2) by auto
  show ?case
  proof (cases "length done < 128")
    case True
    have "addr_loop info (Suc i) ((done @ [c]) @ replicate (128 - length (done @ [c])) NUL) (length (done @ [c])) = Inl OutOfBounds"
      by (rule Cons.IH [OF i(3)]) (use Cons.prems True in simp_all)
    then show ?thesis
      using i c put_done [OF True, of c] by (subst addr_loop.simps) (simp add: c_at_simps)
  next
    case False
    then show ?thesis using i c Cons.prems(5) by (subst addr_loop.simps) (simp add: c_at_simps put_out)
  qed
qed

lemma find_number:
  assumes "x \<notin> set key" and "key \<noteq> []" and "find_sub key xs = None" and "n < 2 ^ 32" and "t = [] \<or> \<not> is_digit (hd t)"
  shows "number_behind key (xs @ x # key @ decimal n @ t) = n"
proof -
  have "find_sub key (xs @ x # key @ decimal n @ t) = Some (Suc (length xs))" by (rule find_sub_behind [OF assms(1-3)])
  moreover have "drop (Suc (length xs) + length key) (xs @ x # key @ decimal n @ t) = decimal n @ t"
    by (rule drop_prefix [of _ "xs @ x # key"]) simp_all
  ultimately show ?thesis using parse_decimal [OF assms(4,5)] by (simp add: number_behind_def)
qed

lemma session_line_fits: "session d < 2 ^ 32 \<Longrightarrow> session_line d = Inr (''Session: '' @ decimal (session d) @ crlf)"
  using length_decimal [of "session d" 10] by (simp add: session_line_def snprintf_s_def)

definition setup_reply :: "rtspinfo \<Rightarrow> string" where
  "setup_reply d = ''RTSP/1.0 200 OK'' @ crlf @ ''CSeq: '' @ cseq d @ crlf @
     ''Transport: RTP/AVP/TCP;interleaved=0-1'' @ crlf @ ''Session: '' @ decimal (session d) @ crlf"

lemma deal_setup_eq:
  "session d < 2 ^ 32 \<Longrightarrow> deal_setup info d = Inr (setup_reply d,
    d\<lparr>streamid := number_behind ''trackID='' info, clientport := number_behind ''client_port='' info\<rparr>)"
  using session_line_fits [of "d\<lparr>streamid := number_behind ''trackID='' info, clientport := number_behind ''client_port='' info\<rparr>"]
  by (simp add: deal_setup_def setup_reply_def)

section \<open>Properties\<close>

text \<open>C21. An \<open>OPTIONS\<close>, \<open>DESCRIBE\<close>, \<open>SETUP\<close> or \<open>PLAY\<close> request in the form of \<open>request_ok\<close>, with less than 128
  characters of address and of path and less than 16 of sequence number, is read back: type, address, path and
  sequence number, whatever the parser knew before and whatever other headers there are.\<close>

theorem deal_string_request:
  assumes "request_ok m host path mid seq behind"
  shows "deal_string (request m host path mid seq behind) d =
    Inr (d\<lparr>rtype := m, addr := host, file_path := path, cseq := seq\<rparr>)"
  by (rule deal_string_parses [OF assms])

theorem deal_string_request_witness:
  "\<forall>d. deal_string (request DESCRIBE ''10.0.0.1:1000'' ''test'' (LF # ''User-Agent: VLC'' @ [CR]) ''3'' (LF # crlf)) d =
    Inr (d\<lparr>rtype := DESCRIBE, addr := ''10.0.0.1:1000'', file_path := ''test'', cseq := ''3''\<rparr>)"
proof
  fix d
  have "request_ok DESCRIBE ''10.0.0.1:1000'' ''test'' (LF # ''User-Agent: VLC'' @ [CR]) ''3'' (LF # crlf)"
    by (simp add: request_ok_def request_def)
  then show "deal_string (request DESCRIBE ''10.0.0.1:1000'' ''test'' (LF # ''User-Agent: VLC'' @ [CR]) ''3'' (LF # crlf)) d =
    Inr (d\<lparr>rtype := DESCRIBE, addr := ''10.0.0.1:1000'', file_path := ''test'', cseq := ''3''\<rparr>)"
    by (rule deal_string_request)
qed

text \<open>C38. \<open>PAUSE\<close> and \<open>TEARDOWN\<close> are never recognised: such a request of any size below 4 GB only resets the type
  and is sent back as it came.\<close>

theorem pause_teardown_echoed:
  assumes "m \<in> {PAUSE, TEARDOWN}" and "length (method_name m @ '' rtsp://'' @ s) < 2 ^ 32"
  shows "deal_requset e g (method_name m @ '' rtsp://'' @ s) d =
    Inr (method_name m @ '' rtsp://'' @ s, d\<lparr>rtype := ERRORTYPE\<rparr>, g)"
  using deal_string_method [OF assms(2) refl refl, of d] method_scan_name(2) [OF assms(1), of s]
  by (simp add: deal_requset_def)

theorem pause_teardown_echoed_witness:
  "\<forall>e g d. deal_requset e g (method_name TEARDOWN @ '' rtsp://'' @ ''a/b RTSP/1.0'' @ crlf @ ''CSeq: 9'' @ crlf @ crlf) d =
    Inr (''TEARDOWN rtsp://a/b RTSP/1.0'' @ crlf @ ''CSeq: 9'' @ crlf @ crlf, d\<lparr>rtype := ERRORTYPE\<rparr>, g)"
proof (intro allI)
  fix e g d
  let ?s = "''a/b RTSP/1.0'' @ crlf @ ''CSeq: 9'' @ crlf @ crlf"
  have "TEARDOWN \<in> {PAUSE, TEARDOWN}" "length (method_name TEARDOWN @ '' rtsp://'' @ ?s) < 2 ^ 32" by simp_all
  from pause_teardown_echoed [OF this, of e g d]
  show "deal_requset e g (method_name TEARDOWN @ '' rtsp://'' @ ?s) d =
    Inr (''TEARDOWN rtsp://a/b RTSP/1.0'' @ crlf @ ''CSeq: 9'' @ crlf @ crlf, d\<lparr>rtype := ERRORTYPE\<rparr>, g)" by simp
qed

text \<open>Every \<open>SETUP\<close> request is accepted for interleaved TCP, also one that asks for another transport: the
  refusal is overwritten. The track number is read back from its decimal digits.\<close>

theorem deal_setup_accepts:
  assumes "session d < 2 ^ 32" and "info = xs @ x # ''trackID='' @ decimal n @ t" and "x \<notin> set ''trackID=''"
    and "find_sub ''trackID='' xs = None" and "n < 2 ^ 32" and "t = [] \<or> \<not> is_digit (hd t)"
  shows "\<exists>d'. deal_setup info d = Inr (setup_reply d, d') \<and> streamid d' = n"
  using deal_setup_eq [OF assms(1), of info] find_number [OF assms(3) _ assms(4-6)] by (simp add: assms(2))

theorem deal_setup_accepts_witness:
  "\<exists>d'. deal_setup (''SETUP rtsp://a/b'' @ CHR ''/'' # ''trackID='' @ decimal 1 @ '' RTSP/1.0'' @ crlf @
      ''Transport: RTP/AVP;unicast;client_port=5000-5001'' @ crlf @ crlf)
      \<lparr>rtype = SETUP, addr = ''a'', file_path = ''b'', cseq = ''2'', session = 5, streamid = 0, clientport = 0\<rparr> =
    Inr (''RTSP/1.0 200 OK'' @ crlf @ ''CSeq: 2'' @ crlf @ ''Transport: RTP/AVP/TCP;interleaved=0-1'' @ crlf @
      ''Session: '' @ decimal 5 @ crlf, d') \<and> streamid d' = 1"
  using deal_setup_accepts [of "\<lparr>rtype = SETUP, addr = ''a'', file_path = ''b'', cseq = ''2'', session = 5, streamid = 0, clientport = 0\<rparr>"
      _ "''SETUP rtsp://a/b''" "CHR ''/''" 1 "'' RTSP/1.0'' @ crlf @ ''Transport: RTP/AVP;unicast;client_port=5000-5001'' @ crlf @ crlf", OF _ refl]
  by (simp add: setup_reply_def is_digit_def)

text \<open>C40. An address of 128 characters or more in one of the four requests makes the parser leave its array of 128: a
  longer one is written behind it, one of exactly 128 characters is not terminated and read on behind it.\<close>

theorem deal_string_long_address:
  assumes "m \<in> {OPTIONS, DESCRIBE, SETUP, PLAY}" and "128 \<le> length host" and "{CHR ''/'', NUL} \<inter> set host = {}"
    and "rest = [] \<or> hd rest \<noteq> CHR ''/''" and "length (method_name m @ '' rtsp://'' @ host @ CHR ''/'' # rest) < 2 ^ 32"
  shows "deal_string (method_name m @ '' rtsp://'' @ host @ CHR ''/'' # rest) d = Inl OutOfBounds"
proof -
  let ?info = "method_name m @ '' rtsp://'' @ host @ CHR ''/'' # rest" and ?k = "length (method_name m)"
  have "drop (?k + 8) ?info = host @ CHR ''/'' # rest"
    by (rule drop_prefix [of _ "method_name m @ '' rtsp://''"]) simp_all
  from addr_loop_overflow [OF this _ assms(4), of "[]"] assms(2,3)
  have "addr_loop ?info (?k + 8) (replicate 128 NUL) 0 = Inl OutOfBounds" by simp
  then have a: "get_addr ?info (?k + 8) d' = Inl OutOfBounds" for d' by (simp add: get_addr_def)
  show ?thesis
    unfolding deal_string_method [OF assms(5) refl refl] method_scan_name(1) [OF assms(1)] Let_def a
    using assms(1) by auto
qed

theorem deal_string_long_address_witness:
  "\<forall>d. deal_string (method_name OPTIONS @ '' rtsp://'' @ replicate 128 (CHR ''x'') @ CHR ''/'' # []) d = Inl OutOfBounds"
proof
  fix d
  show "deal_string (method_name OPTIONS @ '' rtsp://'' @ replicate 128 (CHR ''x'') @ CHR ''/'' # []) d = Inl OutOfBounds"
    by (rule deal_string_long_address) simp_all
qed

end
