(* ===== verification/MediaSession.thy ===== *)
theory MediaSession
  imports RtspString
begin

text \<open>
  Sessions: \<open>MediaSession.cpp\<close>. A session collects the text of a request, has it answered and sends the packets
  of its stream. What it writes to the connection (\<open>bufferevent_write\<close> of libevent) is the list of written
  byte strings; what it reads is an argument, as are the performance counter and the system clock.
\<close>

section \<open>State\<close>

record SessionInfo =
  sessionid :: nat      \<comment> \<open>\<open>uint64_t\<close>\<close>
  mtype :: MediaType
  stype :: rtsp_type

record media_session =
  rs :: rtspinfo
  IsFullInit :: bool
  rtspinc :: string
  streamobj :: "h264_stream option"
  sinfo :: SessionInfo
  tick :: nat           \<comment> \<open>\<open>DWORD\<close>\<close>

text \<open>The constructor with a network; the parser, the session data and the tick are not initialised.\<close>

definition new_MediaSession :: "rtspinfo \<Rightarrow> SessionInfo \<Rightarrow> nat \<Rightarrow> media_session" where
  "new_MediaSession rs0 info0 tick0 =
     \<lparr>rs = rs0\<lparr>addr := [], file_path := [], cseq := []\<rparr>, IsFullInit = True, rtspinc = [], streamobj = None,
      sinfo = info0, tick = tick0\<rparr>"

text \<open>The service's global objects: session descriptions, disk and open files.\<close>

record service =
  sdp :: "sdp_list option"
  disk_of :: disk
  files :: file_manager

section \<open>Filling in a description\<close>

text \<open>\<open>while ((p = rtspinc.find(pat)) != npos) rtspinc.replace(p, n, text)\<close>.\<close>

partial_function (option) replace_loop :: "string \<Rightarrow> string \<Rightarrow> string \<Rightarrow> string option" where
  "replace_loop pat text s =
     (case find_sub pat s of
        None \<Rightarrow> Some s
      | Some p \<Rightarrow> replace_loop pat text (take p s @ text @ drop (p + length pat) s))"

definition replace_each :: "string \<Rightarrow> string \<Rightarrow> string \<Rightarrow> string res" where
  "replace_each pat text s = (case replace_loop pat text s of None \<Rightarrow> Inl NoReturn | Some s \<Rightarrow> Inr s)"

text \<open>\<open>p\<close> is an \<open>unsigned\<close>, so a missing end of the header counts from \<open>npos\<close>.\<close>

definition content_size :: "string \<Rightarrow> int" where
  "content_size s =
     s32 (int (length s) - (case find_sub (crlf @ crlf) s of None \<Rightarrow> 2 ^ 32 - 1 | Some p \<Rightarrow> int p))"

definition SetDescribe :: "nat \<Rightarrow> string \<Rightarrow> string res" where
  "SetDescribe sid s =
     andThen (snprintf_s 48 (decimal sid)) (\<lambda>SessionId.
     andThen (replace_each ''sessionforreplace'' SessionId s) (\<lambda>s.
     andThen (replace_each ''loadtype'' ''96'' s) (\<lambda>s.
     andThen (replace_at s (find_sub ''bandwidth'' s) 9 ''0'') (\<lambda>s.
     andThen (replace_at s (find_sub ''tmpforesid'' s) 10 ''201'') (\<lambda>s.
     andThen (replace_at s (find_sub ''tmpforstid'' s) 10 ''1'') (\<lambda>s.
     andThen (snprintf_s 48 (signed_decimal (s32 (content_size s - 4)))) (\<lambda>n.
     replace_at s (find_sub ''content_count'' s) 13 n)))))))"

section \<open>Packets for the connection\<close>

text \<open>\<open>TCPForH264\<close> until it answers with a packet. The loop ends only if a packet comes or a fault stops it.\<close>

partial_function (option) packet_loop ::
  "uninit \<Rightarrow> file_manager \<Rightarrow> h264_stream \<Rightarrow> (buffer \<times> file_manager \<times> h264_stream) res option" where
  "packet_loop m fm st =
     (case TCPForH264 m fm st of
        Inl e \<Rightarrow> Some (Inl e)
      | Inr (pt, fm, st) \<Rightarrow> if GetMtuValue pt \<le> 0 then packet_loop m fm st else Some (Inr (pt, fm, st)))"

definition next_packet :: "uninit \<Rightarrow> file_manager \<Rightarrow> h264_stream option \<Rightarrow> (buffer \<times> file_manager \<times> h264_stream) res" where
  "next_packet m fm st = (case st of None \<Rightarrow> Inl AssertFailed | Some st \<Rightarrow> returned (packet_loop m fm st))"

section \<open>Requests\<close>

definition text_bytes :: "string \<Rightarrow> byte list" where
  "text_bytes s = map of_char s"

text \<open>A \<open>DESCRIBE\<close> reply goes out in three pieces. \<open>p\<close> is an \<open>int\<close>, -1 without an end of the header.\<close>

definition write_describe :: "string \<Rightarrow> byte list list" where
  "write_describe s =
     (let p = (case find_sub (crlf @ crlf) s of None \<Rightarrow> -1 | Some p \<Rightarrow> int p) in
      [text_bytes (take (nat (p + 2)) s), text_bytes crlf, text_bytes (drop (nat (p + 4)) s)])"

definition media_file :: string where "media_file = CHR 0x5C # ''test.h264''"

text \<open>\<open>SETUP\<close>: a new stream on the one file, with its first block split into nodes.\<close>

definition setup_stream :: "uninit \<Rightarrow> service \<Rightarrow> (h264_stream \<times> MediaType \<times> service) res" where
  "setup_stream m g =
     (case CreateNew m ''.h264'' of
        (None, tp) \<Rightarrow> Inl NullPointer
      | (Some st, tp) \<Rightarrow>
          let st = st\<lparr>MediaInfo := (MediaInfo st)\<lparr>filename := media_file\<rparr>\<rparr> in
          andThen (MakeFileNode (disk_of g) (files g) (filename (MediaInfo st))) (\<lambda>(i, fm).
          let st = st\<lparr>fileindex := i\<rparr> in
          andThen (GetBufferFormFile fm (fileindex st) (filepos st) 10240) (\<lambda>(filebuf, fm).
          andThen (DevNode_shared filebuf 0 st) (\<lambda>st.
          Inr (st, tp, g\<lparr>files := fm\<rparr>)))))"

text \<open>What follows a request by its type: the reply, for \<open>SETUP\<close> a stream, for \<open>PLAY\<close> its first packet, which is not sent.\<close>

definition answer ::
  "uninit \<Rightarrow> nat \<Rightarrow> string \<Rightarrow> service \<Rightarrow> media_session \<Rightarrow> (byte list list \<times> service \<times> media_session) res" where
  "answer m now reply g ses =
     (case stype (sinfo ses) of
        DESCRIBE \<Rightarrow>
          andThen (SetDescribe (sessionid (sinfo ses)) reply) (\<lambda>reply. Inr (write_describe reply, g, ses))
      | SETUP \<Rightarrow>
          andThen (setup_stream m g) (\<lambda>(st, tp, g).
          Inr ([text_bytes reply, text_bytes crlf], g,
            ses\<lparr>streamobj := Some st, sinfo := (sinfo ses)\<lparr>mtype := tp\<rparr>\<rparr>))
      | PLAY \<Rightarrow>
          andThen (next_packet m (files g) (streamobj ses)) (\<lambda>(pt, fm, st).
          Inr ([text_bytes reply, text_bytes crlf], g\<lparr>files := fm\<rparr>,
            ses\<lparr>streamobj := Some (st\<lparr>IsPlay := True\<rparr>), tick := u32 (int now)\<rparr>))
      | _ \<Rightarrow> Inr ([text_bytes reply, text_bytes crlf], g, ses))"

text \<open>
  \<open>DealRtsp\<close>. \<open>dat\<close> is what \<open>bufferevent_read\<close> delivers, at most 1480 bytes; \<open>now\<close> is the tick count.
\<close>

definition DealRtsp ::
  "uninit \<Rightarrow> sdp_env \<Rightarrow> nat \<Rightarrow> string \<Rightarrow> service \<Rightarrow> media_session \<Rightarrow> (byte list list \<times> service \<times> media_session) res" where
  "DealRtsp m e now dat g ses =
     (if dat = [] then Inr ([], g, ses)
      else
        let pstring = take 1480 dat @ replicate (1480 - length dat) NUL in
        if hd pstring = CHR ''$'' then Inr ([], g, ses)
        else andThen (c_string pstring) (\<lambda>s.
        let ses = ses\<lparr>rtspinc := rtspinc ses @ s\<rparr> in
        if find_sub (crlf @ crlf) (rtspinc ses) = None then Inr ([], g, ses)
        else andThen (deal_requset e (sdp g, disk_of g) (rtspinc ses) (rs ses)) (\<lambda>(reply, d, sdp', disk').
          let g = g\<lparr>sdp := sdp', disk_of := disk'\<rparr>;
              ses = ses\<lparr>rs := d, rtspinc := reply, sinfo := (sinfo ses)\<lparr>stype := rtype d\<rparr>\<rparr> in
          andThen (answer m now reply g ses) (\<lambda>(out, g, ses). Inr (out, g, ses\<lparr>rtspinc := []\<rparr>)))))"

definition Recv ::
  "uninit \<Rightarrow> sdp_env \<Rightarrow> nat \<Rightarrow> string \<Rightarrow> service \<Rightarrow> media_session \<Rightarrow> (byte list list \<times> service \<times> media_session) res" where
  "Recv m e now dat g ses = DealRtsp m e now dat g ses"

section \<open>Sending\<close>

definition session_IsPlay :: "media_session \<Rightarrow> bool" where
  "session_IsPlay ses \<longleftrightarrow> stype (sinfo ses) = PLAY"

text \<open>The busy wait: \<open>clock k\<close> is the \<open>k\<close>-th reading of the tick count. The sleep behind it is not conditional.\<close>

partial_function (option) wait_loop :: "(nat \<Rightarrow> nat) \<Rightarrow> nat \<Rightarrow> nat \<Rightarrow> int \<Rightarrow> nat option" where
  "wait_loop clock k start bound =
     (if int (u32 (int (clock k) - int start)) < bound then wait_loop clock (k + 1) start bound else Some k)"

definition Send ::
  "uninit \<Rightarrow> (nat \<Rightarrow> nat) \<Rightarrow> service \<Rightarrow> media_session \<Rightarrow> (byte list list \<times> service \<times> media_session) res" where
  "Send m clock g ses =
     (if session_IsPlay ses then
        (case streamobj ses of
           None \<Rightarrow> Inl NullPointer
         | Some st \<Rightarrow>
             if IsPlay st then
               andThen (next_packet m (files g) (Some st)) (\<lambda>(pt, fm, st).
               case wait_loop clock 0 (tick ses) (s64 (frame_count (MediaInfo st) * 1000 * 2 * fps (MediaInfo st))) of
                 None \<Rightarrow> Inl NoReturn
               | Some k \<Rightarrow> Inr ([take (GetSizeValue pt) (GetBuffer pt)], g\<lparr>files := fm\<rparr>, ses\<lparr>streamobj := Some st\<rparr>))
             else Inr ([], g, ses))
      else Inr ([], g, ses))"

definition GetSessionID :: "media_session \<Rightarrow> nat" where
  "GetSessionID ses = sessionid (sinfo ses)"

section \<open>The session list\<close>

text \<open>
  Sessions live on a heap; the list maps their ids to pointers. \<open>operator[]\<close> puts a null pointer under a
  missing id. An access to a freed session is outside every object.
\<close>

record sessions =
  SessionList :: "nat \<rightharpoonup> nat option"
  session_heap :: "nat \<rightharpoonup> media_session"

text \<open>The list is made on first use. Nothing ever deletes it, so its destructor does not run.\<close>

definition MediaSessionList_GetInstance :: "sessions option \<Rightarrow> sessions \<times> sessions option" where
  "MediaSessionList_GetInstance slist =
     (case slist of
        None \<Rightarrow> (let l = \<lparr>SessionList = Map.empty, session_heap = Map.empty\<rparr> in (l, Some l))
      | Some l \<Rightarrow> (l, slist))"

text \<open>The id is the value of the performance counter; an id in use is not inserted again.\<close>

definition GenSessionID :: "int \<Rightarrow> nat" where
  "GenSessionID counter = nat (counter mod 2 ^ 64)"

definition SessionInsert :: "int \<Rightarrow> nat \<Rightarrow> sessions \<Rightarrow> (bool \<times> sessions) res" where
  "SessionInsert counter a l =
     (case session_heap l a of
        None \<Rightarrow> Inl OutOfBounds
      | Some ses \<Rightarrow>
          let sid = GenSessionID counter;
              l = l\<lparr>session_heap := (session_heap l)(a \<mapsto> ses\<lparr>sinfo := (sinfo ses)\<lparr>sessionid := sid\<rparr>\<rparr>)\<rparr> in
          Inr (True, if SessionList l sid = None then l\<lparr>SessionList := (SessionList l)(sid \<mapsto> Some a)\<rparr> else l))"

definition SessionGet :: "nat \<Rightarrow> sessions \<Rightarrow> (nat option \<times> sessions) res" where
  "SessionGet sid l =
     (let l = (if SessionList l sid = None then l\<lparr>SessionList := (SessionList l)(sid \<mapsto> None)\<rparr> else l) in
      case the (SessionList l sid) of
        None \<Rightarrow> Inl NullPointer
      | Some a \<Rightarrow> (case session_heap l a of
          None \<Rightarrow> Inl OutOfBounds
        | Some ses \<Rightarrow>
            if IsFullInit ses then Inr (Some a, l)
            else Inr (None, \<lparr>SessionList = (SessionList l)(sid := None), session_heap = (session_heap l)(a := None)\<rparr>)))"

definition SessionDel :: "nat \<Rightarrow> sessions \<Rightarrow> (bool \<times> sessions) res" where
  "SessionDel sid l =
     andThen (SessionGet sid l) (\<lambda>(r, l).
     case r of
       None \<Rightarrow> Inr (False, l)
     | Some a \<Rightarrow> Inr (True, \<lparr>SessionList = (SessionList l)(sid := None), session_heap = (session_heap l)(a := None)\<rparr>))"

end
