(* ===== verification/DescribeReply.thy ===== *)
theory DescribeReply
  imports MediaSession
begin

text \<open>
  What \<open>SetDescribe\<close> and \<open>DealRtsp\<close> of \<open>MediaSession.cpp\<close> make of a \<open>DESCRIBE\<close> request: the replacement loop ends and
  replaces each occurrence, and the reply is complete, its \<open>Content-Length\<close> the length of its body.
\<close>

section \<open>The replacement loop\<close>

text \<open>Each occurrence from left to right, as one pass over the text.\<close>

function fill_word :: "string \<Rightarrow> string \<Rightarrow> string \<Rightarrow> string" where
  "fill_word pat new s =
     (case s of
        [] \<Rightarrow> []
      | c # s' \<Rightarrow> if prefix pat s \<and> pat \<noteq> [] then new @ fill_word pat new (drop (length pat) s)
                  else c # fill_word pat new s')"
  by pat_completeness auto
termination
  by (relation "measure (\<lambda>(pat, new, s). length s)") auto

declare fill_word.simps [simp del]

lemma fill_word_simps [simp]:
  "fill_word pat new [] = []"
  "\<not> prefix pat (c # s) \<Longrightarrow> fill_word pat new (c # s) = c # fill_word pat new s"
  "pat \<noteq> [] \<Longrightarrow> fill_word pat new (pat @ s) = new @ fill_word pat new s"
  by (subst fill_word.simps, simp)+ (subst fill_word.simps, cases pat, auto)

lemma fill_word_none: "find_sub pat s = None \<Longrightarrow> fill_word pat new s = s"
  by (induction s) (auto split: if_splits)

lemma fill_word_sep:
  assumes "x \<notin> set pat" and "pat \<noteq> []"
  shows "fill_word pat new (xs @ x # ys) = fill_word pat new xs @ x # fill_word pat new ys"
proof (induction xs rule: length_induct)
  case (1 xs)
  show ?case
  proof (cases xs)
    case Nil
    have "\<not> prefix pat (x # ys)" using assms by (cases pat) auto
    then show ?thesis using Nil by simp
  next
    case (Cons c xs')
    show ?thesis
    proof (cases "prefix pat xs")
      case True
      then obtain zs where zs: "xs = pat @ zs" by (auto simp: prefix_def)
      have "length zs < length xs" using zs assms(2) by simp
      then show ?thesis using 1 zs assms(2) by simp
    next
      case False
      then have "\<not> prefix pat (xs @ x # ys)" using prefix_sep [OF assms(1)] by blast
      then show ?thesis using 1 Cons False by simp
    qed
  qed
qed

lemma fill_word_found:
  assumes "find_sub pat s = Some i" and "pat \<noteq> []"
  shows "fill_word pat new s = take i s @ new @ fill_word pat new (drop (i + length pat) s)"
  using assms(1)
proof (induction s arbitrary: i)
  case (Cons c s)
  show ?case
  proof (cases "prefix pat (c # s)")
    case True
    then obtain zs where "c # s = pat @ zs" by (auto simp: prefix_def)
    moreover have "i = 0" using Cons.prems True by simp
    ultimately show ?thesis using assms(2) by simp
  next
    case False
    then show ?thesis using Cons by auto
  qed
qed (use assms(2) in auto)

lemma replace_loop_behind:
  assumes "pat \<noteq> []" and "new \<noteq> []" and "set new \<inter> set pat = {}" and "find_sub pat xs = None" and "x \<notin> set pat"
  shows "replace_loop pat new (xs @ x # s) = Some (xs @ x # fill_word pat new s)"
  using assms(4,5)
proof (induction "length s" arbitrary: xs x s rule: less_induct)
  case less
  have find: "find_sub pat (xs @ x # s) = map_option (\<lambda>i. Suc (length xs + i)) (find_sub pat s)"
    using find_sub_sep [OF less.prems(2) assms(1)] less.prems(1) by simp
  show ?case
  proof (cases "find_sub pat s")
    case None
    then show ?thesis using find by (subst replace_loop.simps) (simp add: fill_word_none)
  next
    case (Some i)
    obtain t y where t: "new = t @ [y]" using assms(2) by (cases new rule: rev_cases) auto
    have y: "y \<notin> set pat" using assms(3) t by auto
    have i: "prefix pat (drop i s)" using find_sub_Some [OF Some] by simp
    then have short: "length (drop (i + length pat) s) < length s"
      using assms(1) find_sub_Some [OF Some] prefix_length_le [OF i] by (cases pat) auto
    have none: "find_sub pat (take i s) = None"
    proof -
      have "\<not> sublist pat (take i s)"
      proof
        assume "sublist pat (take i s)"
        then obtain ps ss where "take i s = ps @ pat @ ss" by (auto simp: sublist_def)
        then have ps: "s = ps @ pat @ (ss @ drop i s)" using append_take_drop_id [of i s] by simp
        have "length ps < length (take i s)" using \<open>take i s = ps @ pat @ ss\<close> assms(1) by simp
        then have "length ps < i" by simp
        have "prefix pat (drop (length ps) s)" by (subst ps) simp
        then show False using find_sub_first [OF Some \<open>length ps < i\<close>] by simp
      qed
      then show ?thesis by (simp add: find_sub_None)
    qed
    have "find_sub pat (take i s @ t) = None"
    proof (cases t)
      case (Cons z t')
      have "find_sub pat u = None" if "set u \<inter> set pat = {}" for u
        using that assms(1) hd_in_set [OF assms(1)] by (intro find_sub_absent [of "hd pat"]) auto
      then show ?thesis
        using none find_sub_sep [OF _ assms(1), of z "take i s" t'] assms(3) t Cons by auto
    qed (use none in simp)
    then have before: "find_sub pat (xs @ x # take i s @ t) = None"
      using find_sub_sep [OF less.prems(2) assms(1)] less.prems(1) by simp
    have "replace_loop pat new (xs @ x # s) = replace_loop pat new ((xs @ x # take i s @ t) @ y # drop (i + length pat) s)"
      using find Some t by (subst replace_loop.simps) simp
    also have "\<dots> = Some ((xs @ x # take i s @ t) @ y # fill_word pat new (drop (i + length pat) s))"
      by (rule less.hyps [OF short before y])
    finally show ?thesis using fill_word_found [OF Some assms(1)] t by simp
  qed
qed

lemma replace_each_fills:
  assumes "pat \<noteq> []" and "new \<noteq> []" and "set new \<inter> set pat = {}" and "find_sub pat xs = None" and "x \<notin> set pat"
  shows "replace_each pat new (xs @ x # s) = Inr (xs @ x # fill_word pat new s)"
  using replace_loop_behind [OF assms] by (simp add: replace_each_def)

section \<open>The description with all its fields\<close>

text \<open>The reply of \<open>deal_describe\<close>, cut at the fields that \<open>SetDescribe\<close> fills.\<close>

definition reply_head :: "rtspinfo \<Rightarrow> string" where
  "reply_head d = ''RTSP/1.0 200 OK'' @ crlf @ ''CSeq: '' @ cseq d @ crlf @ ''Server: ltRtspService'' @ crlf @
     ''Content-Base: rtsp://'' @ addr d @ ''/'' @ file_path d @ crlf @ ''Content-Type: application/sdp'' @ crlf @ ''Content-Length:''"

definition body_start :: "string \<Rightarrow> string \<Rightarrow> string \<Rightarrow> string" where
  "body_start sid load name = ''v=0'' @ crlf @ ''o=- '' @ sid @ '' '' @ sid @ '' IN IP4 127.0.0.1'' @ crlf @ ''s='' @ name @ crlf @
     ''c=IN IP4 127.0.0.1'' @ crlf @ ''t=0 0'' @ crlf @ ''a=control:*'' @ crlf @ ''m=video 0 RTP/AVP '' @ load @ crlf @ ''b=AS''"

definition body_media :: "string \<Rightarrow> string \<Rightarrow> string \<Rightarrow> string \<Rightarrow> string" where
  "body_media load profile params rect = crlf @ ''a=rtpmap:'' @ load @ '' H264/90000'' @ crlf @
     ''a=fmtp:'' @ load @ '' profile-level-id='' @ profile @ ''; sprop-parameter-sets='' @ params @ ''; packtization-mode=1;'' @ crlf @
     ''a=cliprect:'' @ rect @ crlf @ ''a=mpeg4-esid''"

type_synonym sdp_word = string

definition body_text ::
  "sdp_word \<Rightarrow> sdp_word \<Rightarrow> sdp_word \<Rightarrow> sdp_word \<Rightarrow> sdp_word \<Rightarrow> sdp_word \<Rightarrow> sdp_word \<Rightarrow> sdp_word \<Rightarrow> sdp_word \<Rightarrow> string" where
  "body_text sid load band esid stid name profile params rect =
     body_start sid load name @ CHR '':'' # band @ body_media load profile params rect @ CHR '':'' # esid @
     crlf @ ''a=control:trackID'' @ CHR ''='' # stid @ crlf"

definition reply_text :: "rtspinfo \<Rightarrow> string \<Rightarrow> string \<Rightarrow> string" where
  "reply_text d count body = reply_head d @ CHR '' '' # count @ crlf @ crlf @ body"

lemma sdp_text_body:
  "sdp_text name profile params rect =
    body_text ''sessionforreplace'' ''loadtype'' ''bandwidth'' ''tmpforesid'' ''tmpforstid'' name profile params rect"
  by (simp add: sdp_text_def sdp_head_def head_before_def head_behind_def sdp_tail_def body_text_def body_start_def body_media_def)

text \<open>The texts of a request and of a description that have none of the words and no line end.\<close>

definition plain_head :: "rtspinfo \<Rightarrow> bool" where
  "plain_head d \<longleftrightarrow> name_ok (cseq d) \<and> name_ok (addr d) \<and> name_ok (file_path d)"

definition reply_words :: "string set" where
  "reply_words = {''sessionforreplace'', ''loadtype'', ''bandwidth'', ''tmpforesid'', ''tmpforstid'', ''content_count''}"

lemma name_ok_word: "name_ok s \<Longrightarrow> pat \<in> reply_words \<Longrightarrow> find_sub pat s = None"
  by (auto simp: name_ok_def reply_words_def)

lemma name_ok_crlf: "name_ok s \<Longrightarrow> CR \<notin> set s"
  by (simp add: name_ok_def)

lemma name_ok_digits: "(\<forall>c \<in> set s. is_digit c) \<Longrightarrow> name_ok s"
proof -
  assume d: "\<forall>c \<in> set s. is_digit c"
  then have "c \<notin> set s" if "\<not> is_digit c" for c using that by blast
  then show ?thesis
    unfolding name_ok_def
    by (intro conjI ballI, elim insertE emptyE)
      (auto intro: find_sub_absent [of "CHR ''e''"] find_sub_absent [of "CHR ''i''"] find_sub_absent [of "CHR ''o''"] simp: is_digit_def)
qed

lemma name_ok_decimal: "name_ok (decimal n)"
  using radix_10_digits by (auto intro: name_ok_digits simp: decimal_def)

lemma word_in_reply:
  assumes "pat \<in> reply_words" and "plain_head d"
  shows "find_sub pat (reply_head d) = None"
proof -
  have n: "find_sub pat (cseq d) = None" "find_sub pat (addr d) = None" "find_sub pat (file_path d) = None"
    using assms by (auto simp: plain_head_def intro: name_ok_word)
  show ?thesis using assms(1) n unfolding reply_words_def by (elim insertE emptyE) (simp_all add: reply_head_def find_sub_sep)
qed

lemma word_in_start:
  assumes "pat \<in> reply_words" and "find_sub pat sid = None" and "find_sub pat load = None" and "name_ok name"
  shows "find_sub pat (body_start sid load name) = None"
proof -
  have n: "find_sub pat name = None" using assms by (auto intro: name_ok_word)
  show ?thesis using assms(1-3) n unfolding reply_words_def by (elim insertE emptyE) (simp_all add: body_start_def find_sub_sep)
qed

lemma word_in_media:
  assumes "pat \<in> reply_words" and "find_sub pat load = None" and "name_ok profile" and "name_ok params" and "name_ok rect"
  shows "find_sub pat (body_media load profile params rect) = None"
proof -
  have n: "find_sub pat profile = None" "find_sub pat params = None" "find_sub pat rect = None" using assms by (auto intro: name_ok_word)
  show ?thesis using assms(1,2) n unfolding reply_words_def by (elim insertE emptyE) (simp_all add: body_media_def find_sub_sep)
qed

text \<open>Both loops of \<open>SetDescribe\<close> on the reply.\<close>

lemma fill_word_Cons:
  "pat \<noteq> [] \<Longrightarrow> fill_word pat new (c # s) =
    (if prefix pat (c # s) then new @ fill_word pat new (drop (length pat) (c # s)) else c # fill_word pat new s)"
  by (subst fill_word.simps) simp

lemma fill_session:
  assumes "name_ok name" and "name_ok profile" and "name_ok params" and "name_ok rect"
  shows "fill_word ''sessionforreplace'' sid (''content_count'' @ crlf @ crlf @
      body_text ''sessionforreplace'' ''loadtype'' ''bandwidth'' ''tmpforesid'' ''tmpforstid'' name profile params rect) =
    ''content_count'' @ crlf @ crlf @ body_text sid ''loadtype'' ''bandwidth'' ''tmpforesid'' ''tmpforstid'' name profile params rect"
proof -
  have pat: "''sessionforreplace'' \<in> reply_words" by (simp add: reply_words_def)
  note n = assms [THEN name_ok_word, OF pat, THEN fill_word_none]
  show ?thesis by (simp add: body_text_def body_start_def body_media_def fill_word_Cons fill_word_sep n)
qed

lemma fill_load:
  assumes "name_ok sid" and "name_ok name" and "name_ok profile" and "name_ok params" and "name_ok rect"
  shows "fill_word ''loadtype'' load (''content_count'' @ crlf @ crlf @
      body_text sid ''loadtype'' ''bandwidth'' ''tmpforesid'' ''tmpforstid'' name profile params rect) =
    ''content_count'' @ crlf @ crlf @ body_text sid load ''bandwidth'' ''tmpforesid'' ''tmpforstid'' name profile params rect"
proof -
  have pat: "''loadtype'' \<in> reply_words" by (simp add: reply_words_def)
  note n = assms [THEN name_ok_word, OF pat, THEN fill_word_none]
  show ?thesis by (simp add: body_text_def body_start_def body_media_def fill_word_Cons fill_word_sep n)
qed

lemma loop_session:
  assumes "plain_head d" and "name_ok name" and "name_ok profile" and "name_ok params" and "name_ok rect" and "sid \<noteq> []"
    and "\<forall>c \<in> set sid. is_digit c"
  shows "replace_each ''sessionforreplace'' sid (reply_text d ''content_count''
      (body_text ''sessionforreplace'' ''loadtype'' ''bandwidth'' ''tmpforesid'' ''tmpforstid'' name profile params rect)) =
    Inr (reply_text d ''content_count'' (body_text sid ''loadtype'' ''bandwidth'' ''tmpforesid'' ''tmpforstid'' name profile params rect))"
proof -
  have pat: "''sessionforreplace'' \<in> reply_words" by (simp add: reply_words_def)
  have "set sid \<inter> set ''sessionforreplace'' = {}" using assms(7) by (auto simp: is_digit_def)
  from replace_each_fills [OF _ assms(6) this word_in_reply [OF pat assms(1)], of "CHR '' ''"]
  show ?thesis by (simp add: reply_text_def fill_session [OF assms(2-5), simplified])
qed

lemma loop_load:
  assumes "plain_head d" and "name_ok sid" and "name_ok name" and "name_ok profile" and "name_ok params" and "name_ok rect"
  shows "replace_each ''loadtype'' ''96'' (reply_text d ''content_count''
      (body_text sid ''loadtype'' ''bandwidth'' ''tmpforesid'' ''tmpforstid'' name profile params rect)) =
    Inr (reply_text d ''content_count'' (body_text sid ''96'' ''bandwidth'' ''tmpforesid'' ''tmpforstid'' name profile params rect))"
proof -
  have pat: "''loadtype'' \<in> reply_words" by (simp add: reply_words_def)
  from replace_each_fills [of "''loadtype''" "''96''", OF _ _ _ word_in_reply [OF pat assms(1)], of "CHR '' ''"]
  show ?thesis by (simp add: reply_text_def fill_load [OF assms(2-6), simplified])
qed

text \<open>The searches for single words.\<close>

lemma find_sub_none_sep:
  "x \<notin> set pat \<Longrightarrow> pat \<noteq> [] \<Longrightarrow> find_sub pat xs = None \<Longrightarrow> find_sub pat ys = None \<Longrightarrow> find_sub pat (xs @ x # ys) = None"
  by (simp add: find_sub_sep)

lemma replace_word:
  assumes "s = xs @ x # pat @ ys" and "x \<notin> set pat" and "pat \<noteq> []" and "find_sub pat xs = None" and "n = length pat"
  shows "replace_at s (find_sub pat s) n new = Inr (xs @ x # new @ ys)"
  unfolding assms(1) by (rule replace_behind [OF assms(2-5)])

lemma word_in_front:
  assumes "pat \<in> reply_words - {''content_count''}" and "plain_head d" and "name_ok sid" and "name_ok load" and "name_ok name"
  shows "find_sub pat (reply_head d @ CHR '' '' # ''content_count'' @ crlf @ crlf @ body_start sid load name) = None"
proof -
  have pat: "pat \<in> reply_words" using assms(1) by simp
  have n: "find_sub pat (reply_head d) = None" "find_sub pat (body_start sid load name) = None"
    using word_in_reply [OF pat assms(2)] word_in_start [OF pat _ _ assms(5)] name_ok_word [OF _ pat] assms(3,4) by auto
  show ?thesis using assms(1) n unfolding reply_words_def by (elim DiffE insertE emptyE) (simp_all add: find_sub_sep)
qed

lemma replace_bandwidth:
  assumes "plain_head d" and "name_ok sid" and "name_ok load" and "name_ok name"
  shows "replace_at (reply_text d ''content_count'' (body_text sid load ''bandwidth'' esid stid name profile params rect))
      (find_sub ''bandwidth'' (reply_text d ''content_count'' (body_text sid load ''bandwidth'' esid stid name profile params rect))) 9 band =
    Inr (reply_text d ''content_count'' (body_text sid load band esid stid name profile params rect))"
  using replace_word [OF refl, where x = "CHR '':''" and pat = "''bandwidth''" and n = 9, OF _ _ word_in_front [OF _ assms]]
  by (simp add: reply_text_def body_text_def reply_words_def)

lemma word_in_media_part:
  assumes "pat \<in> {''tmpforesid'', ''tmpforstid''}" and "plain_head d" and "name_ok sid" and "name_ok load" and "name_ok name"
    and "name_ok band" and "name_ok profile" and "name_ok params" and "name_ok rect"
  shows "find_sub pat (reply_head d @ CHR '' '' # ''content_count'' @ crlf @ crlf @ body_start sid load name @ CHR '':'' # band @
    body_media load profile params rect) = None"
proof -
  have pat: "pat \<in> reply_words" and pat': "pat \<in> reply_words - {''content_count''}" using assms(1) by (auto simp: reply_words_def)
  obtain s where s: "body_media load profile params rect = CR # s" by (auto simp: body_media_def)
  have "find_sub pat (body_media load profile params rect) = None"
    using word_in_media [OF pat _ assms(7-9)] name_ok_word [OF assms(4) pat] by simp
  moreover have "find_sub pat band = None" using name_ok_word [OF assms(6) pat] .
  moreover have sep: "CR \<notin> set pat" "CHR '':'' \<notin> set pat" "pat \<noteq> []" using assms(1) by auto
  ultimately have "find_sub pat (band @ CR # s) = None" "find_sub pat (CR # s) = None"
    using find_sub_sep [OF sep(1,3), of band s] find_sub_sep [OF sep(1,3), of "[]" s] s by (auto split: option.splits)
  then have "find_sub pat ((reply_head d @ CHR '' '' # ''content_count'' @ crlf @ crlf @ body_start sid load name) @ CHR '':'' # band @ CR # s) = None"
    unfolding find_sub_sep [OF sep(2,3)] word_in_front [OF pat' assms(2-5)] by simp
  then show ?thesis by (simp add: s)
qed

lemma replace_esid:
  assumes "plain_head d" and "name_ok sid" and "name_ok load" and "name_ok name" and "name_ok band" and "name_ok profile" and "name_ok params" and "name_ok rect"
  shows "replace_at (reply_text d ''content_count'' (body_text sid load band ''tmpforesid'' stid name profile params rect))
      (find_sub ''tmpforesid'' (reply_text d ''content_count'' (body_text sid load band ''tmpforesid'' stid name profile params rect))) 10 esid =
    Inr (reply_text d ''content_count'' (body_text sid load band esid stid name profile params rect))"
  using replace_word [OF refl, where x = "CHR '':''" and pat = "''tmpforesid''" and n = 10, OF _ _ word_in_media_part [OF _ assms]]
  by (simp add: reply_text_def body_text_def)

lemma replace_stid:
  assumes "plain_head d" and "name_ok sid" and "name_ok load" and "name_ok name" and "name_ok band" and "name_ok profile" and "name_ok params" and "name_ok rect"
    and "name_ok esid"
  shows "replace_at (reply_text d ''content_count'' (body_text sid load band esid ''tmpforstid'' name profile params rect))
      (find_sub ''tmpforstid'' (reply_text d ''content_count'' (body_text sid load band esid ''tmpforstid'' name profile params rect))) 10 stid =
    Inr (reply_text d ''content_count'' (body_text sid load band esid stid name profile params rect))"
proof -
  let ?pat = "''tmpforstid''" and ?xs = "reply_head d @ CHR '' '' # ''content_count'' @ crlf @ crlf @ body_start sid load name @ CHR '':'' # band @
    body_media load profile params rect"
  have "find_sub ?pat ?xs = None" by (rule word_in_media_part) (use assms in simp_all)
  moreover have "find_sub ?pat esid = None" using assms(9) by (rule name_ok_word) (simp add: reply_words_def)
  then have "find_sub ?pat (esid @ crlf @ ''a=control:trackID'') = None" by (simp add: find_sub_sep)
  ultimately have "find_sub ?pat (?xs @ CHR '':'' # esid @ crlf @ ''a=control:trackID'') = None"
    by (rule find_sub_none_sep [rotated 2]) simp_all
  from replace_word [OF refl, where x = "CHR ''=''" and pat = ?pat and n = 10, OF _ _ this]
  show ?thesis by (simp add: reply_text_def body_text_def)
qed

lemma replace_count:
  assumes "plain_head d"
  shows "replace_at (reply_text d ''content_count'' body) (find_sub ''content_count'' (reply_text d ''content_count'' body)) 13 n =
    Inr (reply_text d n body)"
  using replace_word [OF refl, where x = "CHR '' ''" and pat = "''content_count''" and n = 13, OF _ _ word_in_reply [OF _ assms]]
  by (simp add: reply_text_def reply_words_def)

text \<open>The end of the header.\<close>

lemma find_sub_skip:
  assumes "x \<notin> set xs"
  shows "find_sub (x # pat) (xs @ ys) = map_option (\<lambda>i. length xs + i) (find_sub (x # pat) ys)"
  using assms by (induction xs; cases "find_sub (x # pat) ys") auto

lemma header_end:
  assumes "CR \<notin> set (cseq d)" and "CR \<notin> set (addr d)" and "CR \<notin> set (file_path d)" and "CR \<notin> set count"
  shows "find_sub (crlf @ crlf) (reply_text d count body) = Some (length (reply_head d @ CHR '' '' # count))"
  using assms by (simp add: reply_text_def reply_head_def find_sub_skip)

lemma content_size_body:
  assumes "plain_head d" and "length (reply_text d ''content_count'' body) < 2 ^ 31"
  shows "s32 (content_size (reply_text d ''content_count'' body) - 4) = int (length body)"
proof -
  have "find_sub (crlf @ crlf) (reply_text d ''content_count'' body) = Some (length (reply_head d @ CHR '' '' # ''content_count''))"
    by (rule header_end) (use assms(1) in \<open>auto simp: plain_head_def dest: name_ok_crlf\<close>)
  moreover have "int (length (reply_text d ''content_count'' body)) - int (length (reply_head d @ CHR '' '' # ''content_count'')) = int (length body) + 4"
    by (simp add: reply_text_def)
  moreover have "length body + 4 < 2 ^ 31" using assms(2) by (simp add: reply_text_def)
  ultimately show ?thesis by (simp only: content_size_def option.case) (simp add: s32_id)
qed

lemma SetDescribe_text:
  assumes "plain_head d" and "name_ok name" and "name_ok profile" and "name_ok params" and "name_ok rect" and "sid < 2 ^ 64"
    and "body = body_text (decimal sid) ''96'' ''0'' ''201'' ''1'' name profile params rect"
    and "length (reply_text d ''content_count'' body) < 2 ^ 31"
  shows "SetDescribe sid (reply_text d ''content_count'' (sdp_text name profile params rect)) =
    Inr (reply_text d (decimal (length body)) body)"
proof -
  let ?sid = "decimal sid"
  have digits: "\<forall>c \<in> set ?sid. is_digit c" using radix_10_digits by (auto simp: decimal_def)
  have ne: "?sid \<noteq> []" by (simp add: decimal_def radix.simps [of 10 sid])
  have ok: "name_ok ?sid" "name_ok ''96''" "name_ok ''0''" "name_ok ''201''" by (simp_all add: name_ok_decimal name_ok_digits is_digit_def)
  have f1: "snprintf_s 48 ?sid = Inr ?sid"
    using length_decimal [of sid 20] assms(6) by (simp add: snprintf_s_def)
  have "length body < 10 ^ 10" using assms(8) by (simp add: reply_text_def)
  then have f2: "snprintf_s 48 (signed_decimal (int (length body))) = Inr (decimal (length body))"
    using length_decimal [of "length body" 10] by (simp add: snprintf_s_def signed_decimal_def)
  note steps = f1 loop_session [OF assms(1-5) ne digits] loop_load [OF assms(1) ok(1) assms(2-5)]
    replace_bandwidth [OF assms(1) ok(1,2) assms(2)]
    replace_esid [OF assms(1) ok(1,2) assms(2) ok(3) assms(3-5)]
    replace_stid [OF assms(1) ok(1,2) assms(2) ok(3) assms(3-5) ok(4)]
  show ?thesis
    unfolding SetDescribe_def sdp_text_body steps andThen_simps
    unfolding assms(7) [symmetric] content_size_body [OF assms(1,8)] f2 andThen_simps replace_count [OF assms(1)] by (rule refl)
qed

lemma write_describe_split:
  assumes "find_sub (crlf @ crlf) s = Some (length h)" and "s = h @ crlf @ crlf @ body"
  shows "write_describe s = [text_bytes (h @ crlf), text_bytes crlf, text_bytes body]"
  using assms by (simp add: write_describe_def nat_add_distrib)

lemma write_describe_text:
  assumes "plain_head d"
  shows "write_describe (reply_text d (decimal n) body) =
    [text_bytes (reply_head d @ CHR '' '' # decimal n @ crlf), text_bytes crlf, text_bytes body]"
proof -
  have "find_sub (crlf @ crlf) (reply_text d (decimal n) body) = Some (length (reply_head d @ CHR '' '' # decimal n))"
    by (rule header_end) (use assms name_ok_decimal in \<open>auto simp: plain_head_def dest: name_ok_crlf\<close>)
  from write_describe_split [OF this, of body] show ?thesis by (simp add: reply_text_def)
qed

lemma deal_requset_describe:
  assumes "request_ok DESCRIBE host path mid seq behind" and "name_ok host" and "name_ok path" and "length host + length path < 232"
    and "GetSdp l path = Some text1" and "d' = d\<lparr>rtype := DESCRIBE, addr := host, file_path := path, cseq := seq\<rparr>"
  shows "deal_requset e (Some l, disk1) (request DESCRIBE host path mid seq behind) d =
    Inr (reply_text d' ''content_count'' text1, d', Some l, disk1)"
proof -
  have plain: "c_str host = host" "c_str path = path" using assms(2,3) by (simp_all add: name_ok_def c_str_id)
  have "snprintf_s 256 (''Content-Base: rtsp://'' @ host @ ''/'' @ path @ crlf) = Inr (''Content-Base: rtsp://'' @ host @ ''/'' @ path @ crlf)"
    using assms(4) by (simp add: snprintf_s_def)
  then show ?thesis
    using assms(5,6) plain deal_string_parses [OF assms(1), of d]
    by (simp add: deal_requset_def deal_describe_def Let_def GetInstance_def reply_text_def reply_head_def)
qed

text \<open>The whole request in one read.\<close>

lemma read_whole:
  assumes "length dat < 1480" and "NUL \<notin> set dat"
  shows "c_string (take 1480 dat @ replicate (1480 - length dat) NUL) = Inr dat"
  using assms c_string_padded [of dat "1480 - length dat"] by simp

lemma DealRtsp_read:
  assumes "length dat < 1480" and "NUL \<notin> set dat" and "dat \<noteq> []" and "hd dat \<noteq> CHR ''$''"
    and "find_sub (crlf @ crlf) (rtspinc ses @ dat) = None"
  shows "DealRtsp m e now dat g ses = Inr ([], g, ses\<lparr>rtspinc := rtspinc ses @ dat\<rparr>)"
  using assms read_whole [OF assms(1,2)] by (cases dat) (simp_all add: DealRtsp_def Let_def)

lemma describe_reply:
  assumes "request_ok DESCRIBE host path mid seq behind" and "dat = request DESCRIBE host path mid seq behind"
    and "length dat < 1480" and "NUL \<notin> set dat" and "find_sub (crlf @ crlf) dat \<noteq> None" and "rtspinc ses = []"
    and "name_ok host" and "name_ok path" and "name_ok seq" and "length host + length path < 232"
    and "sdp g = Some l" and "GetSdp l path = Some (sdp_text name profile params rect)"
    and "name_ok name" and "name_ok profile" and "name_ok params" and "name_ok rect"
    and "sessionid (sinfo ses) < 2 ^ 64" and "body = body_text (decimal (sessionid (sinfo ses))) ''96'' ''0'' ''201'' ''1'' name profile params rect"
    and "length body < 2 ^ 30" and "d = (rs ses)\<lparr>rtype := DESCRIBE, addr := host, file_path := path, cseq := seq\<rparr>"
  shows "DealRtsp m e now dat g ses =
    Inr ([text_bytes (reply_head d @ CHR '' '' # decimal (length body) @ crlf), text_bytes crlf, text_bytes body], g,
      ses\<lparr>rs := d, rtspinc := [], sinfo := (sinfo ses)\<lparr>stype := DESCRIBE\<rparr>\<rparr>)"
proof -
  have plain: "plain_head d" using assms(7-9,20) by (simp add: plain_head_def)
  have "length seq < 16" using assms(1) by (simp add: request_ok_def)
  then have len: "length (reply_text d ''content_count'' body) < 2 ^ 31"
    using assms(10,19,20) by (simp add: reply_text_def reply_head_def)
  have dat: "dat \<noteq> []" "hd dat = CHR ''D''" by (simp_all add: assms(2) request_def)
  then have hd: "hd (take 1480 dat @ replicate (1480 - length dat) NUL) \<noteq> CHR ''$''" by (cases dat) simp_all
  note req = deal_requset_describe [OF assms(1,7,8,10,12,20), of e "disk_of g", folded assms(2)]
  note desc = SetDescribe_text [OF plain assms(13-18) len]
  have g: "g\<lparr>sdp := Some l, disk_of := disk_of g\<rparr> = g" using assms(11) by simp
  have d: "rtype d = DESCRIBE" using assms(20) by simp
  show ?thesis
    unfolding DealRtsp_def Let_def if_not_P [OF dat(1)] if_not_P [OF hd] read_whole [OF assms(3,4)] andThen_simps
    using assms(5,6,11) req desc write_describe_text [OF plain, of "length body" body] g d by (simp add: answer_def)
qed

section \<open>Properties\<close>

text \<open>C6. A complete \<open>DESCRIBE\<close> request for a described file is answered with status, headers and description in three
  writes; the description has the session's id and every word of the template filled in, and \<open>Content-Length\<close>
  is its length.\<close>

theorem DealRtsp_describe:
  assumes "request_ok DESCRIBE host path mid seq behind" and "dat = request DESCRIBE host path mid seq behind"
    and "length dat < 1480" and "NUL \<notin> set dat" and "find_sub (crlf @ crlf) dat \<noteq> None" and "rtspinc ses = []"
    and "name_ok host" and "name_ok path" and "name_ok seq" and "length host + length path < 232"
    and "sdp g = Some l" and "GetSdp l path = Some (sdp_text name profile params rect)"
    and "name_ok name" and "name_ok profile" and "name_ok params" and "name_ok rect"
    and "sessionid (sinfo ses) < 2 ^ 64" and "body = body_text (decimal (sessionid (sinfo ses))) ''96'' ''0'' ''201'' ''1'' name profile params rect"
    and "length body < 2 ^ 30" and "d = (rs ses)\<lparr>rtype := DESCRIBE, addr := host, file_path := path, cseq := seq\<rparr>"
  shows "DealRtsp m e now dat g ses =
    Inr ([text_bytes (reply_head d @ CHR '' '' # decimal (length body) @ crlf), text_bytes crlf, text_bytes body], g,
      ses\<lparr>rs := d, rtspinc := [], sinfo := (sinfo ses)\<lparr>stype := DESCRIBE\<rparr>\<rparr>)"
  using assms by (rule describe_reply)

definition sample_request :: string where
  "sample_request = request DESCRIBE ''10.0.0.1:1000'' ''test'' (LF # ''User-Agent: VLC'' @ [CR]) ''3'' (LF # crlf)"

definition sample_body :: string where
  "sample_body = body_text (decimal 77) ''96'' ''0'' ''201'' ''1'' ''test'' ''00004D'' ''AAABZ00AAJbIAoAt2AiAAAADAIAAABlC,AAABaO48gA=='' ''0,0,720,1280''"

theorem DealRtsp_describe_witness:
  "\<forall>m e disk1 fm rs0. \<exists>ses'. DealRtsp m e 0 sample_request
      \<lparr>sdp = Some [(''test'', sdp_text ''test'' ''00004D'' ''AAABZ00AAJbIAoAt2AiAAAADAIAAABlC,AAABaO48gA=='' ''0,0,720,1280'')],
        disk_of = disk1, files = fm\<rparr> (new_MediaSession rs0 \<lparr>sessionid = 77, mtype = H264, stype = ERRORTYPE\<rparr> 0) =
    Inr ([text_bytes (''RTSP/1.0 200 OK'' @ crlf @ ''CSeq: 3'' @ crlf @ ''Server: ltRtspService'' @ crlf @
        ''Content-Base: rtsp://10.0.0.1:1000/test'' @ crlf @ ''Content-Type: application/sdp'' @ crlf @ ''Content-Length: 324'' @ crlf),
      text_bytes crlf, text_bytes sample_body],
      \<lparr>sdp = Some [(''test'', sdp_text ''test'' ''00004D'' ''AAABZ00AAJbIAoAt2AiAAAADAIAAABlC,AAABaO48gA=='' ''0,0,720,1280'')],
        disk_of = disk1, files = fm\<rparr>, ses')"
proof (intro allI)
  fix m e disk1 fm rs0
  let ?text = "sdp_text ''test'' ''00004D'' ''AAABZ00AAJbIAoAt2AiAAAADAIAAABlC,AAABaO48gA=='' ''0,0,720,1280''"
  let ?g = "\<lparr>sdp = Some [(''test'', ?text)], disk_of = disk1, files = fm\<rparr>"
  let ?ses = "new_MediaSession rs0 \<lparr>sessionid = 77, mtype = H264, stype = ERRORTYPE\<rparr> 0"
  let ?d = "(rs ?ses)\<lparr>rtype := DESCRIBE, addr := ''10.0.0.1:1000'', file_path := ''test'', cseq := ''3''\<rparr>"
  have req: "request_ok DESCRIBE ''10.0.0.1:1000'' ''test'' (LF # ''User-Agent: VLC'' @ [CR]) ''3'' (LF # crlf)"
    by (simp add: request_ok_def request_def)
  have dat: "length sample_request < 1480" "NUL \<notin> set sample_request" "find_sub (crlf @ crlf) sample_request \<noteq> None"
    by code_simp+
  have names: "name_ok ''10.0.0.1:1000''" "name_ok ''test''" "name_ok ''3''" "name_ok ''00004D''"
    "name_ok ''AAABZ00AAJbIAoAt2AiAAAADAIAAABlC,AAABaO48gA==''" "name_ok ''0,0,720,1280''" by code_simp+
  have "NUL \<notin> set ?text" by code_simp
  then have sdp: "GetSdp [(''test'', ?text)] ''test'' = Some ?text" by (simp add: c_str_id del: sdp_text_def)
  have body: "length sample_body = 324" by code_simp
  have number: "decimal 324 = ''324''" by code_simp
  have ses: "rtspinc ?ses = []" "sessionid (sinfo ?ses) = 77" by (simp_all add: new_MediaSession_def)
  have "DealRtsp m e 0 sample_request ?g ?ses =
    Inr ([text_bytes (reply_head ?d @ CHR '' '' # decimal (length sample_body) @ crlf), text_bytes crlf, text_bytes sample_body], ?g,
      ?ses\<lparr>rs := ?d, rtspinc := [], sinfo := (sinfo ?ses)\<lparr>stype := DESCRIBE\<rparr>\<rparr>)"
    by (rule DealRtsp_describe [OF req sample_request_def dat ses(1) names(1-3) _ _ sdp names(2,4-6) _ _ _ refl])
      (simp_all only: ses sample_body_def [symmetric], simp_all add: body)
  then show "\<exists>ses'. DealRtsp m e 0 sample_request ?g ?ses =
    Inr ([text_bytes (''RTSP/1.0 200 OK'' @ crlf @ ''CSeq: 3'' @ crlf @ ''Server: ltRtspService'' @ crlf @
        ''Content-Base: rtsp://10.0.0.1:1000/test'' @ crlf @ ''Content-Type: application/sdp'' @ crlf @ ''Content-Length: 324'' @ crlf),
      text_bytes crlf, text_bytes sample_body], ?g, ses')"
    by (simp add: body number reply_head_def)
qed

end
