(* ===== verification/RequestPieces.thy ===== *)
theory RequestPieces
  imports DescribeReply
begin

text \<open>
  How a request may arrive: TCP delivers it in any pieces, and \<open>DealRtsp\<close> (\<open>MediaSession.cpp\<close>) collects them in
  \<open>rtspinc\<close> until it has seen the end of a header. What follows the header in the buffer goes into the same
  parse and is then thrown away with it.
\<close>

section \<open>A series of reads\<close>

fun reads ::
  "uninit \<Rightarrow> sdp_env \<Rightarrow> nat \<Rightarrow> string list \<Rightarrow> service \<Rightarrow> media_session \<Rightarrow> (byte list list \<times> service \<times> media_session) res" where
  "reads m e now [] g ses = Inr ([], g, ses)"
| "reads m e now (dat # dats) g ses =
     andThen (DealRtsp m e now dat g ses) (\<lambda>(out, g, ses).
     andThen (reads m e now dats g ses) (\<lambda>(outs, g, ses). Inr (out @ outs, g, ses)))"

text \<open>A piece that is text: not a packet of the interleaved channels, no null characters.\<close>

definition piece_ok :: "string \<Rightarrow> bool" where
  "piece_ok p \<longleftrightarrow> p \<noteq> [] \<and> hd p \<noteq> CHR ''$'' \<and> NUL \<notin> set p"

lemma piece_append: "piece_ok p \<Longrightarrow> NUL \<notin> set q \<Longrightarrow> piece_ok (p @ q)"
  by (simp add: piece_ok_def)

lemma DealRtsp_piece:
  assumes "length dat < 1480" and "piece_ok dat"
  shows "DealRtsp m e now dat g ses = (let ses = ses\<lparr>rtspinc := rtspinc ses @ dat\<rparr> in
    if find_sub (crlf @ crlf) (rtspinc ses) = None then Inr ([], g, ses)
    else andThen (deal_requset e (sdp g, disk_of g) (rtspinc ses) (rs ses)) (\<lambda>(reply, d, sdp', disk').
      let g = g\<lparr>sdp := sdp', disk_of := disk'\<rparr>;
          ses = ses\<lparr>rs := d, rtspinc := reply, sinfo := (sinfo ses)\<lparr>stype := rtype d\<rparr>\<rparr> in
      andThen (answer m now reply g ses) (\<lambda>(out, g, ses). Inr (out, g, ses\<lparr>rtspinc := []\<rparr>))))"
proof -
  have "hd (take 1480 dat @ replicate (1480 - length dat) NUL) \<noteq> CHR ''$''" "dat \<noteq> []" "NUL \<notin> set dat"
    using assms(2) by (cases dat; simp add: piece_ok_def)+
  then show ?thesis using read_whole [OF assms(1)] by (simp add: DealRtsp_def Let_def)
qed

lemma DealRtsp_join:
  assumes "length (p @ q) < 1480" and "piece_ok p" and "piece_ok q" and "find_sub (crlf @ crlf) (rtspinc ses @ p) = None"
  shows "DealRtsp m e now q g (ses\<lparr>rtspinc := rtspinc ses @ p\<rparr>) = DealRtsp m e now (p @ q) g ses"
proof -
  have "length q < 1480" using assms(1) by simp
  moreover have "piece_ok (p @ q)" using assms(2,3) by (intro piece_append) (simp_all add: piece_ok_def)
  ultimately show ?thesis using DealRtsp_piece [OF _ assms(3)] DealRtsp_piece [OF assms(1)] by simp
qed

lemma find_sub_shorter: "find_sub pat (xs @ ys) = None \<Longrightarrow> find_sub pat xs = None"
  unfolding find_sub_None sublist_def by (metis append.assoc)

lemma reads_pieces:
  assumes "pieces \<noteq> []" and "\<forall>p\<in>set pieces. piece_ok p" and "length (concat pieces) < 1480"
    and "find_sub (crlf @ crlf) (rtspinc ses @ concat (butlast pieces)) = None"
  shows "reads m e now pieces g ses = DealRtsp m e now (concat pieces) g ses"
  using assms
proof (induction pieces arbitrary: ses)
  case (Cons p ps)
  show ?case
  proof (cases "ps = []")
    case True
    then show ?thesis by (cases "DealRtsp m e now p g ses") auto
  next
    case False
    then have none: "find_sub (crlf @ crlf) (rtspinc ses @ p) = None"
      using Cons.prems(4) find_sub_shorter [of _ "rtspinc ses @ p"] by simp
    have ok: "piece_ok p" "\<forall>q\<in>set ps. piece_ok q" "length (concat ps) < 1480" "length p < 1480"
      using Cons.prems(2,3) by simp_all
    let ?ses = "ses\<lparr>rtspinc := rtspinc ses @ p\<rparr>"
    have "find_sub (crlf @ crlf) (rtspinc ?ses @ concat (butlast ps)) = None" using Cons.prems(4) False by simp
    from Cons.IH [OF False ok(2,3) this] have "reads m e now ps g ?ses = DealRtsp m e now (concat ps) g ?ses" .
    also have "\<dots> = DealRtsp m e now (p @ concat ps) g ses"
    proof (rule DealRtsp_join [OF _ ok(1) _ none])
      show "length (p @ concat ps) < 1480" using Cons.prems(3) by simp
      show "piece_ok (concat ps)"
        using False ok(2) by (cases ps) (auto simp: piece_ok_def)
    qed
    finally show ?thesis
      using DealRtsp_piece [OF ok(4,1), of m e now g ses] none by (cases "DealRtsp m e now (p @ concat ps) g ses") auto
  qed
qed simp

text \<open>
  Pieces as they come: a read that begins with a dollar sign is taken for a packet of the interleaved channels and
  dropped whole, whatever it holds, and an empty one does nothing. The others are the text of the request.
\<close>

definition text_pieces :: "string list \<Rightarrow> string list" where
  "text_pieces pieces = [p \<leftarrow> pieces. p \<noteq> [] \<and> hd p \<noteq> CHR ''$'']"

lemma DealRtsp_dropped: "p = [] \<or> hd p = CHR ''$'' \<Longrightarrow> DealRtsp m e now p g ses = Inr ([], g, ses)"
  by (cases p) (auto simp: DealRtsp_def)

lemma reads_texts: "reads m e now pieces g ses = reads m e now (text_pieces pieces) g ses"
proof (induction pieces arbitrary: g ses)
  case (Cons p ps)
  show ?case
  proof (cases "p = [] \<or> hd p = CHR ''$''")
    case True
    then have "text_pieces (p # ps) = text_pieces ps" by (auto simp: text_pieces_def)
    moreover have "reads m e now (p # ps) g ses = reads m e now ps g ses"
      using DealRtsp_dropped [OF True] by (cases "reads m e now ps g ses") auto
    ultimately show ?thesis using Cons.IH by simp
  next
    case False
    then have "text_pieces (p # ps) = p # text_pieces ps" by (simp add: text_pieces_def)
    then show ?thesis using Cons.IH by (simp add: andThen_def)
  qed
qed (simp add: text_pieces_def)

lemma reads_all_pieces:
  assumes "\<forall>p\<in>set (text_pieces pieces). NUL \<notin> set p" and "length (concat (text_pieces pieces)) < 1480"
    and "find_sub (crlf @ crlf) (rtspinc ses @ concat (butlast (text_pieces pieces))) = None"
  shows "reads m e now pieces g ses = DealRtsp m e now (concat (text_pieces pieces)) g ses"
proof (cases "text_pieces pieces = []")
  case True
  then show ?thesis using reads_texts [of m e now pieces g ses] DealRtsp_dropped [of "[]"] by simp
next
  case False
  have "\<forall>p\<in>set (text_pieces pieces). piece_ok p" using assms(1) by (auto simp: piece_ok_def text_pieces_def)
  from reads_pieces [OF False this assms(2,3)] show ?thesis using reads_texts [of m e now pieces g ses] by simp
qed

section \<open>Properties\<close>

text \<open>C8. A request that arrives in any pieces, with interleaved packets between them: the pieces that begin with a
  dollar sign are dropped, and the others are answered exactly as one read of their concatenation, for any request
  of less than 1480 bytes without null characters whose header does not end before the last of these pieces; nothing
  is sent and nothing but the buffer changes before its end is there.\<close>

theorem request_in_pieces:
  assumes "\<forall>p\<in>set (text_pieces pieces). NUL \<notin> set p" and "length (concat (text_pieces pieces)) < 1480"
    and "find_sub (crlf @ crlf) (rtspinc ses @ concat (butlast (text_pieces pieces))) = None"
  shows "reads m e now pieces g ses = DealRtsp m e now (concat (text_pieces pieces)) g ses"
  using assms by (rule reads_all_pieces)

theorem request_in_pieces_witness:
  "\<forall>m e g rs0. reads m e 0 [''OPTIONS rtsp://h/t RTSP'', ''$'' @ [NUL, CHR ''x''], ''/1.0'' @ crlf @ ''CSeq: 1'', crlf @ [CR], [], [LF]] g
      (new_MediaSession rs0 \<lparr>sessionid = 1, mtype = H264, stype = ERRORTYPE\<rparr> 0) =
    DealRtsp m e 0 (''OPTIONS rtsp://h/t RTSP/1.0'' @ crlf @ ''CSeq: 1'' @ crlf @ crlf) g
      (new_MediaSession rs0 \<lparr>sessionid = 1, mtype = H264, stype = ERRORTYPE\<rparr> 0)"
proof (intro allI)
  fix m e g rs0
  let ?ps = "[''OPTIONS rtsp://h/t RTSP'', ''$'' @ [NUL, CHR ''x''], ''/1.0'' @ crlf @ ''CSeq: 1'', crlf @ [CR], [], [LF]]"
  let ?ses = "new_MediaSession rs0 \<lparr>sessionid = 1, mtype = H264, stype = ERRORTYPE\<rparr> 0"
  have "\<forall>p\<in>set (text_pieces ?ps). NUL \<notin> set p" by code_simp
  moreover have "length (concat (text_pieces ?ps)) < 1480" by code_simp
  moreover have "find_sub (crlf @ crlf) (concat (butlast (text_pieces ?ps))) = None" by code_simp
  then have "find_sub (crlf @ crlf) (rtspinc ?ses @ concat (butlast (text_pieces ?ps))) = None" by (simp add: new_MediaSession_def)
  ultimately have "reads m e 0 ?ps g ?ses = DealRtsp m e 0 (concat (text_pieces ?ps)) g ?ses" by (rule request_in_pieces)
  moreover have "concat (text_pieces ?ps) = ''OPTIONS rtsp://h/t RTSP/1.0'' @ crlf @ ''CSeq: 1'' @ crlf @ crlf" by code_simp
  ultimately show "reads m e 0 ?ps g ?ses = DealRtsp m e 0 (''OPTIONS rtsp://h/t RTSP/1.0'' @ crlf @ ''CSeq: 1'' @ crlf @ crlf) g ?ses"
    by (simp only:)
qed

end
