(* ===== verification/Streaming.thy ===== *)
theory Streaming
  imports MediaSession
begin

text \<open>
  Sending from a file: the loop of \<open>MediaSession::Send\<close> that calls \<open>TCPForH264\<close> until it answers with a packet
  ends on every stream that reads the service's file, whatever other sessions did to the shared position of
  that file.
\<close>

section \<open>What a refill leaves\<close>

text \<open>
  A stream on the one open file: the shared position, the stream's own position \<open>filepos\<close>, a queue of usable
  nodes and a fragment count that the bytes read so far bound.
\<close>

definition file_ok :: "string \<Rightarrow> byte list \<Rightarrow> nat \<Rightarrow> file_manager \<Rightarrow> bool" where
  "file_ok name dat p fm \<longleftrightarrow> p \<le> length dat \<and> (\<exists>e. fm = [(0, node_at name dat p e)])"

definition stream_ok :: "h264_stream \<Rightarrow> bool" where
  "stream_ok st \<longleftrightarrow> fileindex st = 0 \<and> (\<forall>b \<in> set (bufferlist st). buf_wf b \<and> 0 < MTU b) \<and>
     0 \<le> DevCount st \<and> DevCount st \<le> int (filepos st)"

definition in_range :: "nat \<Rightarrow> nat \<Rightarrow> nat \<Rightarrow> bool" where
  "in_range len p pos \<longleftrightarrow> len \<le> 2 ^ 29 \<and> (pos \<le> p \<or> pos + (len - p) \<le> 2 ^ 30 + 10240)"

lemma refill_block:
  assumes "pos \<le> 2 ^ 31" and "p \<le> length dat"
    and "GetBufferFormFile [(0, node_at name dat p e)] 0 pos 10240 = Inr (b, fm')" and "MTU b \<noteq> 0"
  shows "\<exists>q xs. b = buffer_of xs \<and> length xs = 10240 \<and> fm' = [(0, node_at name dat (q + 10240) False)] \<and>
    q + 10240 \<le> length dat \<and> (if pos = 0 then q = 0 else if pos \<le> p then q = p - pos else q = p)"
proof -
  define q where "q = (if pos = 0 then 0 else if pos \<le> p then p - pos else p)"
  have seek: "\<exists>e'. seek_to dat pos p e = \<lparr>file_data = dat, file_pos = q, file_eof = e'\<rparr>"
    by (auto simp: seek_to_def q_def)
  then obtain e' where s: "seek_to dat pos p e = \<lparr>file_data = dat, file_pos = q, file_eof = e'\<rparr>" by blast
  have long: "q + 10240 \<le> length dat"
  proof (rule ccontr)
    assume "\<not> q + 10240 \<le> length dat"
    then have "length dat < q + 10240" by simp
    from GetBufferFormFile_end [OF assms(1) s this, of name 10240] assms(3) have "b = Buffer 0" by auto
    then show False using assms(4) by (simp add: Buffer_def)
  qed
  have "\<not> e'"
  proof
    assume e'
    then have "fread (seek_to dat pos p e) 10240 = ([], \<lparr>file_data = dat, file_pos = q, file_eof = True\<rparr>)"
      using s by (simp add: fread_def)
    then show False using assms(3,4) by (auto simp: GetBufferFormFile_step [OF assms(1)] Buffer_def)
  qed
  then have "GetBufferFormFile [(0, node_at name dat p e)] 0 pos 10240 =
      Inr (buffer_of (segment q 10240 dat), [(0, node_at name dat (q + 10240) False)])"
    using s by (intro GetBufferFormFile_block [OF assms(1) _ long]) simp
  then show ?thesis using assms(3) long
    by (intro exI [of _ q] exI [of _ "segment q 10240 dat"]) (auto simp: q_def)
qed

lemma DevNode_shared_block:
  assumes "length xs = 10240"
  shows "DevNode_shared (buffer_of xs) 0 st = DevNode (buffer_of xs) 0 st"
proof -
  have size: "GetSizeValue (buffer_of xs) = 10240" using assms by (simp add: GetSizeValue_def buffer_of_def u32_def)
  have "xs \<noteq> []" using assms by auto
  from FullBuffer_ptr_fresh [OF this] assms have "FullBuffer_ptr (Buffer 10240) xs 10240 = Inr (True, buffer_of xs)" by simp
  moreover have "u32 (int 10240 - int 0) = 10240" "pbuffer (buffer_of xs) = xs" by (simp_all add: u32_def buffer_of_def)
  ultimately show ?thesis using size by (simp only: DevNode_shared_def GetBuffer_def Let_def drop_0 andThen_simps prod.case)
qed

text \<open>
  One step of the loop that brings no packet: the queue is shorter, or the file has been read on. The measure
  is what \<open>filepos\<close> still lacks to the end of the file, then what the shared position lacks, then the queue.
\<close>

definition todo :: "nat \<Rightarrow> nat \<Rightarrow> nat \<Rightarrow> nat \<Rightarrow> (nat \<times> nat \<times> nat)" where
  "todo len p pos n = (len + 1 - pos, len - p, n)"

abbreviation less_todo :: "((nat \<times> nat \<times> nat) \<times> (nat \<times> nat \<times> nat)) set" where
  "less_todo \<equiv> less_than <*lex*> less_than <*lex*> less_than"

lemma todo_next:
  assumes "in_range len p pos" and "p \<le> len" and "q + 10240 \<le> len"
    and "if pos = 0 then q = 0 else if pos \<le> p then q = p - pos else q = p"
  shows "in_range len (q + 10240) (pos + 10240) \<and> (todo len (q + 10240) (pos + 10240) k', todo len p pos k) \<in> less_todo"
proof -
  consider "pos = 0" "q = 0" | "0 < pos" "pos \<le> p" "q = p - pos" | "p < pos" "q = p"
    using assms(4) by (fastforce split: if_splits)
  then show ?thesis
    using assms(1-3) unfolding in_range_def todo_def by cases (simp, linarith)+
qed

lemma fetch_node_step:
  assumes "file_ok name dat p fm" and "stream_ok st" and "in_range (length dat) p (filepos st)"
    and "fetch_node fm st = Inr (node, fm', Media)" and "node \<noteq> Buffer 0"
  shows "0 < MTU node \<and> StreamSps Media = StreamSps st \<and> MediaInfo Media = MediaInfo st \<and> (\<exists>p'. file_ok name dat p' fm' \<and> stream_ok Media \<and> in_range (length dat) p' (filepos Media) \<and>
    (todo (length dat) p' (filepos Media) (length (bufferlist Media)),
     todo (length dat) p (filepos st) (length (bufferlist st))) \<in> less_todo)"
proof (cases "bufferlist st")
  case (Cons b rest)
  then have "0 < MTU b" using assms(2) by (simp add: stream_ok_def)
  moreover have "node = b" "fm' = fm" "Media = st\<lparr>bufferlist := rest\<rparr>" using fetch_queued [OF Cons \<open>0 < MTU b\<close>, of fm] assms(4) by auto
  ultimately show ?thesis using assms(1-3) Cons by (intro conjI exI [of _ p]) (auto simp: stream_ok_def todo_def)
next
  case Nil
  obtain e where fm: "fm = [(0, node_at name dat p e)]" and p: "p \<le> length dat" using assms(1) by (auto simp: file_ok_def)
  have idx: "fileindex st = 0" using assms(2) by (simp add: stream_ok_def)
  have pos: "filepos st \<le> 2 ^ 31 - 2 ^ 17" using assms(3) p by (auto simp: in_range_def)
  obtain b fm1 where read: "GetBufferFormFile fm 0 (filepos st) 10240 = Inr (b, fm1)"
    using assms(4) Nil idx by (cases "GetBufferFormFile fm 0 (filepos st) 10240") (auto simp: fetch_node_def GetNode_def GetMtuValue_def Buffer_def)
  have full: "MTU b = 10240"
    using assms(4,5) Nil idx read by (auto simp: fetch_node_def GetNode_def GetMtuValue_def Buffer_def split: if_splits)
  have pos': "filepos st \<le> 2 ^ 31" using pos by simp
  obtain q xs where b: "b = buffer_of xs" "length xs = 10240" "fm1 = [(0, node_at name dat (q + 10240) False)]"
      "q + 10240 \<le> length dat" and q: "if filepos st = 0 then q = 0 else if filepos st \<le> p then q = p - filepos st else q = p"
    using refill_block [OF pos' p] read full unfolding fm by (metis numeral_neq_zero)
  have size: "GetSizeValue b = 10240" using b by (simp add: GetSizeValue_def buffer_of_def u32_def)
  then have chunk: "chunk_wf b" using b by (simp add: chunk_wf_def buf_wf_def buffer_of_def)
  have "0 \<le> DevCount st" "DevCount st + 2 ^ 16 < 2 ^ 31" using assms(2) pos by (auto simp: stream_ok_def)
  then obtain ns dc where split: "DevNode b 0 st = Inr (st\<lparr>bufferlist := bufferlist st @ ns, DevCount := dc,
      filepos := (filepos st + GetSizeValue b) mod 2 ^ 64\<rparr>)" and ns: "ns \<noteq> []" "list_all (\<lambda>b. buf_wf b \<and> 0 < GetMtuValue b) ns"
      and dc: "0 < dc" "dc \<le> DevCount st + int (GetSizeValue b)"
    using DevNode_appends [OF chunk] by blast
  have fp: "(filepos st + 10240) mod 2 ^ 64 = filepos st + 10240" using pos by simp
  have media: "Media = st\<lparr>bufferlist := tl ns, DevCount := dc, filepos := filepos st + 10240\<rparr>" "fm' = fm1" "node = hd ns"
    using assms(4) Nil idx read full split ns(1) DevNode_shared_block [OF b(2), of st] fp size b(1)
    by (auto simp: fetch_node_def GetNode_def GetMtuValue_def Buffer_def)
  have "file_ok name dat (q + 10240) fm'" using b media by (auto simp: file_ok_def)
  moreover have "stream_ok Media"
    using media assms(2) dc ns(2) size by (cases ns) (auto simp: stream_ok_def list_all_iff GetMtuValue_def)
  moreover have "in_range (length dat) (q + 10240) (filepos Media)"
    "(todo (length dat) (q + 10240) (filepos Media) (length (bufferlist Media)),
     todo (length dat) p (filepos st) (length (bufferlist st))) \<in> less_todo"
    using todo_next [OF assms(3) p b(4) q] media(1) by simp_all
  moreover have "0 < MTU node" using media(3) ns by (cases ns) (auto simp: GetMtuValue_def)
  moreover have "StreamSps Media = StreamSps st" "MediaInfo Media = MediaInfo st" using media(1) by simp_all
  ultimately show ?thesis by blast
qed

section \<open>The loop of \<open>Send\<close>\<close>

lemma SetByte_MTU: "SetByte b x i = Inr b' \<Longrightarrow> MTU b' = MTU b"
  by (auto simp: andThen_Inr_iff SetByte_def)

lemma set_bytes_MTU: "set_bytes i bs b = Inr b' \<Longrightarrow> MTU b' = MTU b"
  by (induction bs arbitrary: i b) (auto simp: andThen_Inr_iff dest!: SetByte_MTU)

lemma rtp_header_fields:
  assumes "rtp_header f node Media = Inr (node', Media')"
  shows "MTU node' = MTU node"
proof -
  obtain c sps where c: "CurSlice Media = Some c" "StreamSps Media = Some sps"
    using assms by (auto simp: rtp_header_def andThen_Inr_iff Let_def split: option.splits)
  show ?thesis
    using assms c by (auto simp: rtp_header_def andThen_Inr_iff Let_def simp del: set_bytes.simps append.simps dest!: set_bytes_MTU)
qed

lemma prepare_node_fields: "prepare_node m node Media = Inr (f, node', Media') \<Longrightarrow> MTU node' = MTU node"
  unfolding prepare_node_def
  by (auto simp: andThen_Inr_iff simp del: set_bytes.simps dest!: set_bytes_MTU split: if_split_asm)

lemma GetNalType_empty: "GetNalType (Buffer 0) = Inl OutOfBounds"
  by (simp add: GetNalType_def GetByte_def Buffer_def at_out)

lemma sps_node_fields:
  assumes "sps_node m node Media = Inr Media'"
  shows "bufferlist Media' = bufferlist Media" and "fileindex Media' = fileindex Media" and "filepos Media' = filepos Media"
    and "DevCount Media' = DevCount Media"
  using assms by (auto simp: sps_node_def ParseSqs_def andThen_Inr_iff split: option.splits if_splits prod.splits)

text \<open>A call without a packet took a node from the queue or from the file, and changed nothing else that counts.\<close>

lemma TCP_again:
  assumes "file_ok name dat p fm" and "stream_ok st" and "in_range (length dat) p (filepos st)"
    and "TCPForH264 m fm st = Inr (pt, fm', st')" and "MTU pt = 0"
  shows "\<exists>p'. file_ok name dat p' fm' \<and> stream_ok st' \<and> in_range (length dat) p' (filepos st') \<and>
    (todo (length dat) p' (filepos st') (length (bufferlist st')),
     todo (length dat) p (filepos st) (length (bufferlist st))) \<in> less_todo"
proof -
  obtain node fm1 Media t where fetch: "fetch_node fm st = Inr (node, fm1, Media)" and t: "GetNalType node = Inr t"
    using assms(4) by (auto simp: TCPForH264_def andThen_Inr_iff)
  then have "node \<noteq> Buffer 0" using GetNalType_empty by auto
  from fetch_node_step [OF assms(1-3) fetch this] obtain p' where
    step: "0 < MTU node" "file_ok name dat p' fm1" "stream_ok Media" "in_range (length dat) p' (filepos Media)"
      "(todo (length dat) p' (filepos Media) (length (bufferlist Media)),
        todo (length dat) p (filepos st) (length (bufferlist st))) \<in> less_todo" by blast
  have "t = 6 \<or> t = 7 \<or> t = 8"
    using assms(4,5) fetch t step(1)
    by (auto simp: TCPForH264_def andThen_Inr_iff split: if_splits dest!: rtp_header_fields prepare_node_fields)
  then have "fm' = fm1" "bufferlist st' = bufferlist Media" "fileindex st' = fileindex Media" "filepos st' = filepos Media"
      "DevCount st' = DevCount Media"
    using assms(4) fetch t sps_node_fields
    by (auto simp: TCPForH264_def andThen_Inr_iff split: if_splits)
  with step show ?thesis by (intro exI [of _ p']) (simp add: stream_ok_def)
qed

section \<open>No pacing\<close>

text \<open>
  \<open>fps\<close> is set to the integer quotient of the time unit and the time scale, which is 0 for every stream of more
  than one field in two seconds; then \<open>Send\<close> waits for nothing.
\<close>

definition unpaced :: "h264_stream \<Rightarrow> bool" where
  "unpaced st \<longleftrightarrow> fps (MediaInfo st) = 0 \<and> (\<exists>sps. StreamSps st = Some sps \<and> num_units_in_tick sps < time_scale sps)"

lemma unpaced_cong: "unpaced st \<Longrightarrow> StreamSps st' = StreamSps st \<Longrightarrow> fps (MediaInfo st') = fps (MediaInfo st) \<Longrightarrow> unpaced st'"
  by (simp add: unpaced_def)

lemma ParseSlice_fields: "ParseSlice m p n t st = Inr st' \<Longrightarrow> StreamSps st' = StreamSps st \<and> MediaInfo st' = MediaInfo st"
  by (auto simp: ParseSlice_def andThen_Inr_iff)

lemma prepare_node_pace:
  "prepare_node m node Media = Inr (f, node', Media') \<Longrightarrow> StreamSps Media' = StreamSps Media \<and> fps (MediaInfo Media') = fps (MediaInfo Media)"
  unfolding prepare_node_def
  by (auto simp: andThen_Inr_iff count_picture_def simp del: set_bytes.simps dest!: ParseSlice_fields split: if_split_asm)

lemma rtp_header_pace:
  assumes "rtp_header f node Media = Inr (node', Media')"
  shows "StreamSps Media' = StreamSps Media \<and> fps (MediaInfo Media') = fps (MediaInfo Media)"
proof -
  obtain c sps where c: "CurSlice Media = Some c" "StreamSps Media = Some sps"
    using assms by (auto simp: rtp_header_def andThen_Inr_iff Let_def split: option.splits)
  show ?thesis
    using assms c by (auto simp: rtp_header_def andThen_Inr_iff Let_def simp del: set_bytes.simps append.simps)
qed

lemma sps_node_unpaced: "sps_node m node Media = Inr Media' \<Longrightarrow> unpaced Media \<Longrightarrow> unpaced Media'"
  by (auto simp: sps_node_def unpaced_def andThen_Inr_iff s32_def)

lemma TCP_unpaced:
  assumes "file_ok name dat p fm" and "stream_ok st" and "in_range (length dat) p (filepos st)"
    and "TCPForH264 m fm st = Inr (pt, fm', st')" and "unpaced st"
  shows "unpaced st'"
proof -
  obtain node fm1 Media t where fetch: "fetch_node fm st = Inr (node, fm1, Media)" and t: "GetNalType node = Inr t"
    using assms(4) by (auto simp: TCPForH264_def andThen_Inr_iff)
  then have "node \<noteq> Buffer 0" using GetNalType_empty by auto
  from fetch_node_step [OF assms(1-3) fetch this] have "unpaced Media" using assms(5) by (simp add: unpaced_def)
  then show ?thesis
    using assms(4) fetch t
    by (auto simp: TCPForH264_def andThen_Inr_iff split: if_splits
        dest: sps_node_unpaced intro: unpaced_cong dest!: prepare_node_pace rtp_header_pace)
qed

lemma packet_loop_ends:
  assumes "file_ok name dat p fm" and "stream_ok st" and "in_range (length dat) p (filepos st)"
  shows "\<exists>r. packet_loop m fm st = Some r \<and>
    (case r of Inl e \<Rightarrow> True | Inr (pt, fm', st') \<Rightarrow> 0 < GetMtuValue pt \<and> (unpaced st \<longrightarrow> unpaced st'))"
proof -
  have "wf less_todo" by (intro wf_lex_prod wf_less_than)
  then show ?thesis
    using assms
  proof (induction "todo (length dat) p (filepos st) (length (bufferlist st))" arbitrary: p fm st rule: wf_induct_rule)
    case (less p st fm)
    show ?case
    proof (cases "TCPForH264 m fm st")
      case (Inl e)
      then show ?thesis by (subst packet_loop.simps) simp
    next
      case (Inr r)
      obtain pt fm' st' where r: "r = (pt, fm', st')" by (cases r)
      show ?thesis
      proof (cases "MTU pt = 0")
        case True
        note next_state = TCP_unpaced [OF less(2-4) Inr [unfolded r]]
        obtain p' where p': "file_ok name dat p' fm'" "stream_ok st'" "in_range (length dat) p' (filepos st')"
            "(todo (length dat) p' (filepos st') (length (bufferlist st')),
              todo (length dat) p (filepos st) (length (bufferlist st))) \<in> less_todo"
          using TCP_again [OF less(2-4) Inr [unfolded r] True] by blast
        from less(1) [OF p'(4,1-3)] obtain r' where r': "packet_loop m fm' st' = Some r'"
            "case r' of Inl e \<Rightarrow> True | Inr (pt, fm', st'') \<Rightarrow> 0 < GetMtuValue pt \<and> (unpaced st' \<longrightarrow> unpaced st'')" by blast
        have "packet_loop m fm st = Some r'"
          using Inr r True r'(1) by (subst packet_loop.simps) (simp add: GetMtuValue_def)
        then show ?thesis using next_state r'(2) by (auto split: sum.splits)
      qed (use Inr r TCP_unpaced [OF less(2-4) Inr [unfolded r]] in \<open>subst packet_loop.simps, simp add: GetMtuValue_def\<close>)
    qed
  qed
qed

lemma wait_loop_now: "bound \<le> 0 \<Longrightarrow> wait_loop clock k start bound = Some k"
  by (subst wait_loop.simps) simp

lemma Send_now:
  assumes "file_ok name dat p (files g)" and "stream_ok st" and "in_range (length dat) p (filepos st)" and "unpaced st"
    and "session_IsPlay ses" and "streamobj ses = Some st" and "IsPlay st"
  shows "\<exists>r. packet_loop m (files g) st = Some r \<and> Send m clock g ses =
    (case r of Inl e \<Rightarrow> Inl e
     | Inr (pt, fm, st') \<Rightarrow> Inr ([take (GetSizeValue pt) (GetBuffer pt)], g\<lparr>files := fm\<rparr>, ses\<lparr>streamobj := Some st'\<rparr>))"
proof -
  obtain r where r: "packet_loop m (files g) st = Some r"
      "case r of Inl e \<Rightarrow> True | Inr (pt, fm', st') \<Rightarrow> 0 < GetMtuValue pt \<and> (unpaced st \<longrightarrow> unpaced st')"
    using packet_loop_ends [OF assms(1-3)] by blast
  show ?thesis
  proof (cases r)
    case (Inl e)
    then show ?thesis using r assms(5-7) by (simp add: Send_def next_packet_def)
  next
    case (Inr x)
    obtain pt fm st' where x: "x = (pt, fm, st')" by (cases x)
    then have "fps (MediaInfo st') = 0" using r Inr assms(4) by (simp add: unpaced_def)
    then have "s64 (frame_count (MediaInfo st') * 1000 * 2 * fps (MediaInfo st')) \<le> 0" by (simp add: s64_def)
    from wait_loop_now [OF this] show ?thesis
      using r Inr x assms(5-7) by (simp add: Send_def next_packet_def)
  qed
qed

section \<open>Properties\<close>

text \<open>C7. \<open>Send\<close> on a playing stream of the served file returns for every clock: the loop for the next packet ends,
  in a packet that is written at once or in the fault that stopped the search, since a stream of ordinary
  frame rate has \<open>fps\<close> 0 and is never held back. It holds whatever position other sessions left the shared
  file at.\<close>

theorem Send_returns:
  assumes "file_ok name dat p (files g)" and "stream_ok st" and "in_range (length dat) p (filepos st)" and "unpaced st"
    and "session_IsPlay ses" and "streamobj ses = Some st" and "IsPlay st"
  shows "\<exists>r. packet_loop m (files g) st = Some r \<and> Send m clock g ses =
    (case r of Inl e \<Rightarrow> Inl e
     | Inr (pt, fm, st') \<Rightarrow> Inr ([take (GetSizeValue pt) (GetBuffer pt)], g\<lparr>files := fm\<rparr>, ses\<lparr>streamobj := Some st'\<rparr>))"
  using assms by (rule Send_now)

theorem Send_returns_witness:
  "\<forall>m clock rs0 sps disk1. \<exists>r. packet_loop m [(0, node_at ''a'' (replicate 20480 0) 10240 False)] (sample_stream sps []) = Some r \<and>
    Send m clock \<lparr>sdp = None, disk_of = disk1, files = [(0, node_at ''a'' (replicate 20480 0) 10240 False)]\<rparr>
      ((new_MediaSession rs0 \<lparr>sessionid = 1, mtype = H264, stype = PLAY\<rparr> 0)\<lparr>streamobj := Some (sample_stream sps [])\<rparr>) =
    (case r of Inl e \<Rightarrow> Inl e
     | Inr (pt, fm, st') \<Rightarrow> Inr ([take (GetSizeValue pt) (GetBuffer pt)], \<lparr>sdp = None, disk_of = disk1, files = fm\<rparr>,
        (new_MediaSession rs0 \<lparr>sessionid = 1, mtype = H264, stype = PLAY\<rparr> 0)\<lparr>streamobj := Some st'\<rparr>))"
proof (intro allI)
  fix m clock rs0 sps disk1
  let ?fm = "[(0, node_at ''a'' (replicate 20480 0) 10240 False)]" and ?st = "sample_stream sps []"
  let ?g = "\<lparr>sdp = None, disk_of = disk1, files = ?fm\<rparr>"
  let ?ses = "(new_MediaSession rs0 \<lparr>sessionid = 1, mtype = H264, stype = PLAY\<rparr> 0)\<lparr>streamobj := Some ?st\<rparr>"
  have "file_ok ''a'' (replicate 20480 0) 10240 (files ?g)" by (auto simp: file_ok_def)
  moreover have "stream_ok ?st" "unpaced ?st" by (simp_all add: stream_ok_def unpaced_def sample_stream_def sample_time)
  moreover have "in_range (length (replicate 20480 0 :: byte list)) 10240 (filepos ?st)" by (simp add: in_range_def sample_stream_def)
  moreover have "session_IsPlay ?ses" "streamobj ?ses = Some ?st" "IsPlay ?st"
    by (simp_all add: session_IsPlay_def new_MediaSession_def sample_stream_def)
  moreover have states: "?g\<lparr>files := fm\<rparr> = \<lparr>sdp = None, disk_of = disk1, files = fm\<rparr>"
      "?ses\<lparr>streamobj := Some st'\<rparr> = (new_MediaSession rs0 \<lparr>sessionid = 1, mtype = H264, stype = PLAY\<rparr> 0)\<lparr>streamobj := Some st'\<rparr>" for fm st'
    by simp_all
  ultimately have "\<exists>r. packet_loop m (files ?g) ?st = Some r \<and> Send m clock ?g ?ses =
    (case r of Inl e \<Rightarrow> Inl e
     | Inr (pt, fm, st') \<Rightarrow> Inr ([take (GetSizeValue pt) (GetBuffer pt)], ?g\<lparr>files := fm\<rparr>, ?ses\<lparr>streamobj := Some st'\<rparr>))"
    by (intro Send_returns) blast+
  then show "\<exists>r. packet_loop m ?fm ?st = Some r \<and> Send m clock ?g ?ses =
    (case r of Inl e \<Rightarrow> Inl e
     | Inr (pt, fm, st') \<Rightarrow> Inr ([take (GetSizeValue pt) (GetBuffer pt)], \<lparr>sdp = None, disk_of = disk1, files = fm\<rparr>,
        (new_MediaSession rs0 \<lparr>sessionid = 1, mtype = H264, stype = PLAY\<rparr> 0)\<lparr>streamobj := Some st'\<rparr>))"
    unfolding states by simp
qed

end
