(* ===== verification/ChunkNodes.thy ===== *)
theory ChunkNodes
  imports H264Stream
begin

text \<open>
  The nodes of any chunk of a file, as a function of its bytes and of the fragments pending before it: the
  splitter of \<open>h264MediaStream.cpp\<close> without its buffers and queue. The loop of \<open>DevNode\<close> computes it on every
  chunk, well formed or not.
\<close>

section \<open>The reference splitter\<close>

text \<open>The nodes in front of the last unit, where the last unit begins, and the count of pending fragments.\<close>

function split_from :: "byte list \<Rightarrow> nat \<Rightarrow> nat \<Rightarrow> bool \<Rightarrow> int \<Rightarrow> byte list list \<times> nat \<times> int" where
  "split_from data sta pos f dc =
     (if sta < length data - 4 then
        if \<not> is_start data sta then split_from data (sta + 1) pos f dc
        else if f then
          let ns = fst (unit_nodes data pos (sta - pos) dc); dc1 = snd (unit_nodes data pos (sta - pos) dc);
              r = split_from data (sta + code_len data sta + 1) (sta + code_len data sta) True dc1 in
          (ns @ fst r, snd r)
        else
          let ns = (if 0 < dc then fst (large_nodes data 0 (sta - 1) 2 dc) else []);
              r = split_from data (sta + code_len data sta) (sta + code_len data sta) True 0 in
          (ns @ fst r, snd r)
      else ([], pos, dc))"
  by pat_completeness auto
termination
  by (relation "measure (\<lambda>(data, sta, pos, f, dc). length data - sta)") (auto simp: code_len_def)

declare split_from.simps [simp del]

lemma split_steps:
  "length data - 4 \<le> sta \<Longrightarrow> split_from data sta pos f dc = ([], pos, dc)"
  "sta < length data - 4 \<Longrightarrow> \<not> is_start data sta \<Longrightarrow> split_from data sta pos f dc = split_from data (Suc sta) pos f dc"
  "sta < length data - 4 \<Longrightarrow> is_start data sta \<Longrightarrow> split_from data sta pos True dc =
     (fst (unit_nodes data pos (sta - pos) dc) @ fst (split_from data (Suc (sta + code_len data sta)) (sta + code_len data sta) True (snd (unit_nodes data pos (sta - pos) dc))),
      snd (split_from data (Suc (sta + code_len data sta)) (sta + code_len data sta) True (snd (unit_nodes data pos (sta - pos) dc))))"
  "sta < length data - 4 \<Longrightarrow> is_start data sta \<Longrightarrow> split_from data sta pos False dc =
     ((if 0 < dc then fst (large_nodes data 0 (sta - 1) 2 dc) else []) @ fst (split_from data (sta + code_len data sta) (sta + code_len data sta) True 0),
      snd (split_from data (sta + code_len data sta) (sta + code_len data sta) True 0))"
  by (subst split_from.simps, simp add: Let_def)+

text \<open>All nodes; the last unit of a chunk counts as one that continues.\<close>

definition chunk_nodes :: "byte list \<Rightarrow> int \<Rightarrow> byte list list \<times> int" where
  "chunk_nodes data dc =
     (case split_from data 0 0 False dc of
        (ns, pos, c) \<Rightarrow> (ns @ fst (large_nodes data pos (length data - pos) 1 c), snd (large_nodes data pos (length data - pos) 1 c)))"

section \<open>The loop computes it\<close>

definition whole_chunk :: "byte list \<Rightarrow> bool" where
  "whole_chunk data \<longleftrightarrow> 4 < length data \<and> length data < 2 ^ 16"

text \<open>What a run of the loop from a position has to show.\<close>

definition loop_splits :: "byte list \<Rightarrow> nat \<Rightarrow> nat \<Rightarrow> bool \<Rightarrow> 'a h264_dev_scheme \<Rightarrow> bool" where
  "loop_splits data sta pos f st \<longleftrightarrow>
     (\<exists>ns. dev_loop (buffer_of data) sta pos f st =
        Inr (fst (snd (split_from data sta pos f (DevCount st))),
          st\<lparr>bufferlist := bufferlist st @ ns, DevCount := snd (snd (split_from data sta pos f (DevCount st)))\<rparr>) \<and>
      good_nodes ns (fst (split_from data sta pos f (DevCount st))) \<and>
      fst (snd (split_from data sta pos f (DevCount st))) < length data \<and>
      0 \<le> snd (snd (split_from data sta pos f (DevCount st))) \<and> snd (snd (split_from data sta pos f (DevCount st))) \<le> DevCount st)"

text \<open>One turn: nodes put in front of those of the rest of the loop.\<close>

lemma loop_splits_turn:
  assumes "dev_loop (buffer_of data) sta pos f st = dev_loop (buffer_of data) sta1 pos1 True (st\<lparr>bufferlist := bufferlist st @ ns, DevCount := dc1\<rparr>)"
    and "split_from data sta pos f (DevCount st) = (bodies @ fst r, snd r)" and "r = split_from data sta1 pos1 True dc1"
    and "good_nodes ns bodies" and "dc1 \<le> DevCount st"
    and "loop_splits data sta1 pos1 True (st\<lparr>bufferlist := bufferlist st @ ns, DevCount := dc1\<rparr>)"
  shows "loop_splits data sta pos f st"
proof -
  let ?st = "st\<lparr>bufferlist := bufferlist st @ ns, DevCount := dc1\<rparr>"
  obtain ms where ms: "dev_loop (buffer_of data) sta1 pos1 True ?st =
      Inr (fst (snd r), ?st\<lparr>bufferlist := bufferlist ?st @ ms, DevCount := snd (snd r)\<rparr>)" "good_nodes ms (fst r)"
      "fst (snd r) < length data" "0 \<le> snd (snd r)" "snd (snd r) \<le> dc1"
    using assms(6) by (auto simp: loop_splits_def assms(3))
  have "good_nodes (ns @ ms) (bodies @ fst r)" by (rule good_nodes_append [OF assms(4) ms(2)])
  then show ?thesis
    unfolding loop_splits_def assms(2) using assms(1,5) ms by (intro exI [of _ "ns @ ms"]) simp
qed

lemma dev_loop_splits:
  assumes "whole_chunk data" and "pos \<le> sta" and "pos < length data" and "f \<or> pos = 0"
    and "0 \<le> DevCount st" and "DevCount st + 2 ^ 16 < 2 ^ 31"
  shows "loop_splits data sta pos f st"
  using assms(2-)
proof (induction "length data - sta" arbitrary: sta pos f st rule: less_induct)
  case less
  have chunk: "chunk_wf (buffer_of data)" "GetSizeValue (buffer_of data) = length data" "pbuffer (buffer_of data) = data"
    using annexb_chunk [of data] assms(1) by (simp_all add: whole_chunk_def)
  note dc = less.prems(4,5)
  let ?code = "code_len data sta"
  have code: "0 < ?code" "?code \<le> 4" using code_len_le by (simp_all add: code_len_def)
  consider (stop) "length data - 4 \<le> sta" | (skip) "sta < length data - 4" "\<not> is_start data sta"
    | (first) "sta < length data - 4" "is_start data sta" "\<not> f"
    | (unit) "sta < length data - 4" "is_start data sta" "f"
    by linarith
  then show ?case
  proof cases
    case stop
    then have "split_from data sta pos f (DevCount st) = ([], pos, DevCount st)" by (simp add: split_from.simps)
    moreover have "dev_loop (buffer_of data) sta pos f st = Inr (pos, st)"
      using stop chunk by (intro dev_loop_end) simp_all
    ultimately show ?thesis using less.prems unfolding loop_splits_def by (intro exI [of _ "[]"]) simp
  next
    case skip
    then have "split_from data sta pos f (DevCount st) = split_from data (sta + 1) pos f (DevCount st)"
      by (subst split_from.simps) simp
    moreover have "dev_loop (buffer_of data) sta pos f st = dev_loop (buffer_of data) (sta + 1) pos f st"
      using skip chunk by (intro dev_loop_skip) simp_all
    moreover have "loop_splits data (sta + 1) pos f st" using skip less.prems by (intro less.hyps) auto
    ultimately show ?thesis by (simp add: loop_splits_def)
  next
    case first
    then have "pos = 0" "f = False" using less.prems(3) by auto
    let ?ns = "if 0 < DevCount st then fst (large_nodes data 0 (sta - 1) 2 (DevCount st)) else []"
    obtain ns where ns: "dev_loop (buffer_of data) sta 0 False st = dev_loop (buffer_of data) (sta + ?code) (sta + ?code) True
        (st\<lparr>bufferlist := bufferlist st @ ns, DevCount := 0\<rparr>)" "good_nodes ns ?ns"
      using dev_loop_open [OF chunk(1), of sta st, unfolded chunk, OF first(1,2) dc] by blast
    have "loop_splits data (sta + ?code) (sta + ?code) True (st\<lparr>bufferlist := bufferlist st @ ns, DevCount := 0\<rparr>)"
      using first(1) code by (intro less.hyps) auto
    moreover have "split_from data sta 0 False (DevCount st) = (?ns @ fst (split_from data (sta + ?code) (sta + ?code) True 0),
        snd (split_from data (sta + ?code) (sta + ?code) True 0))"
      using first by (subst split_from.simps) (simp add: Let_def)
    ultimately show ?thesis
      unfolding \<open>pos = 0\<close> \<open>f = False\<close> using ns dc(1) by (intro loop_splits_turn [OF ns(1) _ refl ns(2)]) simp_all
  next
    case unit
    let ?u = "unit_nodes data pos (sta - pos) (DevCount st)"
    obtain ns where ns: "dev_loop (buffer_of data) sta pos True st = dev_loop (buffer_of data) (sta + ?code + 1) (sta + ?code) True
        (st\<lparr>bufferlist := bufferlist st @ ns, DevCount := snd ?u\<rparr>)" "good_nodes ns (fst ?u)"
      using dev_loop_unit [OF chunk(1), of sta pos st, unfolded chunk, OF unit(1,2) less.prems(1) dc] by blast
    have count: "0 \<le> snd ?u" "snd ?u \<le> DevCount st" using unit_nodes_count [OF dc(1)] by auto
    have rest: "loop_splits data (sta + ?code + 1) (sta + ?code) True (st\<lparr>bufferlist := bufferlist st @ ns, DevCount := snd ?u\<rparr>)"
      using unit(1) code count dc by (intro less.hyps) auto
    have split: "split_from data sta pos True (DevCount st) = (fst ?u @ fst (split_from data (sta + ?code + 1) (sta + ?code) True (snd ?u)),
        snd (split_from data (sta + ?code + 1) (sta + ?code) True (snd ?u)))"
      using unit by (subst split_from.simps) (simp add: Let_def)
    have "f = True" using unit(3) by simp
    then show ?thesis by (simp only:) (rule loop_splits_turn [OF ns(1) split refl ns(2) count(2) rest])
  qed
qed

lemma DevNode_chunk:
  assumes "whole_chunk data" and "0 \<le> DevCount st" and "DevCount st + 2 ^ 16 < 2 ^ 31"
  shows "\<exists>ns. DevNode (buffer_of data) 0 st =
      Inr (st\<lparr>bufferlist := bufferlist st @ ns, DevCount := snd (chunk_nodes data (DevCount st)),
        filepos := (filepos st + length data) mod 2 ^ 64\<rparr>) \<and>
    good_nodes ns (fst (chunk_nodes data (DevCount st))) \<and>
    ns \<noteq> [] \<and> 0 < snd (chunk_nodes data (DevCount st)) \<and> snd (chunk_nodes data (DevCount st)) \<le> DevCount st + int (length data)"
proof -
  have chunk: "chunk_wf (buffer_of data)" "GetSizeValue (buffer_of data) = length data" "pbuffer (buffer_of data) = data"
    using annexb_chunk [of data] assms(1) by (simp_all add: whole_chunk_def)
  obtain bodies pos c where split: "split_from data 0 0 False (DevCount st) = (bodies, pos, c)" by (metis surj_pair)
  have "loop_splits data 0 0 False st"
    by (rule dev_loop_splits [OF assms(1)]) (use assms in \<open>auto simp: whole_chunk_def\<close>)
  then obtain ns where loop: "dev_loop (buffer_of data) 0 0 False st = Inr (pos, st\<lparr>bufferlist := bufferlist st @ ns, DevCount := c\<rparr>)"
      "good_nodes ns bodies" "pos < length data" "0 \<le> c" "c \<le> DevCount st"
    unfolding loop_splits_def split by auto
  let ?tail = "large_nodes data pos (length data - pos) 1 c"
  obtain ms where ms: "DevNode (buffer_of data) 0 st = Inr (st\<lparr>bufferlist := bufferlist st @ ns @ ms, DevCount := snd ?tail,
      filepos := (filepos st + length data) mod 2 ^ 64\<rparr>)" "good_nodes ms (fst ?tail)"
    using DevNode_nodes [OF chunk(1) assms(2,3) loop(1) _ loop(4,5)] loop(3) by (auto simp: chunk)
  have nodes: "chunk_nodes data (DevCount st) = (bodies @ fst ?tail, snd ?tail)" by (simp add: chunk_nodes_def split)
  have tail: "fst ?tail \<noteq> []" "0 < snd ?tail" "snd ?tail \<le> DevCount st + int (length data)"
    using loop(3-5) by (simp_all add: large_nodes_def Let_def)
  have "good_nodes (ns @ ms) (bodies @ fst ?tail)" by (rule good_nodes_append [OF loop(2) ms(2)])
  moreover have "ms \<noteq> []" using ms(2) tail(1) by (auto simp: good_nodes_def)
  ultimately show ?thesis using ms(1) tail unfolding nodes by (intro exI [of _ "ns @ ms"]) simp
qed

text \<open>On chunks as an encoder writes them the splitter gives the nodes of the units.\<close>

definition dev_state :: "int \<Rightarrow> h264_dev" where
  "dev_state dc = \<lparr>filepos = 0, OnStream = False, IsPlay = False, sqsnumber = 0, fileindex = 0,
     MediaInfo = undefined, bufferlist = [], DevCount = dc\<rparr>"

lemma dev_state_fields: "DevCount (dev_state dc) = dc" "bufferlist (dev_state dc) = []" "filepos (dev_state dc) = 0"
  by (simp_all add: dev_state_def)

lemma chunk_nodes_determined:
  assumes "whole_chunk data" and "0 \<le> dc" and "dc + 2 ^ 16 < 2 ^ 31"
    and "DevNode (buffer_of data) 0 (dev_state dc) = Inr ((dev_state dc)\<lparr>bufferlist := ns, DevCount := c, filepos := p\<rparr>)"
    and "good_nodes ns bodies"
  shows "chunk_nodes data dc = (bodies, c)"
  using DevNode_chunk [OF assms(1), of "dev_state dc"] assms(2-5) by (auto simp: dev_state_def good_nodes_def prod_eq_iff)

lemma whole_annexb:
  assumes "\<forall>(long, nal) \<in> set us. nal_ok nal" and "us \<noteq> []" and "length (xs @ annexb us) < 2 ^ 16"
  shows "whole_chunk (xs @ annexb us)"
proof -
  obtain long nal vs where us: "us = (long, nal) # vs" using assms(2) by (cases us) auto
  then have "2 \<le> length nal" using assms(1) by (simp add: nal_ok_def)
  moreover have "3 \<le> length (code_bytes long)" by (simp add: code_bytes_def)
  moreover have "length (xs @ annexb us) = length xs + length (code_bytes long) + length nal + length (annexb vs)" by (simp add: us)
  ultimately show ?thesis using assms(3) unfolding whole_chunk_def by linarith
qed

lemma chunk_nodes_units:
  assumes "\<forall>(long, nal) \<in> set us. nal_ok nal" and "us \<noteq> []" and "length (annexb us) < 2 ^ 16"
  defines "rest \<equiv> snd (last us)"
  shows "chunk_nodes (annexb us) 0 =
    (concat (map (nal_nodes \<circ> snd) (butlast us)) @ fst (large_nodes rest 0 (length rest) 1 0), snd (large_nodes rest 0 (length rest) 1 0))"
proof -
  have "whole_chunk (annexb us)" using whole_annexb [of us "[]"] assms(1-3) by simp
  moreover obtain ns where "DevNode (buffer_of (annexb us)) 0 (dev_state 0) =
      Inr ((dev_state 0)\<lparr>bufferlist := ns, DevCount := snd (large_nodes rest 0 (length rest) 1 0),
        filepos := (0 + length (annexb us)) mod 2 ^ 64\<rparr>)"
    "good_nodes ns (concat (map (nal_nodes \<circ> snd) (butlast us)) @ fst (large_nodes rest 0 (length rest) 1 0))"
    using DevNode_units [OF assms(1-3), of "dev_state 0"] by (auto simp: dev_state_def rest_def)
  ultimately show ?thesis by (intro chunk_nodes_determined) simp_all
qed

text \<open>A chunk that begins with a start code while fragments are pending: these get an empty end.\<close>

lemma chunk_nodes_pending:
  assumes "\<forall>(long, nal) \<in> set us. nal_ok nal" and "us \<noteq> []" and "length (annexb us) < 2 ^ 16" and "0 < dc" and "dc + 2 ^ 16 < 2 ^ 31"
  shows "chunk_nodes (annexb us) dc = (fu_bytes 0 0 [] # fst (chunk_nodes (annexb us) 0), snd (chunk_nodes (annexb us) 0))"
proof -
  let ?data = "annexb us"
  obtain long nal vs where us: "us = (long, nal) # vs" using assms(2) by (cases us) auto
  have "drop 0 ?data = annexb ((long, nal) # vs)" "nal_ok nal" using assms(1) by (simp_all add: us)
  note start = start_of_unit [OF this]
  have h: "?data ! 0 = 0" using start(1) by (simp add: is_start_def)
  have "large_nodes ?data 0 0 2 dc = ([fu_bytes 0 0 []], 0)" by (simp add: large_nodes_def h)
  then have "split_from ?data 0 0 False dc =
      (fu_bytes 0 0 [] # fst (split_from ?data 0 0 False 0), snd (split_from ?data 0 0 False 0))"
    using start(1,3) assms(4) by (subst (1 2 3) split_from.simps) (simp add: Let_def)
  then show ?thesis by (simp add: chunk_nodes_def split: prod.split)
qed

section \<open>Properties\<close>

text \<open>C26. \<open>DevNode\<close> computes the reference splitter on every chunk of 5 bytes to 64 KB, whatever the bytes are and
  whatever fragments were pending: it queues exactly these nodes in this order and ends with this count, without
  leaving an array.\<close>

theorem DevNode_reference:
  assumes "whole_chunk data" and "0 \<le> DevCount st" and "DevCount st + 2 ^ 16 < 2 ^ 31"
  shows "\<exists>ns. DevNode (buffer_of data) 0 st =
      Inr (st\<lparr>bufferlist := bufferlist st @ ns, DevCount := snd (chunk_nodes data (DevCount st)),
        filepos := (filepos st + length data) mod 2 ^ 64\<rparr>) \<and>
    map content ns = fst (chunk_nodes data (DevCount st))"
  using DevNode_chunk [OF assms] by (auto simp: good_nodes_def)

theorem DevNode_reference_witness:
  "\<exists>ns. DevNode (buffer_of [7, 7, 0, 0, 1, 0, 0, 1, 0x41, 9, 0, 0]) 0 (dev_state 5) =
      Inr ((dev_state 5)\<lparr>bufferlist := ns, DevCount := 1, filepos := 12\<rparr>) \<and>
    map content ns = [fu_bytes 0 7 [7], single_bytes 0 [], fu_bytes 1 0x41 [9, 0, 0]]"
proof -
  let ?data = "[7, 7, 0, 0, 1, 0, 0, 1, 0x41, 9, 0, 0] :: byte list"
  have nodes: "chunk_nodes ?data 5 = ([fu_bytes 0 7 [7], single_bytes 0 [], fu_bytes 1 0x41 [9, 0, 0]], 1)"
    by (simp add: chunk_nodes_def split_steps is_start_def code_len_def unit_nodes_def large_nodes_def segment_def Let_def)
  have "whole_chunk ?data" by (simp add: whole_chunk_def)
  from DevNode_reference [OF this, of "dev_state 5", unfolded dev_state_fields nodes]
  show ?thesis by (simp only: zero_le_numeral fst_conv snd_conv append_Nil) simp
qed

end
