(* ===== verification/Playback.thy ===== *)
theory Playback
  imports DescribeReply Streaming ChunkNodes
begin

text \<open>
  From the file to the connection: what a client receives that sends \<open>SETUP\<close> and \<open>PLAY\<close> and then lets the service
  write. The stream is abstracted to the list of nodes it has still to deliver, those queued and those of the
  blocks the file manager will read; every operation takes a node from the front of this list.
\<close>

section \<open>The nodes of a file\<close>

text \<open>Block after block, each split with the fragments the one before left pending. The first block comes twice, as
  the file manager reads it.\<close>

primrec blocks_nodes :: "int \<Rightarrow> byte list list \<Rightarrow> byte list list" where
  "blocks_nodes dc [] = []"
| "blocks_nodes dc (b # bs) = fst (chunk_nodes b dc) @ blocks_nodes (snd (chunk_nodes b dc)) bs"

definition file_blocks :: "byte list \<Rightarrow> nat \<Rightarrow> byte list list" where
  "file_blocks dat i = map (block dat) [i..<length dat div 10240]"

definition stream_nodes :: "byte list \<Rightarrow> byte list list" where
  "stream_nodes dat = blocks_nodes 0 (block dat 0 # file_blocks dat 0)"

lemma file_blocks_simps:
  "10240 * i + 10240 \<le> length dat \<Longrightarrow> file_blocks dat i = block dat i # file_blocks dat (Suc i)"
  "length dat < 10240 * i + 10240 \<Longrightarrow> file_blocks dat i = []"
proof -
  assume "10240 * i + 10240 \<le> length dat"
  then have "i < length dat div 10240" by (simp add: less_eq_div_iff_mult_less_eq Suc_le_eq [symmetric])
  then show "file_blocks dat i = block dat i # file_blocks dat (Suc i)" by (simp add: file_blocks_def upt_conv_Cons)
next
  assume "length dat < 10240 * i + 10240"
  then have "length dat div 10240 \<le> i" by (simp add: less_Suc_eq_le [symmetric] div_less_iff_less_mult)
  then show "file_blocks dat i = []" by (simp add: file_blocks_def)
qed

section \<open>What a stream has still to deliver\<close>

text \<open>After \<open>i\<close> refills the stream's own position is a block ahead of the file's, but for the first refill.\<close>

definition serves :: "string \<Rightarrow> byte list \<Rightarrow> file_manager \<Rightarrow> h264_stream \<Rightarrow> byte list list \<Rightarrow> bool" where
  "serves name dat fm st due \<longleftrightarrow>
     fileindex st = 0 \<and> 0 \<le> DevCount st \<and> DevCount st \<le> int (filepos st) \<and> length dat \<le> 2 ^ 29 \<and>
     (\<exists>i ns. filepos st = 10240 * i + 10240 \<and> 10240 * i \<le> length dat \<and> 10240 \<le> length dat \<and>
        fm = [(0, node_at name dat (if i = 0 then 10240 else 10240 * i) False)] \<and>
        good_nodes (bufferlist st) ns \<and> due = ns @ blocks_nodes (DevCount st) (file_blocks dat i))"

lemma serves_cong:
  "serves name dat fm st due \<Longrightarrow> bufferlist st' = bufferlist st \<Longrightarrow> fileindex st' = fileindex st \<Longrightarrow> filepos st' = filepos st \<Longrightarrow>
    DevCount st' = DevCount st \<Longrightarrow> serves name dat fm st' due"
  by (simp add: serves_def)

text \<open>A call that has to read on is a call on the stream whose queue has been filled.\<close>

lemma TCP_refill:
  assumes "fetch_node fm st = Inr (node, fm', Media)" and "0 < MTU node"
  shows "TCPForH264 m fm st = TCPForH264 m fm' (Media\<lparr>bufferlist := node # bufferlist Media\<rparr>)"
proof -
  have "fetch_node fm' (Media\<lparr>bufferlist := node # bufferlist Media\<rparr>) =
      Inr (node, fm', Media\<lparr>bufferlist := node # bufferlist Media, bufferlist := bufferlist Media\<rparr>)"
    using fetch_queued [of "Media\<lparr>bufferlist := node # bufferlist Media\<rparr>" node "bufferlist Media" fm'] assms(2) by simp
  then show ?thesis using assms(1) by (simp add: TCPForH264_def)
qed

lemma block_length: "10240 * i + 10240 \<le> length dat \<Longrightarrow> length (block dat i) = 10240"
  by (simp add: block_def)

lemma block_whole: "10240 * i + 10240 \<le> length dat \<Longrightarrow> whole_chunk (block dat i)"
  by (simp add: whole_chunk_def block_length)

lemma DevNode_shared_chunk:
  assumes "length data = 10240" and "0 \<le> DevCount st" and "DevCount st + 2 ^ 16 < 2 ^ 31"
  shows "\<exists>ns. DevNode_shared (buffer_of data) 0 st =
      Inr (st\<lparr>bufferlist := bufferlist st @ ns, DevCount := snd (chunk_nodes data (DevCount st)), filepos := (filepos st + 10240) mod 2 ^ 64\<rparr>) \<and>
    good_nodes ns (fst (chunk_nodes data (DevCount st))) \<and> ns \<noteq> [] \<and>
    0 \<le> snd (chunk_nodes data (DevCount st)) \<and> snd (chunk_nodes data (DevCount st)) \<le> DevCount st + 10240"
  using DevNode_chunk [of data st] assms DevNode_shared_block [OF assms(1), of st]
  by (auto simp: whole_chunk_def)

text \<open>The next node, from the queue or after a refill.\<close>

lemma serves_refill:
  assumes "serves name dat fm st due" and "bufferlist st = []" and "due \<noteq> []"
  shows "\<exists>node rest dc fp fm'. fetch_node fm st = Inr (node, fm', st\<lparr>bufferlist := rest, DevCount := dc, filepos := fp\<rparr>) \<and>
    0 < MTU node \<and> serves name dat fm' (st\<lparr>bufferlist := node # rest, DevCount := dc, filepos := fp\<rparr>) due"
proof -
  obtain i where i: "filepos st = 10240 * i + 10240" "10240 \<le> length dat" "length dat \<le> 2 ^ 29"
      "fm = [(0, node_at name dat (if i = 0 then 10240 else 10240 * i) False)]"
      "due = blocks_nodes (DevCount st) (file_blocks dat i)"
    using assms(1,2) by (auto simp: serves_def)
  have idx: "fileindex st = 0" and dc0: "0 \<le> DevCount st" "DevCount st \<le> int (filepos st)" using assms(1) by (simp_all add: serves_def)
  have more: "10240 * i + 10240 \<le> length dat" using assms(3) i(5) file_blocks_simps(2) [of dat i] by fastforce
  have dc: "DevCount st + 2 ^ 16 < 2 ^ 31" using dc0(2) i(1,3) more by simp
  let ?p = "if i = 0 then 10240 else 10240 * i"
  have seek: "seek_to dat (filepos st) ?p False = \<lparr>file_data = dat, file_pos = 10240 * i, file_eof = False\<rparr>"
    by (simp add: seek_to_def i(1))
  have pos: "filepos st \<le> 2 ^ 31" using i(1,3) more by simp
  have read: "GetBufferFormFile fm (fileindex st) (filepos st) 10240 =
      Inr (buffer_of (block dat i), [(0, node_at name dat (10240 * i + 10240) False)])"
    unfolding i(4) idx by (rule GetBufferFormFile_block [OF pos seek more, folded block_def])
  let ?dc = "snd (chunk_nodes (block dat i) (DevCount st))" and ?fp = "(filepos st + 10240) mod 2 ^ 64"
  obtain ns where ns: "DevNode_shared (buffer_of (block dat i)) 0 st =
      Inr (st\<lparr>bufferlist := bufferlist st @ ns, DevCount := ?dc, filepos := ?fp\<rparr>)"
      "good_nodes ns (fst (chunk_nodes (block dat i) (DevCount st)))" "ns \<noteq> []" "0 \<le> ?dc" "?dc \<le> DevCount st + 10240"
    using DevNode_shared_chunk [OF block_length [OF more] dc0(1) dc] by blast
  obtain node rest where nr: "ns = node # rest" using ns(3) by (cases ns) auto
  have mtu: "0 < MTU node" using ns(2) nr by (auto simp: good_nodes_def)
  have size: "MTU (buffer_of (block dat i)) = 10240" using block_length [OF more] by (simp add: buffer_of_def)
  have fp: "?fp = 10240 * Suc i + 10240" using i(1,3) more by simp
  have "fetch_node fm st = Inr (node, [(0, node_at name dat (10240 * i + 10240) False)],
      st\<lparr>bufferlist := rest, DevCount := ?dc, filepos := ?fp\<rparr>)"
    using read ns(1) assms(2) size by (simp add: fetch_node_def GetNode_def GetMtuValue_def nr)
  moreover have "serves name dat [(0, node_at name dat (10240 * i + 10240) False)]
      (st\<lparr>bufferlist := node # rest, DevCount := ?dc, filepos := ?fp\<rparr>) due"
    unfolding serves_def
  proof (intro conjI exI [of _ "Suc i"] exI [of _ "fst (chunk_nodes (block dat i) (DevCount st))"])
    show "DevCount (st\<lparr>bufferlist := node # rest, DevCount := ?dc, filepos := ?fp\<rparr>) \<le>
        int (filepos (st\<lparr>bufferlist := node # rest, DevCount := ?dc, filepos := ?fp\<rparr>))"
      using ns(5) dc0(2) i(1) fp by simp
    show "due = fst (chunk_nodes (block dat i) (DevCount st)) @
        blocks_nodes (DevCount (st\<lparr>bufferlist := node # rest, DevCount := ?dc, filepos := ?fp\<rparr>)) (file_blocks dat (Suc i))"
      by (simp add: i(5) file_blocks_simps(1) [OF more])
  qed (use idx ns(2,4) nr fp more i(2,3) in \<open>simp_all add: add.commute\<close>)
  ultimately show ?thesis using mtu by blast
qed

lemma serves_next:
  assumes "serves name dat fm st (c # due)"
  shows "\<exists>node rest dc fp fm'. (\<forall>m. TCPForH264 m fm st = TCPForH264 m fm' (st\<lparr>bufferlist := node # rest, DevCount := dc, filepos := fp\<rparr>)) \<and>
    buf_wf node \<and> 0 < MTU node \<and> content node = c \<and>
    serves name dat fm' (st\<lparr>bufferlist := rest, DevCount := dc, filepos := fp\<rparr>) due"
proof -
  obtain node rest dc fp fm' where n: "\<forall>m. TCPForH264 m fm st = TCPForH264 m fm' (st\<lparr>bufferlist := node # rest, DevCount := dc, filepos := fp\<rparr>)"
      "serves name dat fm' (st\<lparr>bufferlist := node # rest, DevCount := dc, filepos := fp\<rparr>) (c # due)"
  proof (cases "bufferlist st")
    case Nil
    then obtain node rest dc fp fm' where r: "fetch_node fm st = Inr (node, fm', st\<lparr>bufferlist := rest, DevCount := dc, filepos := fp\<rparr>)"
        "0 < MTU node" "serves name dat fm' (st\<lparr>bufferlist := node # rest, DevCount := dc, filepos := fp\<rparr>) (c # due)"
      using serves_refill [OF assms] by auto
    have "st\<lparr>bufferlist := rest, DevCount := dc, filepos := fp\<rparr>\<lparr>bufferlist := node # rest\<rparr> =
        st\<lparr>bufferlist := node # rest, DevCount := dc, filepos := fp\<rparr>" by (cases st) simp
    moreover have "bufferlist (st\<lparr>bufferlist := rest, DevCount := dc, filepos := fp\<rparr>) = rest" by simp
    ultimately have "TCPForH264 m fm st = TCPForH264 m fm' (st\<lparr>bufferlist := node # rest, DevCount := dc, filepos := fp\<rparr>)" for m
      using TCP_refill [OF r(1,2), of m] by (simp only:)
    then show ?thesis using r(3) that [of fm' fp dc node rest] by blast
  next
    case (Cons node rest)
    then have "st\<lparr>bufferlist := node # rest, DevCount := DevCount st, filepos := filepos st\<rparr> = st" by (cases st) simp
    then show ?thesis using assms that [of fm "filepos st" "DevCount st" node rest] by simp
  qed
  let ?st = "st\<lparr>bufferlist := node # rest, DevCount := dc, filepos := fp\<rparr>"
  obtain i ns where i: "good_nodes (node # rest) ns" "c # due = ns @ blocks_nodes dc (file_blocks dat i)"
      "filepos ?st = 10240 * i + 10240" "10240 * i \<le> length dat" "10240 \<le> length dat"
      "fm' = [(0, node_at name dat (if i = 0 then 10240 else 10240 * i) False)]"
    using n(2) by (auto simp: serves_def)
  obtain ms where ms: "ns = c # ms" "due = ms @ blocks_nodes dc (file_blocks dat i)" "good_nodes rest ms"
      "content node = c" "buf_wf node" "0 < MTU node"
    using i(1,2) by (cases ns) (auto simp: good_nodes_def)
  have "serves name dat fm' (st\<lparr>bufferlist := rest, DevCount := dc, filepos := fp\<rparr>) due"
    using n(2) i(3-6) ms(2,3) by (auto simp: serves_def)
  with n(1) ms(4-6) show ?thesis by blast
qed

section \<open>Packets of the nodes\<close>

text \<open>
  A packet with a given sequence number and source that carries the media bytes of a node: those of a whole unit,
  or those of a fragment behind the two bytes of an FU-A header with the right start and end bits.
\<close>

definition carries :: "nat \<Rightarrow> int \<Rightarrow> byte list \<Rightarrow> byte list \<Rightarrow> bool" where
  "carries seq src c p \<longleftrightarrow> (\<exists>ts t. t AND 0x1f = t \<and>
     p = rtp_packet (c ! 1 = 0) seq ts src
       (if c ! 0 = 0 then drop 16 c
        else [c ! 2 AND 0x60 OR 28, (if c ! 1 = 1 then 0x80 else if c ! 1 = 0 then 0x40 else 0) OR t] @ drop 18 c))"

text \<open>The nodes of a regular stream: parameter sets and the like, slices or their first fragments, further fragments.\<close>

definition is_parset :: "byte list \<Rightarrow> bool" where
  "is_parset c \<longleftrightarrow> c \<noteq> [] \<and> hd c AND 0x1f \<in> {6, 7, 8}"

definition begins_slice :: "sps_syntax \<Rightarrow> byte list \<Rightarrow> bool" where
  "begins_slice x c \<longleftrightarrow> (\<exists>y h rbsp. slice_nal x y h rbsp \<and>
     (c = single_bytes 0 (h # escape 0 rbsp) \<or>
      (\<exists>body. c = fu_bytes 1 h body \<and> take 64 body = take 64 (escape 0 rbsp))))"

definition continues_slice :: "byte list \<Rightarrow> bool" where
  "continues_slice c \<longleftrightarrow> (\<exists>n1 h body. n1 \<noteq> 1 \<and> c = fu_bytes n1 h body)"

text \<open>Parameter sets of more than one frame per second, as every camera has.\<close>

definition timed :: "sps_syntax \<Rightarrow> bool" where
  "timed x \<longleftrightarrow> x_vui x \<and> (case x_timing x of None \<Rightarrow> False | Some (u, t, f) \<Rightarrow> u < t)"

lemma timed_fill: "timed x \<Longrightarrow> num_units_in_tick (sps_fill x sps) < time_scale (sps_fill x sps)"
  by (auto simp: timed_def sps_fill_def fill_vui_def fill_restriction_def fill_timing_def Let_def split: option.splits prod.splits)

lemma timed_stamp:
  assumes "timed x"
  shows "\<exists>ts. timestamp_of info (sps_fill x sps) c = Inr ts"
  using timed_fill [OF assms, of sps] by (simp add: timestamp_of_def)

text \<open>A sender that has read its parameter set.\<close>

definition ready :: "sps_syntax \<Rightarrow> h264_stream \<Rightarrow> bool" where
  "ready x st \<longleftrightarrow> (\<exists>sps. StreamSps st = Some (sps_fill x sps)) \<and> sqsnumber st < 2 ^ 16 \<and>
     CurNalType st AND 0x1f = CurNalType st \<and> fps (MediaInfo st) = 0"

definition same_source :: "h264_stream \<Rightarrow> h264_stream \<Rightarrow> bool" where
  "same_source st st' \<longleftrightarrow> ssrc (MediaInfo st') = ssrc (MediaInfo st) \<and> IsPlay st' = IsPlay st"

lemma TCP_MTU:
  assumes "bufferlist st = node # rest" and "0 < MTU node" and "TCPForH264 m fm st = Inr (p, fm', st')"
  shows "MTU p = 0 \<or> MTU p = MTU node"
  using assms(3) fetch_queued [OF assms(1,2), of fm]
  by (auto simp: TCPForH264_def andThen_Inr_iff split: if_splits dest!: rtp_header_fields prepare_node_fields)

lemma written_content:
  assumes "content p \<noteq> []" and "MTU p < 2 ^ 32"
  shows "take (GetSizeValue p) (GetBuffer p) = content p" and "0 < MTU p"
proof -
  have "bpos p < MTU p" using assms(1) by (auto simp: content_def)
  then show "take (GetSizeValue p) (GetBuffer p) = content p" "0 < MTU p"
    using assms(2) by (simp_all add: GetSizeValue_def GetBuffer_def content_def u32_diff)
qed

text \<open>A packet that the node \<open>c\<close> has become, and the state it leaves.\<close>

definition sent :: "string \<Rightarrow> byte list \<Rightarrow> sps_syntax \<Rightarrow> h264_stream \<Rightarrow> byte list \<Rightarrow> byte list list \<Rightarrow> buffer \<times> file_manager \<times> h264_stream \<Rightarrow> bool" where
  "sent name dat x st c due r \<longleftrightarrow> (case r of (p, fm', st') \<Rightarrow>
     0 < MTU p \<and> take (GetSizeValue p) (GetBuffer p) = content p \<and>
     carries (sqsnumber st) (ssrc (MediaInfo st)) c (content p) \<and> serves name dat fm' st' due \<and> ready x st' \<and>
     CurSlice st' \<noteq> None \<and> sqsnumber st' = Suc (sqsnumber st) mod 2 ^ 16 \<and> same_source st st')"

lemma sentI:
  assumes "TCPForH264 m fm st = TCPForH264 m fm1 st1" and "bufferlist st1 = node # rest" and "buf_wf node" and "0 < MTU node"
    and "TCPForH264 m fm1 st1 = Inr (p, fm1, st')"
    and "carries (sqsnumber st) (ssrc (MediaInfo st)) c (content p)" and "serves name dat fm1 st' due"
    and "ready x st'" and "CurSlice st' \<noteq> None" and "sqsnumber st' = Suc (sqsnumber st) mod 2 ^ 16" and "same_source st st'"
  shows "\<exists>r. TCPForH264 m fm st = Inr r \<and> sent name dat x st c due r"
proof -
  have ne: "content p \<noteq> []" using assms(6) by (auto simp: carries_def rtp_packet_def)
  then have "MTU p < 2 ^ 32" using TCP_MTU [OF assms(2,4,5)] assms(3) by (auto simp: content_def buf_wf_def)
  from written_content [OF ne this] show ?thesis using assms unfolding sent_def by auto
qed

lemma u16_Suc: "n < 2 ^ 16 \<Longrightarrow> u16 (int n + 1) = Suc n mod 2 ^ 16"
  by (simp add: u16_def nat_mod_distrib nat_add_distrib)

lemma after_key_keeps [simp]: "ssrc (after_key c info) = ssrc info" "fps (after_key c info) = fps info"
  by (simp_all add: after_key_def)

lemma and_low_idem: "(h AND 0x1f :: byte) AND 0x1f = h AND 0x1f"
  by (simp add: and.assoc)

lemma send_node:
  assumes "serves name dat fm st (c # due)" and "ready x st" and "timed x"
    and "begins_slice x c \<or> continues_slice c \<and> CurSlice st \<noteq> None"
  shows "\<exists>r. TCPForH264 m fm st = Inr r \<and> sent name dat x st c due r"
proof -
  obtain node rest dc fp fm1 where n: "\<forall>m. TCPForH264 m fm st = TCPForH264 m fm1 (st\<lparr>bufferlist := node # rest, DevCount := dc, filepos := fp\<rparr>)"
      "buf_wf node" "0 < MTU node" "content node = c" "serves name dat fm1 (st\<lparr>bufferlist := rest, DevCount := dc, filepos := fp\<rparr>) due"
    using serves_next [OF assms(1)] by blast
  let ?st = "st\<lparr>bufferlist := node # rest, DevCount := dc, filepos := fp\<rparr>"
  obtain sps where sps: "StreamSps st = Some (sps_fill x sps)" using assms(2) by (auto simp: ready_def)
  have st: "bufferlist ?st = node # rest" "StreamSps ?st = Some (sps_fill x sps)" by (simp_all add: sps)
  have seq: "u16 (int (sqsnumber st) + 1) = Suc (sqsnumber st) mod 2 ^ 16" using assms(2) by (simp add: ready_def u16_Suc)
  note sendI = sentI [OF spec [OF n(1), of m] st(1) n(2,3)]
  consider (single) y h rbsp where "slice_nal x y h rbsp" "c = single_bytes 0 (h # escape 0 rbsp)"
    | (first) y h rbsp body where "slice_nal x y h rbsp" "c = fu_bytes 1 h body" "take 64 body = take 64 (escape 0 rbsp)"
    | (rest) n1 h body sl where "n1 \<noteq> 1" "c = fu_bytes n1 h body" "CurSlice st = Some sl"
    using assms(4) unfolding begins_slice_def continues_slice_def by blast
  then show ?thesis
  proof cases
    case single
    obtain ts where ts: "timestamp_of (MediaInfo ?st) (sps_fill x sps) (slice_fill x y) = Inr ts" using timed_stamp [OF assms(3)] by blast
    obtain p where p: "TCPForH264 m fm1 ?st = Inr (p, fm1, ?st\<lparr>bufferlist := rest, CurSlice := Some (slice_fill x y),
        sqsnumber := u16 (int (sqsnumber ?st) + 1),
        MediaInfo := after_key (slice_fill x y) ((MediaInfo ?st)\<lparr>pframe_count := s64 (pframe_count (MediaInfo ?st) + 1)\<rparr>)\<rparr>)"
        "content p = rtp_packet True (sqsnumber ?st) ts (ssrc (MediaInfo ?st)) (h # escape 0 rbsp)"
      using send_single [OF single(1) st(1) n(2) n(4) [unfolded single(2)] st(2) ts] by blast
    show ?thesis
    proof (rule sendI [OF p(1)])
      show "carries (sqsnumber st) (ssrc (MediaInfo st)) c (content p)"
        using p(2) single(2) unfolding carries_def by (intro exI [of _ ts] exI [of _ 0]) (simp add: single_bytes_def nth_append)
    qed (use assms(2) sps seq n(5) in \<open>auto simp: ready_def same_source_def intro: serves_cong\<close>)
  next
    case first
    obtain ts where ts: "timestamp_of (MediaInfo ?st) (sps_fill x sps) (slice_fill x y) = Inr ts" using timed_stamp [OF assms(3)] by blast
    obtain p where p: "TCPForH264 m fm1 ?st = Inr (p, fm1, ?st\<lparr>bufferlist := rest, CurNalType := h AND 0x1f,
        CurSlice := Some (slice_fill x y), sqsnumber := u16 (int (sqsnumber ?st) + 1),
        MediaInfo := after_key (slice_fill x y) ((MediaInfo ?st)\<lparr>pframe_count := s64 (pframe_count (MediaInfo ?st) + 1)\<rparr>)\<rparr>)"
        "content p = rtp_packet False (sqsnumber ?st) ts (ssrc (MediaInfo ?st)) (fu_payload h True False body)"
      using send_first [OF first(1) st(1) n(2) n(4) [unfolded first(2)] first(3) st(2) ts] by blast
    show ?thesis
    proof (rule sendI [OF p(1)])
      show "carries (sqsnumber st) (ssrc (MediaInfo st)) c (content p)"
        using p(2) first(2) and_low_idem [of h] unfolding carries_def
        by (intro exI [of _ ts] exI [of _ "h AND 0x1f"]) (simp add: fu_payload_def)
    qed (use assms(2) sps seq n(5) and_low_idem [of h] in \<open>auto simp: ready_def same_source_def intro: serves_cong\<close>)
  next
    case rest
    obtain ts where ts: "timestamp_of (MediaInfo ?st) (sps_fill x sps) sl = Inr ts" using timed_stamp [OF assms(3)] by blast
    have sl: "CurSlice ?st = Some sl" using rest(3) by simp
    obtain p where p: "TCPForH264 m fm1 ?st = Inr (p, fm1, ?st\<lparr>bufferlist := rest,
        sqsnumber := u16 (int (sqsnumber ?st) + 1), MediaInfo := after_key sl (MediaInfo ?st)\<rparr>)"
        "content p = rtp_packet (n1 = 0) (sqsnumber ?st) ts (ssrc (MediaInfo ?st))
          ([h AND 0x60 OR 28, (if n1 = 0 then 0x40 else 0) OR CurNalType ?st] @ body)"
      using TCP_continued [OF st(1) n(2,3) n(4) [unfolded rest(2)] rest(1) sl st(2) ts] by blast
    show ?thesis
    proof (rule sendI [OF p(1)])
      show "carries (sqsnumber st) (ssrc (MediaInfo st)) c (content p)"
        using p(2) rest(1,2) assms(2) unfolding carries_def ready_def
        by (intro exI [of _ ts] exI [of _ "CurNalType st"]) simp
    qed (use assms(2) sps seq n(5) rest(3) in \<open>auto simp: ready_def same_source_def intro: serves_cong\<close>)
  qed
qed

section \<open>Nodes that bring no packet\<close>

lemma parset_type:
  assumes "buf_wf node" and "content node = c" and "is_parset c"
  shows "GetNalType node = Inr (hd c AND 0x1f)"
proof -
  have "hd c \<noteq> 0" "hd c \<noteq> 1" "c \<noteq> []" using assms(3) by (auto simp: is_parset_def)
  moreover from this have "GetByte node 0 = Inr (hd c)" using GetByte_nth [OF assms(1,2), of 0] by (simp add: hd_conv_nth)
  ultimately show ?thesis by (simp add: GetNalType_def)
qed

text \<open>The state after such a node.\<close>

definition passed :: "string \<Rightarrow> byte list \<Rightarrow> sps_syntax \<Rightarrow> h264_stream \<Rightarrow> byte list list \<Rightarrow> buffer \<times> file_manager \<times> h264_stream \<Rightarrow> bool" where
  "passed name dat x st due r \<longleftrightarrow> (case r of (p, fm', st') \<Rightarrow>
     MTU p = 0 \<and> serves name dat fm' st' due \<and> ready x st' \<and> CurSlice st' = CurSlice st \<and>
     sqsnumber st' = sqsnumber st \<and> same_source st st')"

lemma no_rate: "timed x \<Longrightarrow> s32 (int (num_units_in_tick (sps_fill x sps) div time_scale (sps_fill x sps))) = 0"
  using timed_fill [of x sps] by (simp add: s32_def)

lemma pass_node:
  assumes "serves name dat fm st (c # due)" and "ready x st" and "timed x" and "is_parset c"
  shows "\<exists>r. TCPForH264 m fm st = Inr r \<and> passed name dat x st due r"
proof -
  obtain node rest dc fp fm1 where n: "\<forall>m. TCPForH264 m fm st = TCPForH264 m fm1 (st\<lparr>bufferlist := node # rest, DevCount := dc, filepos := fp\<rparr>)"
      "buf_wf node" "0 < MTU node" "content node = c" "serves name dat fm1 (st\<lparr>bufferlist := rest, DevCount := dc, filepos := fp\<rparr>) due"
    using serves_next [OF assms(1)] by blast
  let ?st = "st\<lparr>bufferlist := node # rest, DevCount := dc, filepos := fp\<rparr>"
  let ?st1 = "?st\<lparr>bufferlist := rest\<rparr>" and ?info = "(MediaInfo st)\<lparr>fps := 0\<rparr>"
  obtain sps where sps: "StreamSps st = Some (sps_fill x sps)" using assms(2) by (auto simp: ready_def)
  have "time_scale (sps_fill x sps) \<noteq> 0" using timed_fill [OF assms(3), of sps] by simp
  then have "sps_node m node ?st1 = Inr (?st1\<lparr>MediaInfo := ?info\<rparr>)"
    using no_rate [OF assms(3), of sps] sps by (simp add: sps_node_def)
  moreover have "fetch_node fm1 ?st = Inr (node, fm1, ?st1)" using fetch_queued [of ?st node rest fm1] n(3) by simp
  moreover have "hd c AND 0x1f \<in> {6, 7, 8}" using assms(4) by (simp add: is_parset_def)
  ultimately have "TCPForH264 m fm1 ?st = Inr (Buffer 0, fm1, if hd c AND 0x1f = 7 then ?st1\<lparr>MediaInfo := ?info\<rparr> else ?st1)"
    using parset_type [OF n(2,4) assms(4)] by (auto simp: TCPForH264_def)
  then show ?thesis
    using n(1,5) assms(2) sps by (auto simp: passed_def ready_def same_source_def intro: serves_cong)
qed

text \<open>The first parameter set.\<close>

lemma load_sps:
  assumes "buf_wf node" and "content node = h # escape 0 rbsp" and "StreamSps Media = None"
    and "sps_ok x" and "bytes_bits rbsp = sps_bits x @ trailing" and "timed x"
  shows "sps_node m node Media = Inr (Media\<lparr>StreamSps := Some (sps_fill x (junk_sps m)), MediaInfo := (MediaInfo Media)\<lparr>fps := 0\<rparr>\<rparr>)"
proof -
  let ?c = "h # escape 0 rbsp" and ?n = "Suc (length (escape 0 rbsp))"
  have n: "GetSizeValue node = ?n" using length_content [OF assms(1)] assms(2) by simp
  have le: "?n \<le> length (pbuffer node)" "?n < 2 ^ 16" "segment 0 ?n (pbuffer node) = ?c"
    using assms(1,2) n GetSizeValue_wf [OF assms(1)] by (auto simp: content_def buf_wf_def segment_def)
  have "FullBuffer_shared (CreateBuf ?n) (Some node) 0 ?n = Inr (True, appended (Buffer ?n) ?c)"
    using FullBuffer_shared_append [OF buf_wf_Buffer [OF le(2)], of 0 ?n node] le by (simp add: CreateBuf_def)
  moreover have "pbuffer (appended (Buffer ?n) ?c) = ?c" "GetSizeValue (appended (Buffer ?n) ?c) = ?n"
    using appended_wf [OF buf_wf_Buffer [OF le(2)], of ?c] le(2)
    by (simp_all add: GetSizeValue_wf, simp add: appended_def blit_def)
  moreover have "ParseSqs_bytes mem ?c ?n sps = Inr (True, sps_fill x sps)" for mem sps
    by (rule ParseSqs_reads [OF assms(4,5)])
  moreover have "time_scale (sps_fill x (junk_sps m)) \<noteq> 0" using timed_fill [OF assms(6), of "junk_sps m"] by simp
  ultimately show ?thesis
    using assms(3) no_rate [OF assms(6), of "junk_sps m"] by (simp add: sps_node_def n ParseSqs_def GetBuffer_def)
qed

lemma pass_first:
  assumes "serves name dat fm st ((h # escape 0 rbsp) # due)" and "StreamSps st = None" and "h AND 0x1f = 7"
    and "sps_ok x" and "bytes_bits rbsp = sps_bits x @ trailing" and "timed x"
    and "sqsnumber st < 2 ^ 16" and "CurNalType st AND 0x1f = CurNalType st"
  shows "\<exists>r. TCPForH264 m fm st = Inr r \<and> passed name dat x st due r"
proof -
  let ?c = "h # escape 0 rbsp"
  obtain node rest dc fp fm1 where n: "\<forall>m. TCPForH264 m fm st = TCPForH264 m fm1 (st\<lparr>bufferlist := node # rest, DevCount := dc, filepos := fp\<rparr>)"
      "buf_wf node" "0 < MTU node" "content node = ?c" "serves name dat fm1 (st\<lparr>bufferlist := rest, DevCount := dc, filepos := fp\<rparr>) due"
    using serves_next [OF assms(1)] by blast
  let ?st = "st\<lparr>bufferlist := node # rest, DevCount := dc, filepos := fp\<rparr>"
  let ?st1 = "?st\<lparr>bufferlist := rest\<rparr>"
  have "is_parset ?c" using assms(3) by (simp add: is_parset_def)
  then have t: "GetNalType node = Inr 7" using parset_type [OF n(2,4)] assms(3) by simp
  have "StreamSps ?st1 = None" using assms(2) by simp
  from load_sps [OF n(2,4) this assms(4-6), of m] have "sps_node m node ?st1 =
      Inr (?st1\<lparr>StreamSps := Some (sps_fill x (junk_sps m)), MediaInfo := (MediaInfo ?st1)\<lparr>fps := 0\<rparr>\<rparr>)" .
  moreover have "fetch_node fm1 ?st = Inr (node, fm1, ?st1)" using fetch_queued [of ?st node rest fm1] n(3) by simp
  ultimately have "TCPForH264 m fm1 ?st =
      Inr (Buffer 0, fm1, ?st1\<lparr>StreamSps := Some (sps_fill x (junk_sps m)), MediaInfo := (MediaInfo ?st1)\<lparr>fps := 0\<rparr>\<rparr>)"
    using t by (simp add: TCPForH264_def)
  then show ?thesis
    using n(1,5) assms(7,8) by (auto simp: passed_def ready_def same_source_def intro: serves_cong)
qed

section \<open>The end of the file\<close>

text \<open>When every node has been delivered the file manager answers an empty buffer, whose type is read all the same.\<close>

lemma end_read:
  assumes "serves name dat fm st []"
  shows "bufferlist st = []" and "\<exists>fm'. GetBufferFormFile fm (fileindex st) (filepos st) 10240 = Inr (Buffer 0, fm')"
proof -
  obtain i where i: "filepos st = 10240 * i + 10240" "10240 * i \<le> length dat" "10240 \<le> length dat" "length dat \<le> 2 ^ 29"
      "fm = [(0, node_at name dat (if i = 0 then 10240 else 10240 * i) False)]" "fileindex st = 0"
      "good_nodes (bufferlist st) []" "blocks_nodes (DevCount st) (file_blocks dat i) = []" "0 \<le> DevCount st" "DevCount st \<le> int (filepos st)"
    using assms by (auto simp: serves_def)
  show "bufferlist st = []" using i(7) by (simp add: good_nodes_def)
  have short: "length dat < 10240 * i + 10240"
  proof (rule ccontr)
    assume "\<not> length dat < 10240 * i + 10240"
    then have more: "10240 * i + 10240 \<le> length dat" by simp
    then have "DevCount st + 2 ^ 16 < 2 ^ 31" using i(1,4,10) by simp
    from DevNode_shared_chunk [OF block_length [OF more] i(9) this]
    have "fst (chunk_nodes (block dat i) (DevCount st)) \<noteq> []" by (auto simp: good_nodes_def)
    then show False using i(8) by (simp add: file_blocks_simps(1) [OF more])
  qed
  then have pos: "i \<noteq> 0" using i(3) by (cases i) simp_all
  have seek: "seek_to dat (filepos st) (10240 * i) False = \<lparr>file_data = dat, file_pos = 10240 * i, file_eof = False\<rparr>"
    by (simp add: seek_to_def i(1))
  have bound: "filepos st \<le> 2 ^ 31" using i(1,2,4) by simp
  show "\<exists>fm'. GetBufferFormFile fm (fileindex st) (filepos st) 10240 = Inr (Buffer 0, fm')"
    using GetBufferFormFile_end [OF bound seek short, of name 10240] pos unfolding i(5,6) by auto
qed

lemma end_node:
  assumes "serves name dat fm st []"
  shows "TCPForH264 m fm st = Inl OutOfBounds"
  using end_read [OF assms] send_at_end by blast

section \<open>The next packet\<close>

text \<open>The loop passes over the nodes without a packet and ends with the packet of the first other node.\<close>

lemma packet_loop_pass:
  assumes "TCPForH264 m fm st = Inr (p, fm1, st1)" and "MTU p = 0"
  shows "packet_loop m fm st = packet_loop m fm1 st1"
  using assms by (subst packet_loop.simps) (simp add: GetMtuValue_def)

lemma sent_after_pass:
  "passed name dat x st due (p, fm1, st1) \<Longrightarrow> sent name dat x st1 c due' r \<Longrightarrow> sent name dat x st c due' r"
  by (auto simp: passed_def sent_def same_source_def)

lemma next_sent:
  assumes "serves name dat fm st (pre @ c # due)" and "ready x st" and "timed x" and "\<forall>s \<in> set pre. is_parset s"
    and "begins_slice x c \<or> continues_slice c \<and> CurSlice st \<noteq> None"
  shows "\<exists>r. packet_loop m fm st = Some (Inr r) \<and> sent name dat x st c due r"
  using assms
proof (induction pre arbitrary: fm st)
  case Nil
  then have "serves name dat fm st (c # due)" by simp
  from send_node [OF this Nil(2,3,5)] obtain p fm' st' where
    r: "TCPForH264 m fm st = Inr (p, fm', st')" "sent name dat x st c due (p, fm', st')" by (metis prod_cases3)
  then have "0 < MTU p" by (simp add: sent_def)
  then have "packet_loop m fm st = Some (Inr (p, fm', st'))" using r(1) by (subst packet_loop.simps) (simp add: GetMtuValue_def)
  then show ?case using r(2) by blast
next
  case (Cons s pre)
  have "serves name dat fm st (s # pre @ c # due)" "is_parset s" using Cons.prems by simp_all
  from pass_node [OF this(1) Cons.prems(2,3) this(2)] obtain p fm1 st1 where
    r: "TCPForH264 m fm st = Inr (p, fm1, st1)" "passed name dat x st (pre @ c # due) (p, fm1, st1)" by (metis prod_cases3)
  have "\<exists>r. packet_loop m fm1 st1 = Some (Inr r) \<and> sent name dat x st1 c due r"
    using r(2) Cons.prems by (intro Cons.IH) (auto simp: passed_def)
  moreover have "packet_loop m fm st = packet_loop m fm1 st1" using packet_loop_pass [OF r(1)] r(2) by (simp add: passed_def)
  ultimately show ?case using sent_after_pass [OF r(2)] by auto
qed

text \<open>When no node is left that brings a packet, the search ends in the fault at the end of the file.\<close>

lemma none_sent:
  assumes "serves name dat fm st due" and "ready x st" and "timed x" and "\<forall>s \<in> set due. is_parset s"
  shows "packet_loop m fm st = Some (Inl OutOfBounds)"
  using assms
proof (induction due arbitrary: fm st)
  case Nil
  then show ?case using end_node by (subst packet_loop.simps) simp
next
  case (Cons s due)
  from pass_node [OF Cons.prems(1,2,3)] Cons.prems(4) obtain p fm1 st1 where
    r: "TCPForH264 m fm st = Inr (p, fm1, st1)" "passed name dat x st due (p, fm1, st1)"
    by (metis list.set_intros(1) prod_cases3)
  then have "packet_loop m fm1 st1 = Some (Inl OutOfBounds)"
    using Cons.prems(3,4) by (intro Cons.IH) (auto simp: passed_def)
  then show ?case using packet_loop_pass [OF r(1)] r(2) by (simp add: passed_def)
qed

end
