(* ===== verification/PlaySession.thy ===== *)
theory PlaySession
  imports Playback
begin

text \<open>
  A session from \<open>SETUP\<close> to the last packet: the stream that \<open>SETUP\<close> opens, the packet that \<open>PLAY\<close> takes from it
  and those that each call of \<open>Send\<close> writes.
\<close>

section \<open>Sending\<close>

text \<open>The writes of several calls of \<open>Send\<close>, each with its own readings of the clock.\<close>

primrec send_all ::
  "uninit \<Rightarrow> (nat \<Rightarrow> nat) list \<Rightarrow> service \<Rightarrow> media_session \<Rightarrow> (byte list list \<times> service \<times> media_session) res" where
  "send_all m [] g ses = Inr ([], g, ses)"
| "send_all m (clock # clocks) g ses =
     andThen (Send m clock g ses) (\<lambda>(out, g, ses).
     andThen (send_all m clocks g ses) (\<lambda>(outs, g, ses). Inr (out @ outs, g, ses)))"

text \<open>The nodes that become packets.\<close>

definition media_nodes :: "byte list list \<Rightarrow> byte list list" where
  "media_nodes cs = filter (\<lambda>c. \<not> is_parset c) cs"

definition known_nodes :: "sps_syntax \<Rightarrow> byte list list \<Rightarrow> bool" where
  "known_nodes x cs \<longleftrightarrow> (\<forall>c \<in> set cs. is_parset c \<or> begins_slice x c \<or> continues_slice c)"

text \<open>A session in the middle of a stream.\<close>

definition plays :: "byte list \<Rightarrow> sps_syntax \<Rightarrow> service \<Rightarrow> media_session \<Rightarrow> nat \<Rightarrow> int \<Rightarrow> byte list list \<Rightarrow> bool" where
  "plays dat x g ses seq src due \<longleftrightarrow> session_IsPlay ses \<and> known_nodes x due \<and>
     (\<exists>st. streamobj ses = Some st \<and> IsPlay st \<and> serves media_file dat (files g) st due \<and> ready x st \<and> CurSlice st \<noteq> None \<and>
        sqsnumber st = seq \<and> ssrc (MediaInfo st) = src)"

lemma media_nodes_Cons:
  assumes "media_nodes due = c # cs"
  obtains pre due' where "due = pre @ c # due'" "\<forall>s \<in> set pre. is_parset s" "\<not> is_parset c" "cs = media_nodes due'"
  using assms by (auto simp: media_nodes_def filter_eq_Cons_iff)

lemma next_media:
  assumes "plays dat x g ses seq src due" and "timed x" and "media_nodes due = c # cs"
  shows "\<exists>p g' ses' due'. Send m clock g ses = Inr ([p], g', ses') \<and> carries seq src c p \<and>
    plays dat x g' ses' (Suc seq mod 2 ^ 16) src due' \<and> media_nodes due' = cs"
proof -
  obtain pre due' where due: "due = pre @ c # due'" "\<forall>s \<in> set pre. is_parset s" "\<not> is_parset c" "cs = media_nodes due'"
    using media_nodes_Cons [OF assms(3)] by blast
  obtain st where st: "session_IsPlay ses" "known_nodes x due" "streamobj ses = Some st" "IsPlay st"
      "serves media_file dat (files g) st (pre @ c # due')" "ready x st" "CurSlice st \<noteq> None" "sqsnumber st = seq" "ssrc (MediaInfo st) = src"
    using assms(1) due(1) by (auto simp: plays_def)
  have "begins_slice x c \<or> continues_slice c \<and> CurSlice st \<noteq> None" using st(2,7) due(1,3) by (auto simp: known_nodes_def)
  from next_sent [OF st(5,6) assms(2) due(2) this, of m] obtain p fm' st' where
    r: "packet_loop m (files g) st = Some (Inr (p, fm', st'))" "sent media_file dat x st c due' (p, fm', st')" by (metis prod_cases3)
  have "fps (MediaInfo st') = 0" using r(2) by (simp add: sent_def ready_def)
  then have "s64 (frame_count (MediaInfo st') * 1000 * 2 * fps (MediaInfo st')) \<le> 0" by (simp add: s64_def)
  from wait_loop_now [OF this] have "Send m clock g ses = Inr ([content p], g\<lparr>files := fm'\<rparr>, ses\<lparr>streamobj := Some st'\<rparr>)"
    using r st(1,3,4) by (simp add: Send_def next_packet_def sent_def)
  moreover have "plays dat x (g\<lparr>files := fm'\<rparr>) (ses\<lparr>streamobj := Some st'\<rparr>) (Suc seq mod 2 ^ 16) src due'"
    using r(2) st due(1) by (auto simp: plays_def sent_def same_source_def known_nodes_def session_IsPlay_def)
  moreover have "carries seq src c (content p)" using r(2) st(8,9) by (simp add: sent_def)
  ultimately show ?thesis using due(4) by blast
qed

text \<open>The packets of several calls, in the order of the nodes.\<close>

definition carried :: "nat \<Rightarrow> int \<Rightarrow> byte list list \<Rightarrow> byte list list \<Rightarrow> bool" where
  "carried seq src cs ps \<longleftrightarrow> length ps \<le> length cs \<and> (\<forall>i < length ps. carries ((seq + i) mod 2 ^ 16) src (cs ! i) (ps ! i))"

lemma carried_Cons:
  assumes "carries seq src c p" and "seq < 2 ^ 16" and "carried (Suc seq mod 2 ^ 16) src cs ps"
  shows "carried seq src (c # cs) (p # ps)"
  unfolding carried_def
proof (intro conjI allI impI)
  fix i assume "i < length (p # ps)"
  then show "carries ((seq + i) mod 2 ^ 16) src ((c # cs) ! i) ((p # ps) ! i)"
    using assms by (cases i) (auto simp: carried_def mod_simps)
qed (use assms(3) in \<open>simp add: carried_def\<close>)

lemma send_all_media:
  assumes "plays dat x g ses seq src due" and "timed x" and "length clocks \<le> length (media_nodes due)"
  shows "\<exists>ps g' ses'. send_all m clocks g ses = Inr (ps, g', ses') \<and> length ps = length clocks \<and> carried seq src (media_nodes due) ps"
  using assms(1,3)
proof (induction clocks arbitrary: g ses seq due)
  case Nil
  then show ?case by (simp add: carried_def)
next
  case (Cons clock clocks)
  then obtain c cs where cs: "media_nodes due = c # cs" by (cases "media_nodes due") auto
  from next_media [OF Cons.prems(1) assms(2) cs, of m clock] obtain p g1 ses1 due1 where
    s: "Send m clock g ses = Inr ([p], g1, ses1)" "carries seq src c p" "plays dat x g1 ses1 (Suc seq mod 2 ^ 16) src due1" "media_nodes due1 = cs"
    by blast
  have "length clocks \<le> length (media_nodes due1)" using Cons.prems(2) cs s(4) by simp
  from Cons.IH [OF s(3) this] obtain ps g' ses' where
    r: "send_all m clocks g1 ses1 = Inr (ps, g', ses')" "length ps = length clocks" "carried (Suc seq mod 2 ^ 16) src cs ps"
    using s(4) by blast
  have "seq < 2 ^ 16" using Cons.prems(1) by (auto simp: plays_def ready_def)
  from carried_Cons [OF s(2) this r(3)] show ?case using s(1) r(1,2) cs by auto
qed

text \<open>One call more than there are nodes meets the end of the file.\<close>

lemma end_media:
  assumes "plays dat x g ses seq src due" and "timed x" and "media_nodes due = []"
  shows "Send m clock g ses = Inl OutOfBounds"
proof -
  obtain st where st: "session_IsPlay ses" "streamobj ses = Some st" "IsPlay st" "serves media_file dat (files g) st due" "ready x st"
    using assms(1) by (auto simp: plays_def)
  have "\<forall>s \<in> set due. is_parset s" using assms(3) by (simp add: media_nodes_def filter_empty_conv)
  from none_sent [OF st(4,5) assms(2) this, of m] show ?thesis using st(1-3) by (simp add: Send_def next_packet_def)
qed

lemma send_all_end:
  assumes "plays dat x g ses seq src due" and "timed x" and "length (media_nodes due) < length clocks"
  shows "send_all m clocks g ses = Inl OutOfBounds"
  using assms(1,3)
proof (induction clocks arbitrary: g ses seq due)
  case (Cons clock clocks)
  show ?case
  proof (cases "media_nodes due")
    case Nil
    then show ?thesis using end_media [OF Cons.prems(1) assms(2)] by simp
  next
    case (Cons c cs)
    from next_media [OF Cons.prems(1) assms(2) this, of m clock] obtain p g1 ses1 due1 where
      s: "Send m clock g ses = Inr ([p], g1, ses1)" "plays dat x g1 ses1 (Suc seq mod 2 ^ 16) src due1" "media_nodes due1 = cs"
      by blast
    have "send_all m clocks g1 ses1 = Inl OutOfBounds" using Cons.prems(2) Cons s(3) by (intro Cons.IH [OF s(2)]) simp
    then show ?thesis using s(1) by simp
  qed
qed simp

text \<open>What any number of calls does to a stream with these nodes to come.\<close>

definition delivers ::
  "uninit \<Rightarrow> byte list list \<Rightarrow> (nat \<Rightarrow> nat) list \<Rightarrow> (byte list list \<times> 's) res \<Rightarrow> bool" where
  "delivers m cs clocks r \<longleftrightarrow>
     (if length clocks \<le> length cs then \<exists>ps s. r = Inr (ps, s) \<and> length ps = length clocks \<and> carried 1 (junk_ssrc m) cs ps
      else r = Inl OutOfBounds)"

lemma send_all_delivers:
  assumes "plays dat x g ses 1 (junk_ssrc m) due" and "timed x"
  shows "delivers m (media_nodes due) clocks (send_all m clocks g ses)"
  using send_all_media [OF assms, of clocks m] send_all_end [OF assms, of clocks m] by (fastforce simp: delivers_def)

section \<open>Opening the stream\<close>

text \<open>The one file, not yet open or at any position where other sessions left it.\<close>

definition has_file :: "byte list \<Rightarrow> service \<Rightarrow> bool" where
  "has_file dat g \<longleftrightarrow> disk_of g media_file = Some dat \<and> 10240 \<le> length dat \<and> length dat \<le> 2 ^ 29 \<and>
     (files g = [] \<or> (\<exists>p e. files g = [(0, node_at media_file dat p e)]))"

lemma file_found:
  assumes "has_file dat g"
  shows "\<exists>p e. MakeFileNode (disk_of g) (files g) media_file = Inr (0, [(0, node_at media_file dat p e)])"
proof -
  consider "files g = []" | p e where "files g = [(0, node_at media_file dat p e)]" using assms by (auto simp: has_file_def)
  then show ?thesis
  proof cases
    case 1
    then show ?thesis using node_opened [of "disk_of g" media_file dat] assms by (auto simp: has_file_def)
  next
    case 2
    then show ?thesis by (auto simp: MakeFileNode_def node_at_def)
  qed
qed

definition fresh_stream :: "uninit \<Rightarrow> h264_stream \<Rightarrow> bool" where
  "fresh_stream m st \<longleftrightarrow> StreamSps st = None \<and> CurNalType st = 0 \<and> sqsnumber st = 0 \<and> ssrc (MediaInfo st) = junk_ssrc m \<and>
     filepos st = 10240"

lemma setup_serves:
  assumes "has_file dat g"
  shows "\<exists>st fm. setup_stream m g = Inr (st, H264, g\<lparr>files := fm\<rparr>) \<and> serves media_file dat fm st (stream_nodes dat) \<and> fresh_stream m st"
proof -
  obtain p e where open0: "MakeFileNode (disk_of g) (files g) media_file = Inr (0, [(0, node_at media_file dat p e)])"
    using file_found [OF assms] by blast
  have len: "10240 \<le> length dat" "length dat \<le> 2 ^ 29" using assms by (simp_all add: has_file_def)
  let ?st = "(new_h264MediaStream m)\<lparr>MediaInfo := (MediaInfo (new_h264MediaStream m))\<lparr>filename := media_file\<rparr>, fileindex := 0\<rparr>"
  have seek: "seek_to dat 0 p e = \<lparr>file_data = dat, file_pos = 0, file_eof = False\<rparr>" by (simp add: seek_to_def)
  have block0: "segment 0 10240 dat = block dat 0" by (simp add: block_def)
  have read: "GetBufferFormFile [(0, node_at media_file dat p e)] 0 0 10240 = Inr (buffer_of (block dat 0), [(0, node_at media_file dat 10240 False)])"
    using GetBufferFormFile_block [OF _ seek, of media_file 10240] len(1) by (simp add: block0)
  obtain ns where ns: "DevNode_shared (buffer_of (block dat 0)) 0 ?st =
      Inr (?st\<lparr>bufferlist := bufferlist ?st @ ns, DevCount := snd (chunk_nodes (block dat 0) (DevCount ?st)), filepos := (filepos ?st + 10240) mod 2 ^ 64\<rparr>)"
      "good_nodes ns (fst (chunk_nodes (block dat 0) (DevCount ?st)))"
      "0 \<le> snd (chunk_nodes (block dat 0) (DevCount ?st))" "snd (chunk_nodes (block dat 0) (DevCount ?st)) \<le> DevCount ?st + 10240"
    using DevNode_shared_chunk [of "block dat 0" ?st] block_length [of 0 dat] len(1) by auto
  let ?st1 = "?st\<lparr>bufferlist := ns, DevCount := snd (chunk_nodes (block dat 0) 0), filepos := 10240\<rparr>"
  have "setup_stream m g = Inr (?st1, H264, g\<lparr>files := [(0, node_at media_file dat 10240 False)]\<rparr>)"
    using open0 read ns(1) by (simp add: setup_stream_def CreateNew_def Let_def)
  moreover have "serves media_file dat [(0, node_at media_file dat 10240 False)] ?st1 (stream_nodes dat)"
    unfolding serves_def
  proof (intro conjI exI [of _ 0] exI [of _ "fst (chunk_nodes (block dat 0) 0)"])
    show "stream_nodes dat = fst (chunk_nodes (block dat 0) 0) @ blocks_nodes (DevCount ?st1) (file_blocks dat 0)"
      by (simp add: stream_nodes_def)
  qed (use ns(2-4) len in simp_all)
  moreover have "fresh_stream m ?st1"
    by (simp add: fresh_stream_def) (simp add: new_h264MediaStream_def new_MediaStream_def h264_dev.defs media_stream.defs)
  ultimately show ?thesis by blast
qed

section \<open>The first packet\<close>

text \<open>
  A file that the service can play: a parameter set first, then only slices, fragments and units that bring no
  packet, a slice before all fragments.
\<close>

definition playable :: "sps_syntax \<Rightarrow> byte list \<Rightarrow> bool" where
  "playable x dat \<longleftrightarrow> sps_ok x \<and> timed x \<and>
     (\<exists>h rbsp trailing pre c rest. stream_nodes dat = (h # escape 0 rbsp) # pre @ c # rest \<and> h AND 0x1f = 7 \<and>
        bytes_bits rbsp = sps_bits x @ trailing \<and> (\<forall>s \<in> set pre. is_parset s) \<and> begins_slice x c \<and> known_nodes x rest)"

lemma playableI:
  assumes "sps_ok x" and "timed x" and "stream_nodes dat = (h # escape 0 rbsp) # pre @ c # rest" and "h AND 0x1f = 7"
    and "bytes_bits rbsp = sps_bits x @ trailing" and "\<forall>s \<in> set pre. is_parset s" and "begins_slice x c" and "known_nodes x rest"
  shows "playable x dat"
  unfolding playable_def using assms by blast

lemma begins_first: "slice_nal x y h rbsp \<Longrightarrow> take 64 body = take 64 (escape 0 rbsp) \<Longrightarrow> begins_slice x (fu_bytes 1 h body)"
  by (auto simp: begins_slice_def)

lemma begins_media: "begins_slice x c \<Longrightarrow> \<not> is_parset c"
  by (auto simp: begins_slice_def is_parset_def single_bytes_def fu_bytes_def)

lemma play_first:
  assumes "playable x dat" and "serves media_file dat fm st (stream_nodes dat)" and "fresh_stream m st"
  shows "\<exists>p fm' st' c due. next_packet m fm (Some st) = Inr (p, fm', st') \<and>
    media_nodes (stream_nodes dat) = c # media_nodes due \<and> known_nodes x due \<and>
    serves media_file dat fm' st' due \<and> ready x st' \<and> CurSlice st' \<noteq> None \<and> sqsnumber st' = 1 \<and> ssrc (MediaInfo st') = junk_ssrc m"
proof -
  obtain h rbsp trailing pre c rest where d: "stream_nodes dat = (h # escape 0 rbsp) # pre @ c # rest" "h AND 0x1f = 7"
      "bytes_bits rbsp = sps_bits x @ trailing" "\<forall>s \<in> set pre. is_parset s" "begins_slice x c" "known_nodes x rest"
      "sps_ok x" "timed x"
    using assms(1) unfolding playable_def by blast
  have st: "StreamSps st = None" "sqsnumber st < 2 ^ 16" "CurNalType st AND 0x1f = CurNalType st" "sqsnumber st = 0" "ssrc (MediaInfo st) = junk_ssrc m"
    using assms(3) by (simp_all add: fresh_stream_def)
  from pass_first [OF assms(2) [unfolded d(1)] st(1) d(2,7,3,8) st(2,3), of m] obtain p fm1 st1 where
    a: "TCPForH264 m fm st = Inr (p, fm1, st1)" "passed media_file dat x st (pre @ c # rest) (p, fm1, st1)" by (metis prod_cases3)
  then have a': "MTU p = 0" "serves media_file dat fm1 st1 (pre @ c # rest)" "ready x st1" "sqsnumber st1 = sqsnumber st" "same_source st st1"
    by (simp_all add: passed_def)
  from next_sent [OF a'(2,3) d(8,4), of m] d(5) obtain q fm2 st2 where
    b: "packet_loop m fm1 st1 = Some (Inr (q, fm2, st2))" "sent media_file dat x st1 c rest (q, fm2, st2)" by (metis prod_cases3)
  have "next_packet m fm (Some st) = Inr (q, fm2, st2)"
    using packet_loop_pass [OF a(1) a'(1)] b(1) by (simp add: next_packet_def)
  moreover have "media_nodes (stream_nodes dat) = c # media_nodes rest"
  proof -
    have "is_parset (h # escape 0 rbsp)" using d(2) by (simp add: is_parset_def)
    moreover have "filter (\<lambda>c. \<not> is_parset c) pre = []" using d(4) by (simp add: filter_empty_conv)
    ultimately show ?thesis using begins_media [OF d(5)] by (simp add: media_nodes_def d(1))
  qed
  ultimately show ?thesis using b(2) a'(4,5) st(4,5) d(6) by (auto simp: sent_def same_source_def)
qed

section \<open>The two requests\<close>

text \<open>A request that arrives in one read.\<close>

definition arrives :: "rtsp_type \<Rightarrow> string \<Rightarrow> string \<Rightarrow> string \<Rightarrow> string \<Rightarrow> bool" where
  "arrives t host path seq dat \<longleftrightarrow> length dat < 1480 \<and> NUL \<notin> set dat \<and> find_sub (crlf @ crlf) dat \<noteq> None \<and>
     (\<exists>mid behind. request_ok t host path mid seq behind \<and> dat = request t host path mid seq behind)"

definition play_reply :: "rtspinfo \<Rightarrow> string" where
  "play_reply d = ''RTSP/1.0 200 OK'' @ crlf @ ''CSeq: '' @ cseq d @ crlf @ ''Session: '' @ decimal (session d) @ crlf @
     ''RTP-Info: url=rtsp://127.0.0.1:1000/test/track=1;seq=0'' @ crlf"

lemma method_start: "m \<in> {OPTIONS, DESCRIBE, SETUP, PLAY} \<Longrightarrow> method_name m \<noteq> [] \<and> hd (method_name m) \<noteq> CHR ''$''"
  by auto

lemma answered_request:
  assumes "arrives t host path seq dat" and "rtspinc ses = []"
    and "deal_requset e (sdp g, disk_of g) dat (rs ses) = Inr (reply, d, sdp g, disk_of g)"
    and "answer m now reply g (ses\<lparr>rs := d, rtspinc := reply, sinfo := (sinfo ses)\<lparr>stype := rtype d\<rparr>\<rparr>) = Inr (out, g', ses')"
  shows "DealRtsp m e now dat g ses = Inr (out, g', ses'\<lparr>rtspinc := []\<rparr>)"
proof -
  obtain mid behind where r: "request_ok t host path mid seq behind" "dat = request t host path mid seq behind"
      "length dat < 1480" "NUL \<notin> set dat" "find_sub (crlf @ crlf) dat \<noteq> None"
    using assms(1) by (auto simp: arrives_def)
  have "t \<in> {OPTIONS, DESCRIBE, SETUP, PLAY}" using r(1) by (simp add: request_ok_def)
  then have dat: "dat \<noteq> []" "hd dat \<noteq> CHR ''$''" using method_start [of t] r(2) by (simp_all add: request_def)
  then have hd: "hd (take 1480 dat @ replicate (1480 - length dat) NUL) \<noteq> CHR ''$''" by (cases dat) simp_all
  show ?thesis
    unfolding DealRtsp_def Let_def if_not_P [OF dat(1)] if_not_P [OF hd] read_whole [OF r(3,4)] andThen_simps
    using assms(2-4) r(5) by auto
qed

lemma arrives_parses:
  assumes "arrives t host path seq dat"
  shows "deal_string dat d = Inr (d\<lparr>rtype := t, addr := host, file_path := path, cseq := seq\<rparr>)"
  using assms deal_string_parses by (auto simp: arrives_def)

text \<open>\<open>SETUP\<close> opens the stream, \<open>PLAY\<close> takes its first packet and sends only the reply.\<close>

lemma setup_request:
  assumes "arrives SETUP host path seq dat1" and "rtspinc ses = []" and "session (rs ses) < 2 ^ 32" and "has_file dat g"
  shows "\<exists>st fm ses'. DealRtsp m e now dat1 g ses =
      Inr ([text_bytes (setup_reply ((rs ses)\<lparr>cseq := seq\<rparr>)), text_bytes crlf], g\<lparr>files := fm\<rparr>, ses') \<and>
    rtspinc ses' = [] \<and> streamobj ses' = Some st \<and> session (rs ses') = session (rs ses) \<and>
    serves media_file dat fm st (stream_nodes dat) \<and> fresh_stream m st"
proof -
  obtain st fm where s: "setup_stream m g = Inr (st, H264, g\<lparr>files := fm\<rparr>)" "serves media_file dat fm st (stream_nodes dat)" "fresh_stream m st"
    using setup_serves [OF assms(4)] by blast
  let ?d = "(rs ses)\<lparr>rtype := SETUP, addr := host, file_path := path, cseq := seq\<rparr>"
  let ?d' = "?d\<lparr>streamid := number_behind ''trackID='' dat1, clientport := number_behind ''client_port='' dat1\<rparr>"
  let ?reply = "setup_reply ?d"
  let ?ses = "ses\<lparr>rs := ?d', rtspinc := ?reply, sinfo := (sinfo ses)\<lparr>stype := rtype ?d'\<rparr>\<rparr>"
  have req: "deal_requset e (sdp g, disk_of g) dat1 (rs ses) = Inr (?reply, ?d', sdp g, disk_of g)"
    using arrives_parses [OF assms(1)] deal_setup_eq [of ?d dat1] assms(3) by (simp add: deal_requset_def)
  have ans: "answer m now ?reply g ?ses = Inr ([text_bytes ?reply, text_bytes crlf], g\<lparr>files := fm\<rparr>,
      ?ses\<lparr>streamobj := Some st, sinfo := (sinfo ?ses)\<lparr>mtype := H264\<rparr>\<rparr>)"
    using s(1) by (simp add: answer_def)
  have reply: "?reply = setup_reply ((rs ses)\<lparr>cseq := seq\<rparr>)" by (simp add: setup_reply_def)
  from answered_request [OF assms(1,2) req ans] s(2,3) reply show ?thesis by (intro exI conjI) (assumption | simp)+
qed

lemma play_request:
  assumes "arrives PLAY host path seq dat2" and "rtspinc ses = []" and "session (rs ses) < 2 ^ 32"
    and "streamobj ses = Some st" and "next_packet m (files g) (Some st) = Inr (p, fm', st')"
  shows "\<exists>ses'. DealRtsp m e now dat2 g ses =
      Inr ([text_bytes (play_reply ((rs ses)\<lparr>cseq := seq\<rparr>)), text_bytes crlf], g\<lparr>files := fm'\<rparr>, ses') \<and>
    session_IsPlay ses' \<and> streamobj ses' = Some (st'\<lparr>IsPlay := True\<rparr>)"
proof -
  let ?d = "(rs ses)\<lparr>rtype := PLAY, addr := host, file_path := path, cseq := seq\<rparr>"
  let ?reply = "play_reply ?d"
  let ?ses = "ses\<lparr>rs := ?d, rtspinc := ?reply, sinfo := (sinfo ses)\<lparr>stype := rtype ?d\<rparr>\<rparr>"
  have req: "deal_requset e (sdp g, disk_of g) dat2 (rs ses) = Inr (?reply, ?d, sdp g, disk_of g)"
    using arrives_parses [OF assms(1)] session_line_fits [of ?d] assms(3) by (simp add: deal_requset_def deal_play_def play_reply_def)
  have ans: "answer m now ?reply g ?ses = Inr ([text_bytes ?reply, text_bytes crlf], g\<lparr>files := fm'\<rparr>,
      ?ses\<lparr>streamobj := Some (st'\<lparr>IsPlay := True\<rparr>), tick := u32 (int now)\<rparr>)"
    using assms(4,5) by (simp add: answer_def)
  have reply: "?reply = play_reply ((rs ses)\<lparr>cseq := seq\<rparr>)" by (simp add: play_reply_def)
  from answered_request [OF assms(1,2) req ans] reply show ?thesis by (intro exI conjI) (assumption | simp add: session_IsPlay_def)+
qed

lemma playback_runs:
  assumes "arrives SETUP host1 path1 seq1 dat1" and "arrives PLAY host2 path2 seq2 dat2" and "rtspinc ses = []" and "session (rs ses) < 2 ^ 32"
    and "has_file dat g" and "playable x dat"
  shows "\<exists>g1 ses1 g2 ses2.
    DealRtsp m e now1 dat1 g ses = Inr ([text_bytes (setup_reply ((rs ses)\<lparr>cseq := seq1\<rparr>)), text_bytes crlf], g1, ses1) \<and>
    DealRtsp m e now2 dat2 g1 ses1 = Inr ([text_bytes (play_reply ((rs ses)\<lparr>cseq := seq2\<rparr>)), text_bytes crlf], g2, ses2) \<and>
    (\<forall>clocks. delivers m (tl (media_nodes (stream_nodes dat))) clocks (send_all m clocks g2 ses2))"
proof -
  obtain st fm ses1 where a: "DealRtsp m e now1 dat1 g ses =
      Inr ([text_bytes (setup_reply ((rs ses)\<lparr>cseq := seq1\<rparr>)), text_bytes crlf], g\<lparr>files := fm\<rparr>, ses1)"
      "rtspinc ses1 = []" "streamobj ses1 = Some st" "session (rs ses1) = session (rs ses)"
      "serves media_file dat fm st (stream_nodes dat)" "fresh_stream m st"
    using setup_request [OF assms(1,3,4,5), of m e now1] by blast
  obtain p fm' st' c due where b: "next_packet m fm (Some st) = Inr (p, fm', st')"
      "media_nodes (stream_nodes dat) = c # media_nodes due" "known_nodes x due" "serves media_file dat fm' st' due" "ready x st'"
      "CurSlice st' \<noteq> None" "sqsnumber st' = 1" "ssrc (MediaInfo st') = junk_ssrc m"
    using play_first [OF assms(6) a(5,6)] by blast
  let ?g1 = "g\<lparr>files := fm\<rparr>" and ?st = "st'\<lparr>IsPlay := True\<rparr>"
  have "session (rs ses1) < 2 ^ 32" "next_packet m (files ?g1) (Some st) = Inr (p, fm', st')" using a(4) b(1) assms(4) by simp_all
  from play_request [OF assms(2) a(2) this(1) a(3) this(2), of e now2] obtain ses2 where
    c: "DealRtsp m e now2 dat2 ?g1 ses1 =
      Inr ([text_bytes (play_reply ((rs ses1)\<lparr>cseq := seq2\<rparr>)), text_bytes crlf], ?g1\<lparr>files := fm'\<rparr>, ses2)"
      "session_IsPlay ses2" "streamobj ses2 = Some ?st" by blast
  have "serves media_file dat fm' ?st due" using b(4) by (rule serves_cong) simp_all
  then have "plays dat x (?g1\<lparr>files := fm'\<rparr>) ses2 1 (junk_ssrc m) due"
    unfolding plays_def using c(2,3) b(3,5-8) by (intro conjI exI [of _ ?st]) (simp_all add: ready_def)
  moreover have "timed x" using assms(6) by (simp add: playable_def)
  ultimately have "delivers m (media_nodes due) clocks (send_all m clocks (?g1\<lparr>files := fm'\<rparr>) ses2)" for clocks
    by (rule send_all_delivers)
  moreover have "play_reply ((rs ses1)\<lparr>cseq := seq2\<rparr>) = play_reply ((rs ses)\<lparr>cseq := seq2\<rparr>)" using a(4) by (simp add: play_reply_def)
  ultimately show ?thesis using a(1) b(2) c(1) by (intro exI conjI) (assumption | simp)+
qed

section \<open>Two sessions\<close>

text \<open>The sessions share one open file and its position. Where a \<open>SETUP\<close> leaves it, and what the next refill of another
  stream then reads.\<close>

lemma fresh_position:
  assumes "serves media_file dat fm st due" and "fresh_stream m st"
  shows "fm = [(0, node_at media_file dat 10240 False)]"
  using assms by (auto simp: serves_def fresh_stream_def)

lemma refill_reads:
  assumes "serves media_file dat fm st due" and "filepos st = 10240 * i + 10240" and "1 \<le> i" and "10240 * i + 10240 \<le> length dat"
  shows "\<exists>fm'. GetBufferFormFile fm (fileindex st) (filepos st) 10240 = Inr (buffer_of (block dat i), fm')"
    and "\<exists>fm'. GetBufferFormFile [(0, node_at media_file dat 10240 False)] (fileindex st) (filepos st) 10240 = Inr (buffer_of (block dat 1), fm')"
proof -
  have st: "fileindex st = 0" "fm = [(0, node_at media_file dat (10240 * i) False)]" "filepos st \<le> 2 ^ 31"
    using assms by (auto simp: serves_def)
  have seek: "seek_to dat (filepos st) (10240 * i) False = \<lparr>file_data = dat, file_pos = 10240 * i, file_eof = False\<rparr>"
    "seek_to dat (filepos st) 10240 False = \<lparr>file_data = dat, file_pos = 10240 * 1, file_eof = False\<rparr>"
    using assms(2,3) by (simp_all add: seek_to_def)
  have len: "10240 * i + 10240 \<le> length dat" "10240 * 1 + 10240 \<le> length dat" using assms(3,4) by simp_all
  show "\<exists>fm'. GetBufferFormFile fm (fileindex st) (filepos st) 10240 = Inr (buffer_of (block dat i), fm')"
    unfolding st(1,2) using GetBufferFormFile_block [OF st(3) seek(1) len(1), of media_file 10240, folded block_def] by blast
  show "\<exists>fm'. GetBufferFormFile [(0, node_at media_file dat 10240 False)] (fileindex st) (filepos st) 10240 = Inr (buffer_of (block dat 1), fm')"
    unfolding st(1) using GetBufferFormFile_block [OF st(3) seek(2) len(2), of media_file 10240, folded block_def] by blast
qed

section \<open>A sample file\<close>

text \<open>One block: the parameter sets, a key slice in one packet and a predicted slice of seven fragments.\<close>

definition sample_parts :: "(bool \<times> byte list) list" where
  "sample_parts = [(True, 0x67 # escape 0 sample_bytes), (True, [0x68, 0xEE, 0x3C, 0x80]),
     (True, 0x65 # sample_key_rbsp 96), (True, 0x41 # sample_rbsp 10095)]"

definition sample_file :: "byte list" where
  "sample_file = annexb sample_parts"

lemma nal_ok_nonzero: "2 \<le> length nal \<Longrightarrow> 0 \<notin> set nal \<Longrightarrow> nal_ok nal"
proof -
  assume nal: "2 \<le> length nal" "0 \<notin> set nal"
  then have "nal ! i \<noteq> 0" if "i < length nal" for i using that nth_mem by metis
  moreover have "last nal \<noteq> 0" using nal by (metis last_in_set list.size(3) not_numeral_le_zero)
  ultimately show "nal_ok nal" using nal(1) by (simp add: nal_ok_def)
qed

lemma sample_escaped: "escape 0 sample_bytes = [77, 0, 0, 150, 200, 2, 128, 45, 216, 8, 128, 0, 0, 3, 0, 128, 0, 0, 25, 66]"
  by code_simp

lemma sample_parts_ok: "\<forall>(long, nal) \<in> set sample_parts. nal_ok nal"
proof -
  have "nal_ok (0x67 # escape 0 sample_bytes)" by code_simp
  moreover have "nal_ok [0x68, 0xEE, 0x3C, 0x80]" "nal_ok (0x65 # sample_key_rbsp 96)" "nal_ok (0x41 # sample_rbsp 10095)"
    by (rule nal_ok_nonzero; simp add: sample_key_rbsp_def sample_rbsp_def)+
  ultimately show ?thesis by (simp add: sample_parts_def)
qed

lemma sample_file_length: "length sample_file = 10240"
  by (simp add: sample_file_def sample_parts_def annexb_def code_bytes_def sample_escaped)

definition sample_fragments :: "byte list list" where
  "sample_fragments = fst (large_nodes (0x41 # sample_rbsp 10095) 0 10099 1 0)"

lemma sample_block:
  "fst (chunk_nodes sample_file 0) =
     (0x67 # escape 0 sample_bytes) # [0x68, 0xEE, 0x3C, 0x80] # single_bytes 0 (0x65 # sample_key_rbsp 96) # sample_fragments"
  "snd (chunk_nodes sample_file 0) = 7"
proof -
  have ne: "sample_parts \<noteq> []" and short: "length (annexb sample_parts) < 2 ^ 16"
    using sample_file_length by (simp_all add: sample_parts_def sample_file_def)
  note nodes = chunk_nodes_units [OF sample_parts_ok ne short, folded sample_file_def]
  have key: "nal_nodes (0x65 # sample_key_rbsp 96) = [single_bytes 0 (0x65 # sample_key_rbsp 96)]"
    by (simp add: nal_nodes_def large_nodes_def segment_def Let_def)
  have "nal_nodes (0x67 # escape 0 sample_bytes) = [0x67 # escape 0 sample_bytes]" "nal_nodes [0x68, 0xEE, 0x3C, 0x80] = [[0x68, 0xEE, 0x3C, 0x80]]"
    by (simp_all add: nal_nodes_def)
  then show "fst (chunk_nodes sample_file 0) =
     (0x67 # escape 0 sample_bytes) # [0x68, 0xEE, 0x3C, 0x80] # single_bytes 0 (0x65 # sample_key_rbsp 96) # sample_fragments"
    using key by (simp add: nodes) (simp add: sample_parts_def sample_fragments_def)
  show "snd (chunk_nodes sample_file 0) = 7" by (simp add: nodes) (simp add: sample_parts_def large_nodes_def Let_def)
qed

lemma sample_fragments_list:
  "\<exists>bs. sample_fragments = fu_bytes 1 0x41 (segment 1 1461 (0x41 # sample_rbsp 10095)) # map (\<lambda>(k, b). fu_bytes k 0x41 b) bs \<and>
    length bs = 6 \<and> (\<forall>(k, b) \<in> set bs. k \<noteq> 1)"
proof -
  let ?f = "\<lambda>i. segment (1462 * i + 1) 1461 (0x41 # sample_rbsp 10095)"
  let ?bs = "[(2, ?f 1), (3, ?f 2), (4, ?f 3), (5, ?f 4), (6, ?f 5), (7, segment 8772 1327 (0x41 # sample_rbsp 10095))]"
  have six: "[0..<6] = [0, 1, 2, 3, 4, 5]" by (simp add: upt_rec)
  have "sample_fragments = fu_bytes 1 0x41 (segment 1 1461 (0x41 # sample_rbsp 10095)) # map (\<lambda>(k, b). fu_bytes k 0x41 b) ?bs"
    by (simp add: sample_fragments_def large_nodes_def mid_nodes_def six Let_def)
  then show ?thesis by (intro exI [of _ ?bs]) simp
qed

lemma sample_nodes:
  "stream_nodes sample_file = (0x67 # escape 0 sample_bytes) # [0x68, 0xEE, 0x3C, 0x80] # single_bytes 0 (0x65 # sample_key_rbsp 96) #
     sample_fragments @ fu_bytes 0 0 [] # (0x67 # escape 0 sample_bytes) # [0x68, 0xEE, 0x3C, 0x80] #
     single_bytes 0 (0x65 # sample_key_rbsp 96) # sample_fragments"
proof -
  have ne: "sample_parts \<noteq> []" and short: "length (annexb sample_parts) < 2 ^ 16"
    using sample_file_length by (simp_all add: sample_parts_def sample_file_def)
  have "file_blocks sample_file 0 = [block sample_file 0]" by (simp add: file_blocks_def sample_file_length)
  moreover have "block sample_file 0 = sample_file" by (simp add: block_def segment_def sample_file_length)
  moreover have "chunk_nodes sample_file 7 = (fu_bytes 0 0 [] # fst (chunk_nodes sample_file 0), snd (chunk_nodes sample_file 0))"
    using chunk_nodes_pending [OF sample_parts_ok ne short, of 7] by (simp add: sample_file_def)
  ultimately show ?thesis by (simp add: stream_nodes_def sample_block)
qed

lemma sample_playable: "playable sample_sps sample_file" "length (media_nodes (stream_nodes sample_file)) = 17"
proof -
  obtain bs where bs: "sample_fragments = fu_bytes 1 0x41 (segment 1 1461 (0x41 # sample_rbsp 10095)) # map (\<lambda>(k, b). fu_bytes k 0x41 b) bs"
      "length bs = 6" "\<forall>(k, b) \<in> set bs. k \<noteq> 1"
    using sample_fragments_list by blast
  have key: "begins_slice sample_sps (single_bytes 0 (0x65 # sample_key_rbsp 96))"
    using sample_key_nal [of 96] unfolding begins_slice_def
    by (intro exI [of _ sample_key] exI [of _ "0x65"] exI [of _ "sample_key_rbsp 96"]) simp
  have "begins_slice sample_sps (fu_bytes 1 0x41 (segment 1 1461 (0x41 # sample_rbsp 10095)))"
    by (rule begins_first [OF sample_nal [of 10095]]) (simp_all add: segment_def)
  moreover have "continues_slice (fu_bytes k 0x41 b)" if "(k, b) \<in> set bs" for k b
    using that bs(3) by (auto simp: continues_slice_def)
  moreover have "continues_slice (fu_bytes 0 0 [])" unfolding continues_slice_def
    by (intro exI [of _ "0"] exI [of _ "0"] exI [of _ "[]"]) simp
  moreover have sets: "is_parset (0x67 # escape 0 sample_bytes)" "is_parset [0x68, 0xEE, 0x3C, 0x80]" by (simp_all add: is_parset_def)
  ultimately have known: "known_nodes sample_sps (sample_fragments @ fu_bytes 0 0 [] # (0x67 # escape 0 sample_bytes) # [0x68, 0xEE, 0x3C, 0x80] #
      single_bytes 0 (0x65 # sample_key_rbsp 96) # sample_fragments)"
    using key by (auto simp: known_nodes_def bs(1))
  have "timed sample_sps" by (simp add: timed_def sample_sps_def)
  then show "playable sample_sps sample_file"
    by (intro playableI [OF sample_sps_ok _ _ _ sample_bytes_bits _ key known, of _ "0x67" "[[0x68, 0xEE, 0x3C, 0x80]]"])
      (simp_all add: sample_nodes sets)
  have "\<not> is_parset (fu_bytes k h b)" "\<not> is_parset (single_bytes 0 b)" for k h b
    by (simp_all add: is_parset_def fu_bytes_def single_bytes_def)
  then show "length (media_nodes (stream_nodes sample_file)) = 17"
    using sets bs(2) by (simp add: sample_nodes media_nodes_def bs(1) filter_map comp_def case_prod_beta')
qed

section \<open>Properties\<close>

text \<open>C2. A session from \<open>SETUP\<close> over \<open>PLAY\<close> to the end: on a playable file both requests are answered with their
  replies, and each following call of \<open>Send\<close> writes one packet with the next of the slices and fragments that the
  stream delivers (\<open>stream_nodes\<close>: those of the blocks of 10240 bytes, the first block twice, cut where blocks end),
  with consecutive sequence numbers; \<open>PLAY\<close> takes the first of them and does not send it. A call after the
  last one reads outside a buffer.\<close>

theorem playback:
  assumes "arrives SETUP host1 path1 seq1 dat1" and "arrives PLAY host2 path2 seq2 dat2" and "rtspinc ses = []" and "session (rs ses) < 2 ^ 32"
    and "has_file dat g" and "playable x dat"
  shows "\<exists>g1 ses1 g2 ses2.
    DealRtsp m e now1 dat1 g ses = Inr ([text_bytes (setup_reply ((rs ses)\<lparr>cseq := seq1\<rparr>)), text_bytes crlf], g1, ses1) \<and>
    DealRtsp m e now2 dat2 g1 ses1 = Inr ([text_bytes (play_reply ((rs ses)\<lparr>cseq := seq2\<rparr>)), text_bytes crlf], g2, ses2) \<and>
    (\<forall>clocks. delivers m (tl (media_nodes (stream_nodes dat))) clocks (send_all m clocks g2 ses2))"
  using assms by (rule playback_runs)

definition sample_setup :: string where
  "sample_setup = request SETUP ''10.0.0.1:1000'' ''test/trackID=1'' (LF # ''Transport: RTP/AVP/TCP;interleaved=0-1'' @ [CR]) ''3'' (LF # crlf)"

definition sample_play :: string where
  "sample_play = request PLAY ''10.0.0.1:1000'' ''test'' (LF # ''Range: npt=0.000-'' @ [CR]) ''4'' (LF # crlf)"

lemma sample_arrives:
  "arrives SETUP ''10.0.0.1:1000'' ''test/trackID=1'' ''3'' sample_setup" "arrives PLAY ''10.0.0.1:1000'' ''test'' ''4'' sample_play"
proof -
  have "length sample_setup < 1480 \<and> NUL \<notin> set sample_setup \<and> find_sub (crlf @ crlf) sample_setup \<noteq> None"
    "length sample_play < 1480 \<and> NUL \<notin> set sample_play \<and> find_sub (crlf @ crlf) sample_play \<noteq> None" by code_simp+
  moreover have "request_ok SETUP ''10.0.0.1:1000'' ''test/trackID=1'' (LF # ''Transport: RTP/AVP/TCP;interleaved=0-1'' @ [CR]) ''3'' (LF # crlf)"
    "request_ok PLAY ''10.0.0.1:1000'' ''test'' (LF # ''Range: npt=0.000-'' @ [CR]) ''4'' (LF # crlf)"
    by (simp_all add: request_ok_def request_def)
  ultimately show "arrives SETUP ''10.0.0.1:1000'' ''test/trackID=1'' ''3'' sample_setup" "arrives PLAY ''10.0.0.1:1000'' ''test'' ''4'' sample_play"
    unfolding arrives_def using sample_setup_def sample_play_def by blast+
qed

lemma sample_delivers:
  assumes "\<forall>clocks. delivers m (tl (media_nodes (stream_nodes sample_file))) clocks (f clocks)"
  shows "(\<exists>ps s. f (replicate 16 (\<lambda>k. 0)) = Inr (ps, s) \<and> length ps = 16 \<and>
      carried 1 (junk_ssrc m) (tl (media_nodes (stream_nodes sample_file))) ps) \<and> f (replicate 17 (\<lambda>k. 0)) = Inl OutOfBounds"
proof -
  have n: "length (tl (media_nodes (stream_nodes sample_file))) = 16" by (simp add: sample_playable(2))
  note all = spec [OF assms, unfolded delivers_def n]
  show ?thesis using all [of "replicate 16 (\<lambda>k. 0)"] all [of "replicate 17 (\<lambda>k. 0)"] by (simp only: length_replicate)
qed

theorem playback_witness:
  "\<forall>m e sdp0 r. \<exists>g1 ses1 g2 ses2.
    DealRtsp m e 0 sample_setup \<lparr>sdp = sdp0, disk_of = [media_file \<mapsto> sample_file], files = []\<rparr>
      (new_MediaSession (r\<lparr>session := 5\<rparr>) \<lparr>sessionid = 5, mtype = H264, stype = ERRORTYPE\<rparr> 0) =
      Inr ([text_bytes (''RTSP/1.0 200 OK'' @ crlf @ ''CSeq: 3'' @ crlf @ ''Transport: RTP/AVP/TCP;interleaved=0-1'' @ crlf @ ''Session: 5'' @ crlf),
        text_bytes crlf], g1, ses1) \<and>
    DealRtsp m e 0 sample_play g1 ses1 =
      Inr ([text_bytes (''RTSP/1.0 200 OK'' @ crlf @ ''CSeq: 4'' @ crlf @ ''Session: 5'' @ crlf @
        ''RTP-Info: url=rtsp://127.0.0.1:1000/test/track=1;seq=0'' @ crlf), text_bytes crlf], g2, ses2) \<and>
    (\<exists>ps s. send_all m (replicate 16 (\<lambda>k. 0)) g2 ses2 = Inr (ps, s) \<and> length ps = 16 \<and>
      carried 1 (junk_ssrc m) (tl (media_nodes (stream_nodes sample_file))) ps) \<and>
    send_all m (replicate 17 (\<lambda>k. 0)) g2 ses2 = Inl OutOfBounds"
proof (intro allI)
  fix m e sdp0 r
  let ?g = "\<lparr>sdp = sdp0, disk_of = [media_file \<mapsto> sample_file], files = []\<rparr>"
  let ?ses = "new_MediaSession (r\<lparr>session := 5\<rparr>) \<lparr>sessionid = 5, mtype = H264, stype = ERRORTYPE\<rparr> 0"
  have ses: "rtspinc ?ses = []" "session (rs ?ses) = 5" by (simp_all add: new_MediaSession_def)
  have num: "decimal 5 = ''5''" by code_simp
  have small: "session (rs ?ses) < 2 ^ 32" by (simp only: ses(2)) simp
  have stored: "has_file sample_file ?g" by (simp add: has_file_def sample_file_length)
  obtain g1 ses1 g2 ses2 where p:
    "DealRtsp m e 0 sample_setup ?g ?ses = Inr ([text_bytes (setup_reply ((rs ?ses)\<lparr>cseq := ''3''\<rparr>)), text_bytes crlf], g1, ses1)"
    "DealRtsp m e 0 sample_play g1 ses1 = Inr ([text_bytes (play_reply ((rs ?ses)\<lparr>cseq := ''4''\<rparr>)), text_bytes crlf], g2, ses2)"
    "\<forall>clocks. delivers m (tl (media_nodes (stream_nodes sample_file))) clocks (send_all m clocks g2 ses2)"
    using playback [OF sample_arrives ses(1) small stored sample_playable(1), of m e 0 0] by blast
  have replies: "setup_reply ((rs ?ses)\<lparr>cseq := ''3''\<rparr>) =
      ''RTSP/1.0 200 OK'' @ crlf @ ''CSeq: 3'' @ crlf @ ''Transport: RTP/AVP/TCP;interleaved=0-1'' @ crlf @ ''Session: 5'' @ crlf"
    "play_reply ((rs ?ses)\<lparr>cseq := ''4''\<rparr>) =
      ''RTSP/1.0 200 OK'' @ crlf @ ''CSeq: 4'' @ crlf @ ''Session: 5'' @ crlf @ ''RTP-Info: url=rtsp://127.0.0.1:1000/test/track=1;seq=0'' @ crlf"
    using num ses(2) by (simp_all add: setup_reply_def play_reply_def)
  note p(1,2) [unfolded replies] sample_delivers [OF p(3)]
  then show "\<exists>g1 ses1 g2 ses2.
    DealRtsp m e 0 sample_setup ?g ?ses =
      Inr ([text_bytes (''RTSP/1.0 200 OK'' @ crlf @ ''CSeq: 3'' @ crlf @ ''Transport: RTP/AVP/TCP;interleaved=0-1'' @ crlf @ ''Session: 5'' @ crlf),
        text_bytes crlf], g1, ses1) \<and>
    DealRtsp m e 0 sample_play g1 ses1 =
      Inr ([text_bytes (''RTSP/1.0 200 OK'' @ crlf @ ''CSeq: 4'' @ crlf @ ''Session: 5'' @ crlf @
        ''RTP-Info: url=rtsp://127.0.0.1:1000/test/track=1;seq=0'' @ crlf), text_bytes crlf], g2, ses2) \<and>
    (\<exists>ps s. send_all m (replicate 16 (\<lambda>k. 0)) g2 ses2 = Inr (ps, s) \<and> length ps = 16 \<and>
      carried 1 (junk_ssrc m) (tl (media_nodes (stream_nodes sample_file))) ps) \<and>
    send_all m (replicate 17 (\<lambda>k. 0)) g2 ses2 = Inl OutOfBounds"
    by blast
qed

text \<open>C9. Playing sessions disturb each other: when a stream that has read block after block up to block \<open>i\<close> would read
  on, a \<open>SETUP\<close> of another session in between makes it go on at block 1 instead, since they share the position of
  the one open file.\<close>

theorem setup_disturbs:
  assumes "serves media_file dat (files g) st due" and "filepos st = 10240 * i + 10240" and "1 \<le> i" and "10240 * i + 10240 \<le> length dat"
    and "arrives SETUP host path seq dat1" and "rtspinc ses = []" and "session (rs ses) < 2 ^ 32" and "disk_of g media_file = Some dat"
  shows "(\<exists>fm. GetBufferFormFile (files g) (fileindex st) (filepos st) 10240 = Inr (buffer_of (block dat i), fm)) \<and>
    (\<exists>out g1 ses1 fm. DealRtsp m e now dat1 g ses = Inr (out, g1, ses1) \<and>
      GetBufferFormFile (files g1) (fileindex st) (filepos st) 10240 = Inr (buffer_of (block dat 1), fm))"
proof -
  have file0: "has_file dat g" using assms(1,8) unfolding has_file_def serves_def by blast
  obtain stB fm ses' where b: "DealRtsp m e now dat1 g ses =
      Inr ([text_bytes (setup_reply ((rs ses)\<lparr>cseq := seq\<rparr>)), text_bytes crlf], g\<lparr>files := fm\<rparr>, ses')"
      "serves media_file dat fm stB (stream_nodes dat)" "fresh_stream m stB"
    using setup_request [OF assms(5-7) file0, of m e now] by blast
  have "files (g\<lparr>files := fm\<rparr>) = [(0, node_at media_file dat 10240 False)]" using fresh_position [OF b(2,3)] by simp
  then show ?thesis using refill_reads [OF assms(1-4)] b(1) by metis
qed

definition four_blocks :: "byte list" where
  "four_blocks = replicate 10240 0 @ replicate 10240 1 @ replicate 10240 2 @ replicate 10240 3"

lemma four_blocks_simps: "length four_blocks = 40960" "block four_blocks 3 = replicate 10240 3" "block four_blocks 1 = replicate 10240 1"
  by (simp_all add: four_blocks_def block_def segment_def)

theorem setup_disturbs_witness:
  "\<forall>m e sdp0 r sps. let g = \<lparr>sdp = sdp0, disk_of = [media_file \<mapsto> four_blocks], files = [(0, node_at media_file four_blocks 30720 False)]\<rparr> in
    (\<exists>fm. GetBufferFormFile (files g) 0 40960 10240 = Inr (buffer_of (replicate 10240 3), fm)) \<and>
    (\<exists>out g1 ses1 fm. DealRtsp m e 0 sample_setup g (new_MediaSession (r\<lparr>session := 5\<rparr>) \<lparr>sessionid = 5, mtype = H264, stype = ERRORTYPE\<rparr> 0) =
        Inr (out, g1, ses1) \<and>
      GetBufferFormFile (files g1) 0 40960 10240 = Inr (buffer_of (replicate 10240 1), fm))"
proof (intro allI)
  fix m e sdp0 r sps
  let ?g = "\<lparr>sdp = sdp0, disk_of = [media_file \<mapsto> four_blocks], files = [(0, node_at media_file four_blocks 30720 False)]\<rparr>"
  let ?ses = "new_MediaSession (r\<lparr>session := 5\<rparr>) \<lparr>sessionid = 5, mtype = H264, stype = ERRORTYPE\<rparr> 0"
  let ?st = "(sample_stream sps [])\<lparr>filepos := 40960\<rparr>"
  have ses: "rtspinc ?ses = []" "session (rs ?ses) = 5" by (simp_all add: new_MediaSession_def)
  have small: "session (rs ?ses) < 2 ^ 32" by (simp only: ses(2)) simp
  have st: "filepos ?st = 40960" "fileindex ?st = 0" "DevCount ?st = 0" "bufferlist ?st = []" by (simp_all add: sample_stream_def)
  have serving: "serves media_file four_blocks (files ?g) ?st (blocks_nodes 0 (file_blocks four_blocks 3))"
    unfolding serves_def st
    by (intro conjI exI [of _ 3] exI [of _ "[]"]) (simp_all add: four_blocks_simps)
  have range: "filepos ?st = 10240 * 3 + 10240" "(1 :: nat) \<le> 3" "10240 * 3 + 10240 \<le> length four_blocks" and disk: "disk_of ?g media_file = Some four_blocks"
    by (simp_all add: four_blocks_simps)
  from setup_disturbs [OF serving range sample_arrives(1) ses(1) small disk, of m e 0]
  show "let g = ?g in
    (\<exists>fm. GetBufferFormFile (files g) 0 40960 10240 = Inr (buffer_of (replicate 10240 3), fm)) \<and>
    (\<exists>out g1 ses1 fm. DealRtsp m e 0 sample_setup g ?ses = Inr (out, g1, ses1) \<and>
      GetBufferFormFile (files g1) 0 40960 10240 = Inr (buffer_of (replicate 10240 1), fm))"
    unfolding st four_blocks_simps Let_def .
qed

end
