(* ===== verification/Network.thy ===== *)
theory Network
  imports MediaSession
begin

text \<open>
  The server: \<open>network.h\<close>, \<open>network.cpp\<close> and \<open>_tmain\<close>. libevent is not part of the program; what its functions
  answer is an argument, and the events that its loop delivers are the steps of a relation on the state of
  the process. A connection (\<open>bufferevent\<close>) has a number, its callback argument is the address of a session.
\<close>

section \<open>Setting up\<close>

datatype TransType = TCP | UDP | RTSP | RTP

record sockaddr_in =
  sin_port :: nat
  sin_addr :: nat

record network =
  sockinfo :: sockaddr_in
  evnbase :: "nat option"
  listener :: "nat option"
  evn :: "nat option"
  callbacks :: bool      \<comment> \<open>\<open>readcb\<close> and \<open>writecb\<close> hold what \<open>StartServer\<close> got\<close>

text \<open>What libevent answers: a base, a listener bound to an address, a signal event, and whether it was added.\<close>

record libevent =
  event_base_new :: "nat option"
  evconnlistener_new_bind :: "nat option \<Rightarrow> sockaddr_in \<Rightarrow> nat option"
  evsignal_new :: "nat option \<Rightarrow> nat option"
  event_add :: int

text \<open>A base that could not be made is not noticed; the other members hold what the memory held.\<close>

definition new_Network :: "libevent \<Rightarrow> nat option \<Rightarrow> nat option \<Rightarrow> sockaddr_in \<Rightarrow> network" where
  "new_Network ev listener0 evn0 sa =
     \<lparr>sockinfo = sa, evnbase = event_base_new ev, listener = listener0, evn = evn0, callbacks = False\<rparr>"

definition evconnlistener_new_udp_bind :: "network \<Rightarrow> nat option" where
  "evconnlistener_new_udp_bind net = None"

definition NetPrepare :: "libevent \<Rightarrow> TransType \<Rightarrow> network \<Rightarrow> bool \<times> network" where
  "NetPrepare ev tp net =
     (if tp = TCP \<or> tp = RTSP then
        let net = net\<lparr>listener := evconnlistener_new_bind ev (evnbase net) (sockinfo net)\<rparr> in
        (if listener net = None then (False, net) else (True, net))
      else if tp = RTP \<or> tp = UDP then
        let net = net\<lparr>listener := evconnlistener_new_udp_bind net\<rparr> in
        (if listener net = None then (False, net) else (True, net))
      else (False, net))"

text \<open>The callbacks are in place when the loop starts; what the loop does is the relation below.\<close>

definition StartServer :: "libevent \<Rightarrow> network \<Rightarrow> bool \<times> network" where
  "StartServer ev net =
     (let net = net\<lparr>evn := evsignal_new ev (evnbase net)\<rparr> in
      if evn net = None \<or> event_add ev < 0 then (False, net)
      else (True, net\<lparr>callbacks := True\<rparr>))"

text \<open>\<open>main\<close>: the description of the one file, then the server on port 1000 of every address, whatever \<open>NetPrepare\<close> says.\<close>

definition tmain :: "sdp_env \<Rightarrow> libevent \<Rightarrow> nat option \<Rightarrow> nat option \<Rightarrow> disk \<Rightarrow> (int \<times> bool \<times> network \<times> service) res" where
  "tmain e ev listener0 evn0 d =
     andThen (GetInstance e media_file (None, d)) (\<lambda>(sdp, g, d).
     let work = new_Network ev listener0 evn0 \<lparr>sin_port = 1000, sin_addr = 0\<rparr>;
         (prepared, work) = NetPrepare ev TCP work;
         (ran, work) = StartServer ev work in
     Inr (0, ran, work, \<lparr>sdp = g, disk_of = d, files = []\<rparr>))"

section \<open>Callbacks\<close>

record net_state =
  conns :: "nat \<rightharpoonup> nat"       \<comment> \<open>open connections and the sessions they were given\<close>
  slist :: sessions
  svc :: service

text \<open>
  \<open>new MediaSession(net)\<close>, entered into the list. \<open>bev\<close> is what \<open>bufferevent_socket_new\<close> answers, \<open>a\<close> the address of
  the new object.
\<close>

definition open_session :: "media_session \<Rightarrow> nat \<Rightarrow> int \<Rightarrow> sessions \<Rightarrow> (bool \<times> sessions) res" where
  "open_session ses a counter l = SessionInsert counter a (l\<lparr>session_heap := (session_heap l)(a \<mapsto> ses)\<rparr>)"

definition Listen_Cb ::
  "nat option \<Rightarrow> nat \<Rightarrow> rtspinfo \<Rightarrow> SessionInfo \<Rightarrow> nat \<Rightarrow> int \<Rightarrow> net_state \<Rightarrow> net_state res" where
  "Listen_Cb bev a rs0 info0 tick0 counter s =
     (case bev of
        None \<Rightarrow> Inr s
      | Some b \<Rightarrow>
          andThen (open_session (new_MediaSession rs0 info0 tick0) a counter (slist s)) (\<lambda>(ok, l).
          Inr (s\<lparr>conns := (conns s)(b \<mapsto> a), slist := l\<rparr>)))"

text \<open>The connection is freed first, then its session is looked up by its id and deleted.\<close>

definition Event_Cb :: "nat \<Rightarrow> nat \<Rightarrow> net_state \<Rightarrow> net_state res" where
  "Event_Cb b a s =
     (let s = s\<lparr>conns := (conns s)(b := None)\<rparr> in
      case session_heap (slist s) a of
        None \<Rightarrow> Inl OutOfBounds
      | Some ses \<Rightarrow> andThen (SessionDel (GetSessionID ses) (slist s)) (\<lambda>(ok, l). Inr (s\<lparr>slist := l\<rparr>)))"

text \<open>A callback on the session a connection was given; the answer has what was written.\<close>

definition on_session ::
  "(service \<Rightarrow> media_session \<Rightarrow> (byte list list \<times> service \<times> media_session) res) \<Rightarrow> nat \<Rightarrow> net_state \<Rightarrow>
    (byte list list \<times> net_state) res" where
  "on_session f a s =
     (case session_heap (slist s) a of
        None \<Rightarrow> Inl OutOfBounds
      | Some ses \<Rightarrow>
          andThen (f (svc s) ses) (\<lambda>(out, g, ses).
          Inr (out, s\<lparr>slist := (slist s)\<lparr>session_heap := (session_heap (slist s))(a \<mapsto> ses)\<rparr>, svc := g\<rparr>)))"

definition read_event :: "uninit \<Rightarrow> sdp_env \<Rightarrow> nat \<Rightarrow> string \<Rightarrow> nat \<Rightarrow> net_state \<Rightarrow> (byte list list \<times> net_state) res" where
  "read_event m e now dat = on_session (Recv m e now dat)"

definition write_event :: "uninit \<Rightarrow> (nat \<Rightarrow> nat) \<Rightarrow> nat \<Rightarrow> net_state \<Rightarrow> (byte list list \<times> net_state) res" where
  "write_event m clock = on_session (Send m clock)"

text \<open>\<open>Signal_Cb\<close> has the loop left after the delay it names, in seconds.\<close>

definition Signal_Cb :: "nat option \<Rightarrow> (nat option \<times> nat)" where
  "Signal_Cb base = (base, 2)"

section \<open>The event loop\<close>

text \<open>
  libevent calls back for open connections only and gives a new connection a number of its own; \<open>new\<close> answers an
  address that is not in use. Nothing is assumed of the performance counter that the ids are made of: a step has
  the list of the readings it takes, and a state is reached with all readings taken before.
\<close>

inductive net_step :: "int list \<Rightarrow> net_state \<Rightarrow> net_state \<Rightarrow> bool" where
  connected: "conns s b = None \<Longrightarrow> session_heap (slist s) a = None \<Longrightarrow>
    Listen_Cb (Some b) a rs0 info0 tick0 counter s = Inr s' \<Longrightarrow> net_step [counter] s s'"
| refused: "Listen_Cb None a rs0 info0 tick0 counter s = Inr s' \<Longrightarrow> net_step [] s s'"
| readable: "conns s b = Some a \<Longrightarrow> read_event m e now dat a s = Inr (out, s') \<Longrightarrow> net_step [] s s'"
| writable: "conns s b = Some a \<Longrightarrow> write_event m clock a s = Inr (out, s') \<Longrightarrow> net_step [] s s'"
| closed: "conns s b = Some a \<Longrightarrow> Event_Cb b a s = Inr s' \<Longrightarrow> net_step [] s s'"

inductive_cases net_stepE: "net_step cs s s'"

inductive reachable :: "service \<Rightarrow> int list \<Rightarrow> net_state \<Rightarrow> bool" for g where
  start: "reachable g [] \<lparr>conns = Map.empty, slist = fst (MediaSessionList_GetInstance None), svc = g\<rparr>"
| step: "reachable g cs s \<Longrightarrow> net_step new s s' \<Longrightarrow> reachable g (new @ cs) s'"

text \<open>No two connections were accepted at one reading of the counter.\<close>

definition one_at_a_time :: "int list \<Rightarrow> bool" where
  "one_at_a_time cs \<longleftrightarrow> distinct (map GenSessionID cs)"

section \<open>Callbacks keep the identity of a session\<close>

lemma answer_identity:
  assumes "answer m now reply g ses = Inr (out, g', ses')"
  shows "sessionid (sinfo ses') = sessionid (sinfo ses) \<and> IsFullInit ses' = IsFullInit ses"
  using assms
  by (cases "stype (sinfo ses)") (auto simp: answer_def andThen_Inr_iff)

lemma DealRtsp_identity:
  assumes "DealRtsp m e now dat g ses = Inr (out, g', ses')"
  shows "sessionid (sinfo ses') = sessionid (sinfo ses) \<and> IsFullInit ses' = IsFullInit ses"
  using assms
  by (auto simp: DealRtsp_def Let_def andThen_Inr_iff simp del: replicate_Suc split: if_split_asm dest!: answer_identity)

lemma Send_identity:
  assumes "Send m clock g ses = Inr (out, g', ses')"
  shows "sessionid (sinfo ses') = sessionid (sinfo ses) \<and> IsFullInit ses' = IsFullInit ses"
  using assms by (auto simp: Send_def andThen_Inr_iff split: if_splits prod.splits option.splits)

section \<open>The list of sessions as a store\<close>

text \<open>Two views that are inverse to each other, none of the listed pointers null.\<close>

definition agree :: "(nat \<Rightarrow> nat option option) \<Rightarrow> (nat \<Rightarrow> nat option) \<Rightarrow> bool" where
  "agree v w \<longleftrightarrow> (\<forall>i a. v i = Some (Some a) \<longleftrightarrow> w a = Some i) \<and> (\<forall>i. v i \<noteq> Some None)"

lemma agree_enter:
  assumes "agree v w" and "v i = None" and "w a = None"
  shows "agree (v(i \<mapsto> Some a)) (w(a \<mapsto> i))"
proof -
  have a: "v j = Some (Some b) \<longleftrightarrow> w b = Some j" "v j \<noteq> Some None" for j b using assms(1) by (simp_all add: agree_def)
  have n: "w b \<noteq> Some i" for b using a(1) [of i b] assms(2) by simp
  have m: "v j \<noteq> Some (Some a)" for j using a(1) [of j a] assms(3) by simp
  show ?thesis using a n m assms(2,3) by (simp add: agree_def)
qed

lemma agree_drop:
  assumes "agree v w" and "w a = Some i"
  shows "agree (v(i := None)) (w(a := None))"
proof -
  have a: "v j = Some (Some b) \<longleftrightarrow> w b = Some j" "v j \<noteq> Some None" for j b using assms(1) by (simp_all add: agree_def)
  have only: "w b = Some i \<longleftrightarrow> b = a" for b using a(1) [of i b] a(1) [of i a] assms(2) by auto
  have other: "j \<noteq> i \<longrightarrow> w a \<noteq> Some j" for j using assms(2) by auto
  show ?thesis unfolding agree_def
  proof (intro conjI allI)
    fix j b
    show "(v(i := None)) j = Some (Some b) \<longleftrightarrow> (w(a := None)) b = Some j"
      using a(1) [of j b] only [of b] other [of j] by (cases "j = i"; cases "b = a") simp_all
    show "(v(i := None)) j \<noteq> Some None" using a(2) [of j] by simp
  qed
qed

text \<open>
  What the server relies on: entering a new object under an unused id, and deleting by id an object that is
  listed. \<open>live\<close> is the list's view, \<open>obj\<close> the ids of the usable objects.
\<close>

locale session_store =
  fixes live :: "'l \<Rightarrow> nat \<Rightarrow> nat option option"
    and obj :: "'l \<Rightarrow> nat \<Rightarrow> nat option"
    and key :: "'c \<Rightarrow> nat"
    and enter :: "'o \<Rightarrow> nat \<Rightarrow> 'c \<Rightarrow> 'l \<Rightarrow> (bool \<times> 'l) res"
    and drop_id :: "nat \<Rightarrow> 'l \<Rightarrow> (bool \<times> 'l) res"
    and usable :: "'o \<Rightarrow> bool"
  assumes enter_law: "usable x \<Longrightarrow> live l (key c) = None \<Longrightarrow>
      \<exists>l'. enter x a c l = Inr (True, l') \<and> live l' = (live l)(key c \<mapsto> Some a) \<and> obj l' = (obj l)(a \<mapsto> key c)"
    and drop_law: "live l i = Some (Some a) \<Longrightarrow> obj l a = Some i \<Longrightarrow>
      \<exists>l'. drop_id i l = Inr (True, l') \<and> live l' = (live l)(i := None) \<and> obj l' = (obj l)(a := None)"
begin

lemma enter_agrees:
  assumes "agree (live l) (obj l)" and "usable x" and "live l (key c) = None" and "obj l a = None"
  shows "\<exists>l'. enter x a c l = Inr (True, l') \<and> agree (live l') (obj l') \<and> obj l' = (obj l)(a \<mapsto> key c)"
  using enter_law [OF assms(2,3), of a] agree_enter [OF assms(1,3,4)] by metis

lemma drop_agrees:
  assumes "agree (live l) (obj l)" and "obj l a = Some i"
  shows "\<exists>l'. drop_id i l = Inr (True, l') \<and> agree (live l') (obj l') \<and> obj l' = (obj l)(a := None)"
proof -
  have "live l i = Some (Some a)" using assms by (simp add: agree_def)
  from drop_law [OF this assms(2)] agree_drop [OF assms] show ?thesis by metis
qed

lemma drop_unlisted_or_live: "agree (live l) (obj l) \<Longrightarrow> live l i = Some p \<Longrightarrow> \<exists>a. p = Some a \<and> obj l a = Some i"
  by (cases p) (auto simp: agree_def)

end

text \<open>The id of a live object, by its address; and the list's own operations as such a store.\<close>

definition live_id :: "sessions \<Rightarrow> nat \<Rightarrow> nat option" where
  "live_id l a = (case session_heap l a of None \<Rightarrow> None
     | Some ses \<Rightarrow> if IsFullInit ses then Some (sessionid (sinfo ses)) else None)"

interpretation slist: session_store SessionList live_id GenSessionID open_session SessionDel IsFullInit
proof unfold_locales
  fix x :: media_session and l :: sessions and c a
  assume "IsFullInit x" "SessionList l (GenSessionID c) = None"
  then show "\<exists>l'. open_session x a c l = Inr (True, l') \<and> SessionList l' = (SessionList l)(GenSessionID c \<mapsto> Some a) \<and>
      live_id l' = (live_id l)(a \<mapsto> GenSessionID c)"
    by (auto simp: open_session_def SessionInsert_def Let_def live_id_def fun_eq_iff)
next
  fix l :: sessions and i a
  assume "SessionList l i = Some (Some a)" "live_id l a = Some i"
  then show "\<exists>l'. SessionDel i l = Inr (True, l') \<and> SessionList l' = (SessionList l)(i := None) \<and>
      live_id l' = (live_id l)(a := None)"
    by (auto simp: SessionDel_def SessionGet_def Let_def live_id_def fun_eq_iff split: option.splits if_splits)
qed

section \<open>The invariant of the server\<close>

text \<open>
  Each open connection has a usable session of its own, each usable session an open connection, and the list
  holds exactly these sessions under their ids.
\<close>

definition owned :: "(nat \<rightharpoonup> nat) \<Rightarrow> (nat \<rightharpoonup> 'a) \<Rightarrow> bool" where
  "owned c w \<longleftrightarrow> (\<forall>a. w a \<noteq> None \<longleftrightarrow> (\<exists>b. c b = Some a)) \<and> (\<forall>b b' a. c b = Some a \<longrightarrow> c b' = Some a \<longrightarrow> b = b')"

definition server_ok :: "net_state \<Rightarrow> bool" where
  "server_ok s \<longleftrightarrow> agree (SessionList (slist s)) (live_id (slist s)) \<and>
     (\<forall>a. session_heap (slist s) a \<noteq> None \<longrightarrow> live_id (slist s) a \<noteq> None) \<and> owned (conns s) (live_id (slist s))"

lemma ownedI:
  "(\<And>a. w a \<noteq> None \<longleftrightarrow> (\<exists>b. c b = Some a)) \<Longrightarrow> (\<And>b b' a. c b = Some a \<Longrightarrow> c b' = Some a \<Longrightarrow> b = b') \<Longrightarrow> owned c w"
  by (simp add: owned_def)

lemma ownedD:
  assumes "owned c w"
  shows "w a \<noteq> None \<longleftrightarrow> (\<exists>b. c b = Some a)" and "c b = Some a \<Longrightarrow> c b' = Some a \<Longrightarrow> b = b'"
  using assms unfolding owned_def by blast+

lemma owned_open:
  assumes "owned c w" and "c b = None" and "w a = None"
  shows "owned (c(b \<mapsto> a)) (w(a \<mapsto> x))"
proof (rule ownedI)
  have free: "c b' \<noteq> Some a" for b' using ownedD(1) [OF assms(1), of a] assms(3) by auto
  show "(w(a \<mapsto> x)) a' \<noteq> None \<longleftrightarrow> (\<exists>b'. (c(b \<mapsto> a)) b' = Some a')" for a'
  proof (cases "a' = a")
    case False
    have "(\<exists>b'. (c(b \<mapsto> a)) b' = Some a') \<longleftrightarrow> (\<exists>b'. c b' = Some a')"
      using False assms(2) by (intro iff_exI) auto
    then show ?thesis using ownedD(1) [OF assms(1), of a'] False by simp
  qed auto
  show "b' = b''" if "(c(b \<mapsto> a)) b' = Some a'" and "(c(b \<mapsto> a)) b'' = Some a'" for a' b' b''
    using that free [of b'] free [of b''] ownedD(2) [OF assms(1), of b' a' b''] by (auto split: if_splits)
qed

lemma owned_close:
  assumes "owned c w" and "c b = Some a"
  shows "owned (c(b := None)) (w(a := None))"
proof (rule ownedI)
  have only: "c b' = Some a \<Longrightarrow> b' = b" for b' using ownedD(2) [OF assms(1) _ assms(2)] .
  show "(w(a := None)) a' \<noteq> None \<longleftrightarrow> (\<exists>b'. (c(b := None)) b' = Some a')" for a'
  proof (cases "a' = a")
    case True
    then show ?thesis using only by auto
  next
    case False
    have "(\<exists>b'. (c(b := None)) b' = Some a') \<longleftrightarrow> (\<exists>b'. c b' = Some a')"
      using False assms(2) by (intro iff_exI) auto
    then show ?thesis using ownedD(1) [OF assms(1), of a'] False by simp
  qed
  show "b' = b''" if "(c(b := None)) b' = Some a'" and "(c(b := None)) b'' = Some a'" for a' b' b''
    using that ownedD(2) [OF assms(1), of b' a' b''] by (auto split: if_splits)
qed

lemma live_heap: "live_id l a = Some i \<longleftrightarrow> (\<exists>ses. session_heap l a = Some ses \<and> IsFullInit ses \<and> sessionid (sinfo ses) = i)"
  by (auto simp: live_id_def split: option.splits)

lemma SessionDel_heap:
  assumes "SessionList l i = Some (Some a)" and "live_id l a = Some i"
  shows "\<exists>l'. SessionDel i l = Inr (True, l') \<and> session_heap l' = (session_heap l)(a := None)"
  using assms by (auto simp: live_heap SessionDel_def SessionGet_def Let_def)

lemma open_session_heap:
  assumes "open_session ses a c l = Inr (True, l')"
  shows "session_heap l' = (session_heap l)(a \<mapsto> ses\<lparr>sinfo := (sinfo ses)\<lparr>sessionid := GenSessionID c\<rparr>\<rparr>)"
  using assms by (auto simp: open_session_def SessionInsert_def Let_def split: if_splits)

lemma Listen_Cb_ok:
  assumes "server_ok s" and "conns s b = None" and "session_heap (slist s) a = None" and "SessionList (slist s) (GenSessionID c) = None"
    and "Listen_Cb (Some b) a rs0 info0 tick0 c s = Inr s'"
  shows "server_ok s'"
proof -
  let ?new = "new_MediaSession rs0 info0 tick0"
  have live: "agree (SessionList (slist s)) (live_id (slist s))" using assms(1) by (simp add: server_ok_def)
  have none: "live_id (slist s) a = None" using assms(3) by (simp add: live_id_def)
  have "IsFullInit ?new" by (simp add: new_MediaSession_def)
  from slist.enter_agrees [OF live this assms(4) none] obtain l' where
    l': "open_session ?new a c (slist s) = Inr (True, l')" "agree (SessionList l') (live_id l')"
      "live_id l' = (live_id (slist s))(a \<mapsto> GenSessionID c)" by blast
  have s': "s' = s\<lparr>conns := (conns s)(b \<mapsto> a), slist := l'\<rparr>" using assms(5) l'(1) by (simp add: Listen_Cb_def)
  have "owned (conns s') (live_id l')" using assms(1,2) none l'(3) s' by (simp add: server_ok_def owned_open)
  then show ?thesis
    using assms(1) l'(2,3) open_session_heap [OF l'(1)] unfolding server_ok_def s' by simp
qed

lemma Event_Cb_ok:
  assumes "server_ok s" and "conns s b = Some a"
  shows "\<exists>ses l'. Event_Cb b a s = Inr (s\<lparr>conns := (conns s)(b := None), slist := l'\<rparr>) \<and>
    session_heap (slist s) a = Some ses \<and> session_heap l' = (session_heap (slist s))(a := None) \<and>
    SessionList l' = (SessionList (slist s))(GetSessionID ses := None) \<and>
    server_ok (s\<lparr>conns := (conns s)(b := None), slist := l'\<rparr>)"
proof -
  have live: "agree (SessionList (slist s)) (live_id (slist s))" using assms(1) by (simp add: server_ok_def)
  have "live_id (slist s) a \<noteq> None" using assms unfolding server_ok_def owned_def by blast
  then obtain i where i: "live_id (slist s) a = Some i" by auto
  then obtain ses where ses: "session_heap (slist s) a = Some ses" "GetSessionID ses = i" by (auto simp: live_heap GetSessionID_def)
  have listed: "SessionList (slist s) i = Some (Some a)" using live i by (simp add: agree_def)
  from slist.drop_law [OF listed i] SessionDel_heap [OF listed i] obtain l' where
    l': "SessionDel i (slist s) = Inr (True, l')" "SessionList l' = (SessionList (slist s))(i := None)"
      "live_id l' = (live_id (slist s))(a := None)" "session_heap l' = (session_heap (slist s))(a := None)" by auto
  have "agree (SessionList l') (live_id l')" using agree_drop [OF live i] l'(2,3) by simp
  moreover have "Event_Cb b a s = Inr (s\<lparr>conns := (conns s)(b := None), slist := l'\<rparr>)"
    using ses l'(1) by (simp add: Event_Cb_def)
  moreover have "owned ((conns s)(b := None)) (live_id l')" using assms l'(3) by (simp add: server_ok_def owned_close)
  ultimately show ?thesis
    using assms(1) ses l'(2-4) by (intro exI [of _ ses] exI [of _ l']) (simp add: server_ok_def)
qed

lemma on_session_ok:
  assumes "server_ok s" and "conns s b = Some a" and "on_session f a s = Inr (out, s')"
    and "\<And>g ses out g' ses'. f g ses = Inr (out, g', ses') \<Longrightarrow> sessionid (sinfo ses') = sessionid (sinfo ses) \<and> IsFullInit ses' = IsFullInit ses"
  shows "server_ok s'"
proof -
  obtain ses g' ses' where ses: "session_heap (slist s) a = Some ses" "f (svc s) ses = Inr (out, g', ses')"
      "s' = s\<lparr>slist := (slist s)\<lparr>session_heap := (session_heap (slist s))(a \<mapsto> ses')\<rparr>, svc := g'\<rparr>"
    using assms(3) by (auto simp: on_session_def andThen_Inr_iff split: option.splits)
  have "live_id (slist s') = live_id (slist s)"
    using ses assms(4) [OF ses(2)] by (auto simp: live_id_def fun_eq_iff)
  then show ?thesis using assms(1,2) ses by (auto simp: server_ok_def)
qed

text \<open>The listed ids come from the readings taken, so a reading of its own is not listed.\<close>

definition ids_read :: "int list \<Rightarrow> net_state \<Rightarrow> bool" where
  "ids_read cs s \<longleftrightarrow> dom (SessionList (slist s)) \<subseteq> GenSessionID ` set cs"

lemma Listen_Cb_ids:
  assumes "Listen_Cb (Some b) a rs0 info0 tick0 c s = Inr s'"
  shows "dom (SessionList (slist s')) \<subseteq> insert (GenSessionID c) (dom (SessionList (slist s)))"
  using assms by (auto simp: Listen_Cb_def open_session_def SessionInsert_def Let_def split: if_splits)

lemma on_session_ids: "on_session f a s = Inr (out, s') \<Longrightarrow> SessionList (slist s') = SessionList (slist s)"
  by (auto simp: on_session_def andThen_Inr_iff split: option.splits)

lemma net_step_ok:
  "net_step new s s' \<Longrightarrow> server_ok s \<Longrightarrow> ids_read cs s \<Longrightarrow> one_at_a_time (new @ cs) \<Longrightarrow> server_ok s' \<and> ids_read (new @ cs) s'"
proof (induction rule: net_step.induct)
  case (connected s b a rs0 info0 tick0 counter s')
  then have "GenSessionID counter \<notin> dom (SessionList (slist s))" by (auto simp: one_at_a_time_def ids_read_def)
  then have "SessionList (slist s) (GenSessionID counter) = None" by auto
  moreover have "ids_read ([counter] @ cs) s'"
    using Listen_Cb_ids [OF connected.hyps(3)] connected.prems(2) unfolding ids_read_def by auto
  ultimately show ?case using Listen_Cb_ok connected.hyps connected.prems(1) by blast
next
  case (readable s b a m e now dat out s')
  then have "ids_read cs s'" using on_session_ids unfolding ids_read_def read_event_def by metis
  then show ?case using readable on_session_ok [of s b a _ out s'] DealRtsp_identity
    unfolding read_event_def Recv_def append_Nil by (metis (no_types, lifting))
next
  case (writable s b a m clock out s')
  then have "ids_read cs s'" using on_session_ids unfolding ids_read_def write_event_def by metis
  then show ?case using writable on_session_ok [of s b a _ out s'] Send_identity
    unfolding write_event_def append_Nil by (metis (no_types, lifting))
next
  case (closed s b a s')
  obtain ses l' where e: "Event_Cb b a s = Inr (s\<lparr>conns := (conns s)(b := None), slist := l'\<rparr>)"
      "SessionList l' = (SessionList (slist s))(GetSessionID ses := None)"
      "server_ok (s\<lparr>conns := (conns s)(b := None), slist := l'\<rparr>)"
    using Event_Cb_ok [OF closed.prems(1) closed.hyps(1)] by blast
  then have "s' = s\<lparr>conns := (conns s)(b := None), slist := l'\<rparr>" using closed.hyps(2) by simp
  then show ?case using e(2,3) closed.prems(2) by (auto simp: ids_read_def)
qed (simp add: Listen_Cb_def)

lemma reachable_inv: "reachable g cs s \<Longrightarrow> one_at_a_time cs \<Longrightarrow> server_ok s \<and> ids_read cs s"
proof (induction rule: reachable.induct)
  case start
  then show ?case
    by (simp add: server_ok_def agree_def owned_def live_id_def MediaSessionList_GetInstance_def Let_def ids_read_def)
next
  case (step cs s new s')
  then have "one_at_a_time cs" by (simp add: one_at_a_time_def)
  then show ?case using step net_step_ok by blast
qed

lemma reachable_ok: "reachable g cs s \<Longrightarrow> one_at_a_time cs \<Longrightarrow> server_ok s"
  using reachable_inv by blast

lemma server_ok_plain:
  assumes "server_ok s"
  shows "(\<forall>a. session_heap (slist s) a \<noteq> None \<longleftrightarrow> (\<exists>b. conns s b = Some a)) \<and>
    (\<forall>b b' a. conns s b = Some a \<longrightarrow> conns s b' = Some a \<longrightarrow> b = b') \<and>
    (\<forall>i p. SessionList (slist s) i = Some p \<longleftrightarrow>
      (\<exists>a ses. p = Some a \<and> session_heap (slist s) a = Some ses \<and> IsFullInit ses \<and> sessionid (sinfo ses) = i))"
proof (intro conjI allI impI)
  have ok: "agree (SessionList (slist s)) (live_id (slist s))" "owned (conns s) (live_id (slist s))"
    "\<And>a. session_heap (slist s) a \<noteq> None \<Longrightarrow> live_id (slist s) a \<noteq> None"
    using assms by (simp_all add: server_ok_def)
  show "session_heap (slist s) a \<noteq> None \<longleftrightarrow> (\<exists>b. conns s b = Some a)" for a
  proof -
    have "session_heap (slist s) a \<noteq> None \<longleftrightarrow> live_id (slist s) a \<noteq> None"
      using ok(3) [of a] by (auto simp: live_id_def split: option.splits)
    then show ?thesis using ownedD(1) [OF ok(2), of a] by simp
  qed
  show "conns s b = Some a \<Longrightarrow> conns s b' = Some a \<Longrightarrow> b = b'" for b b' a using ownedD(2) [OF ok(2)] .
  show "SessionList (slist s) i = Some p \<longleftrightarrow>
      (\<exists>a ses. p = Some a \<and> session_heap (slist s) a = Some ses \<and> IsFullInit ses \<and> sessionid (sinfo ses) = i)" for i p
    using ok(1) by (cases p) (simp_all add: agree_def live_heap)
qed

section \<open>Two sessions with one id\<close>

text \<open>What becomes of two connections that were accepted at the same reading of the counter.\<close>

lemma duplicate_ids:
  assumes "conns s b1 = None" and "conns s b2 = None" and "b1 \<noteq> b2"
    and "session_heap (slist s) a1 = None" and "session_heap (slist s) a2 = None" and "a1 \<noteq> a2"
    and "SessionList (slist s) (GenSessionID c) = None"
  shows "\<exists>s1 s2 s3. Listen_Cb (Some b1) a1 r1 i1 t1 c s = Inr s1 \<and> Listen_Cb (Some b2) a2 r2 i2 t2 c s1 = Inr s2 \<and>
    Event_Cb b2 a2 s2 = Inr s3 \<and> conns s3 b1 = Some a1 \<and> session_heap (slist s3) a1 = None \<and>
    (\<exists>ses. session_heap (slist s3) a2 = Some ses) \<and>
    (\<forall>m e now dat. read_event m e now dat a1 s3 = Inl OutOfBounds) \<and>
    (\<exists>s4. Event_Cb b1 a1 s2 = Inr s4 \<and> Event_Cb b2 a2 s4 = Inl NullPointer)"
  using assms
  by (simp add: Listen_Cb_def Event_Cb_def open_session_def SessionInsert_def SessionDel_def SessionGet_def Let_def
      GetSessionID_def new_MediaSession_def read_event_def on_session_def)

section \<open>A sample state\<close>

text \<open>A server with one connection.\<close>

definition sample_session :: "rtspinfo \<Rightarrow> media_session" where
  "sample_session r = new_MediaSession r \<lparr>sessionid = 77, mtype = UNDEFINED, stype = ERRORTYPE\<rparr> 0"

definition sample_state :: "service \<Rightarrow> rtspinfo \<Rightarrow> net_state" where
  "sample_state g r = \<lparr>conns = [5 \<mapsto> 9], slist = \<lparr>SessionList = [77 \<mapsto> Some 9], session_heap = [9 \<mapsto> sample_session r]\<rparr>, svc = g\<rparr>"

lemma sample_reachable: "reachable g [77] (sample_state g r)" "one_at_a_time [77]"
proof -
  let ?s = "\<lparr>conns = Map.empty, slist = fst (MediaSessionList_GetInstance None), svc = g\<rparr>"
  have "Listen_Cb (Some 5) 9 r \<lparr>sessionid = 0, mtype = UNDEFINED, stype = ERRORTYPE\<rparr> 0 77 ?s = Inr (sample_state g r)"
    by (simp add: Listen_Cb_def open_session_def SessionInsert_def Let_def MediaSessionList_GetInstance_def GenSessionID_def
        sample_state_def sample_session_def new_MediaSession_def)
  then have "net_step [77] ?s (sample_state g r)"
    by (intro connected [of _ 5 9]) (simp_all add: MediaSessionList_GetInstance_def Let_def)
  from reachable.step [OF reachable.start this] show "reachable g [77] (sample_state g r)" by simp
  show "one_at_a_time [77]" by (simp add: one_at_a_time_def)
qed

section \<open>Properties\<close>

text \<open>C3. As long as no two connections have been accepted at one reading of the counter, which the code does not see to
  (the end of this theory has what happens otherwise): each open connection has exactly one usable session, every
  session object belongs to an open connection, and the list holds exactly the sessions, each under its id.\<close>

theorem sessions_match_connections:
  assumes "reachable g cs s" and "one_at_a_time cs"
  shows "(\<forall>a. session_heap (slist s) a \<noteq> None \<longleftrightarrow> (\<exists>b. conns s b = Some a)) \<and>
    (\<forall>b b' a. conns s b = Some a \<longrightarrow> conns s b' = Some a \<longrightarrow> b = b') \<and>
    (\<forall>i p. SessionList (slist s) i = Some p \<longleftrightarrow>
      (\<exists>a ses. p = Some a \<and> session_heap (slist s) a = Some ses \<and> IsFullInit ses \<and> sessionid (sinfo ses) = i))"
  using reachable_ok [OF assms] by (rule server_ok_plain)

theorem sessions_match_connections_witness:
  "\<forall>g r. (\<exists>b. conns (sample_state g r) b = Some 9) \<and>
    (\<exists>a ses. Some 9 = Some a \<and> session_heap (slist (sample_state g r)) a = Some ses \<and> IsFullInit ses \<and> sessionid (sinfo ses) = 77)"
proof (intro allI)
  fix g r
  note inv = sessions_match_connections [OF sample_reachable(1) [of g r] sample_reachable(2)]
  have "session_heap (slist (sample_state g r)) 9 \<noteq> None" "SessionList (slist (sample_state g r)) 77 = Some (Some 9)"
    by (simp_all add: sample_state_def)
  with inv show "(\<exists>b. conns (sample_state g r) b = Some 9) \<and>
    (\<exists>a ses. Some 9 = Some a \<and> session_heap (slist (sample_state g r)) a = Some ses \<and> IsFullInit ses \<and> sessionid (sinfo ses) = 77)"
    by blast
qed

text \<open>C19. As long as no two connections have been accepted at one reading of the counter, the callback for a closed
  connection never fails: it removes the connection, its session object and the list entry of its id, and nothing else.\<close>

theorem Event_Cb_safe:
  assumes "reachable g cs s" and "one_at_a_time cs" and "conns s b = Some a"
  shows "\<exists>ses l'. session_heap (slist s) a = Some ses \<and>
    Event_Cb b a s = Inr (s\<lparr>conns := (conns s)(b := None), slist := l'\<rparr>) \<and>
    session_heap l' = (session_heap (slist s))(a := None) \<and>
    SessionList l' = (SessionList (slist s))(GetSessionID ses := None)"
  using Event_Cb_ok [OF reachable_ok [OF assms(1,2)] assms(3)] by blast

theorem Event_Cb_safe_witness:
  "\<forall>g r. \<exists>s'. Event_Cb 5 9 (sample_state g r) = Inr s' \<and> session_heap (slist s') = Map.empty"
proof (intro allI)
  fix g r
  have "conns (sample_state g r) 5 = Some 9" by (simp add: sample_state_def)
  from Event_Cb_safe [OF sample_reachable this]
  show "\<exists>s'. Event_Cb 5 9 (sample_state g r) = Inr s' \<and> session_heap (slist s') = Map.empty"
    by (auto simp: sample_state_def)
qed

text \<open>C39. The id is the reading of a counter, and a second session with the same id is not listed: closing its
  connection deletes the first session under its open connection, where the next read finds freed memory, and
  leaks its own; if the first connection is closed before it, closing the second dereferences a null pointer.\<close>

theorem duplicate_session_ids:
  assumes "reachable g cs s" and "conns s b1 = None" and "conns s b2 = None" and "b1 \<noteq> b2"
    and "session_heap (slist s) a1 = None" and "session_heap (slist s) a2 = None" and "a1 \<noteq> a2"
    and "SessionList (slist s) (GenSessionID c) = None"
  shows "\<exists>s1 s2 s3. Listen_Cb (Some b1) a1 r1 i1 t1 c s = Inr s1 \<and> Listen_Cb (Some b2) a2 r2 i2 t2 c s1 = Inr s2 \<and>
    Event_Cb b2 a2 s2 = Inr s3 \<and> conns s3 b1 = Some a1 \<and> session_heap (slist s3) a1 = None \<and>
    (\<exists>ses. session_heap (slist s3) a2 = Some ses) \<and>
    (\<forall>m e now dat. read_event m e now dat a1 s3 = Inl OutOfBounds) \<and>
    (\<exists>s4. Event_Cb b1 a1 s2 = Inr s4 \<and> Event_Cb b2 a2 s4 = Inl NullPointer)"
  by (rule duplicate_ids [OF assms(2-)])

theorem duplicate_session_ids_witness:
  "\<forall>g r. \<exists>s1 s2 s3. Listen_Cb (Some 6) 10 r \<lparr>sessionid = 0, mtype = UNDEFINED, stype = ERRORTYPE\<rparr> 0 78 (sample_state g r) = Inr s1 \<and>
    Listen_Cb (Some 7) 11 r \<lparr>sessionid = 0, mtype = UNDEFINED, stype = ERRORTYPE\<rparr> 0 78 s1 = Inr s2 \<and>
    Event_Cb 7 11 s2 = Inr s3 \<and> conns s3 6 = Some 10 \<and> (\<forall>m e now dat. read_event m e now dat 10 s3 = Inl OutOfBounds)"
proof (intro allI)
  fix g r
  have "conns (sample_state g r) 6 = None" "conns (sample_state g r) 7 = None" "(6 :: nat) \<noteq> 7"
    "session_heap (slist (sample_state g r)) 10 = None" "session_heap (slist (sample_state g r)) 11 = None" "(10 :: nat) \<noteq> 11"
    "SessionList (slist (sample_state g r)) (GenSessionID 78) = None"
    by (simp_all add: sample_state_def GenSessionID_def)
  from duplicate_session_ids [OF sample_reachable(1) this]
  show "\<exists>s1 s2 s3. Listen_Cb (Some 6) 10 r \<lparr>sessionid = 0, mtype = UNDEFINED, stype = ERRORTYPE\<rparr> 0 78 (sample_state g r) = Inr s1 \<and>
    Listen_Cb (Some 7) 11 r \<lparr>sessionid = 0, mtype = UNDEFINED, stype = ERRORTYPE\<rparr> 0 78 s1 = Inr s2 \<and>
    Event_Cb 7 11 s2 = Inr s3 \<and> conns s3 6 = Some 10 \<and> (\<forall>m e now dat. read_event m e now dat 10 s3 = Inl OutOfBounds)" by metis
qed

end
