(* ===== verification/ServiceRun.thy ===== *)
theory ServiceRun
  imports PlaySession Network DescribeReply
begin

text \<open>
  The whole service from \<open>main\<close> to the end of a connection: the description made at start-up, the events of one
  connection as libevent delivers them to the callbacks of \<open>network.cpp\<close>, and the bytes that the client gets.
\<close>

section \<open>The events of one connection\<close>

text \<open>
  What happens to connection \<open>b\<close> with the session at \<open>a\<close>: it is accepted (the new object's memory and the counter are
  what they are), it can be read or written, it is closed. The answer has what was written to the connection.
\<close>

datatype event =
    Accepted rtspinfo SessionInfo nat int
  | Readable nat string
  | Writable "nat \<Rightarrow> nat"
  | Closed

fun callback :: "uninit \<Rightarrow> sdp_env \<Rightarrow> nat \<Rightarrow> nat \<Rightarrow> event \<Rightarrow> net_state \<Rightarrow> (byte list list \<times> net_state) res" where
  "callback m e b a (Accepted rs0 info0 tick0 counter) s =
     andThen (Listen_Cb (Some b) a rs0 info0 tick0 counter s) (\<lambda>s. Inr ([], s))"
| "callback m e b a (Readable now dat) s = read_event m e now dat a s"
| "callback m e b a (Writable clock) s = write_event m clock a s"
| "callback m e b a Closed s = andThen (Event_Cb b a s) (\<lambda>s. Inr ([], s))"

primrec dispatch :: "uninit \<Rightarrow> sdp_env \<Rightarrow> nat \<Rightarrow> nat \<Rightarrow> event list \<Rightarrow> net_state \<Rightarrow> (byte list list \<times> net_state) res" where
  "dispatch m e b a [] s = Inr ([], s)"
| "dispatch m e b a (ev # evs) s =
     andThen (callback m e b a ev s) (\<lambda>(out, s).
     andThen (dispatch m e b a evs s) (\<lambda>(outs, s). Inr (out @ outs, s)))"

lemma dispatch_append:
  "dispatch m e b a (evs @ evs') s =
     andThen (dispatch m e b a evs s) (\<lambda>(out, s). andThen (dispatch m e b a evs' s) (\<lambda>(outs, s). Inr (out @ outs, s)))"
  by (induction evs arbitrary: s) (auto simp: andThen_def split: sum.splits)

text \<open>Reading and writing are steps of the event loop that keep the connection.\<close>

lemma transfer_step:
  assumes "reachable g cs s" and "conns s b = Some a" and "callback m e b a ev s = Inr (out, s')" and "ev \<in> range (case_prod Readable) \<union> range Writable"
  shows "reachable g cs s' \<and> conns s' b = Some a"
proof -
  have "net_step [] s s'"
    using assms(2-4) by (auto intro: readable writable)
  moreover have "conns s' = conns s"
    using assms(3,4) by (auto simp: read_event_def write_event_def on_session_def andThen_Inr_iff split: option.splits)
  ultimately show ?thesis using assms(1,2) reachable.step [of g cs s "[]" s'] by simp
qed

lemma transfers_reachable:
  assumes "dispatch m e b a evs s = Inr (out, s')" and "set evs \<subseteq> range (case_prod Readable) \<union> range Writable"
    and "reachable g cs s" and "conns s b = Some a"
  shows "reachable g cs s' \<and> conns s' b = Some a"
  using assms
proof (induction evs arbitrary: s out)
  case (Cons ev evs)
  then obtain out1 s1 out2 where s1: "callback m e b a ev s = Inr (out1, s1)" "dispatch m e b a evs s1 = Inr (out2, s')"
    by (auto simp: andThen_Inr_iff)
  from transfer_step [OF Cons.prems(3,4) s1(1)] Cons.prems(2) Cons.IH [OF s1(2)] show ?case by simp
qed simp

text \<open>The state with one connection.\<close>

definition one_client :: "nat \<Rightarrow> nat \<Rightarrow> media_session \<Rightarrow> service \<Rightarrow> net_state" where
  "one_client b a ses g = \<lparr>conns = [b \<mapsto> a],
     slist = \<lparr>SessionList = [sessionid (sinfo ses) \<mapsto> Some a], session_heap = [a \<mapsto> ses]\<rparr>, svc = g\<rparr>"

definition no_client :: "service \<Rightarrow> net_state" where
  "no_client g = \<lparr>conns = Map.empty, slist = fst (MediaSessionList_GetInstance None), svc = g\<rparr>"

definition new_session :: "rtspinfo \<Rightarrow> SessionInfo \<Rightarrow> nat \<Rightarrow> int \<Rightarrow> media_session" where
  "new_session rs0 info0 tick0 counter = new_MediaSession rs0 (info0\<lparr>sessionid := GenSessionID counter\<rparr>) tick0"

lemma no_client_parts: "conns (no_client g) = Map.empty" "slist (no_client g) = \<lparr>SessionList = Map.empty, session_heap = Map.empty\<rparr>" "svc (no_client g) = g"
  by (simp_all add: no_client_def MediaSessionList_GetInstance_def Let_def)

lemma accept_client:
  "callback m e b a (Accepted rs0 info0 tick0 counter) (no_client g) = Inr ([], one_client b a (new_session rs0 info0 tick0 counter) g)"
  by (simp add: Listen_Cb_def open_session_def SessionInsert_def Let_def no_client_def one_client_def new_session_def
      new_MediaSession_def MediaSessionList_GetInstance_def)

lemma accept_reachable: "reachable g [counter] (one_client b a (new_session rs0 info0 tick0 counter) g)"
proof -
  have "Listen_Cb (Some b) a rs0 info0 tick0 counter (no_client g) = Inr (one_client b a (new_session rs0 info0 tick0 counter) g)"
    using accept_client [of undefined undefined b a rs0 info0 tick0 counter g] by (auto simp: andThen_Inr_iff)
  then have "net_step [counter] (no_client g) (one_client b a (new_session rs0 info0 tick0 counter) g)"
    by (intro connected) (simp_all add: no_client_parts)
  from reachable.step [OF reachable.start [of g, folded no_client_def] this] show ?thesis by simp
qed

lemma read_client:
  assumes "DealRtsp m e now dat g ses = Inr (out, g', ses')"
  shows "callback m e b a (Readable now dat) (one_client b a ses g) = Inr (out, one_client b a ses' g')"
  using assms DealRtsp_identity [OF assms] by (simp add: read_event_def on_session_def Recv_def one_client_def)

lemma write_client:
  assumes "Send m clock g ses = Inr (out, g', ses')"
  shows "callback m e b a (Writable clock) (one_client b a ses g) = Inr (out, one_client b a ses' g')"
  using assms Send_identity [OF assms] by (simp add: write_event_def on_session_def one_client_def)

lemma write_clients:
  "send_all m clocks g ses = Inr (out, g', ses') \<Longrightarrow>
    dispatch m e b a (map Writable clocks) (one_client b a ses g) = Inr (out, one_client b a ses' g') \<and> IsFullInit ses' = IsFullInit ses"
proof (induction clocks arbitrary: g ses out)
  case (Cons clock clocks)
  then obtain out1 g1 ses1 out2 where
    s: "Send m clock g ses = Inr (out1, g1, ses1)" "send_all m clocks g1 ses1 = Inr (out2, g', ses')" "out = out1 @ out2"
    by (auto simp: andThen_Inr_iff)
  show ?case using write_client [OF s(1)] Cons.IH [OF s(2)] Send_identity [OF s(1)] s(3) by (simp del: callback.simps)
qed simp

lemma write_fault:
  "send_all m clocks g ses = Inl e \<Longrightarrow> dispatch m e' b a (map Writable clocks) (one_client b a ses g) = Inl e"
proof (induction clocks arbitrary: g ses)
  case (Cons clock clocks)
  show ?case
  proof (cases "Send m clock g ses")
    case (Inl f)
    then show ?thesis using Cons.prems by (simp add: write_event_def on_session_def one_client_def)
  next
    case (Inr r)
    obtain out g1 ses1 where r: "r = (out, g1, ses1)" by (cases r)
    then have "send_all m clocks g1 ses1 = Inl e" using Cons.prems Inr by (cases "send_all m clocks g1 ses1") auto
    then show ?thesis using Cons.IH write_client [OF Inr [unfolded r]] by (simp del: callback.simps)
  qed
qed simp

lemma close_client:
  "IsFullInit ses \<Longrightarrow> callback m e b a Closed (one_client b a ses g) = Inr ([], no_client g)"
  by (simp add: Event_Cb_def SessionDel_def SessionGet_def GetSessionID_def Let_def one_client_def no_client_def
      MediaSessionList_GetInstance_def)

section \<open>Start-up\<close>

text \<open>A file whose beginning has its parameter sets, with their text in Base64.\<close>

definition describable :: "sps_syntax \<Rightarrow> string \<Rightarrow> byte list \<Rightarrow> bool" where
  "describable x params dat \<longleftrightarrow> name_ok params \<and>
     (\<exists>h rbsp pps us. take 4096 dat = annexb us \<and> sdp_units x h rbsp pps us \<and>
        params = b64_spec ([0, 0, 1] @ h # escape 0 rbsp) @ '','' @ b64_spec ([0, 0, 1] @ pps))"

definition profile_text :: "sps_syntax \<Rightarrow> string" where
  "profile_text x = hex_padded 6 (int (x_profile x))"

definition description :: "sps_syntax \<Rightarrow> string \<Rightarrow> string" where
  "description x params = sdp_text ''test'' (profile_text x) params (rect_text x)"

text \<open>libevent gives all that it is asked for.\<close>

definition event_loop_starts :: "libevent \<Rightarrow> nat \<Rightarrow> bool" where
  "event_loop_starts ev l \<longleftrightarrow> evconnlistener_new_bind ev (event_base_new ev) \<lparr>sin_port = 1000, sin_addr = 0\<rparr> = Some l \<and>
     evsignal_new ev (event_base_new ev) \<noteq> None \<and> 0 \<le> event_add ev"

lemma media_name: "splitpath media_file = (''test'', ''.h264'')" "media_file \<noteq> sdp_file"
  using sample_path by (simp_all add: media_file_def sdp_file_def)

lemma test_name: "name_ok ''test''"
  by code_simp

lemma main_runs:
  assumes "d media_file = Some dat" and "describable x params dat" and "can_create e" and "can_write e" and "event_loop_starts ev l"
  shows "\<exists>work d'. tmain e ev l0 n0 d =
      Inr (0, True, work, \<lparr>sdp = Some [(''test'', description x params)], disk_of = d', files = []\<rparr>) \<and>
    d' media_file = Some dat \<and> listener work = Some l \<and> callbacks work"
proof -
  obtain h rbsp pps us where u: "take 4096 dat = annexb us" "sdp_units x h rbsp pps us"
      "params = b64_spec ([0, 0, 1] @ h # escape 0 rbsp) @ '','' @ b64_spec ([0, 0, 1] @ pps)"
    using assms(2) unfolding describable_def by blast
  have "find_sub ''rectofvideo'' params = None" using assms(2) by (simp add: describable_def name_ok_def)
  from new_sdp_text [where d = d, OF media_name(1) _ assms(1) u(1,2) test_name assms(3,4) u(3) this refl]
  have "new_MediaCreateSdp e d media_file = Inr ([(''test'', description x params)], d(sdp_file \<mapsto> map of_char (description x params)))"
    by (simp add: description_def profile_text_def)
  then show ?thesis
    using assms(1,5) media_name(2)
    by (auto simp: tmain_def GetInstance_def event_loop_starts_def new_Network_def NetPrepare_def StartServer_def Let_def)
qed

section \<open>The description has none of the words that are replaced\<close>

lemma name_ok_chars:
  assumes "\<forall>c \<in> set s. c \<notin> {CHR ''e'', CHR ''i'', CHR ''o'', CR, NUL}"
  shows "name_ok s"
proof -
  have "CHR ''e'' \<notin> set s" "CHR ''i'' \<notin> set s" "CHR ''o'' \<notin> set s" "CR \<notin> set s" "NUL \<notin> set s" using assms by blast+
  then show ?thesis
    using find_sub_absent [of "CHR ''e''" _ s] find_sub_absent [of "CHR ''i''" _ s] find_sub_absent [of "CHR ''o''" _ s]
    by (simp add: name_ok_def)
qed

lemma digit_chars: "d < 16 \<Longrightarrow> digit d \<notin> {CHR ''e'', CHR ''i'', CHR ''o'', CR, NUL}"
proof -
  have "\<forall>d \<in> set [0..<16]. digit d \<notin> {CHR ''e'', CHR ''i'', CHR ''o'', CR, NUL}" by code_simp
  moreover assume "d < 16"
  then have "d \<in> set [0..<16]" by (simp only: set_upt atLeastLessThan_iff le0 simp_thms)
  ultimately show ?thesis by (rule bspec)
qed

lemma decimal_chars: "c \<in> set (decimal n) \<Longrightarrow> c \<notin> {CHR ''e'', CHR ''i'', CHR ''o'', CR, NUL}"
  using radix_10_digits [of c n] by (auto simp: decimal_def is_digit_def)

lemma field_names: "name_ok (profile_text x)" "name_ok (rect_text x)"
proof -
  show "name_ok (profile_text x)"
    using radix_16_chars digit_chars by (intro name_ok_chars) (fastforce simp: profile_text_def hex_padded_def Let_def)
  show "name_ok (rect_text x)"
    using decimal_chars by (intro name_ok_chars) (auto simp: rect_text_def)
qed

lemma description_plain:
  assumes "name_ok params"
  shows "GetSdp [(''test'', description x params)] ''test'' = Some (description x params)"
proof -
  have "NUL \<notin> set params" "NUL \<notin> set (profile_text x)" "NUL \<notin> set (rect_text x)"
    using assms field_names [of x] by (simp_all add: name_ok_def)
  then have "NUL \<notin> set (description x params)"
    by (simp add: description_def sdp_text_def sdp_head_def head_before_def head_behind_def sdp_tail_def)
  then show ?thesis by (simp add: c_str_id)
qed

lemma describable_short:
  assumes "describable x params dat"
  shows "name_ok params" and "length params < 2 ^ 13"
proof -
  obtain h rbsp pps us where u: "take 4096 dat = annexb us" "sdp_units x h rbsp pps us"
      "params = b64_spec ([0, 0, 1] @ h # escape 0 rbsp) @ '','' @ b64_spec ([0, 0, 1] @ pps)" "name_ok params"
    using assms unfolding describable_def by blast
  obtain l1 l2 others where us: "us = (l1, h # escape 0 rbsp) # (l2, pps) # others" using u(2) by (auto simp: sdp_units_def)
  have "length (annexb us) \<le> 4096" using u(1) by (metis length_take min.cobounded2)
  then have "length (h # escape 0 rbsp) + length pps \<le> 4096" by (simp add: us annexb_def)
  then show "length params < 2 ^ 13" by (simp add: u(3) length_b64_spec)
  show "name_ok params" using u(4) .
qed

section \<open>What the client gets\<close>

definition describe_body :: "nat \<Rightarrow> sps_syntax \<Rightarrow> string \<Rightarrow> string" where
  "describe_body sid x params =
     body_text (decimal sid) ''96'' ''0'' ''201'' ''1'' ''test'' (profile_text x) params (rect_text x)"

definition describe_writes :: "rtspinfo \<Rightarrow> string \<Rightarrow> string \<Rightarrow> string \<Rightarrow> byte list list" where
  "describe_writes r host seq body =
     [text_bytes (reply_head (r\<lparr>addr := host, file_path := ''test'', cseq := seq\<rparr>) @ CHR '' '' # decimal (length body) @ crlf),
      text_bytes crlf, text_bytes body]"

lemma body_short:
  assumes "length params < 2 ^ 13" and "sid < 2 ^ 64" and "sps_ok x"
  shows "length (describe_body sid x params) < 2 ^ 30"
proof -
  have "length (decimal sid) \<le> 20" using length_decimal [of sid 20] assms(2) by simp
  moreover have "length (profile_text x) \<le> 8" "length (rect_text x) < 256"
    using length_hex rect_fits(2) [OF assms(3)] by (simp_all add: profile_text_def)
  ultimately show ?thesis using assms(1) by (simp add: describe_body_def body_text_def body_start_def body_media_def)
qed

lemma describe_client:
  assumes "arrives DESCRIBE host ''test'' seq dat0" and "name_ok host" and "name_ok seq" and "length host < 228"
    and "sdp g = Some [(''test'', description x params)]" and "name_ok params" and "length params < 2 ^ 13" and "sps_ok x"
    and "rtspinc ses = []" and "sessionid (sinfo ses) < 2 ^ 64"
  shows "\<exists>ses'. DealRtsp m e now dat0 g ses = Inr (describe_writes (rs ses) host seq (describe_body (sessionid (sinfo ses)) x params), g, ses') \<and>
    rtspinc ses' = [] \<and> session (rs ses') = session (rs ses) \<and> sessionid (sinfo ses') = sessionid (sinfo ses) \<and> IsFullInit ses' = IsFullInit ses"
proof -
  obtain mid behind where r: "request_ok DESCRIBE host ''test'' mid seq behind" "dat0 = request DESCRIBE host ''test'' mid seq behind"
      "length dat0 < 1480" "NUL \<notin> set dat0" "find_sub (crlf @ crlf) dat0 \<noteq> None"
    using assms(1) by (auto simp: arrives_def)
  have len: "length host + length ''test'' < 232" using assms(4) by simp
  have found: "GetSdp [(''test'', description x params)] ''test'' = Some (sdp_text ''test'' (profile_text x) params (rect_text x))"
    using description_plain [OF assms(6)] by (simp only: description_def)
  from describe_reply [OF r assms(9,2) test_name assms(3) len assms(5) found test_name field_names(1) assms(6) field_names(2) assms(10)
      describe_body_def body_short [OF assms(7,10,8)] refl, of m e now]
  show ?thesis by (simp add: describe_writes_def reply_head_def)
qed

lemma new_session_parts: "rtspinc (new_session r i t c) = []" "session (rs (new_session r i t c)) = session r"
    "sessionid (sinfo (new_session r i t c)) = GenSessionID c" "IsFullInit (new_session r i t c)" "GenSessionID c < 2 ^ 64"
  by (simp_all add: new_session_def new_MediaSession_def GenSessionID_def nat_less_iff)

lemma write_then_close:
  assumes "IsFullInit ses" and "delivers m cs clocks (send_all m clocks g ses)" and "length clocks \<le> length cs"
  shows "\<exists>out g'. dispatch m e b a (map Writable clocks @ [Closed]) (one_client b a ses g) = Inr (out, no_client g')"
proof -
  obtain ps g1 ses1 where r: "send_all m clocks g ses = Inr (ps, g1, ses1)" using assms(2,3) by (auto simp: delivers_def)
  note w = write_clients [OF r, of e b a]
  then have "callback m e b a Closed (one_client b a ses1 g1) = Inr ([], no_client g1)" using assms(1) by (intro close_client) simp
  then show ?thesis using w by (auto simp: dispatch_append simp del: callback.simps)
qed

lemma writes_deliver:
  assumes "delivers m cs clocks (send_all m clocks g ses)"
  shows "delivers m cs clocks (dispatch m e b a (map Writable clocks) (one_client b a ses g))"
proof (cases "send_all m clocks g ses")
  case (Inl f)
  then show ?thesis using assms write_fault [OF Inl, of e b a] by (simp add: delivers_def split: if_splits)
next
  case (Inr r)
  obtain ps g1 ses1 where r: "r = (ps, g1, ses1)" by (cases r)
  show ?thesis using assms write_clients [OF Inr [unfolded r], of e b a] by (simp add: delivers_def Inr r split: if_splits)
qed

lemma client_served:
  assumes "d media_file = Some dat" and "10240 \<le> length dat" and "length dat \<le> 2 ^ 29" and "describable x params dat" and "playable x dat"
    and "can_create e" and "can_write e" and "event_loop_starts ev l" and "session r < 2 ^ 32"
    and "arrives DESCRIBE host ''test'' seq0 dat0" and "name_ok host" and "name_ok seq0" and "length host < 228"
    and "arrives SETUP host1 path1 seq1 dat1" and "arrives PLAY host2 path2 seq2 dat2"
  shows "\<exists>work g s. tmain e ev l0 n0 d = Inr (0, True, work, g) \<and> listener work = Some l \<and> callbacks work \<and>
    dispatch m e b a [Accepted r i t c, Readable now0 dat0, Readable now1 dat1, Readable now2 dat2] (no_client g) =
      Inr (describe_writes r host seq0 (describe_body (GenSessionID c) x params) @
        [text_bytes (setup_reply (r\<lparr>cseq := seq1\<rparr>)), text_bytes crlf, text_bytes (play_reply (r\<lparr>cseq := seq2\<rparr>)), text_bytes crlf], s) \<and>
    reachable g [c] s \<and>
    (\<forall>clocks. delivers m (tl (media_nodes (stream_nodes dat))) clocks (dispatch m e b a (map Writable clocks) s)) \<and>
    (\<forall>clocks. length clocks < length (media_nodes (stream_nodes dat)) \<longrightarrow>
      (\<exists>out g'. dispatch m e b a (map Writable clocks @ [Closed]) s = Inr (out, no_client g')))"
proof -
  obtain work d' where w: "tmain e ev l0 n0 d = Inr (0, True, work, \<lparr>sdp = Some [(''test'', description x params)], disk_of = d', files = []\<rparr>)"
      "d' media_file = Some dat" "listener work = Some l" "callbacks work"
    using main_runs [where d = d, OF assms(1,4,6-8), of l0 n0] by blast
  define g where "g = \<lparr>sdp = Some [(''test'', description x params)], disk_of = d', files = []\<rparr>"
  have g: "sdp g = Some [(''test'', description x params)]" "has_file dat g"
    using w(2) assms(2,3) by (simp_all add: g_def has_file_def)
  let ?ses = "new_session r i t c"
  note new = new_session_parts and short = describable_short [OF assms(4)]
  have sps: "sps_ok x" using assms(5) by (simp add: playable_def)
  have sid: "sessionid (sinfo ?ses) < 2 ^ 64" by (simp only: new(3,5))
  from describe_client [OF assms(10-13) g(1) short sps new(1) sid, of m e now0] obtain ses1 where
    p: "DealRtsp m e now0 dat0 g ?ses = Inr (describe_writes (rs ?ses) host seq0 (describe_body (sessionid (sinfo ?ses)) x params), g, ses1)"
      "rtspinc ses1 = []" "session (rs ses1) = session (rs ?ses)" "sessionid (sinfo ses1) = sessionid (sinfo ?ses)" "IsFullInit ses1 = IsFullInit ?ses"
    by blast
  have ses1: "session (rs ses1) < 2 ^ 32" using p(3) new(2) assms(9) by simp
  from playback_runs [OF assms(14,15) p(2) ses1 g(2) assms(5), of m e now1 now2] obtain g1 ses2 g2 ses3 where
    q: "DealRtsp m e now1 dat1 g ses1 = Inr ([text_bytes (setup_reply ((rs ses1)\<lparr>cseq := seq1\<rparr>)), text_bytes crlf], g1, ses2)"
      "DealRtsp m e now2 dat2 g1 ses2 = Inr ([text_bytes (play_reply ((rs ses1)\<lparr>cseq := seq2\<rparr>)), text_bytes crlf], g2, ses3)"
      "\<forall>clocks. delivers m (tl (media_nodes (stream_nodes dat))) clocks (send_all m clocks g2 ses3)"
    by blast
  have texts: "describe_writes (rs ?ses) host seq0 = describe_writes r host seq0" "setup_reply ((rs ses1)\<lparr>cseq := seq1\<rparr>) = setup_reply (r\<lparr>cseq := seq1\<rparr>)"
    "play_reply ((rs ses1)\<lparr>cseq := seq2\<rparr>) = play_reply (r\<lparr>cseq := seq2\<rparr>)"
    using p(3) new(2) by (simp_all add: describe_writes_def reply_head_def setup_reply_def play_reply_def fun_eq_iff)
  have full: "IsFullInit ses3" using DealRtsp_identity [OF q(1)] DealRtsp_identity [OF q(2)] p(5) new(4) by simp
  let ?requests = "[Readable now0 dat0, Readable now1 dat1, Readable now2 dat2]"
  let ?replies = "describe_writes r host seq0 (describe_body (GenSessionID c) x params) @
      [text_bytes (setup_reply (r\<lparr>cseq := seq1\<rparr>)), text_bytes crlf, text_bytes (play_reply (r\<lparr>cseq := seq2\<rparr>)), text_bytes crlf]"
  have moved: "dispatch m e b a ?requests (one_client b a ?ses g) = Inr (?replies, one_client b a ses3 g2)"
    using read_client [OF p(1), of b a] read_client [OF q(1), of b a] read_client [OF q(2), of b a] texts new(3) by (simp del: callback.simps)
  have "reachable g [c] (one_client b a ses3 g2)"
    using transfers_reachable [OF moved _ accept_reachable] by (auto simp: one_client_def)
  moreover have "dispatch m e b a [Accepted r i t c, Readable now0 dat0, Readable now1 dat1, Readable now2 dat2] (no_client g) =
      Inr (?replies, one_client b a ses3 g2)"
    using moved accept_client [of m e b a r i t c g] by (simp del: callback.simps)
  moreover have "\<forall>clocks. delivers m (tl (media_nodes (stream_nodes dat))) clocks (dispatch m e b a (map Writable clocks) (one_client b a ses3 g2))"
    using q(3) writes_deliver by blast
  moreover have "\<exists>out g'. dispatch m e b a (map Writable clocks @ [Closed]) (one_client b a ses3 g2) = Inr (out, no_client g')"
    if "length clocks < length (media_nodes (stream_nodes dat))" for clocks
    using that by (intro write_then_close [OF full spec [OF q(3)]]) simp
  moreover note w(1) [folded g_def] w(3,4)
  ultimately show ?thesis by blast
qed

section \<open>The sample file is described\<close>

definition sample_start :: "(bool \<times> byte list) list" where
  "sample_start = [(True, 0x67 # escape 0 sample_bytes), (True, [0x68, 0xEE, 0x3C, 0x80]),
     (True, 0x65 # sample_key_rbsp 96), (True, 0x41 # sample_rbsp 3951)]"

definition sample_params :: string where
  "sample_params = ''AAABZ00AAJbIAoAt2AiAAAADAIAAABlC,AAABaO48gA==''"

lemma take_padded: "length xs = k \<Longrightarrow> take (k + n) (xs @ replicate (n + n') c) = xs @ replicate n c"
  by simp

lemma sample_start_file: "take 4096 sample_file = annexb sample_start"
proof -
  let ?xs = "[0, 0, 0, 1] @ (0x67 # escape 0 sample_bytes) @ [0, 0, 0, 1] @ [0x68, 0xEE, 0x3C, 0x80] @ [0, 0, 0, 1] @ (0x65 # sample_key_rbsp 96) @
      [0, 0, 0, 1, 0x41, 154, 6, 53]"
  have "length ?xs = 145" by (simp add: sample_escaped sample_key_rbsp_def)
  from take_padded [OF this, of 3951 6144 85] have "take 4096 (?xs @ replicate 10095 85) = ?xs @ replicate 3951 85" by (simp only: Num.arith_simps)
  moreover have "sample_file = ?xs @ replicate 10095 85" "annexb sample_start = ?xs @ replicate 3951 85"
    by (simp_all add: sample_file_def sample_parts_def sample_start_def annexb_def code_bytes_def sample_rbsp_def)
  ultimately show ?thesis by (simp only:)
qed

lemma sample_start_units: "sdp_units sample_sps 0x67 sample_bytes [0x68, 0xEE, 0x3C, 0x80] sample_start"
proof -
  have "nal_ok (0x41 # sample_rbsp 3951)" by (rule nal_ok_nonzero) (simp_all add: sample_rbsp_def)
  then have "\<forall>(l, nal) \<in> set sample_start. nal_ok nal" using sample_parts_ok by (simp add: sample_start_def sample_parts_def)
  then show ?thesis
    using sample_sps_ok sample_bytes_bits unfolding sdp_units_def sample_start_def
    by (intro conjI exI [of _ True] exI [of _ "[(True, 0x65 # sample_key_rbsp 96), (True, 0x41 # sample_rbsp 3951)]"]) auto
qed

lemma sample_describable: "describable sample_sps sample_params sample_file"
proof -
  have "name_ok sample_params" by code_simp
  moreover have "sample_params = b64_spec ([0, 0, 1] @ 0x67 # escape 0 sample_bytes) @ '','' @ b64_spec ([0, 0, 1] @ [0x68, 0xEE, 0x3C, 0x80])"
    by code_simp
  ultimately show ?thesis unfolding describable_def using sample_start_file sample_start_units by blast
qed

lemma sample_request_arrives: "arrives DESCRIBE ''10.0.0.1:1000'' ''test'' ''3'' sample_request"
proof -
  have "length sample_request < 1480 \<and> NUL \<notin> set sample_request \<and> find_sub (crlf @ crlf) sample_request \<noteq> None" by code_simp
  moreover have "request_ok DESCRIBE ''10.0.0.1:1000'' ''test'' (LF # ''User-Agent: VLC'' @ [CR]) ''3'' (LF # crlf)"
    by (simp add: request_ok_def request_def)
  ultimately show ?thesis unfolding arrives_def using sample_request_def by blast
qed

lemma sample_host: "name_ok ''10.0.0.1:1000''" "name_ok ''3''"
  by code_simp+

lemma sample_describe_body: "describe_body (GenSessionID 77) sample_sps sample_params = sample_body"
proof -
  have "profile_text sample_sps = ''00004D''" "rect_text sample_sps = ''0,0,720,1280''" by code_simp+
  then show ?thesis by (simp add: describe_body_def sample_body_def sample_params_def GenSessionID_def)
qed

section \<open>Properties\<close>

text \<open>C1. The whole service: \<open>main\<close> describes the file on the disk and starts the server; a client that connects and sends
  \<open>DESCRIBE\<close>, \<open>SETUP\<close> and \<open>PLAY\<close> gets the description of that file and both replies. Then each event that its
  connection can be written brings it one packet with the next of the slices and fragments that the stream
  delivers (\<open>stream_nodes\<close>: those of the blocks of 10240 bytes, the first block twice, cut where blocks end), but for
  the first of them; the event after the last reads outside a buffer. If the client closes before that, no session is left.\<close>

theorem service_run:
  assumes "d media_file = Some dat" and "10240 \<le> length dat" and "length dat \<le> 2 ^ 29" and "describable x params dat" and "playable x dat"
    and "can_create e" and "can_write e" and "event_loop_starts ev l" and "session r < 2 ^ 32"
    and "arrives DESCRIBE host ''test'' seq0 dat0" and "name_ok host" and "name_ok seq0" and "length host < 228"
    and "arrives SETUP host1 path1 seq1 dat1" and "arrives PLAY host2 path2 seq2 dat2"
  shows "\<exists>work g s. tmain e ev l0 n0 d = Inr (0, True, work, g) \<and> listener work = Some l \<and> callbacks work \<and>
    dispatch m e b a [Accepted r i t c, Readable now0 dat0, Readable now1 dat1, Readable now2 dat2] (no_client g) =
      Inr (describe_writes r host seq0 (describe_body (GenSessionID c) x params) @
        [text_bytes (setup_reply (r\<lparr>cseq := seq1\<rparr>)), text_bytes crlf, text_bytes (play_reply (r\<lparr>cseq := seq2\<rparr>)), text_bytes crlf], s) \<and>
    reachable g [c] s \<and>
    (\<forall>clocks. delivers m (tl (media_nodes (stream_nodes dat))) clocks (dispatch m e b a (map Writable clocks) s)) \<and>
    (\<forall>clocks. length clocks < length (media_nodes (stream_nodes dat)) \<longrightarrow>
      (\<exists>out g'. dispatch m e b a (map Writable clocks @ [Closed]) s = Inr (out, no_client g')))"
  using assms by (rule client_served)

definition sample_libevent :: libevent where
  "sample_libevent = \<lparr>event_base_new = Some 1, evconnlistener_new_bind = (\<lambda>base sa. Some (sin_port sa)),
     evsignal_new = (\<lambda>base. Some 2), event_add = 0\<rparr>"

theorem service_run_witness:
  "\<forall>m r i t. \<exists>work g s. let e = \<lparr>env_uninit = m, can_create = True, can_write = True\<rparr>; r = r\<lparr>session := 5\<rparr> in
    tmain e sample_libevent None None [media_file \<mapsto> sample_file] = Inr (0, True, work, g) \<and> listener work = Some 1000 \<and> callbacks work \<and>
    dispatch m e 5 9 [Accepted r i t 77, Readable 0 sample_request, Readable 0 sample_setup, Readable 0 sample_play] (no_client g) =
      Inr (describe_writes r ''10.0.0.1:1000'' ''3'' sample_body @
        [text_bytes (setup_reply (r\<lparr>cseq := ''3''\<rparr>)), text_bytes crlf, text_bytes (play_reply (r\<lparr>cseq := ''4''\<rparr>)), text_bytes crlf], s) \<and>
    reachable g [77] s \<and>
    (\<exists>ps s'. dispatch m e 5 9 (map Writable (replicate 16 (\<lambda>k. 0))) s = Inr (ps, s') \<and> length ps = 16 \<and>
      carried 1 (junk_ssrc m) (tl (media_nodes (stream_nodes sample_file))) ps) \<and>
    dispatch m e 5 9 (map Writable (replicate 17 (\<lambda>k. 0))) s = Inl OutOfBounds \<and>
    (\<exists>out g'. dispatch m e 5 9 (map Writable [] @ [Closed]) s = Inr (out, no_client g'))"
proof (intro allI)
  fix m :: uninit and r :: rtspinfo and i :: SessionInfo and t :: nat
  let ?e = "\<lparr>env_uninit = m, can_create = True, can_write = True\<rparr>" and ?r = "r\<lparr>session := 5\<rparr>"
  have disk: "[media_file \<mapsto> sample_file] media_file = Some sample_file" by simp
  have len: "10240 \<le> length sample_file" "length sample_file \<le> 2 ^ 29" by (simp_all add: sample_file_length)
  have can: "can_create ?e" "can_write ?e" by simp_all
  have ev: "event_loop_starts sample_libevent 1000" by (simp add: event_loop_starts_def sample_libevent_def)
  have small: "session ?r < 2 ^ 32" by simp
  have host: "length ''10.0.0.1:1000'' < 228" by simp
  obtain work g s where p:
    "tmain ?e sample_libevent None None [media_file \<mapsto> sample_file] = Inr (0, True, work, g)" "listener work = Some 1000" "callbacks work"
    "dispatch m ?e 5 9 [Accepted ?r i t 77, Readable 0 sample_request, Readable 0 sample_setup, Readable 0 sample_play] (no_client g) =
      Inr (describe_writes ?r ''10.0.0.1:1000'' ''3'' (describe_body (GenSessionID 77) sample_sps sample_params) @
        [text_bytes (setup_reply (?r\<lparr>cseq := ''3''\<rparr>)), text_bytes crlf, text_bytes (play_reply (?r\<lparr>cseq := ''4''\<rparr>)), text_bytes crlf], s)"
    "reachable g [77] s"
    "\<forall>clocks. delivers m (tl (media_nodes (stream_nodes sample_file))) clocks (dispatch m ?e 5 9 (map Writable clocks) s)"
    "\<forall>clocks. length clocks < length (media_nodes (stream_nodes sample_file)) \<longrightarrow>
      (\<exists>out g'. dispatch m ?e 5 9 (map Writable clocks @ [Closed]) s = Inr (out, no_client g'))"
    using service_run [where d = "[media_file \<mapsto> sample_file]", OF disk len sample_describable sample_playable(1) can ev small
      sample_request_arrives sample_host host sample_arrives, where m = m and b = 5 and a = 9 and i = i and t = t and c = 77 and ?l0.0 = None
      and ?n0.0 = None and ?now0.0 = 0 and ?now1.0 = 0 and ?now2.0 = 0] by blast
  have "length [] < length (media_nodes (stream_nodes sample_file))" by (simp add: sample_playable(2))
  note p(1-5) sample_delivers [OF p(6)] mp [OF spec [OF p(7)] this]
  then
  show "\<exists>work g s. let e = ?e; r = ?r in
    tmain e sample_libevent None None [media_file \<mapsto> sample_file] = Inr (0, True, work, g) \<and> listener work = Some 1000 \<and> callbacks work \<and>
    dispatch m e 5 9 [Accepted r i t 77, Readable 0 sample_request, Readable 0 sample_setup, Readable 0 sample_play] (no_client g) =
      Inr (describe_writes r ''10.0.0.1:1000'' ''3'' sample_body @
        [text_bytes (setup_reply (r\<lparr>cseq := ''3''\<rparr>)), text_bytes crlf, text_bytes (play_reply (r\<lparr>cseq := ''4''\<rparr>)), text_bytes crlf], s) \<and>
    reachable g [77] s \<and>
    (\<exists>ps s'. dispatch m e 5 9 (map Writable (replicate 16 (\<lambda>k. 0))) s = Inr (ps, s') \<and> length ps = 16 \<and>
      carried 1 (junk_ssrc m) (tl (media_nodes (stream_nodes sample_file))) ps) \<and>
    dispatch m e 5 9 (map Writable (replicate 17 (\<lambda>k. 0))) s = Inl OutOfBounds \<and>
    (\<exists>out g'. dispatch m e 5 9 (map Writable [] @ [Closed]) s = Inr (out, no_client g'))"
    unfolding Let_def sample_describe_body by blast
qed

end
