(* ===== verification/RefCount.thy ===== *)
theory RefCount
  imports Prelude "HOL-Library.Multiset"
begin

text \<open>
  Reference counts: the part of \<open>boost::shared_ptr\<close> that the service's \<open>buf_share_ptr\<close>, \<open>h264_stream_ptr\<close> and
  \<open>media_stream_ptr\<close> rest on (\<open>src/smart_ptr/boost/smart_ptr/detail\<close>): the control block with its two counts
  in the Win32 version, the three kinds of control block, \<open>shared_count\<close> and \<open>weak_count\<close>.

  Pointers, deleters and allocators are numbers, a null pointer is \<open>None\<close>. A control block is identified by
  its address; using one that was freed is an access outside every object. What the operations do to the
  managed objects and to the blocks is recorded in order. The service has one thread, so an operation is not
  interrupted, except that the compare-and-exchange loop of \<open>add_ref_lock\<close> is modelled with the interference it
  is written for.
\<close>

section \<open>Control blocks\<close>

text \<open>\<open>sp_counted_impl_p\<close>, \<open>_pd\<close> and \<open>_pda\<close>: pointer, pointer and deleter, and both with an allocator.\<close>

datatype impl = Impl_p "nat option" | Impl_pd "nat option" nat | Impl_pda "nat option" nat nat

datatype effect =
    Deleted nat               \<comment> \<open>\<open>checked_delete\<close> of an object\<close>
  | Called nat "nat option"   \<comment> \<open>a deleter on a pointer\<close>

datatype release_of = Freed nat | Deallocated nat nat

record sp_counted_base =
  use_count :: int        \<comment> \<open>\<open>use_count_\<close>, a \<open>long\<close>: the number of owners\<close>
  weak_count :: int       \<comment> \<open>\<open>weak_count_\<close>: the number of observers, and one more while there are owners\<close>
  block_impl :: impl

record sp_memory =
  blocks :: "nat \<rightharpoonup> sp_counted_base"
  disposed :: "effect list"
  released :: "release_of list"

definition new_counted :: "impl \<Rightarrow> sp_counted_base" where
  "new_counted i = \<lparr>use_count = 1, weak_count = 1, block_impl = i\<rparr>"

text \<open>\<open>checked_delete\<close> of a null pointer does nothing; a deleter is called with it.\<close>

definition checked_delete :: "nat option \<Rightarrow> effect list" where
  "checked_delete p = (case p of None \<Rightarrow> [] | Some x \<Rightarrow> [Deleted x])"

fun dispose :: "impl \<Rightarrow> effect list" where
  "dispose (Impl_p px) = checked_delete px"
| "dispose (Impl_pd ptr del) = [Called del ptr]"
| "dispose (Impl_pda p d a) = [Called d p]"

text \<open>\<open>destroy\<close>: \<open>delete this\<close>, or the block given back to the allocator it came from.\<close>

fun release_by :: "nat \<Rightarrow> impl \<Rightarrow> release_of" where
  "release_by pi (Impl_pda p d a) = Deallocated a pi"
| "release_by pi i = Freed pi"

definition destroy :: "nat \<Rightarrow> impl \<Rightarrow> sp_memory \<Rightarrow> sp_memory" where
  "destroy pi i m = m\<lparr>blocks := (blocks m)(pi := None), released := released m @ [release_by pi i]\<rparr>"

text \<open>\<open>get_deleter\<close> answers the block's deleter when it has the type asked for.\<close>

fun block_get_deleter :: "(nat \<Rightarrow> nat) \<Rightarrow> nat \<Rightarrow> impl \<Rightarrow> nat option" where
  "block_get_deleter typeid ti (Impl_p px) = None"
| "block_get_deleter typeid ti (Impl_pd ptr del) = (if ti = typeid del then Some del else None)"
| "block_get_deleter typeid ti (Impl_pda p d a) = (if ti = typeid d then Some d else None)"

fun block_get_untyped_deleter :: "impl \<Rightarrow> nat option" where
  "block_get_untyped_deleter (Impl_p px) = None"
| "block_get_untyped_deleter (Impl_pd ptr del) = Some del"
| "block_get_untyped_deleter (Impl_pda p d a) = Some d"

section \<open>\<open>sp_counted_base\<close>\<close>

definition at_block :: "nat \<Rightarrow> (sp_counted_base \<Rightarrow> 'a res) \<Rightarrow> sp_memory \<Rightarrow> 'a res" where
  "at_block pi f m = (case blocks m pi of None \<Rightarrow> Inl OutOfBounds | Some b \<Rightarrow> f b)"

definition set_block :: "nat \<Rightarrow> sp_counted_base \<Rightarrow> sp_memory \<Rightarrow> sp_memory" where
  "set_block pi b m = m\<lparr>blocks := (blocks m)(pi \<mapsto> b)\<rparr>"

definition add_ref_copy :: "nat \<Rightarrow> sp_memory \<Rightarrow> sp_memory res" where
  "add_ref_copy pi m = at_block pi (\<lambda>b. Inr (set_block pi (b\<lparr>use_count := s32 (use_count b + 1)\<rparr>) m)) m"

definition weak_add_ref :: "nat \<Rightarrow> sp_memory \<Rightarrow> sp_memory res" where
  "weak_add_ref pi m = at_block pi (\<lambda>b. Inr (set_block pi (b\<lparr>weak_count := s32 (weak_count b + 1)\<rparr>) m)) m"

definition weak_release :: "nat \<Rightarrow> sp_memory \<Rightarrow> sp_memory res" where
  "weak_release pi m = at_block pi (\<lambda>b.
     let b = b\<lparr>weak_count := s32 (weak_count b - 1)\<rparr>; m = set_block pi b m in
     if weak_count b = 0 then Inr (destroy pi (block_impl b) m) else Inr m) m"

definition release :: "nat \<Rightarrow> sp_memory \<Rightarrow> sp_memory res" where
  "release pi m = at_block pi (\<lambda>b.
     let b = b\<lparr>use_count := s32 (use_count b - 1)\<rparr>; m = set_block pi b m in
     if use_count b = 0 then weak_release pi (m\<lparr>disposed := disposed m @ dispose (block_impl b)\<rparr>) else Inr m) m"

definition block_use_count :: "nat \<Rightarrow> sp_memory \<Rightarrow> int res" where
  "block_use_count pi m = at_block pi (\<lambda>b. Inr (use_count b)) m"

text \<open>
  The loop of \<open>add_ref_lock\<close> on the count. \<open>other k\<close> is what other threads make of the count between the read and
  the exchange of round \<open>k\<close>; the answer has the count that the last exchange or read found.
\<close>

partial_function (option) lock_loop :: "(nat \<Rightarrow> int \<Rightarrow> int) \<Rightarrow> nat \<Rightarrow> int \<Rightarrow> (bool \<times> int) option" where
  "lock_loop other k c =
     (let tmp = c in
      if tmp = 0 then Some (False, c)
      else let c = other k c in
        if c = tmp then Some (True, s32 (tmp + 1)) else lock_loop other (k + 1) c)"

definition add_ref_lock :: "nat \<Rightarrow> sp_memory \<Rightarrow> (bool \<times> sp_memory) res" where
  "add_ref_lock pi m = at_block pi (\<lambda>b.
     case lock_loop (\<lambda>k c. c) 0 (use_count b) of
       None \<Rightarrow> Inl NoReturn
     | Some (ok, c) \<Rightarrow> Inr (ok, set_block pi (b\<lparr>use_count := c\<rparr>) m)) m"

section \<open>\<open>shared_count\<close>\<close>

text \<open>
  A count is the address of a block or null. A constructor either answers a count or throws; \<open>mem\<close> is what the
  allocation answers, \<open>None\<close> if it throws, in which case the object is disposed of first.
\<close>

datatype sp_exception = bad_alloc | bad_weak_ptr

type_synonym 'a thrown = "sp_exception + 'a"

definition construct :: "nat option \<Rightarrow> impl \<Rightarrow> effect list \<Rightarrow> sp_memory \<Rightarrow> nat option thrown \<times> sp_memory" where
  "construct mem i undo m =
     (case mem of
        None \<Rightarrow> (Inl bad_alloc, m\<lparr>disposed := disposed m @ undo\<rparr>)
      | Some pi \<Rightarrow> (Inr (Some pi), set_block pi (new_counted i) m))"

definition shared_count_null :: "nat option" where "shared_count_null = None"

definition shared_count_p :: "nat option \<Rightarrow> nat option \<Rightarrow> sp_memory \<Rightarrow> nat option thrown \<times> sp_memory" where
  "shared_count_p mem p m = construct mem (Impl_p p) (checked_delete p) m"

definition shared_count_pd :: "nat option \<Rightarrow> nat option \<Rightarrow> nat \<Rightarrow> sp_memory \<Rightarrow> nat option thrown \<times> sp_memory" where
  "shared_count_pd mem p d m = construct mem (Impl_pd p d) [Called d p] m"

text \<open>
  With an allocator the block is allocated first and constructed in place; \<open>ctor\<close> is what its constructor throws,
  if it does. Then the object is disposed of and the block given back.
\<close>

definition construct_at ::
  "nat option \<Rightarrow> sp_exception option \<Rightarrow> nat \<Rightarrow> impl \<Rightarrow> effect list \<Rightarrow> sp_memory \<Rightarrow> nat option thrown \<times> sp_memory" where
  "construct_at mem ctor a i undo m =
     (case (mem, ctor) of
        (Some pi, Some e) \<Rightarrow> (Inl e, m\<lparr>disposed := disposed m @ undo, released := released m @ [Deallocated a pi]\<rparr>)
      | _ \<Rightarrow> construct mem i undo m)"

definition shared_count_pda ::
  "nat option \<Rightarrow> sp_exception option \<Rightarrow> nat option \<Rightarrow> nat \<Rightarrow> nat \<Rightarrow> sp_memory \<Rightarrow> nat option thrown \<times> sp_memory" where
  "shared_count_pda mem ctor p d a m = construct_at mem ctor a (Impl_pda p d a) [Called d p] m"

text \<open>
  With an in-place tag the deleter is made inside the block, by default (\<open>d\<close>) or from the allocator (\<open>d a\<close>); on
  failure it is the static \<open>operator_fn\<close> of its class that is called.
\<close>

definition shared_count_pd_tag :: "nat option \<Rightarrow> nat option \<Rightarrow> nat \<Rightarrow> nat \<Rightarrow> sp_memory \<Rightarrow> nat option thrown \<times> sp_memory" where
  "shared_count_pd_tag mem p d operator_fn m = construct mem (Impl_pd p d) [Called operator_fn p] m"

definition shared_count_pda_tag ::
  "nat option \<Rightarrow> sp_exception option \<Rightarrow> nat option \<Rightarrow> (nat \<Rightarrow> nat) \<Rightarrow> nat \<Rightarrow> nat \<Rightarrow> sp_memory \<Rightarrow> nat option thrown \<times> sp_memory" where
  "shared_count_pda_tag mem ctor p d operator_fn a m =
     construct_at mem ctor a (Impl_pda p (d a) a) [Called operator_fn p] m"

text \<open>From an \<open>auto_ptr\<close>, which keeps its object when the allocation throws.\<close>

definition shared_count_auto :: "nat option \<Rightarrow> nat option \<Rightarrow> sp_memory \<Rightarrow> nat option thrown \<times> nat option \<times> sp_memory" where
  "shared_count_auto mem r m =
     (case construct mem (Impl_p r) [] m of
        (Inl e, m) \<Rightarrow> (Inl e, r, m)
      | (Inr c, m) \<Rightarrow> (Inr c, None, m))"

definition shared_count_unique :: "nat option \<Rightarrow> nat option \<Rightarrow> nat \<Rightarrow> sp_memory \<Rightarrow> nat option thrown \<times> nat option \<times> sp_memory" where
  "shared_count_unique mem r d m =
     (case construct mem (Impl_pd r d) [] m of
        (Inl e, m) \<Rightarrow> (Inl e, r, m)
      | (Inr c, m) \<Rightarrow> (Inr c, None, m))"

text \<open>An operation on the block when there is one.\<close>

definition when_block :: "(nat \<Rightarrow> sp_memory \<Rightarrow> sp_memory res) \<Rightarrow> nat option \<Rightarrow> sp_memory \<Rightarrow> sp_memory res" where
  "when_block f c m = (case c of None \<Rightarrow> Inr m | Some pi \<Rightarrow> f pi m)"

definition delete_shared_count :: "nat option \<Rightarrow> sp_memory \<Rightarrow> sp_memory res" where
  "delete_shared_count c m = when_block release c m"

definition shared_count_copy :: "nat option \<Rightarrow> sp_memory \<Rightarrow> (nat option \<times> sp_memory) res" where
  "shared_count_copy r m = andThen (when_block add_ref_copy r m) (\<lambda>m. Inr (r, m))"

definition shared_count_move :: "nat option \<Rightarrow> nat option \<times> nat option" where
  "shared_count_move r = (r, None)"

text \<open>Assignment counts the new block up before it counts the old one down, and does neither for the same block.\<close>

definition shared_count_assign :: "nat option \<Rightarrow> nat option \<Rightarrow> sp_memory \<Rightarrow> (nat option \<times> sp_memory) res" where
  "shared_count_assign this r m =
     (let tmp = r in
      if tmp \<noteq> this then
        andThen (when_block add_ref_copy tmp m) (\<lambda>m.
        andThen (when_block release this m) (\<lambda>m. Inr (tmp, m)))
      else Inr (this, m))"

definition shared_count_swap :: "nat option \<Rightarrow> nat option \<Rightarrow> nat option \<times> nat option" where
  "shared_count_swap this r = (let tmp = r; r = this; this = tmp in (this, r))"

definition shared_count_use_count :: "nat option \<Rightarrow> sp_memory \<Rightarrow> int res" where
  "shared_count_use_count c m = (case c of None \<Rightarrow> Inr 0 | Some pi \<Rightarrow> block_use_count pi m)"

definition shared_count_unique_owner :: "nat option \<Rightarrow> sp_memory \<Rightarrow> bool res" where
  "shared_count_unique_owner c m = andThen (shared_count_use_count c m) (\<lambda>n. Inr (n = 1))"

definition shared_count_empty :: "nat option \<Rightarrow> bool" where "shared_count_empty c \<longleftrightarrow> c = None"

text \<open>\<open>std::less\<close> on addresses, the null pointer first.\<close>

definition shared_count_less :: "nat option \<Rightarrow> nat option \<Rightarrow> bool" where
  "shared_count_less a b = (case (a, b) of (None, None) \<Rightarrow> False | (None, Some y) \<Rightarrow> True | (Some x, None) \<Rightarrow> False | (Some x, Some y) \<Rightarrow> x < y)"

definition shared_count_get_deleter :: "(nat \<Rightarrow> nat) \<Rightarrow> nat \<Rightarrow> nat option \<Rightarrow> sp_memory \<Rightarrow> nat option res" where
  "shared_count_get_deleter typeid ti c m =
     (case c of None \<Rightarrow> Inr None | Some pi \<Rightarrow> at_block pi (\<lambda>b. Inr (block_get_deleter typeid ti (block_impl b))) m)"

definition shared_count_get_untyped_deleter :: "nat option \<Rightarrow> sp_memory \<Rightarrow> nat option res" where
  "shared_count_get_untyped_deleter c m =
     (case c of None \<Rightarrow> Inr None | Some pi \<Rightarrow> at_block pi (\<lambda>b. Inr (block_get_untyped_deleter (block_impl b))) m)"

section \<open>\<open>weak_count\<close>\<close>

text \<open>From a \<open>shared_count\<close> or a \<open>weak_count\<close>; the two constructors do the same.\<close>

definition weak_count_copy :: "nat option \<Rightarrow> sp_memory \<Rightarrow> (nat option \<times> sp_memory) res" where
  "weak_count_copy r m = andThen (when_block weak_add_ref r m) (\<lambda>m. Inr (r, m))"

definition delete_weak_count :: "nat option \<Rightarrow> sp_memory \<Rightarrow> sp_memory res" where
  "delete_weak_count c m = when_block weak_release c m"

definition weak_count_assign :: "nat option \<Rightarrow> nat option \<Rightarrow> sp_memory \<Rightarrow> (nat option \<times> sp_memory) res" where
  "weak_count_assign this r m =
     (let tmp = r in
      if tmp \<noteq> this then
        andThen (when_block weak_add_ref tmp m) (\<lambda>m.
        andThen (when_block weak_release this m) (\<lambda>m. Inr (tmp, m)))
      else Inr (this, m))"

text \<open>A \<open>shared_count\<close> from a \<open>weak_count\<close>: throwing, or empty when there are no owners any more.\<close>

definition shared_count_lock :: "nat option \<Rightarrow> sp_memory \<Rightarrow> (nat option thrown \<times> sp_memory) res" where
  "shared_count_lock r m =
     (case r of
        None \<Rightarrow> Inr (Inl bad_weak_ptr, m)
      | Some pi \<Rightarrow> andThen (add_ref_lock pi m) (\<lambda>(ok, m). Inr (if ok then Inr r else Inl bad_weak_ptr, m)))"

definition shared_count_lock_nothrow :: "nat option \<Rightarrow> sp_memory \<Rightarrow> (nat option \<times> sp_memory) res" where
  "shared_count_lock_nothrow r m =
     (case r of
        None \<Rightarrow> Inr (None, m)
      | Some pi \<Rightarrow> andThen (add_ref_lock pi m) (\<lambda>(ok, m). Inr (if ok then r else None, m)))"

end
