(* ===== verification/SharedPtr.thy ===== *)
theory SharedPtr
  imports RefCount
begin

text \<open>
  \<open>boost::shared_ptr\<close> (\<open>src/smart_ptr/boost/smart_ptr/shared_ptr.hpp\<close>) on top of \<open>shared_count\<close>: a pointer \<open>px\<close> and
  a count \<open>pn\<close>. The constructors and observers are functions on values; the assignments and \<open>reset\<close>, which swap a
  temporary into \<open>*this\<close> and destroy it, act on the shared pointers of a program, a list of variables, since the
  two sides of an assignment may be the same variable.

  No class of the service derives from \<open>enable_shared_from_this\<close>, so that hook does nothing. Conversions between
  pointer types are the identity on addresses unless given. The atomic functions are their bodies: one thread
  has nothing to wait for at the spinlock.
\<close>

section \<open>Construction\<close>

record shared_ptr =
  px :: "nat option"
  pn :: "nat option"

text \<open>What the code reads of a \<open>weak_ptr\<close>.\<close>

record weak_ptr =
  wpx :: "nat option"
  wpn :: "nat option"

definition shared_ptr_null :: shared_ptr where
  "shared_ptr_null = \<lparr>px = None, pn = shared_count_null\<rparr>"

text \<open>A shared pointer around a count, unless the count's constructor threw.\<close>

definition with_count :: "nat option \<Rightarrow> nat option thrown \<times> sp_memory \<Rightarrow> shared_ptr thrown \<times> sp_memory" where
  "with_count p r = (case r of (Inl e, m) \<Rightarrow> (Inl e, m) | (Inr c, m) \<Rightarrow> (Inr \<lparr>px = p, pn = c\<rparr>, m))"

text \<open>\<open>shared_count( p ).swap( pn )\<close>: the temporary takes the old count along. For arrays with a deleter.\<close>

definition swap_count ::
  "nat option thrown \<times> sp_memory \<Rightarrow> nat option \<Rightarrow> (nat option thrown \<times> sp_memory) res" where
  "swap_count r c =
     (case r of
        (Inl e, m) \<Rightarrow> Inr (Inl e, m)
      | (Inr tmp, m) \<Rightarrow>
          let (tmp, c) = shared_count_swap tmp c in andThen (delete_shared_count tmp m) (\<lambda>m. Inr (Inr c, m)))"

definition sp_pointer_construct ::
  "nat option \<Rightarrow> nat option \<Rightarrow> nat option \<Rightarrow> sp_memory \<Rightarrow> (nat option thrown \<times> sp_memory) res" where
  "sp_pointer_construct mem p c m = swap_count (shared_count_p mem p m) c"

definition sp_array_construct ::
  "nat \<Rightarrow> nat option \<Rightarrow> nat option \<Rightarrow> nat option \<Rightarrow> sp_memory \<Rightarrow> (nat option thrown \<times> sp_memory) res" where
  "sp_array_construct checked_array_deleter mem p c m = swap_count (shared_count_pd mem p checked_array_deleter m) c"

definition shared_ptr_of :: "nat option \<Rightarrow> nat option \<Rightarrow> sp_memory \<Rightarrow> (shared_ptr thrown \<times> sp_memory) res" where
  "shared_ptr_of mem p m = andThen (sp_pointer_construct mem p shared_count_null m) (\<lambda>r. Inr (with_count p r))"

definition shared_ptr_of_deleter ::
  "nat option \<Rightarrow> nat option \<Rightarrow> nat \<Rightarrow> sp_memory \<Rightarrow> shared_ptr thrown \<times> sp_memory" where
  "shared_ptr_of_deleter mem p d m = with_count p (shared_count_pd mem p d m)"

definition shared_ptr_of_alloc ::
  "nat option \<Rightarrow> sp_exception option \<Rightarrow> nat option \<Rightarrow> nat \<Rightarrow> nat \<Rightarrow> sp_memory \<Rightarrow> shared_ptr thrown \<times> sp_memory" where
  "shared_ptr_of_alloc mem ctor p d a m = with_count p (shared_count_pda mem ctor p d a m)"

definition shared_ptr_copy :: "shared_ptr \<Rightarrow> sp_memory \<Rightarrow> (shared_ptr \<times> sp_memory) res" where
  "shared_ptr_copy r m = andThen (shared_count_copy (pn r) m) (\<lambda>(c, m). Inr (\<lparr>px = px r, pn = c\<rparr>, m))"

text \<open>Aliasing: one object's count with a pointer to another.\<close>

definition shared_ptr_alias :: "shared_ptr \<Rightarrow> nat option \<Rightarrow> sp_memory \<Rightarrow> (shared_ptr \<times> sp_memory) res" where
  "shared_ptr_alias r p m = andThen (shared_count_copy (pn r) m) (\<lambda>(c, m). Inr (\<lparr>px = p, pn = c\<rparr>, m))"

definition shared_ptr_lock :: "weak_ptr \<Rightarrow> sp_memory \<Rightarrow> (shared_ptr thrown \<times> sp_memory) res" where
  "shared_ptr_lock r m = andThen (shared_count_lock (wpn r) m) (\<lambda>c. Inr (with_count (wpx r) c))"

definition shared_ptr_lock_nothrow :: "weak_ptr \<Rightarrow> sp_memory \<Rightarrow> (shared_ptr \<times> sp_memory) res" where
  "shared_ptr_lock_nothrow r m =
     andThen (shared_count_lock_nothrow (wpn r) m) (\<lambda>(c, m).
       Inr (\<lparr>px = if \<not> shared_count_empty c then wpx r else None, pn = c\<rparr>, m))"

text \<open>From an \<open>auto_ptr\<close> or a \<open>unique_ptr\<close>: a temporary count is assigned to \<open>pn\<close> and destroyed.\<close>

definition assign_count ::
  "nat option \<Rightarrow> nat option thrown \<times> nat option \<times> sp_memory \<Rightarrow> (shared_ptr thrown \<times> nat option \<times> sp_memory) res" where
  "assign_count p r =
     (case r of
        (Inl e, r, m) \<Rightarrow> Inr (Inl e, r, m)
      | (Inr tmp, r, m) \<Rightarrow>
          andThen (shared_count_assign shared_count_null tmp m) (\<lambda>(c, m).
          andThen (delete_shared_count tmp m) (\<lambda>m. Inr (Inr \<lparr>px = p, pn = c\<rparr>, r, m))))"

definition shared_ptr_auto ::
  "nat option \<Rightarrow> nat option \<Rightarrow> sp_memory \<Rightarrow> (shared_ptr thrown \<times> nat option \<times> sp_memory) res" where
  "shared_ptr_auto mem r m = assign_count r (shared_count_auto mem r m)"

definition shared_ptr_unique ::
  "nat option \<Rightarrow> nat option \<Rightarrow> nat \<Rightarrow> sp_memory \<Rightarrow> (shared_ptr thrown \<times> nat option \<times> sp_memory) res" where
  "shared_ptr_unique mem r d m = assign_count r (shared_count_unique mem r d m)"

definition shared_ptr_move :: "shared_ptr \<Rightarrow> shared_ptr \<times> shared_ptr" where
  "shared_ptr_move r =
     (let (mine, theirs) = shared_count_swap shared_count_null (pn r) in
      (\<lparr>px = px r, pn = mine\<rparr>, \<lparr>px = None, pn = theirs\<rparr>))"

definition delete_shared_ptr :: "shared_ptr \<Rightarrow> sp_memory \<Rightarrow> sp_memory res" where
  "delete_shared_ptr p m = delete_shared_count (pn p) m"

definition shared_ptr_swap :: "shared_ptr \<Rightarrow> shared_ptr \<Rightarrow> shared_ptr \<times> shared_ptr" where
  "shared_ptr_swap this other =
     (let (c, d) = shared_count_swap (pn this) (pn other) in
      (\<lparr>px = px other, pn = c\<rparr>, \<lparr>px = px this, pn = d\<rparr>))"

section \<open>Observers\<close>

text \<open>Dereferencing asserts a pointer and reads the object behind it, which has to be there.\<close>

definition shared_ptr_star :: "(nat \<rightharpoonup> 'a) \<Rightarrow> shared_ptr \<Rightarrow> 'a res" where
  "shared_ptr_star objects p =
     (case px p of None \<Rightarrow> Inl AssertFailed
      | Some x \<Rightarrow> (case objects x of None \<Rightarrow> Inl OutOfBounds | Some v \<Rightarrow> Inr v))"

definition shared_ptr_arrow :: "shared_ptr \<Rightarrow> nat res" where
  "shared_ptr_arrow p = (case px p of None \<Rightarrow> Inl AssertFailed | Some x \<Rightarrow> Inr x)"

text \<open>An element of an array of \<open>extent\<close> elements, 0 if that is not known.\<close>

definition shared_ptr_index :: "int \<Rightarrow> (nat \<rightharpoonup> 'a list) \<Rightarrow> int \<Rightarrow> shared_ptr \<Rightarrow> 'a res" where
  "shared_ptr_index extent arrays i p =
     (case px p of None \<Rightarrow> Inl AssertFailed
      | Some x \<Rightarrow> andThen (guard (0 \<le> i \<and> (i < extent \<or> extent = 0)) AssertFailed) (\<lambda>_.
          case arrays x of None \<Rightarrow> Inl OutOfBounds
          | Some vs \<Rightarrow> if nat i < length vs then Inr (vs ! nat i) else Inl OutOfBounds))"

definition shared_ptr_get :: "shared_ptr \<Rightarrow> nat option" where
  "shared_ptr_get p = px p"

definition shared_ptr_unique_owner :: "shared_ptr \<Rightarrow> sp_memory \<Rightarrow> bool res" where
  "shared_ptr_unique_owner p m = shared_count_unique_owner (pn p) m"

definition shared_ptr_use_count :: "shared_ptr \<Rightarrow> sp_memory \<Rightarrow> int res" where
  "shared_ptr_use_count p m = shared_count_use_count (pn p) m"

definition shared_ptr_owner_before :: "shared_ptr \<Rightarrow> shared_ptr \<Rightarrow> bool" where
  "shared_ptr_owner_before p r = shared_count_less (pn p) (pn r)"

definition shared_ptr_equiv :: "shared_ptr \<Rightarrow> shared_ptr \<Rightarrow> bool" where
  "shared_ptr_equiv p r \<longleftrightarrow> px p = px r \<and> pn p = pn r"

definition shared_ptr_eq :: "shared_ptr \<Rightarrow> shared_ptr \<Rightarrow> bool" where
  "shared_ptr_eq a b \<longleftrightarrow> shared_ptr_get a = shared_ptr_get b"

definition shared_ptr_is_null :: "shared_ptr \<Rightarrow> bool" where
  "shared_ptr_is_null p \<longleftrightarrow> shared_ptr_get p = None"

definition shared_ptr_less :: "shared_ptr \<Rightarrow> shared_ptr \<Rightarrow> bool" where
  "shared_ptr_less a b = shared_ptr_owner_before a b"

text \<open>Casts: a static, const or reinterpreting one changes the address, a dynamic one may find no object.\<close>

definition pointer_cast :: "(nat \<Rightarrow> nat) \<Rightarrow> shared_ptr \<Rightarrow> sp_memory \<Rightarrow> (shared_ptr \<times> sp_memory) res" where
  "pointer_cast cast r m = shared_ptr_alias r (map_option cast (shared_ptr_get r)) m"

definition dynamic_pointer_cast :: "(nat \<Rightarrow> nat option) \<Rightarrow> shared_ptr \<Rightarrow> sp_memory \<Rightarrow> (shared_ptr \<times> sp_memory) res" where
  "dynamic_pointer_cast cast r m =
     (let p = Option.bind (shared_ptr_get r) cast in
      if p \<noteq> None then shared_ptr_alias r p m else Inr (shared_ptr_null, m))"

definition basic_get_deleter :: "(nat \<Rightarrow> nat) \<Rightarrow> nat \<Rightarrow> shared_ptr \<Rightarrow> sp_memory \<Rightarrow> nat option res" where
  "basic_get_deleter typeid ti p m = shared_count_get_deleter typeid ti (pn p) m"

text \<open>A deleter may be wrapped (\<open>esft2_deleter_wrapper\<close>); \<open>wrapped\<close> are the wrappers' own shared pointers.\<close>

definition get_deleter :: "(nat \<Rightarrow> nat) \<Rightarrow> nat \<Rightarrow> (nat \<Rightarrow> shared_ptr) \<Rightarrow> nat \<Rightarrow> shared_ptr \<Rightarrow> sp_memory \<Rightarrow> nat option res" where
  "get_deleter typeid wrapper wrapped ti p m =
     andThen (basic_get_deleter typeid ti p m) (\<lambda>del.
     if del \<noteq> None then Inr del
     else andThen (basic_get_deleter typeid wrapper p m) (\<lambda>w.
       case w of None \<Rightarrow> Inr None | Some w \<Rightarrow> basic_get_deleter typeid ti (wrapped w) m))"

section \<open>Assignment\<close>

record ptr_state =
  ptrs :: "shared_ptr list"
  counts :: sp_memory

text \<open>\<open>tmp.swap( *this )\<close> and the end of the temporary.\<close>

definition swap_in :: "shared_ptr \<Rightarrow> nat \<Rightarrow> ptr_state \<Rightarrow> ptr_state res" where
  "swap_in tmp i s =
     (let (tmp, this) = shared_ptr_swap tmp (ptrs s ! i) in
      andThen (delete_shared_ptr tmp (counts s)) (\<lambda>m. Inr (s\<lparr>ptrs := (ptrs s)[i := this], counts := m\<rparr>)))"

text \<open>The same with a temporary whose constructor may throw: then \<open>*this\<close> stays as it is.\<close>

definition swap_in_new :: "shared_ptr thrown \<times> sp_memory \<Rightarrow> nat \<Rightarrow> ptr_state \<Rightarrow> (unit thrown \<times> ptr_state) res" where
  "swap_in_new r i s =
     (case r of
        (Inl e, m) \<Rightarrow> Inr (Inl e, s\<lparr>counts := m\<rparr>)
      | (Inr tmp, m) \<Rightarrow> andThen (swap_in tmp i (s\<lparr>counts := m\<rparr>)) (\<lambda>s. Inr (Inr (), s)))"

definition ptr_assign :: "nat \<Rightarrow> nat \<Rightarrow> ptr_state \<Rightarrow> ptr_state res" where
  "ptr_assign i j s =
     andThen (shared_ptr_copy (ptrs s ! j) (counts s)) (\<lambda>(tmp, m). swap_in tmp i (s\<lparr>counts := m\<rparr>))"

definition ptr_assign_auto ::
  "nat option \<Rightarrow> nat \<Rightarrow> nat option \<Rightarrow> ptr_state \<Rightarrow> (unit thrown \<times> nat option \<times> ptr_state) res" where
  "ptr_assign_auto mem i r s =
     andThen (shared_ptr_auto mem r (counts s)) (\<lambda>(tmp, r, m).
     andThen (swap_in_new (tmp, m) i s) (\<lambda>(ok, s). Inr (ok, r, s)))"

definition ptr_assign_unique ::
  "nat option \<Rightarrow> nat \<Rightarrow> nat option \<Rightarrow> nat \<Rightarrow> ptr_state \<Rightarrow> (unit thrown \<times> nat option \<times> ptr_state) res" where
  "ptr_assign_unique mem i r d s =
     andThen (shared_ptr_unique mem r d (counts s)) (\<lambda>(tmp, r, m).
     andThen (swap_in_new (tmp, m) i s) (\<lambda>(ok, s). Inr (ok, r, s)))"

definition ptr_move_assign :: "nat \<Rightarrow> nat \<Rightarrow> ptr_state \<Rightarrow> ptr_state res" where
  "ptr_move_assign i j s =
     (let (tmp, r) = shared_ptr_move (ptrs s ! j) in swap_in tmp i (s\<lparr>ptrs := (ptrs s)[j := r]\<rparr>))"

definition ptr_assign_null :: "nat \<Rightarrow> ptr_state \<Rightarrow> ptr_state res" where
  "ptr_assign_null i s = swap_in shared_ptr_null i s"

definition ptr_reset :: "nat \<Rightarrow> ptr_state \<Rightarrow> ptr_state res" where
  "ptr_reset i s = swap_in shared_ptr_null i s"

definition ptr_reset_to :: "nat option \<Rightarrow> nat \<Rightarrow> nat option \<Rightarrow> ptr_state \<Rightarrow> (unit thrown \<times> ptr_state) res" where
  "ptr_reset_to mem i p s =
     andThen (guard (p = None \<or> p \<noteq> px (ptrs s ! i)) AssertFailed) (\<lambda>_.
     andThen (shared_ptr_of mem p (counts s)) (\<lambda>r. swap_in_new r i s))"

definition ptr_reset_deleter ::
  "nat option \<Rightarrow> nat \<Rightarrow> nat option \<Rightarrow> nat \<Rightarrow> ptr_state \<Rightarrow> (unit thrown \<times> ptr_state) res" where
  "ptr_reset_deleter mem i p d s = swap_in_new (shared_ptr_of_deleter mem p d (counts s)) i s"

definition ptr_reset_alloc ::
  "nat option \<Rightarrow> sp_exception option \<Rightarrow> nat \<Rightarrow> nat option \<Rightarrow> nat \<Rightarrow> nat \<Rightarrow> ptr_state \<Rightarrow> (unit thrown \<times> ptr_state) res" where
  "ptr_reset_alloc mem ctor i p d a s = swap_in_new (shared_ptr_of_alloc mem ctor p d a (counts s)) i s"

definition ptr_reset_alias :: "nat \<Rightarrow> nat \<Rightarrow> nat option \<Rightarrow> ptr_state \<Rightarrow> ptr_state res" where
  "ptr_reset_alias i j p s =
     andThen (shared_ptr_alias (ptrs s ! j) p (counts s)) (\<lambda>(tmp, m). swap_in tmp i (s\<lparr>counts := m\<rparr>))"

definition ptr_swap :: "nat \<Rightarrow> nat \<Rightarrow> ptr_state \<Rightarrow> ptr_state" where
  "ptr_swap i j s =
     (let (this, other) = shared_ptr_swap (ptrs s ! i) (ptrs s ! j) in
      s\<lparr>ptrs := (ptrs s)[j := other, i := this]\<rparr>)"

section \<open>Atomic access\<close>

definition atomic_load :: "nat \<Rightarrow> ptr_state \<Rightarrow> (shared_ptr \<times> sp_memory) res" where
  "atomic_load i s = shared_ptr_copy (ptrs s ! i) (counts s)"

text \<open>The argument \<open>r\<close> is a copy that the function owns and destroys.\<close>

definition atomic_store :: "nat \<Rightarrow> shared_ptr \<Rightarrow> ptr_state \<Rightarrow> ptr_state res" where
  "atomic_store i r s = swap_in r i s"

definition atomic_exchange :: "nat \<Rightarrow> shared_ptr \<Rightarrow> ptr_state \<Rightarrow> shared_ptr \<times> ptr_state" where
  "atomic_exchange i r s =
     (let (this, r) = shared_ptr_swap (ptrs s ! i) r in (r, s\<lparr>ptrs := (ptrs s)[i := this]\<rparr>))"

definition atomic_compare_exchange :: "nat \<Rightarrow> nat \<Rightarrow> shared_ptr \<Rightarrow> ptr_state \<Rightarrow> (bool \<times> ptr_state) res" where
  "atomic_compare_exchange i j w s =
     (if shared_ptr_equiv (ptrs s ! i) (ptrs s ! j)
      then andThen (swap_in w i s) (\<lambda>s. Inr (True, s))
      else andThen (shared_ptr_copy (ptrs s ! i) (counts s)) (\<lambda>(tmp, m).
        andThen (swap_in tmp j (s\<lparr>counts := m\<rparr>)) (\<lambda>s.
        andThen (delete_shared_ptr w (counts s)) (\<lambda>m. Inr (False, s\<lparr>counts := m\<rparr>)))))"

end
