(* ===== verification/Ownership.thy ===== *)
theory Ownership
  imports RefCount
begin

text \<open>
  What the reference counts are for: as long as a block has owners its object is there, when the last one goes
  the object is disposed of, once, and the block itself is released when it has no observers either. The
  owners and observers of a run are multisets of block addresses, one entry for each \<open>shared_count\<close> or
  \<open>weak_count\<close> that holds the address.
\<close>

section \<open>Counts and handles\<close>

definition ok_at :: "sp_memory \<Rightarrow> nat multiset \<Rightarrow> nat multiset \<Rightarrow> nat \<Rightarrow> bool" where
  "ok_at m ow wa pi \<longleftrightarrow>
     (case blocks m pi of
        None \<Rightarrow> pi \<notin># ow \<and> pi \<notin># wa
      | Some b \<Rightarrow> use_count b = int (count ow pi) \<and>
          weak_count b = int (count wa pi) + (if pi \<in># ow then 1 else 0) \<and>
          (pi \<in># ow \<or> pi \<in># wa))"

definition counts_ok :: "sp_memory \<Rightarrow> nat multiset \<Rightarrow> nat multiset \<Rightarrow> bool" where
  "counts_ok m ow wa \<longleftrightarrow> (\<forall>pi. ok_at m ow wa pi)"

text \<open>A process of 4 GB does not hold more handles than a \<open>long\<close> counts.\<close>

definition few :: "nat multiset \<Rightarrow> bool" where
  "few hs \<longleftrightarrow> int (size hs) < 2 ^ 31 - 2"

definition handle :: "nat option \<Rightarrow> nat multiset" where
  "handle c = (case c of None \<Rightarrow> {#} | Some pi \<Rightarrow> {#pi#})"

text \<open>What is disposed of, and what is still to be, when the owners are gone.\<close>

definition due :: "sp_memory \<Rightarrow> nat \<Rightarrow> effect multiset" where
  "due m pi = mset (dispose (block_impl (the (blocks m pi))))"

definition balance :: "sp_memory \<Rightarrow> nat multiset \<Rightarrow> effect multiset" where
  "balance m ow = mset (disposed m) + (\<Sum>pi \<in> set_mset ow. due m pi)"

lemma counts_okI:
  assumes "counts_ok m ow wa" and "\<And>q. q \<noteq> pi \<Longrightarrow> blocks m' q = blocks m q \<and> count ow' q = count ow q \<and> count wa' q = count wa q"
    and "ok_at m' ow' wa' pi"
  shows "counts_ok m' ow' wa'"
  unfolding counts_ok_def
proof
  fix q
  show "ok_at m' ow' wa' q"
  proof (cases "q = pi")
    case False
    have "q \<in># ow' \<longleftrightarrow> q \<in># ow" "q \<in># wa' \<longleftrightarrow> q \<in># wa"
      using assms(2) [OF False] by (simp_all only: count_greater_zero_iff [symmetric])
    moreover have "ok_at m ow wa q" using assms(1) by (simp add: counts_ok_def)
    ultimately show ?thesis using assms(2) [OF False] by (cases "blocks m q") (simp_all add: ok_at_def)
  qed (use assms(3) in simp)
qed

lemma balance_split:
  "balance m ow = mset (disposed m) + (if pi \<in># ow then due m pi else {#}) + (\<Sum>q \<in> set_mset ow - {pi}. due m q)"
  by (simp add: balance_def sum.remove [of "set_mset ow" pi])

lemma balance_eq:
  assumes "\<And>q. q \<noteq> pi \<Longrightarrow> blocks m' q = blocks m q \<and> (q \<in># ow' \<longleftrightarrow> q \<in># ow)"
    and "mset (disposed m') + (if pi \<in># ow' then due m' pi else {#}) = mset (disposed m) + (if pi \<in># ow then due m pi else {#}) + d"
  shows "balance m' ow' = balance m ow + d"
proof -
  have "set_mset ow' - {pi} = set_mset ow - {pi}" using assms(1) by auto
  moreover have "(\<Sum>q \<in> set_mset ow - {pi}. due m' q) = (\<Sum>q \<in> set_mset ow - {pi}. due m q)"
    using assms(1) by (intro sum.cong) (auto simp: due_def)
  ultimately show ?thesis using assms(2) by (simp add: balance_split [of _ _ pi] ac_simps)
qed

lemma count_less: "few hs \<Longrightarrow> int (count hs pi) < 2 ^ 31 - 2"
proof -
  assume "few hs"
  moreover have "count hs pi \<le> size hs" by (rule count_le_size)
  ultimately show ?thesis by (simp add: few_def)
qed

lemma s32_count: "few hs \<Longrightarrow> 0 \<le> k \<Longrightarrow> k \<le> 2 \<Longrightarrow> s32 (int (count hs pi) + k) = int (count hs pi) + k"
  using count_less [of hs pi] by (intro s32_id) auto

lemma s32_0 [simp]: "s32 0 = 0"
  by (simp add: s32_def)

lemma s32_pred: "0 < n \<Longrightarrow> n < 2 ^ 31 \<Longrightarrow> s32 (n - 1) = n - 1"
  by (intro s32_id) auto

section \<open>Each operation\<close>

lemma block_there:
  assumes "counts_ok m ow wa" and "pi \<in># ow + wa"
  obtains b where "blocks m pi = Some b" "use_count b = int (count ow pi)"
    "weak_count b = int (count wa pi) + (if pi \<in># ow then 1 else 0)"
proof -
  have "ok_at m ow wa pi" using assms(1) by (simp add: counts_ok_def)
  moreover have "pi \<in># ow \<or> pi \<in># wa" using assms(2) by auto
  ultimately show ?thesis using that by (cases "blocks m pi") (auto simp: ok_at_def)
qed

lemma construct_owns:
  assumes "counts_ok m ow wa" and "blocks m pi = None"
  shows "\<exists>m'. construct (Some pi) i undo m = (Inr (Some pi), m') \<and> counts_ok m' (ow + {#pi#}) wa \<and>
    balance m' (ow + {#pi#}) = balance m ow + mset (dispose i)"
proof -
  have "ok_at m ow wa pi" using assms(1) by (simp add: counts_ok_def)
  then have none: "pi \<notin># ow" "pi \<notin># wa" using assms(2) by (simp_all add: ok_at_def)
  let ?m = "set_block pi (new_counted i) m"
  have "counts_ok ?m (ow + {#pi#}) wa"
    by (rule counts_okI [OF assms(1), of pi]) (use none in \<open>auto simp: set_block_def ok_at_def new_counted_def not_in_iff\<close>)
  moreover have "balance ?m (ow + {#pi#}) = balance m ow + mset (dispose i)"
    by (rule balance_eq [of pi]) (use none in \<open>auto simp: set_block_def due_def new_counted_def\<close>)
  ultimately show ?thesis by (simp add: construct_def)
qed

lemma add_ref_copy_owns:
  assumes "counts_ok m ow wa" and "pi \<in># ow" and "few ow"
  shows "\<exists>m'. add_ref_copy pi m = Inr m' \<and> counts_ok m' (ow + {#pi#}) wa \<and> balance m' (ow + {#pi#}) = balance m ow"
proof -
  obtain b where b: "blocks m pi = Some b" "use_count b = int (count ow pi)"
      "weak_count b = int (count wa pi) + (if pi \<in># ow then 1 else 0)"
    using block_there [OF assms(1), of pi] assms(2) by auto
  let ?m = "set_block pi (b\<lparr>use_count := int (count ow pi) + 1\<rparr>) m"
  have "counts_ok ?m (ow + {#pi#}) wa"
    by (rule counts_okI [OF assms(1), of pi]) (use b assms(2) in \<open>auto simp: set_block_def ok_at_def\<close>)
  moreover have "balance ?m (ow + {#pi#}) = balance m ow + {#}"
    by (rule balance_eq [of pi]) (use b assms(2) in \<open>auto simp: set_block_def due_def\<close>)
  moreover have "add_ref_copy pi m = Inr ?m"
    using b s32_count [OF assms(3), of 1 pi] by (simp add: add_ref_copy_def at_block_def)
  ultimately show ?thesis by simp
qed

lemma weak_add_ref_watches:
  assumes "counts_ok m ow wa" and "pi \<in># ow + wa" and "few wa"
  shows "\<exists>m'. weak_add_ref pi m = Inr m' \<and> counts_ok m' ow (wa + {#pi#}) \<and> balance m' ow = balance m ow"
proof -
  obtain b where b: "blocks m pi = Some b" "use_count b = int (count ow pi)"
      "weak_count b = int (count wa pi) + (if pi \<in># ow then 1 else 0)"
    using block_there [OF assms(1,2)] .
  let ?m = "set_block pi (b\<lparr>weak_count := weak_count b + 1\<rparr>) m"
  have "s32 (weak_count b + 1) = weak_count b + 1"
    using count_less [OF assms(3), of pi] b(3) by (intro s32_id) auto
  then have "weak_add_ref pi m = Inr ?m" using b by (simp add: weak_add_ref_def at_block_def)
  moreover have "counts_ok ?m ow (wa + {#pi#})"
    by (rule counts_okI [OF assms(1), of pi]) (use b in \<open>auto simp: set_block_def ok_at_def\<close>)
  moreover have "balance ?m ow = balance m ow + {#}"
    by (rule balance_eq [of pi]) (use b in \<open>auto simp: set_block_def due_def\<close>)
  ultimately show ?thesis by simp
qed

lemma count_dec_less:
  assumes "few (hs - {#pi#})" and "pi \<in># hs"
  shows "int (count hs pi) < 2 ^ 31 - 1"
  using count_less [OF assms(1), of pi] assms(2) by simp

lemma weak_release_unwatches:
  assumes "counts_ok m ow wa" and "pi \<in># wa" and "few (wa - {#pi#})"
  shows "\<exists>m'. weak_release pi m = Inr m' \<and> counts_ok m' ow (wa - {#pi#}) \<and> balance m' ow = balance m ow"
proof -
  obtain b where b: "blocks m pi = Some b" "use_count b = int (count ow pi)"
      "weak_count b = int (count wa pi) + (if pi \<in># ow then 1 else 0)"
    using block_there [OF assms(1), of pi] assms(2) by auto
  have pos: "0 < count wa pi" using assms(2) by simp
  then have dec: "s32 (weak_count b - 1) = weak_count b - 1"
    using count_dec_less [OF assms(3,2)] b(3) by (intro s32_pred) auto
  have rest: "count wa pi = 1 \<or> 2 \<le> count wa pi" using pos by linarith
  have gone: "weak_count b = 1 \<Longrightarrow> pi \<notin># ow" using b(3) rest by (auto split: if_splits)
  let ?b = "b\<lparr>weak_count := weak_count b - 1\<rparr>"
  let ?m = "if weak_count b = 1 then destroy pi (block_impl b) (set_block pi ?b m) else set_block pi ?b m"
  have "weak_release pi m = Inr ?m" using b(1) dec by (simp add: weak_release_def at_block_def Let_def)
  moreover have "counts_ok ?m ow (wa - {#pi#})"
    by (rule counts_okI [OF assms(1), of pi])
      (use b rest assms(2) in \<open>auto simp: set_block_def destroy_def ok_at_def in_diff_count\<close>)
  moreover have "balance ?m ow = balance m ow + {#}"
    by (rule balance_eq [of pi]) (use b(1) gone in \<open>auto simp: set_block_def destroy_def due_def\<close>)
  ultimately show ?thesis by simp
qed

lemma release_disowns:
  assumes "counts_ok m ow wa" and "pi \<in># ow" and "few (ow - {#pi#})" and "few wa"
  shows "\<exists>m'. release pi m = Inr m' \<and> counts_ok m' (ow - {#pi#}) wa \<and> balance m' (ow - {#pi#}) = balance m ow"
proof -
  obtain b where b: "blocks m pi = Some b" "use_count b = int (count ow pi)"
      "weak_count b = int (count wa pi) + 1"
    using block_there [OF assms(1), of pi] assms(2) by auto
  have pos: "0 < count ow pi" using assms(2) by simp
  then have dec: "s32 (use_count b - 1) = use_count b - 1" "s32 (weak_count b - 1) = weak_count b - 1"
    using count_dec_less [OF assms(3,2)] count_less [OF assms(4), of pi] b(2,3) by (intro s32_pred; simp)+
  let ?b = "b\<lparr>use_count := use_count b - 1\<rparr>"
  show ?thesis
  proof (cases "count ow pi = 1")
    case False
    then have more: "2 \<le> count ow pi" using pos by linarith
    let ?m = "set_block pi ?b m"
    have "release pi m = Inr ?m" using b(1,2) dec False by (simp add: release_def at_block_def Let_def)
    moreover have "counts_ok ?m (ow - {#pi#}) wa"
      by (rule counts_okI [OF assms(1), of pi]) (use b more in \<open>auto simp: set_block_def ok_at_def in_diff_count\<close>)
    moreover have "pi \<in># ow - {#pi#}" using more by (simp add: in_diff_count)
    then have "balance ?m (ow - {#pi#}) = balance m ow + {#}"
      by (intro balance_eq [of pi]) (use b assms(2) in \<open>auto simp: set_block_def due_def in_diff_count\<close>)
    ultimately show ?thesis by simp
  next
    case True
    let ?m1 = "(set_block pi ?b m)\<lparr>disposed := disposed m @ dispose (block_impl b)\<rparr>"
    have gone: "weak_count b = 1 \<longleftrightarrow> pi \<notin># wa" using b(3) by (simp add: not_in_iff)
    let ?b' = "?b\<lparr>weak_count := weak_count b - 1\<rparr>"
    let ?m = "if weak_count b = 1 then destroy pi (block_impl b) (set_block pi ?b' ?m1) else set_block pi ?b' ?m1"
    have "weak_release pi ?m1 = Inr ?m" using dec by (simp add: weak_release_def at_block_def Let_def set_block_def)
    then have "release pi m = Inr ?m" using b(1,2) dec True by (simp add: release_def at_block_def Let_def set_block_def)
    moreover have "counts_ok ?m (ow - {#pi#}) wa"
      by (rule counts_okI [OF assms(1), of pi])
        (use b True gone in \<open>auto simp: set_block_def destroy_def ok_at_def in_diff_count\<close>)
    moreover have "pi \<notin># ow - {#pi#}" using True by (auto simp: in_diff_count)
    then have "balance ?m (ow - {#pi#}) = balance m ow + {#}"
      by (intro balance_eq [of pi]) (use b assms(2) in \<open>auto simp: set_block_def destroy_def due_def in_diff_count\<close>)
    ultimately show ?thesis by simp
  qed
qed

lemma lock_loop_alone: "lock_loop (\<lambda>k c. c) k c = Some (if c = 0 then (False, 0) else (True, s32 (c + 1)))"
  by (subst lock_loop.simps) simp

lemma add_ref_lock_owns:
  assumes "counts_ok m ow wa" and "pi \<in># ow + wa" and "few ow"
  shows "\<exists>m'. add_ref_lock pi m = Inr (pi \<in># ow, m') \<and>
    counts_ok m' (if pi \<in># ow then ow + {#pi#} else ow) wa \<and> balance m' (if pi \<in># ow then ow + {#pi#} else ow) = balance m ow"
proof -
  obtain b where b: "blocks m pi = Some b" "use_count b = int (count ow pi)"
      "weak_count b = int (count wa pi) + (if pi \<in># ow then 1 else 0)"
    using block_there [OF assms(1,2)] .
  show ?thesis
  proof (cases "pi \<in># ow")
    case True
    then have "use_count b \<noteq> 0" using b(2) by simp
    then have "add_ref_lock pi m = Inr (True, set_block pi (b\<lparr>use_count := s32 (use_count b + 1)\<rparr>) m)"
      using b(1) by (simp add: add_ref_lock_def at_block_def lock_loop_alone)
    moreover have "add_ref_copy pi m = Inr (set_block pi (b\<lparr>use_count := s32 (use_count b + 1)\<rparr>) m)"
      using b(1) by (simp add: add_ref_copy_def at_block_def)
    ultimately show ?thesis using add_ref_copy_owns [OF assms(1) True assms(3)] True by simp
  next
    case False
    then have "use_count b = 0" using b(2) by (simp add: not_in_iff)
    then have "add_ref_lock pi m = Inr (False, m)"
      using b(1) by (simp add: add_ref_lock_def at_block_def lock_loop_alone set_block_def fun_upd_idem)
    then show ?thesis using assms(1) False by simp
  qed
qed

section \<open>Runs\<close>

text \<open>
  A run of the program on its counts: which operation is applied to which handles, with the multisets it leaves
  and what was entrusted to counts so far. A new block has an address that is not in use.
\<close>

record sp_state =
  memory :: sp_memory
  owners :: "nat multiset"
  watchers :: "nat multiset"
  entrusted :: "effect multiset"

definition roomy :: "sp_state \<Rightarrow> bool" where
  "roomy s \<longleftrightarrow> few (owners s) \<and> few (watchers s)"

datatype sp_call =
    Construct "nat option" impl
  | Copy "nat option"
  | Assign "nat option" "nat option"
  | Delete "nat option"
  | Watch "nat option"
  | WatchAssign "nat option" "nat option"
  | Unwatch "nat option"
  | Lock "nat option"

text \<open>The operation, by the function of the code that does it.\<close>

fun sp_exec :: "sp_call \<Rightarrow> sp_state \<Rightarrow> sp_state res" where
  "sp_exec (Construct mem i) s =
     (let (r, m) = construct mem i (dispose i) (memory s) in
      Inr (s\<lparr>memory := m, owners := (case r of Inl e \<Rightarrow> owners s | Inr c \<Rightarrow> owners s + handle c), entrusted := entrusted s + mset (dispose i)\<rparr>))"
| "sp_exec (Copy r) s =
     andThen (shared_count_copy r (memory s)) (\<lambda>(c, m). Inr (s\<lparr>memory := m, owners := owners s + handle c\<rparr>))"
| "sp_exec (Assign this r) s =
     andThen (shared_count_assign this r (memory s)) (\<lambda>(c, m). Inr (s\<lparr>memory := m, owners := owners s - handle this + handle c\<rparr>))"
| "sp_exec (Delete c) s =
     andThen (delete_shared_count c (memory s)) (\<lambda>m. Inr (s\<lparr>memory := m, owners := owners s - handle c\<rparr>))"
| "sp_exec (Watch r) s =
     andThen (weak_count_copy r (memory s)) (\<lambda>(c, m). Inr (s\<lparr>memory := m, watchers := watchers s + handle c\<rparr>))"
| "sp_exec (WatchAssign this r) s =
     andThen (weak_count_assign this r (memory s)) (\<lambda>(c, m). Inr (s\<lparr>memory := m, watchers := watchers s - handle this + handle c\<rparr>))"
| "sp_exec (Unwatch c) s =
     andThen (delete_weak_count c (memory s)) (\<lambda>m. Inr (s\<lparr>memory := m, watchers := watchers s - handle c\<rparr>))"
| "sp_exec (Lock r) s =
     andThen (shared_count_lock_nothrow r (memory s)) (\<lambda>(c, m). Inr (s\<lparr>memory := m, owners := owners s + handle c\<rparr>))"

text \<open>A call on handles the program has.\<close>

fun sp_allowed :: "sp_call \<Rightarrow> sp_state \<Rightarrow> bool" where
  "sp_allowed (Construct mem i) s = (\<forall>pi. mem = Some pi \<longrightarrow> blocks (memory s) pi = None)"
| "sp_allowed (Copy r) s = (handle r \<subseteq># owners s)"
| "sp_allowed (Assign this r) s = (handle this \<subseteq># owners s \<and> handle r \<subseteq># owners s)"
| "sp_allowed (Delete c) s = (handle c \<subseteq># owners s)"
| "sp_allowed (Watch r) s = (handle r \<subseteq># owners s + watchers s)"
| "sp_allowed (WatchAssign this r) s = (handle this \<subseteq># watchers s \<and> handle r \<subseteq># owners s + watchers s)"
| "sp_allowed (Unwatch c) s = (handle c \<subseteq># watchers s)"
| "sp_allowed (Lock r) s = (handle r \<subseteq># watchers s)"

inductive sp_run :: "sp_state \<Rightarrow> bool" where
  sp_start: "sp_run \<lparr>memory = \<lparr>blocks = Map.empty, disposed = [], released = []\<rparr>, owners = {#}, watchers = {#}, entrusted = {#}\<rparr>"
| sp_call: "sp_run s \<Longrightarrow> sp_allowed c s \<Longrightarrow> roomy s \<Longrightarrow> sp_exec c s = Inr s' \<Longrightarrow> sp_run s'"

definition sp_ok :: "sp_state \<Rightarrow> bool" where
  "sp_ok s \<longleftrightarrow> counts_ok (memory s) (owners s) (watchers s) \<and> balance (memory s) (owners s) = entrusted s"

lemma handle_simps [simp]: "handle None = {#}" "handle (Some pi) = {#pi#}"
  by (simp_all add: handle_def)

lemma few_sub: "few hs \<Longrightarrow> few (hs - x)"
  using size_mset_mono [of "hs - x" hs] by (simp add: few_def)

text \<open>The operations on a handle, null or not.\<close>

lemma copy_handle:
  assumes "counts_ok m ow wa" and "handle r \<subseteq># ow" and "few ow"
  shows "\<exists>m'. when_block add_ref_copy r m = Inr m' \<and> counts_ok m' (ow + handle r) wa \<and> balance m' (ow + handle r) = balance m ow"
  using assms add_ref_copy_owns [OF assms(1) _ assms(3)] by (cases r) (simp_all add: when_block_def)

lemma release_handle:
  assumes "counts_ok m ow wa" and "handle r \<subseteq># ow" and "few (ow - handle r)" and "few wa"
  shows "\<exists>m'. when_block release r m = Inr m' \<and> counts_ok m' (ow - handle r) wa \<and> balance m' (ow - handle r) = balance m ow"
  using assms release_disowns [OF assms(1) _ _ assms(4)] by (cases r) (simp_all add: when_block_def)

lemma watch_handle:
  assumes "counts_ok m ow wa" and "handle r \<subseteq># ow + wa" and "few wa"
  shows "\<exists>m'. when_block weak_add_ref r m = Inr m' \<and> counts_ok m' ow (wa + handle r) \<and> balance m' ow = balance m ow"
  using assms weak_add_ref_watches [OF assms(1) _ assms(3)] by (cases r) (simp_all add: when_block_def)

lemma unwatch_handle:
  assumes "counts_ok m ow wa" and "handle r \<subseteq># wa" and "few (wa - handle r)"
  shows "\<exists>m'. when_block weak_release r m = Inr m' \<and> counts_ok m' ow (wa - handle r) \<and> balance m' ow = balance m ow"
  using assms weak_release_unwatches [OF assms(1)] by (cases r) (simp_all add: when_block_def)

lemma handle_diff: "handle this \<subseteq># hs \<Longrightarrow> hs + handle r - handle this = hs - handle this + handle r"
  by (simp add: subset_mset.add_diff_assoc2)

lemma few_replaced: "few hs \<Longrightarrow> handle this \<subseteq># hs \<Longrightarrow> this \<noteq> None \<Longrightarrow> few (hs + handle r - handle this)"
  by (cases this; cases r) (auto simp: few_def handle_diff size_Diff_singleton dest: size_mset_mono multi_member_split)

lemma assign_handle:
  assumes "counts_ok m ow wa" and "handle this \<subseteq># ow" and "handle r \<subseteq># ow" and "few ow" and "few wa"
  shows "\<exists>m'. shared_count_assign this r m = Inr (r, m') \<and> counts_ok m' (ow - handle this + handle r) wa \<and>
    balance m' (ow - handle this + handle r) = balance m ow"
proof (cases "r = this")
  case True
  then show ?thesis using assms(1,2) by (simp add: shared_count_assign_def)
next
  case False
  obtain m1 where m1: "when_block add_ref_copy r m = Inr m1" "counts_ok m1 (ow + handle r) wa" "balance m1 (ow + handle r) = balance m ow"
    using copy_handle [OF assms(1,3,4)] by blast
  have sub: "handle this \<subseteq># ow + handle r" using assms(2) by (rule subset_mset.add_increasing2 [rotated]) simp
  have "\<exists>m2. when_block release this m1 = Inr m2 \<and> counts_ok m2 (ow + handle r - handle this) wa \<and>
      balance m2 (ow + handle r - handle this) = balance m1 (ow + handle r)"
  proof (cases this)
    case None
    then show ?thesis using m1(2) by (simp add: when_block_def)
  next
    case (Some pi)
    show ?thesis by (rule release_handle [OF m1(2) sub few_replaced [OF assms(4,2)] assms(5)]) (simp add: Some)
  qed
  then show ?thesis using m1(1,3) False handle_diff [OF assms(2)] by (auto simp: shared_count_assign_def Let_def)
qed

lemma weak_assign_handle:
  assumes "counts_ok m ow wa" and "handle this \<subseteq># wa" and "handle r \<subseteq># ow + wa" and "few wa"
  shows "\<exists>m'. weak_count_assign this r m = Inr (r, m') \<and> counts_ok m' ow (wa - handle this + handle r) \<and>
    balance m' ow = balance m ow"
proof (cases "r = this")
  case True
  then show ?thesis using assms(1,2) by (simp add: weak_count_assign_def)
next
  case False
  obtain m1 where m1: "when_block weak_add_ref r m = Inr m1" "counts_ok m1 ow (wa + handle r)" "balance m1 ow = balance m ow"
    using watch_handle [OF assms(1,3,4)] by blast
  have sub: "handle this \<subseteq># wa + handle r" using assms(2) by (rule subset_mset.add_increasing2 [rotated]) simp
  have "\<exists>m2. when_block weak_release this m1 = Inr m2 \<and> counts_ok m2 ow (wa + handle r - handle this) \<and> balance m2 ow = balance m1 ow"
  proof (cases this)
    case None
    then show ?thesis using m1(2) by (simp add: when_block_def)
  next
    case (Some pi)
    show ?thesis by (rule unwatch_handle [OF m1(2) sub few_replaced [OF assms(4,2)]]) (simp add: Some)
  qed
  then show ?thesis using m1(1,3) False handle_diff [OF assms(2)] by (auto simp: weak_count_assign_def Let_def)
qed

lemma lock_handle:
  assumes "counts_ok m ow wa" and "handle r \<subseteq># wa" and "few ow"
  shows "\<exists>c m'. shared_count_lock_nothrow r m = Inr (c, m') \<and> counts_ok m' (ow + handle c) wa \<and> balance m' (ow + handle c) = balance m ow"
proof (cases r)
  case None
  then show ?thesis using assms(1) by (simp add: shared_count_lock_nothrow_def)
next
  case (Some pi)
  then have "pi \<in># ow + wa" using assms(2) by simp
  from add_ref_lock_owns [OF assms(1) this assms(3)] obtain m' where
    "add_ref_lock pi m = Inr (pi \<in># ow, m')" "counts_ok m' (if pi \<in># ow then ow + {#pi#} else ow) wa"
      "balance m' (if pi \<in># ow then ow + {#pi#} else ow) = balance m ow" by blast
  then show ?thesis using Some
    by (intro exI [of _ "if pi \<in># ow then r else None"] exI [of _ m']) (auto simp: shared_count_lock_nothrow_def)
qed

lemma construct_handle:
  assumes "counts_ok m ow wa" and "\<forall>pi. mem = Some pi \<longrightarrow> blocks m pi = None"
  shows "\<exists>r m'. construct mem i (dispose i) m = (r, m') \<and>
    counts_ok m' (case r of Inl e \<Rightarrow> ow | Inr c \<Rightarrow> ow + handle c) wa \<and>
    balance m' (case r of Inl e \<Rightarrow> ow | Inr c \<Rightarrow> ow + handle c) = balance m ow + mset (dispose i)"
proof (cases mem)
  case None
  have "ok_at (m\<lparr>disposed := disposed m @ dispose i\<rparr>) ow wa = ok_at m ow wa" by (simp add: ok_at_def fun_eq_iff)
  then have "counts_ok (m\<lparr>disposed := disposed m @ dispose i\<rparr>) ow wa" using assms(1) by (simp add: counts_ok_def)
  then show ?thesis using None by (simp add: construct_def balance_def due_def)
next
  case (Some pi)
  then show ?thesis using construct_owns [OF assms(1), of pi i "dispose i"] assms(2) by auto
qed

lemma sp_step_ok:
  assumes "sp_ok s" and "sp_allowed c s" and "roomy s"
  shows "\<exists>s'. sp_exec c s = Inr s' \<and> sp_ok s'"
proof -
  have ok: "counts_ok (memory s) (owners s) (watchers s)" "balance (memory s) (owners s) = entrusted s"
    using assms(1) by (simp_all add: sp_ok_def)
  have few: "few (owners s)" "few (watchers s)" using assms(3) by (simp_all add: roomy_def)
  note ops = construct_handle [OF ok(1)] copy_handle [OF ok(1) _ few(1)] release_handle [OF ok(1) _ few_sub [OF few(1)] few(2)]
    watch_handle [OF ok(1) _ few(2)] unwatch_handle [OF ok(1) _ few_sub [OF few(2)]] assign_handle [OF ok(1) _ _ few]
    weak_assign_handle [OF ok(1) _ _ few(2)] lock_handle [OF ok(1) _ few(1)]
  show ?thesis
  proof (cases c)
    case (Construct mem i)
    then show ?thesis using assms(2) ops(1) [of mem i] ok(2) by (auto simp: sp_ok_def)
  next
    case (Copy r)
    then show ?thesis using assms(2) ops(2) [of r] ok(2) by (auto simp: sp_ok_def shared_count_copy_def)
  next
    case (Assign this r)
    then show ?thesis using assms(2) ops(6) [of this r] ok(2) by (auto simp: sp_ok_def)
  next
    case (Delete r)
    then show ?thesis using assms(2) ops(3) [of r] ok(2) by (auto simp: sp_ok_def delete_shared_count_def)
  next
    case (Watch r)
    then show ?thesis using assms(2) ops(4) [of r] ok(2) by (auto simp: sp_ok_def weak_count_copy_def)
  next
    case (WatchAssign this r)
    then show ?thesis using assms(2) ops(7) [of this r] ok(2) by (auto simp: sp_ok_def)
  next
    case (Unwatch r)
    then show ?thesis using assms(2) ops(5) [of r] ok(2) by (auto simp: sp_ok_def delete_weak_count_def)
  next
    case (Lock r)
    then show ?thesis using assms(2) ops(8) [of r] ok(2) by (auto simp: sp_ok_def)
  qed
qed

lemma sp_run_ok: "sp_run s \<Longrightarrow> sp_ok s"
proof (induction rule: sp_run.induct)
  case sp_start
  then show ?case by (simp add: sp_ok_def counts_ok_def ok_at_def balance_def)
next
  case (sp_call s c s')
  then show ?case using sp_step_ok [of s c] by auto
qed

section \<open>What a run leaves\<close>

lemma run_blocks:
  assumes "sp_run s"
  shows "blocks (memory s) pi = None \<longleftrightarrow> pi \<notin># owners s \<and> pi \<notin># watchers s"
    and "blocks (memory s) pi = Some b \<Longrightarrow> use_count b = int (count (owners s) pi)"
proof -
  have "ok_at (memory s) (owners s) (watchers s) pi" using sp_run_ok [OF assms] by (simp add: sp_ok_def counts_ok_def)
  then show "blocks (memory s) pi = None \<longleftrightarrow> pi \<notin># owners s \<and> pi \<notin># watchers s"
    and "blocks (memory s) pi = Some b \<Longrightarrow> use_count b = int (count (owners s) pi)"
    by (auto simp: ok_at_def split: option.splits)
qed

lemma run_balance:
  assumes "sp_run s"
  shows "entrusted s = mset (disposed (memory s)) + (\<Sum>pi \<in> set_mset (owners s). mset (dispose (block_impl (the (blocks (memory s) pi)))))"
  using sp_run_ok [OF assms] by (simp add: sp_ok_def balance_def due_def)

lemma run_alive:
  assumes "sp_run s" and "pi \<in># owners s" and "blocks (memory s) pi = Some b" and "x \<in> set (dispose (block_impl b))"
    and "count (entrusted s) x = 1"
  shows "x \<notin> set (disposed (memory s))"
proof -
  let ?d = "\<lambda>q. mset (dispose (block_impl (the (blocks (memory s) q))))"
  have "(\<Sum>q \<in> set_mset (owners s). ?d q) = ?d pi + (\<Sum>q \<in> set_mset (owners s) - {pi}. ?d q)"
    using assms(2) by (intro sum.remove) simp_all
  then have "count (entrusted s) x = count (mset (disposed (memory s))) x + (count (?d pi) x + count (\<Sum>q \<in> set_mset (owners s) - {pi}. ?d q) x)"
    using run_balance [OF assms(1)] by simp
  moreover have "0 < count (?d pi) x" using assms(3,4) by (simp add: count_greater_zero_iff)
  ultimately have "count (mset (disposed (memory s))) x = 0" using assms(5) by linarith
  then show ?thesis by simp
qed

section \<open>A sample run\<close>

text \<open>One object, two owners that come and go.\<close>

definition sp_empty :: sp_state where
  "sp_empty = \<lparr>memory = \<lparr>blocks = Map.empty, disposed = [], released = []\<rparr>, owners = {#}, watchers = {#}, entrusted = {#}\<rparr>"

definition sp_one :: "int \<Rightarrow> nat multiset \<Rightarrow> sp_state" where
  "sp_one n ow = \<lparr>memory = \<lparr>blocks = [1 \<mapsto> \<lparr>use_count = n, weak_count = 1, block_impl = Impl_p (Some 7)\<rparr>], disposed = [], released = []\<rparr>,
     owners = ow, watchers = {#}, entrusted = {#Deleted 7#}\<rparr>"

definition sp_end :: sp_state where
  "sp_end = \<lparr>memory = \<lparr>blocks = Map.empty, disposed = [Deleted 7], released = [Freed 1]\<rparr>, owners = {#}, watchers = {#}, entrusted = {#Deleted 7#}\<rparr>"

lemma sample_calls:
  "sp_exec (Construct (Some 1) (Impl_p (Some 7))) sp_empty = Inr (sp_one 1 {#1#})"
  "sp_exec (Copy (Some 1)) (sp_one 1 {#1#}) = Inr (sp_one 2 {#1, 1#})"
  "sp_exec (Delete (Some 1)) (sp_one 2 {#1, 1#}) = Inr (sp_one 1 {#1#})"
  "sp_exec (Delete (Some 1)) (sp_one 1 {#1#}) = Inr sp_end"
  by (simp_all add: sp_empty_def sp_one_def sp_end_def construct_def set_block_def new_counted_def checked_delete_def
      shared_count_copy_def delete_shared_count_def when_block_def add_ref_copy_def release_def weak_release_def destroy_def
      at_block_def Let_def s32_def)

lemma sample_run: "sp_run sp_empty" "sp_run (sp_one 1 {#1#})" "sp_run (sp_one 2 {#1, 1#})" "sp_run sp_end"
proof -
  have room: "roomy sp_empty" "roomy (sp_one 1 {#1#})" "roomy (sp_one 2 {#1, 1#})"
    by (simp_all add: roomy_def few_def sp_empty_def sp_one_def)
  show r0: "sp_run sp_empty" unfolding sp_empty_def by (rule sp_start)
  have "sp_allowed (Construct (Some 1) (Impl_p (Some 7))) sp_empty" by (simp add: sp_empty_def)
  from sp_call [OF r0 this room(1) sample_calls(1)] show r1: "sp_run (sp_one 1 {#1#})" .
  have "sp_allowed (Copy (Some 1)) (sp_one 1 {#1#})" by (simp add: sp_one_def)
  from sp_call [OF r1 this room(2) sample_calls(2)] show "sp_run (sp_one 2 {#1, 1#})" .
  have "sp_allowed (Delete (Some 1)) (sp_one 1 {#1#})" by (simp add: sp_one_def)
  from sp_call [OF r1 this room(2) sample_calls(4)] show "sp_run sp_end" .
qed

section \<open>Properties\<close>

text \<open>No run of allowed calls goes wrong: each finds its block (nothing is used after it was freed, nothing freed
  twice, the lock loop ends) and a run can go on with any other allowed call.\<close>

theorem counts_never_fail:
  assumes "sp_run s" and "sp_allowed c s" and "roomy s"
  shows "\<exists>s'. sp_exec c s = Inr s' \<and> sp_run s'"
  using sp_step_ok [OF sp_run_ok [OF assms(1)] assms(2,3)] sp_call [OF assms] by blast

theorem counts_never_fail_witness:
  "\<exists>s'. sp_exec (Delete (Some 1)) (sp_one 2 {#1, 1#}) = Inr s' \<and> sp_run s'"
  by (rule counts_never_fail [OF sample_run(3)]) (simp_all add: sp_one_def roomy_def few_def)

text \<open>C4. In every run a control block exists exactly while it has owners or observers, \<open>use_count\<close> is the number of
  owners, and of all objects entrusted to counts each is disposed of once, those whose block has an owner not
  yet and all others already. So without owners everything has been disposed of, and without handles no block
  is left.\<close>

theorem disposed_exactly_once:
  assumes "sp_run s"
  shows "(\<forall>pi. blocks (memory s) pi = None \<longleftrightarrow> pi \<notin># owners s \<and> pi \<notin># watchers s) \<and>
    (\<forall>pi b. blocks (memory s) pi = Some b \<longrightarrow> use_count b = int (count (owners s) pi)) \<and>
    entrusted s = mset (disposed (memory s)) +
      (\<Sum>pi \<in> set_mset (owners s). mset (dispose (block_impl (the (blocks (memory s) pi)))))"
  using run_blocks [OF assms] run_balance [OF assms] by blast

theorem disposed_exactly_once_witness:
  "blocks (memory sp_end) 1 = None \<and> entrusted sp_end = mset [Deleted 7]"
  using disposed_exactly_once [OF sample_run(4)] by (simp add: sp_end_def)

text \<open>An object that was given to one count only is not disposed of while its block has an owner: a shared pointer
  to it does not dangle.\<close>

theorem owned_object_alive:
  assumes "sp_run s" and "pi \<in># owners s" and "blocks (memory s) pi = Some b" and "x \<in> set (dispose (block_impl b))"
    and "count (entrusted s) x = 1"
  shows "x \<notin> set (disposed (memory s))"
  by (rule run_alive [OF assms])

theorem owned_object_alive_witness: "Deleted 7 \<notin> set (disposed (memory (sp_one 2 {#1, 1#})))"
  by (rule owned_object_alive [OF sample_run(3), of 1 "\<lparr>use_count = 2, weak_count = 1, block_impl = Impl_p (Some 7)\<rparr>"])
    (simp_all add: sp_one_def checked_delete_def)

end
