(* ===== verification/PtrProgram.thy ===== *)
theory PtrProgram
  imports SharedPtr Ownership
begin

text \<open>
  Programs over shared pointers: a fixed number of variables that are constructed, copied, assigned, moved,
  swapped, reset and destroyed, in any order and on any variables, the two sides of an assignment possibly
  the same. Every such program is, count for count, a run of \<open>sp_run\<close>; so what was shown there holds of the
  shared pointers that the service's buffers and streams are handled with.
\<close>

section \<open>The counts of a list of pointers\<close>

definition holds :: "shared_ptr list \<Rightarrow> nat multiset" where
  "holds ps = (\<Sum>p\<leftarrow>ps. handle (pn p))"

lemma holds_simps [simp]: "holds [] = {#}" "holds (p # ps) = handle (pn p) + holds ps"
  by (simp_all add: holds_def)

lemma holds_update: "i < length ps \<Longrightarrow> holds (ps[i := p]) + handle (pn (ps ! i)) = holds ps + handle (pn p)"
  by (induction ps arbitrary: i) (auto simp: ac_simps split: nat.splits)

lemma holds_nth: "i < length ps \<Longrightarrow> handle (pn (ps ! i)) \<subseteq># holds ps"
  by (induction ps arbitrary: i) (auto simp: subset_mset.add_increasing subset_mset.add_increasing2 nth_Cons split: nat.splits)

lemma holds_mset:
  assumes "mset ps = mset qs"
  shows "holds ps = holds qs"
proof -
  have "holds rs = \<Sum>\<^sub># (image_mset (\<lambda>p. handle (pn p)) (mset rs))" for rs by (induction rs) simp_all
  then show ?thesis using assms by simp
qed

lemma size_handle: "size (handle c) \<le> 1"
  by (cases c) simp_all

lemma size_holds: "size (holds ps) \<le> length ps"
proof (induction ps)
  case (Cons p ps)
  then show ?case using size_handle [of "pn p"] by simp
qed simp

lemma count_holds: "count (holds ps) pi = length (filter (\<lambda>p. pn p = Some pi) ps)"
proof (induction ps)
  case (Cons p ps)
  then show ?case by (cases "pn p") auto
qed simp

section \<open>Blocks that stay\<close>

text \<open>Every block that is left was there before with the same implementation.\<close>

definition shrinks :: "sp_memory \<Rightarrow> sp_memory \<Rightarrow> bool" where
  "shrinks m m' \<longleftrightarrow> (\<forall>pi b'. blocks m' pi = Some b' \<longrightarrow> (\<exists>b. blocks m pi = Some b \<and> block_impl b = block_impl b'))"

lemma shrinks_refl [simp]: "shrinks m m"
  by (simp add: shrinks_def)

lemma shrinks_trans: "shrinks m m' \<Longrightarrow> shrinks m' m'' \<Longrightarrow> shrinks m m''"
  unfolding shrinks_def by metis

lemma shrinks_set: "blocks m pi = Some b \<Longrightarrow> block_impl b' = block_impl b \<Longrightarrow> blocks m = blocks m1 \<Longrightarrow> shrinks m (set_block pi b' m1)"
  by (auto simp: shrinks_def set_block_def)

lemma add_ref_copy_shrinks: "add_ref_copy pi m = Inr m' \<Longrightarrow> shrinks m m'"
  by (auto simp: add_ref_copy_def at_block_def shrinks_def set_block_def split: option.splits if_splits)

lemma weak_release_shrinks: "weak_release pi m = Inr m' \<Longrightarrow> shrinks m m'"
  by (auto simp: weak_release_def at_block_def Let_def shrinks_def set_block_def destroy_def split: option.splits if_splits)

lemma shrinks_dispose: "shrinks (m\<lparr>disposed := d\<rparr>) m' = shrinks m m'"
  by (simp add: shrinks_def)

lemma release_shrinks: "release pi m = Inr m' \<Longrightarrow> shrinks m m'"
proof -
  assume r: "release pi m = Inr m'"
  then obtain b where b: "blocks m pi = Some b" by (auto simp: release_def at_block_def split: option.splits)
  let ?b = "b\<lparr>use_count := s32 (use_count b - 1)\<rparr>"
  have set: "shrinks m (set_block pi ?b m)" using b by (intro shrinks_set) simp_all
  show ?thesis
  proof (cases "use_count ?b = 0")
    case True
    then have "weak_release pi ((set_block pi ?b m)\<lparr>disposed := disposed m @ dispose (block_impl b)\<rparr>) = Inr m'"
      using r b by (simp add: release_def at_block_def Let_def set_block_def)
    from weak_release_shrinks [OF this] set show ?thesis by (auto simp: shrinks_dispose intro: shrinks_trans)
  next
    case False
    then show ?thesis using r b set by (simp add: release_def at_block_def Let_def)
  qed
qed

lemma copy_shrinks: "shared_count_copy r m = Inr (c, m') \<Longrightarrow> shrinks m m'"
  by (cases r) (auto simp: shared_count_copy_def when_block_def andThen_Inr_iff add_ref_copy_shrinks)

lemma delete_shrinks: "delete_shared_count c m = Inr m' \<Longrightarrow> shrinks m m'"
  by (cases c) (auto simp: delete_shared_count_def when_block_def release_shrinks)

lemma construct_blocks:
  assumes "construct mem i undo m = (r, m')" and "\<forall>pi. mem = Some pi \<longrightarrow> blocks m pi = None"
  shows "(\<exists>e. r = Inl e \<and> blocks m' = blocks m) \<or>
    (\<exists>pi. r = Inr (Some pi) \<and> blocks m pi = None \<and> blocks m' = (blocks m)(pi \<mapsto> new_counted i))"
  using assms by (auto simp: construct_def set_block_def split: option.splits)

section \<open>Count operations as steps of a run\<close>

abbreviation sp_at :: "sp_memory \<Rightarrow> nat multiset \<Rightarrow> effect multiset \<Rightarrow> sp_state" where
  "sp_at m ow e \<equiv> \<lparr>memory = m, owners = ow, watchers = {#}, entrusted = e\<rparr>"

lemma roomy_at: "roomy (sp_at m ow e) = few ow"
  by (simp add: roomy_def few_def)

lemma run_step:
  assumes "sp_run s" and "sp_allowed c s" and "roomy s"
  obtains s' where "sp_exec c s = Inr s'" "sp_run s'"
  using sp_step_ok [OF sp_run_ok [OF assms(1)] assms(2,3)] sp_call [OF assms] by blast

lemma copy_run:
  assumes "sp_run (sp_at m ow e)" and "handle c \<subseteq># ow" and "few ow"
  shows "\<exists>m'. shared_count_copy c m = Inr (c, m') \<and> sp_run (sp_at m' (ow + handle c) e) \<and> shrinks m m'"
proof -
  obtain s' where s': "sp_exec (Copy c) (sp_at m ow e) = Inr s'" "sp_run s'"
    by (rule run_step [OF assms(1), of "Copy c"]) (use assms(2,3) in \<open>simp_all add: roomy_at\<close>)
  then obtain c' m' where c: "shared_count_copy c m = Inr (c', m')" "s' = sp_at m' (ow + handle c') e"
    by (auto simp: andThen_Inr_iff)
  moreover have "c' = c" using c(1) by (auto simp: shared_count_copy_def andThen_Inr_iff)
  ultimately show ?thesis using s'(2) copy_shrinks by auto
qed

lemma delete_run:
  assumes "sp_run (sp_at m (ow + handle c) e)" and "few (ow + handle c)"
  shows "\<exists>m'. delete_shared_count c m = Inr m' \<and> sp_run (sp_at m' ow e) \<and> shrinks m m'"
proof -
  obtain s' where s': "sp_exec (Delete c) (sp_at m (ow + handle c) e) = Inr s'" "sp_run s'"
    by (rule run_step [OF assms(1), of "Delete c"]) (use assms(2) in \<open>simp_all add: roomy_at\<close>)
  then obtain m' where "delete_shared_count c m = Inr m'" "s' = sp_at m' ow e"
    by (auto simp: andThen_Inr_iff)
  then show ?thesis using s'(2) delete_shrinks by auto
qed

lemma construct_run:
  assumes "sp_run (sp_at m ow e)" and "\<forall>pi. mem = Some pi \<longrightarrow> blocks m pi = None" and "few ow"
  shows "\<exists>r m'. construct mem i (dispose i) m = (r, m') \<and>
    sp_run (sp_at m' (case r of Inl x \<Rightarrow> ow | Inr c \<Rightarrow> ow + handle c) (e + mset (dispose i)))"
proof -
  obtain s' where s': "sp_exec (Construct mem i) (sp_at m ow e) = Inr s'" "sp_run s'"
    by (rule run_step [OF assms(1), of "Construct mem i"]) (use assms(2,3) in \<open>simp_all add: roomy_at\<close>)
  then show ?thesis by (cases "construct mem i (dispose i) m") (auto split: sum.splits)
qed

section \<open>Programs\<close>

datatype ptr_call =
    NewPtr "nat option" nat "nat option"
  | NewDeleter "nat option" nat "nat option" nat
  | CopyPtr nat nat
  | MovePtr nat nat
  | AssignPtr nat nat
  | MoveAssign nat nat
  | SwapPtr nat nat
  | ResetPtr nat
  | ResetTo "nat option" nat "nat option"
  | DestroyPtr nat

text \<open>A constructor's result in its variable; a destroyed variable has the null pointer until it is constructed again.\<close>

definition construct_in :: "nat \<Rightarrow> shared_ptr thrown \<times> sp_memory \<Rightarrow> ptr_state \<Rightarrow> ptr_state" where
  "construct_in i r s =
     (case r of (Inl e, m) \<Rightarrow> s\<lparr>counts := m\<rparr> | (Inr p, m) \<Rightarrow> s\<lparr>ptrs := (ptrs s)[i := p], counts := m\<rparr>)"

fun ptr_exec :: "ptr_call \<Rightarrow> ptr_state \<Rightarrow> ptr_state res" where
  "ptr_exec (NewPtr mem i p) s = andThen (shared_ptr_of mem p (counts s)) (\<lambda>r. Inr (construct_in i r s))"
| "ptr_exec (NewDeleter mem i p d) s = Inr (construct_in i (shared_ptr_of_deleter mem p d (counts s)) s)"
| "ptr_exec (CopyPtr i j) s =
     andThen (shared_ptr_copy (ptrs s ! j) (counts s)) (\<lambda>(p, m). Inr (construct_in i (Inr p, m) s))"
| "ptr_exec (MovePtr i j) s =
     (let (p, r) = shared_ptr_move (ptrs s ! j) in Inr (s\<lparr>ptrs := (ptrs s)[j := r, i := p]\<rparr>))"
| "ptr_exec (AssignPtr i j) s = ptr_assign i j s"
| "ptr_exec (MoveAssign i j) s = ptr_move_assign i j s"
| "ptr_exec (SwapPtr i j) s = Inr (ptr_swap i j s)"
| "ptr_exec (ResetPtr i) s = ptr_reset i s"
| "ptr_exec (ResetTo mem i p) s = andThen (ptr_reset_to mem i p s) (\<lambda>(ok, s). Inr s)"
| "ptr_exec (DestroyPtr i) s =
     andThen (delete_shared_ptr (ptrs s ! i) (counts s)) (\<lambda>m. Inr (s\<lparr>ptrs := (ptrs s)[i := shared_ptr_null], counts := m\<rparr>))"

text \<open>Variables in scope, construction of dead variables only, new blocks at free addresses, no self-reset.\<close>

definition dead :: "nat \<Rightarrow> ptr_state \<Rightarrow> bool" where
  "dead i s \<longleftrightarrow> i < length (ptrs s) \<and> ptrs s ! i = shared_ptr_null"

definition unused :: "nat option \<Rightarrow> ptr_state \<Rightarrow> bool" where
  "unused mem s \<longleftrightarrow> (\<forall>pi. mem = Some pi \<longrightarrow> blocks (counts s) pi = None)"

fun ptr_allowed :: "ptr_call \<Rightarrow> ptr_state \<Rightarrow> bool" where
  "ptr_allowed (NewPtr mem i p) s \<longleftrightarrow> dead i s \<and> unused mem s"
| "ptr_allowed (NewDeleter mem i p d) s \<longleftrightarrow> dead i s \<and> unused mem s"
| "ptr_allowed (CopyPtr i j) s \<longleftrightarrow> dead i s \<and> j < length (ptrs s)"
| "ptr_allowed (MovePtr i j) s \<longleftrightarrow> dead i s \<and> j < length (ptrs s)"
| "ptr_allowed (AssignPtr i j) s \<longleftrightarrow> i < length (ptrs s) \<and> j < length (ptrs s)"
| "ptr_allowed (MoveAssign i j) s \<longleftrightarrow> i < length (ptrs s) \<and> j < length (ptrs s)"
| "ptr_allowed (SwapPtr i j) s \<longleftrightarrow> i < length (ptrs s) \<and> j < length (ptrs s)"
| "ptr_allowed (ResetPtr i) s \<longleftrightarrow> i < length (ptrs s)"
| "ptr_allowed (ResetTo mem i p) s \<longleftrightarrow> i < length (ptrs s) \<and> unused mem s \<and> (p = None \<or> p \<noteq> px (ptrs s ! i))"
| "ptr_allowed (DestroyPtr i) s \<longleftrightarrow> i < length (ptrs s)"

text \<open>What a call entrusts to counts.\<close>

fun given :: "ptr_call \<Rightarrow> effect multiset" where
  "given (NewPtr mem i p) = mset (dispose (Impl_p p))"
| "given (NewDeleter mem i p d) = mset (dispose (Impl_pd p d))"
| "given (ResetTo mem i p) = mset (dispose (Impl_p p))"
| "given c = {#}"

inductive ptr_run :: "nat \<Rightarrow> ptr_state \<Rightarrow> effect multiset \<Rightarrow> bool" for n where
  ptr_start: "ptr_run n \<lparr>ptrs = replicate n shared_ptr_null, counts = \<lparr>blocks = Map.empty, disposed = [], released = []\<rparr>\<rparr> {#}"
| ptr_step: "ptr_run n s e \<Longrightarrow> ptr_allowed c s \<Longrightarrow> ptr_exec c s = Inr s' \<Longrightarrow> ptr_run n s' (e + given c)"

section \<open>The invariant\<close>

fun managed :: "impl \<Rightarrow> nat option" where
  "managed (Impl_p p) = p"
| "managed (Impl_pd p d) = p"
| "managed (Impl_pda p d a) = p"

text \<open>A pointer without a count is null, one with a count points to the object of its block.\<close>

definition linked_at :: "sp_memory \<Rightarrow> shared_ptr \<Rightarrow> bool" where
  "linked_at m p \<longleftrightarrow>
     (case pn p of None \<Rightarrow> px p = None | Some pi \<Rightarrow> \<exists>b. blocks m pi = Some b \<and> managed (block_impl b) = px p)"

definition ptr_ok :: "nat \<Rightarrow> ptr_state \<Rightarrow> effect multiset \<Rightarrow> bool" where
  "ptr_ok n s e \<longleftrightarrow> length (ptrs s) = n \<and> sp_run (sp_at (counts s) (holds (ptrs s)) e) \<and> (\<forall>p\<in>set (ptrs s). linked_at (counts s) p)"

lemma linked_null [simp]: "linked_at m shared_ptr_null"
  by (simp add: linked_at_def shared_ptr_null_def shared_count_null_def)

lemma pn_null [simp]: "pn shared_ptr_null = None" "px shared_ptr_null = None"
  by (simp_all add: shared_ptr_null_def shared_count_null_def)

lemma held: "p \<in> set ps \<Longrightarrow> pn p = Some pi \<Longrightarrow> pi \<in># holds ps"
  by (induction ps) auto

lemma linked_shrinks:
  assumes "sp_run (sp_at m' (holds ps) e)" and "shrinks m m'" and "p \<in> set ps" and "linked_at m p"
  shows "linked_at m' p"
proof (cases "pn p")
  case None
  then show ?thesis using assms(4) by (simp add: linked_at_def)
next
  case (Some pi)
  have "blocks m' pi \<noteq> None" using run_blocks(1) [OF assms(1), of pi] held [OF assms(3) Some] by simp
  then obtain b' where b': "blocks m' pi = Some b'" by auto
  then obtain b where "blocks m pi = Some b" "block_impl b = block_impl b'" using assms(2) by (auto simp: shrinks_def)
  then show ?thesis using assms(4) Some b' by (simp add: linked_at_def)
qed

lemma linked_new:
  assumes "linked_at m p" and "blocks m' = (blocks m)(pi \<mapsto> b)" and "blocks m pi = None"
  shows "linked_at m' p"
  using assms by (auto simp: linked_at_def split: option.splits)

text \<open>Few enough variables for the counts, a temporary or two included.\<close>

definition few_vars :: "nat \<Rightarrow> bool" where
  "few_vars n \<longleftrightarrow> int n < 2 ^ 31 - 4"

lemma few_holds:
  assumes "few_vars (length ps)"
  shows "few (holds ps)" and "few (holds ps + handle c)"
  using size_holds [of ps] size_handle [of c] assms by (simp_all add: few_vars_def few_def)

lemma swap_in_ok:
  assumes "sp_run (sp_at (counts s) (holds (ptrs s) + handle (pn tmp)) e)" and "i < length (ptrs s)" and "few_vars (length (ptrs s))"
    and "\<forall>p\<in>set (ptrs s). linked_at (counts s) p" and "linked_at (counts s) tmp"
  shows "\<exists>m. swap_in tmp i s = Inr \<lparr>ptrs = (ptrs s)[i := tmp], counts = m\<rparr> \<and>
    ptr_ok (length (ptrs s)) \<lparr>ptrs = (ptrs s)[i := tmp], counts = m\<rparr> e"
proof -
  let ?ps = "(ptrs s)[i := tmp]" and ?old = "pn (ptrs s ! i)"
  have all: "holds ?ps + handle ?old = holds (ptrs s) + handle (pn tmp)" by (rule holds_update [OF assms(2)])
  have "few (holds ?ps + handle ?old)" using few_holds [of ?ps] assms(3) by simp
  moreover have "sp_run (sp_at (counts s) (holds ?ps + handle ?old) e)" using assms(1) unfolding all .
  ultimately obtain m where m: "delete_shared_count ?old (counts s) = Inr m" "sp_run (sp_at m (holds ?ps) e)" "shrinks (counts s) m"
    using delete_run by blast
  have "linked_at (counts s) p" if "p \<in> set ?ps" for p
    using that assms(4,5) set_update_subset_insert [of "ptrs s" i tmp] by auto
  then have "ptr_ok (length (ptrs s)) \<lparr>ptrs = ?ps, counts = m\<rparr> e"
    using m(2) linked_shrinks [OF m(2,3)] by (simp add: ptr_ok_def)
  moreover have "swap_in tmp i s = Inr \<lparr>ptrs = ?ps, counts = m\<rparr>"
    using m(1) by (cases s; cases tmp) (simp add: swap_in_def shared_ptr_swap_def shared_count_swap_def delete_shared_ptr_def)
  ultimately show ?thesis by blast
qed

text \<open>A pointer that is ready to be put into a variable: its count is held beside those of the variables.\<close>

definition pointer_for :: "shared_ptr \<Rightarrow> ptr_state \<Rightarrow> effect multiset \<Rightarrow> bool" where
  "pointer_for p s e \<longleftrightarrow> sp_run (sp_at (counts s) (holds (ptrs s) + handle (pn p)) e) \<and>
     (\<forall>q\<in>set (ptrs s). linked_at (counts s) q) \<and> linked_at (counts s) p"

lemma swap_in_pointer:
  assumes "pointer_for tmp s e" and "i < length (ptrs s)" and "few_vars (length (ptrs s))"
  shows "\<exists>s'. swap_in tmp i s = Inr s' \<and> ptr_ok (length (ptrs s)) s' e"
  using swap_in_ok [OF _ assms(2,3)] assms(1) unfolding pointer_for_def by blast

lemma put_pointer:
  assumes "pointer_for p s e" and "dead i s"
  shows "ptr_ok (length (ptrs s)) (s\<lparr>ptrs := (ptrs s)[i := p]\<rparr>) e"
proof -
  have "holds ((ptrs s)[i := p]) = holds (ptrs s) + handle (pn p)"
    using holds_update [of i "ptrs s" p] assms(2) by (simp add: dead_def)
  moreover have "linked_at (counts s) q" if "q \<in> set ((ptrs s)[i := p])" for q
    using that assms(1) set_update_subset_insert [of "ptrs s" i p] by (auto simp: pointer_for_def)
  ultimately show ?thesis using assms(1) by (simp add: ptr_ok_def pointer_for_def)
qed

lemma null_pointer: "ptr_ok n s e \<Longrightarrow> pointer_for shared_ptr_null s e"
  by (simp add: pointer_for_def ptr_ok_def)

lemma copied_pointer:
  assumes "ptr_ok n s e" and "j < n" and "few_vars n"
  shows "\<exists>p m. shared_ptr_copy (ptrs s ! j) (counts s) = Inr (p, m) \<and> pointer_for p (s\<lparr>counts := m\<rparr>) e"
proof -
  let ?c = "pn (ptrs s ! j)"
  have ok: "length (ptrs s) = n" "sp_run (sp_at (counts s) (holds (ptrs s)) e)" "\<forall>p\<in>set (ptrs s). linked_at (counts s) p"
    using assms(1) by (simp_all add: ptr_ok_def)
  have "handle ?c \<subseteq># holds (ptrs s)" by (rule holds_nth) (simp add: ok(1) assms(2))
  then obtain m where m: "shared_count_copy ?c (counts s) = Inr (?c, m)" "sp_run (sp_at m (holds (ptrs s) + handle ?c) e)" "shrinks (counts s) m"
    using copy_run [OF ok(2)] few_holds(1) [of "ptrs s"] assms(3) ok(1) by blast
  have run: "sp_run (sp_at m (holds (ptrs s ! j # ptrs s)) e)" using m(2) by (simp add: ac_simps)
  have "ptrs s ! j \<in> set (ptrs s)" using assms(2) ok(1) by simp
  then have "linked_at m q" if "q \<in> insert (ptrs s ! j) (set (ptrs s))" for q
    using that linked_shrinks [OF run m(3), of q] ok(3) by auto
  then have "pointer_for (ptrs s ! j) (s\<lparr>counts := m\<rparr>) e" using m(2) by (simp add: pointer_for_def)
  moreover have "shared_ptr_copy (ptrs s ! j) (counts s) = Inr (ptrs s ! j, m)" using m(1) by (simp add: shared_ptr_copy_def)
  ultimately show ?thesis by blast
qed

text \<open>A constructed pointer, or the exception with the object disposed of.\<close>

lemma constructed_pointer:
  assumes "ptr_ok n s e" and "unused mem s" and "few_vars n" and "managed im = p"
  shows "\<exists>r m. with_count p (construct mem im (dispose im) (counts s)) = (r, m) \<and>
    (case r of Inl x \<Rightarrow> ptr_ok n (s\<lparr>counts := m\<rparr>) (e + mset (dispose im)) | Inr q \<Rightarrow> pointer_for q (s\<lparr>counts := m\<rparr>) (e + mset (dispose im)))"
proof -
  have ok: "length (ptrs s) = n" "sp_run (sp_at (counts s) (holds (ptrs s)) e)" "\<forall>p\<in>set (ptrs s). linked_at (counts s) p"
    using assms(1) by (simp_all add: ptr_ok_def)
  have free: "\<forall>pi. mem = Some pi \<longrightarrow> blocks (counts s) pi = None" using assms(2) by (simp add: unused_def)
  obtain r m where r: "construct mem im (dispose im) (counts s) = (r, m)"
      "sp_run (sp_at m (case r of Inl x \<Rightarrow> holds (ptrs s) | Inr c \<Rightarrow> holds (ptrs s) + handle c) (e + mset (dispose im)))"
    using construct_run [OF ok(2) free] few_holds(1) [of "ptrs s"] assms(3) ok(1) by blast
  from construct_blocks [OF r(1) free] show ?thesis
  proof (elim disjE exE conjE)
    fix x assume x: "r = Inl x" "blocks m = blocks (counts s)"
    then have "\<forall>p\<in>set (ptrs s). linked_at m p" using ok(3) by (simp add: linked_at_def cong: option.case_cong)
    then show ?thesis using r x ok(1) by (simp add: with_count_def ptr_ok_def)
  next
    fix pi assume new: "r = Inr (Some pi)" "blocks (counts s) pi = None" "blocks m = (blocks (counts s))(pi \<mapsto> new_counted im)"
    have "\<forall>p\<in>set (ptrs s). linked_at m p" using ok(3) linked_new [OF _ new(3,2)] by blast
    moreover have "linked_at m \<lparr>px = p, pn = Some pi\<rparr>" using new(3) assms(4) by (simp add: linked_at_def new_counted_def)
    ultimately show ?thesis using r new(1) by (simp add: with_count_def pointer_for_def)
  qed
qed

lemma shared_ptr_of_construct:
  "shared_ptr_of mem p m = Inr (with_count p (construct mem (Impl_p p) (dispose (Impl_p p)) m))"
  "shared_ptr_of_deleter mem p d m = with_count p (construct mem (Impl_pd p d) (dispose (Impl_pd p d)) m)"
  by (auto simp: shared_ptr_of_def sp_pointer_construct_def swap_count_def shared_count_p_def shared_ptr_of_deleter_def
      shared_count_pd_def shared_count_swap_def shared_count_null_def delete_shared_count_def when_block_def with_count_def
      construct_def split: option.splits)

lemma shared_ptr_move_null: "shared_ptr_move r = (r, shared_ptr_null)"
  by (cases r) (simp add: shared_ptr_move_def shared_count_swap_def shared_ptr_null_def shared_count_null_def)

lemma moved_pointer:
  assumes "ptr_ok n s e" and "j < n"
  shows "pointer_for (ptrs s ! j) (s\<lparr>ptrs := (ptrs s)[j := shared_ptr_null]\<rparr>) e"
proof -
  let ?ps = "(ptrs s)[j := shared_ptr_null]"
  have ok: "length (ptrs s) = n" "sp_run (sp_at (counts s) (holds (ptrs s)) e)" "\<forall>p\<in>set (ptrs s). linked_at (counts s) p"
    using assms(1) by (simp_all add: ptr_ok_def)
  have "holds ?ps + handle (pn (ptrs s ! j)) = holds (ptrs s)"
    using holds_update [of j "ptrs s" shared_ptr_null] assms(2) ok(1) by simp
  moreover have "\<forall>q\<in>set ?ps. linked_at (counts s) q"
    using ok(3) set_update_subset_insert [of "ptrs s" j shared_ptr_null] by auto
  moreover have "ptrs s ! j \<in> set (ptrs s)" using assms(2) ok(1) by simp
  ultimately show ?thesis using ok by (auto simp: pointer_for_def)
qed

lemma swapped_ok:
  assumes "ptr_ok n s e" and "i < n" and "j < n"
  shows "ptr_ok n (ptr_swap i j s) e"
proof -
  let ?x = "ptrs s ! i" and ?y = "ptrs s ! j"
  let ?ps = "(ptrs s)[j := ?x, i := ?y]"
  have ok: "length (ptrs s) = n" "sp_run (sp_at (counts s) (holds (ptrs s)) e)" "\<forall>p\<in>set (ptrs s). linked_at (counts s) p"
    using assms(1) by (simp_all add: ptr_ok_def)
  have "mset ?ps = mset (ptrs s)" using mset_swap [of i "ptrs s" j] assms(2,3) ok(1) by simp
  then have same: "holds ?ps = holds (ptrs s)" "set ?ps = set (ptrs s)" by (rule holds_mset, rule mset_eq_setD)
  have "ptr_swap i j s = s\<lparr>ptrs := ?ps\<rparr>"
    by (cases ?x; cases ?y) (simp add: ptr_swap_def shared_ptr_swap_def shared_count_swap_def)
  then show ?thesis using ok same by (simp add: ptr_ok_def)
qed

lemma ptr_ok_room: "ptr_ok n s e \<Longrightarrow> length (ptrs s) = n"
  by (simp add: ptr_ok_def)

lemma swap_in_state:
  assumes "pointer_for tmp s e" and "length (ptrs s) = n" and "i < n" and "few_vars n"
  shows "\<exists>s'. swap_in tmp i s = Inr s' \<and> ptr_ok n s' e"
  using swap_in_pointer [of tmp s e i] assms by simp

lemma new_in_ok:
  assumes "ptr_ok n s e" and "unused mem s" and "few_vars n" and "managed im = p" and "dead i s"
  shows "ptr_ok n (construct_in i (with_count p (construct mem im (dispose im) (counts s))) s) (e + mset (dispose im))"
proof -
  obtain r m where r: "with_count p (construct mem im (dispose im) (counts s)) = (r, m)"
    "case r of Inl x \<Rightarrow> ptr_ok n (s\<lparr>counts := m\<rparr>) (e + mset (dispose im)) | Inr q \<Rightarrow> pointer_for q (s\<lparr>counts := m\<rparr>) (e + mset (dispose im))"
    using constructed_pointer [OF assms(1-4)] by blast
  show ?thesis
  proof (cases r)
    case (Inl x)
    then show ?thesis using r by (simp add: construct_in_def)
  next
    case (Inr q)
    have "ptr_ok n ((s\<lparr>counts := m\<rparr>)\<lparr>ptrs := (ptrs s)[i := q]\<rparr>) (e + mset (dispose im))"
      using put_pointer [of q "s\<lparr>counts := m\<rparr>" _ i] r(2) Inr assms(5) ptr_ok_room [OF assms(1)] by (simp add: dead_def)
    moreover have "(s\<lparr>counts := m\<rparr>)\<lparr>ptrs := (ptrs s)[i := q]\<rparr> = s\<lparr>ptrs := (ptrs s)[i := q], counts := m\<rparr>" by simp
    ultimately show ?thesis using r(1) Inr by (simp add: construct_in_def)
  qed
qed

lemma reset_to_ok:
  assumes "ptr_ok n s e" and "unused mem s" and "few_vars n" and "i < n" and "p = None \<or> p \<noteq> px (ptrs s ! i)"
  shows "\<exists>ok s'. ptr_reset_to mem i p s = Inr (ok, s') \<and> ptr_ok n s' (e + mset (dispose (Impl_p p)))"
proof -
  let ?im = "Impl_p p"
  obtain r m where r: "with_count p (construct mem ?im (dispose ?im) (counts s)) = (r, m)"
    "case r of Inl x \<Rightarrow> ptr_ok n (s\<lparr>counts := m\<rparr>) (e + mset (dispose ?im)) | Inr q \<Rightarrow> pointer_for q (s\<lparr>counts := m\<rparr>) (e + mset (dispose ?im))"
    using constructed_pointer [OF assms(1-3), of ?im p] by auto
  have "guard (p = None \<or> p \<noteq> px (ptrs s ! i)) AssertFailed = Inr ()" using assms(5) by (simp only: simp_thms guard_simps)
  then have to: "ptr_reset_to mem i p s = swap_in_new (r, m) i s"
    using r(1) shared_ptr_of_construct(1) [of mem p "counts s"] by (simp add: ptr_reset_to_def)
  show ?thesis
  proof (cases r)
    case (Inl x)
    then show ?thesis using r(2) to by (simp add: swap_in_new_def)
  next
    case (Inr q)
    then obtain s' where "swap_in q i (s\<lparr>counts := m\<rparr>) = Inr s'" "ptr_ok n s' (e + mset (dispose ?im))"
      using swap_in_state [of q "s\<lparr>counts := m\<rparr>" "e + mset (dispose ?im)" n i] r(2) assms(3,4) ptr_ok_room [OF assms(1)] by auto
    then show ?thesis using to Inr by (simp add: swap_in_new_def)
  qed
qed

lemma ptr_step_ok:
  assumes "ptr_ok n s e" and "few_vars n" and "ptr_allowed c s"
  shows "\<exists>s'. ptr_exec c s = Inr s' \<and> ptr_ok n s' (e + given c)"
proof -
  have len: "length (ptrs s) = n" using assms(1) by (rule ptr_ok_room)
  note put = put_pointer [of _ "s\<lparr>counts := _\<rparr>"]
  show ?thesis
  proof (cases c)
    case (NewPtr mem i p)
    then show ?thesis using new_in_ok [OF assms(1) _ assms(2), of mem "Impl_p p" p i] assms(3)
      by (simp add: shared_ptr_of_construct(1))
  next
    case (NewDeleter mem i p d)
    then show ?thesis using new_in_ok [OF assms(1) _ assms(2), of mem "Impl_pd p d" p i] assms(3)
      by (simp add: shared_ptr_of_construct(2))
  next
    case (CopyPtr i j)
    then have "j < n" "dead i s" using assms(3) len by simp_all
    then obtain p m where p: "shared_ptr_copy (ptrs s ! j) (counts s) = Inr (p, m)" "pointer_for p (s\<lparr>counts := m\<rparr>) e"
      using copied_pointer [OF assms(1) _ assms(2)] by blast
    have "ptr_ok n ((s\<lparr>counts := m\<rparr>)\<lparr>ptrs := (ptrs s)[i := p]\<rparr>) e"
      using put [of p m e i] p(2) \<open>dead i s\<close> len by (simp add: dead_def)
    moreover have "(s\<lparr>counts := m\<rparr>)\<lparr>ptrs := (ptrs s)[i := p]\<rparr> = construct_in i (Inr p, m) s" by (simp add: construct_in_def)
    ultimately show ?thesis using CopyPtr p(1) by simp
  next
    case (MovePtr i j)
    then have j: "j < n" "dead i s" using assms(3) len by simp_all
    let ?s = "s\<lparr>ptrs := (ptrs s)[j := shared_ptr_null]\<rparr>"
    have "dead i ?s" using j by (cases "i = j") (auto simp: dead_def)
    from put_pointer [OF moved_pointer [OF assms(1) j(1)] this] show ?thesis
      using MovePtr len by (simp add: shared_ptr_move_null)
  next
    case (AssignPtr i j)
    then have ij: "i < n" "j < n" using assms(3) len by simp_all
    then obtain p m where p: "shared_ptr_copy (ptrs s ! j) (counts s) = Inr (p, m)" "pointer_for p (s\<lparr>counts := m\<rparr>) e"
      using copied_pointer [OF assms(1) _ assms(2)] by blast
    from swap_in_state [OF p(2) _ ij(1) assms(2)] show ?thesis using AssignPtr p(1) len by (simp add: ptr_assign_def)
  next
    case (MoveAssign i j)
    then have ij: "i < n" "j < n" using assms(3) len by simp_all
    from swap_in_state [OF moved_pointer [OF assms(1) ij(2)] _ ij(1) assms(2)] show ?thesis
      using MoveAssign len by (simp add: ptr_move_assign_def shared_ptr_move_null)
  next
    case (SwapPtr i j)
    then show ?thesis using swapped_ok [OF assms(1)] assms(3) len by simp
  next
    case (ResetPtr i)
    then show ?thesis using swap_in_state [OF null_pointer [OF assms(1)] len _ assms(2), of i] assms(3) len by (simp add: ptr_reset_def)
  next
    case (ResetTo mem i p)
    then show ?thesis using reset_to_ok [OF assms(1) _ assms(2), of mem i p] assms(3) len by auto
  next
    case (DestroyPtr i)
    then have "i < n" using assms(3) len by simp
    then obtain s' where s': "swap_in shared_ptr_null i s = Inr s'" "ptr_ok n s' e"
      using swap_in_state [OF null_pointer [OF assms(1)] len _ assms(2), of i] by blast
    have "swap_in shared_ptr_null i s = ptr_exec c s"
      by (simp add: DestroyPtr swap_in_def shared_ptr_swap_def shared_count_swap_def delete_shared_ptr_def shared_ptr_null_def shared_count_null_def)
    moreover have "e + given c = e" by (simp add: DestroyPtr)
    ultimately show ?thesis using s' by metis
  qed
qed

lemma holds_null: "holds (replicate n shared_ptr_null) = {#}"
  by (induction n) simp_all

lemma ptr_run_ok:
  assumes "ptr_run n s e" and "few_vars n"
  shows "ptr_ok n s e"
  using assms(1)
proof (induction rule: ptr_run.induct)
  case ptr_start
  then show ?case using sp_start by (simp add: ptr_ok_def holds_null)
next
  case (ptr_step s e c s')
  then show ?case using ptr_step_ok [OF ptr_step.IH assms(2) ptr_step.hyps(2)] by simp
qed

section \<open>What a program sees\<close>

lemma seen:
  assumes "ptr_ok n s e" and "p \<in> set (ptrs s)" and "pn p = Some pi"
  shows "\<exists>b. blocks (counts s) pi = Some b \<and> managed (block_impl b) = px p \<and>
    shared_ptr_use_count p (counts s) = Inr (int (length (filter (\<lambda>q. pn q = Some pi) (ptrs s)))) \<and>
    (\<forall>x\<in>set (dispose (block_impl b)). count e x = 1 \<longrightarrow> x \<notin> set (disposed (counts s)))"
proof -
  have run: "sp_run (sp_at (counts s) (holds (ptrs s)) e)" and link: "linked_at (counts s) p"
    using assms(1,2) by (simp_all add: ptr_ok_def)
  obtain b where b: "blocks (counts s) pi = Some b" "managed (block_impl b) = px p"
    using link assms(3) by (auto simp: linked_at_def)
  have "use_count b = int (length (filter (\<lambda>q. pn q = Some pi) (ptrs s)))"
    using run_blocks(2) [OF run] b(1) by (simp add: count_holds)
  moreover have "\<forall>x\<in>set (dispose (block_impl b)). count e x = 1 \<longrightarrow> x \<notin> set (disposed (counts s))"
    using run_alive [OF run] held [OF assms(2,3)] b(1) by simp
  ultimately show ?thesis using b assms(3)
    by (simp add: shared_ptr_use_count_def shared_count_use_count_def block_use_count_def at_block_def)
qed

section \<open>Properties\<close>

definition two_ptrs :: "nat option \<Rightarrow> nat option \<Rightarrow> int \<Rightarrow> ptr_state" where
  "two_ptrs a b n = \<lparr>ptrs = [if a = None then shared_ptr_null else \<lparr>px = Some 7, pn = a\<rparr>, if b = None then shared_ptr_null else \<lparr>px = Some 7, pn = b\<rparr>],
     counts = \<lparr>blocks = [1 \<mapsto> \<lparr>use_count = n, weak_count = 1, block_impl = Impl_p (Some 7)\<rparr>], disposed = [], released = []\<rparr>\<rparr>"

lemma sample_ptrs: "ptr_run 2 (two_ptrs (Some 1) None 1) {#Deleted 7#}" "ptr_run 2 (two_ptrs (Some 1) (Some 1) 2) {#Deleted 7#}"
proof -
  have "replicate 2 shared_ptr_null = [shared_ptr_null, shared_ptr_null]" by (simp add: numeral_2_eq_2)
  then have r0: "ptr_run 2 \<lparr>ptrs = [shared_ptr_null, shared_ptr_null], counts = \<lparr>blocks = Map.empty, disposed = [], released = []\<rparr>\<rparr> {#}"
    using ptr_start [of 2] by simp
  have "ptr_exec (NewPtr (Some 1) 0 (Some 7)) \<lparr>ptrs = [shared_ptr_null, shared_ptr_null], counts = \<lparr>blocks = Map.empty, disposed = [], released = []\<rparr>\<rparr> =
      Inr (two_ptrs (Some 1) None 1)"
    by (simp add: shared_ptr_of_construct(1) construct_def with_count_def construct_in_def set_block_def new_counted_def two_ptrs_def)
  from ptr_step [OF r0 _ this] show r1: "ptr_run 2 (two_ptrs (Some 1) None 1) {#Deleted 7#}"
    by (simp add: dead_def unused_def checked_delete_def)
  have "ptr_exec (AssignPtr 1 0) (two_ptrs (Some 1) None 1) = Inr (two_ptrs (Some 1) (Some 1) 2)"
    by (simp add: two_ptrs_def ptr_assign_def shared_ptr_copy_def shared_count_copy_def when_block_def add_ref_copy_def at_block_def
        set_block_def swap_in_def shared_ptr_swap_def shared_count_swap_def delete_shared_ptr_def delete_shared_count_def s32_def)
  from ptr_step [OF r1 _ this] show "ptr_run 2 (two_ptrs (Some 1) (Some 1) 2) {#Deleted 7#}"
    by (simp add: two_ptrs_def)
qed

text \<open>C10. Every allowed call of every program over shared pointers returns, a self-assignment included, and leaves a
  state that a run of the count operations reaches too, with the variables' counts as its owners: \<open>shared_ptr\<close>
  refines the abstract owners and what was shown of these holds of it.\<close>

theorem ptr_programs_refine:
  assumes "ptr_run n s e" and "few_vars n" and "ptr_allowed c s"
  shows "\<exists>s'. ptr_exec c s = Inr s' \<and> ptr_run n s' (e + given c) \<and>
    sp_run \<lparr>memory = counts s', owners = holds (ptrs s'), watchers = {#}, entrusted = e + given c\<rparr>"
  using ptr_step_ok [OF ptr_run_ok [OF assms(1,2)] assms(2,3)] ptr_step [OF assms(1,3)] by (auto simp: ptr_ok_def)

theorem ptr_programs_refine_witness:
  "\<exists>s'. ptr_exec (AssignPtr 0 0) (two_ptrs (Some 1) (Some 1) 2) = Inr s' \<and> ptr_run 2 s' {#Deleted 7#} \<and>
    sp_run \<lparr>memory = counts s', owners = holds (ptrs s'), watchers = {#}, entrusted = {#Deleted 7#}\<rparr>"
  using ptr_programs_refine [OF sample_ptrs(2), of "AssignPtr 0 0"] by (simp add: few_vars_def two_ptrs_def)

text \<open>C11. In every state of a program over the operations of this theory (no aliasing, no casts, no weak pointers) a
  shared pointer with a count points to the object of a live block and \<open>use_count\<close> is the number of variables that
  share it; its object has not been disposed of, provided the program entrusted it to a pointer only once.\<close>

theorem no_pointer_dangles:
  assumes "ptr_run n s e" and "few_vars n" and "p \<in> set (ptrs s)" and "pn p = Some pi"
  shows "\<exists>b. blocks (counts s) pi = Some b \<and> managed (block_impl b) = px p \<and>
    shared_ptr_use_count p (counts s) = Inr (int (length (filter (\<lambda>q. pn q = Some pi) (ptrs s)))) \<and>
    (\<forall>x\<in>set (dispose (block_impl b)). count e x = 1 \<longrightarrow> x \<notin> set (disposed (counts s)))"
  by (rule seen [OF ptr_run_ok [OF assms(1,2)] assms(3,4)])

theorem no_pointer_dangles_witness:
  "shared_ptr_use_count \<lparr>px = Some 7, pn = Some 1\<rparr> (counts (two_ptrs (Some 1) (Some 1) 2)) = Inr 2"
  using no_pointer_dangles [OF sample_ptrs(2), of "\<lparr>px = Some 7, pn = Some 1\<rparr>" 1] by (simp add: few_vars_def two_ptrs_def)

end
