(* ===== verification/Collector.thy ===== *)
theory Collector
  imports SharedPtr
begin

text \<open>
  The leak finder of the library (\<open>src/smart_ptr/libs/smart_ptr/src/sp_collector.cpp\<close>): it knows every managed
  object, scans their memory for the shared pointers in them, and takes for unreachable what is owned only by
  such objects: cycles of shared pointers and what hangs on them.

  Memory is a function from addresses to 32-bit words. A \<open>std::map\<close> is the list of its pairs in key order, as
  its iterators pass through it.
\<close>

section \<open>Ordered maps\<close>

fun map_put :: "nat \<Rightarrow> 'v \<Rightarrow> (nat \<times> 'v) list \<Rightarrow> (nat \<times> 'v) list" where
  "map_put k v [] = [(k, v)]"
| "map_put k v ((k', v') # xs) =
     (if k < k' then (k, v) # (k', v') # xs else if k = k' then (k, v) # xs else (k', v') # map_put k v xs)"

definition map_erase :: "nat \<Rightarrow> (nat \<times> 'v) list \<Rightarrow> (nat \<times> 'v) list" where
  "map_erase k xs = filter (\<lambda>(k', v). k' \<noteq> k) xs"

definition map_has :: "nat \<Rightarrow> (nat \<times> 'v) list \<Rightarrow> bool" where
  "map_has k xs \<longleftrightarrow> map_of xs k \<noteq> None"

text \<open>\<open>m[k]\<close> makes an entry of zero where there is none.\<close>

definition count_at :: "nat \<Rightarrow> (nat \<times> int) list \<Rightarrow> (nat \<times> int) list" where
  "count_at k xs = (if map_has k xs then xs else map_put k 0 xs)"

definition count_up :: "nat \<Rightarrow> (nat \<times> int) list \<Rightarrow> (nat \<times> int) list" where
  "count_up k xs = map_put k (s32 (the (map_of (count_at k xs) k) + 1)) xs"

section \<open>Scanning an object\<close>

record shared_ptr_layout =
  lpx :: nat
  lpi :: nat
  lid :: nat

definition shared_count_id :: nat where "shared_count_id = 0x2C35F101"

definition pointer_align :: nat where "pointer_align = 4"

definition layout_size :: nat where "layout_size = 12"

definition layout_at :: "(nat \<Rightarrow> nat) \<Rightarrow> nat \<Rightarrow> shared_ptr_layout" where
  "layout_at word_at p = \<lparr>lpx = word_at p, lpi = word_at (p + 4), lid = word_at (p + 8)\<rparr>"

text \<open>The values of \<open>n\<close> in the loops over an area.\<close>

function offsets :: "nat \<Rightarrow> nat \<Rightarrow> nat list" where
  "offsets len n = (if n + layout_size \<le> len then n # offsets len (n + pointer_align) else [])"
  by pat_completeness auto
termination by (relation "measure (\<lambda>(len, n). len - n)") (auto simp: layout_size_def pointer_align_def)

declare offsets.simps [simp del]

definition scan_and_count ::
  "(nat \<Rightarrow> nat) \<Rightarrow> nat \<Rightarrow> nat \<Rightarrow> (nat \<times> 'a) list \<Rightarrow> (nat \<times> int) list \<Rightarrow> (nat \<times> int) list" where
  "scan_and_count word_at area len m m2 =
     fold (\<lambda>n m2. let q = layout_at word_at (area + n) in
         if lid q = shared_count_id \<and> lpi q \<noteq> 0 \<and> map_has (lpi q) m then count_up (lpi q) m2 else m2)
       (offsets len 0) m2"

definition scan_and_mark ::
  "(nat \<Rightarrow> nat) \<Rightarrow> nat \<Rightarrow> nat \<Rightarrow> (nat \<times> int) list \<times> nat list \<Rightarrow> (nat \<times> int) list \<times> nat list" where
  "scan_and_mark word_at area len s =
     fold (\<lambda>n (m2, todo). let q = layout_at word_at (area + n) in
         if lid q = shared_count_id \<and> lpi q \<noteq> 0 \<and> map_has (lpi q) m2
         then (map_erase (lpi q) m2, todo @ [lpi q]) else (m2, todo))
       (offsets len 0) s"

section \<open>\<open>find_unreachable_objects_impl\<close>\<close>

type_synonym registry = "(nat \<times> nat \<times> nat) list"

text \<open>The first loop: internal counts of the registered objects, each of which has owners.\<close>

fun count_loop ::
  "(nat \<Rightarrow> nat) \<Rightarrow> sp_memory \<Rightarrow> registry \<Rightarrow> registry \<Rightarrow> (nat \<times> int) list \<Rightarrow> (nat \<times> int) list res" where
  "count_loop word_at mem m [] m2 = Inr m2"
| "count_loop word_at mem m ((pi, area, len) # rest) m2 =
     andThen (block_use_count pi mem) (\<lambda>c.
     andThen (guard (c \<noteq> 0) AssertFailed) (\<lambda>_.
     count_loop word_at mem m rest (scan_and_count word_at area len m (count_at pi m2))))"

text \<open>Objects with more owners than were found start the marking.\<close>

fun open_loop :: "sp_memory \<Rightarrow> (nat \<times> int) list \<Rightarrow> nat list res" where
  "open_loop mem [] = Inr []"
| "open_loop mem ((pi, c) # rest) =
     andThen (block_use_count pi mem) (\<lambda>n.
     andThen (open_loop mem rest) (\<lambda>todo. Inr (if n \<noteq> c then pi # todo else todo)))"

lemma map_erase_length: "length (map_erase k xs) \<le> length xs"
  by (simp add: map_erase_def)

lemma map_erase_less:
  assumes "map_has k xs"
  shows "length (map_erase k xs) < length xs"
proof -
  have "k \<in> fst ` set xs" using assms by (simp add: map_has_def map_of_eq_None_iff)
  then show ?thesis unfolding map_erase_def by (auto intro: length_filter_less)
qed

lemma fold_length:
  assumes "\<And>n a. g (f n a) \<le> (g a :: nat)"
  shows "g (fold f ns a) \<le> g a"
  by (induction ns arbitrary: a) (auto intro: order_trans assms)

lemma scan_and_mark_length:
  "length (fst (scan_and_mark word_at area len s)) + length (snd (scan_and_mark word_at area len s)) \<le> length (fst s) + length (snd s)"
  unfolding scan_and_mark_def
  by (rule fold_length [where g = "\<lambda>s. length (fst s) + length (snd s)"])
    (use map_erase_less in \<open>force simp: Let_def split: prod.splits\<close>)

text \<open>The worklist: \<open>todo\<close> is \<open>open\<close> in the code.\<close>

function mark_loop ::
  "(nat \<Rightarrow> nat) \<Rightarrow> registry \<Rightarrow> (nat \<times> int) list \<Rightarrow> nat list \<Rightarrow> (nat \<times> int) list res" where
  "mark_loop word_at m m2 [] = Inr m2"
| "mark_loop word_at m m2 (p # todo) =
     (case map_of m p of
        None \<Rightarrow> Inl AssertFailed
      | Some (area, len) \<Rightarrow>
          mark_loop word_at m (fst (scan_and_mark word_at area len (m2, todo))) (snd (scan_and_mark word_at area len (m2, todo))))"
  by pat_completeness auto
termination
proof (relation "measure (\<lambda>(word_at, m, m2, todo). length m2 + length todo)")
  fix word_at :: "nat \<Rightarrow> nat" and m m2 and p :: nat and todo obj and area len :: nat
  assume "(area, len) = obj"
  show "((word_at, m, fst (scan_and_mark word_at area len (m2, todo)), snd (scan_and_mark word_at area len (m2, todo))),
      word_at, m, m2, p # todo) \<in> measure (\<lambda>(word_at, m, m2, todo). length m2 + length todo)"
    using scan_and_mark_length [of word_at area len "(m2, todo)"] by (simp add: case_prod_beta)
qed simp

definition find_unreachable_objects_impl :: "(nat \<Rightarrow> nat) \<Rightarrow> sp_memory \<Rightarrow> registry \<Rightarrow> (nat \<times> int) list res" where
  "find_unreachable_objects_impl word_at mem m =
     andThen (count_loop word_at mem m m []) (\<lambda>m2.
     andThen (open_loop mem m2) (\<lambda>todo.
     mark_loop word_at m (fold map_erase todo m2) todo))"

text \<open>The number of unreachable objects and, for the report, where they are.\<close>

fun report_loop :: "registry \<Rightarrow> (nat \<times> int) list \<Rightarrow> (nat \<times> nat) list res" where
  "report_loop m [] = Inr []"
| "report_loop m ((pi, c) # rest) =
     (case map_of m pi of None \<Rightarrow> Inl AssertFailed
      | Some obj \<Rightarrow> andThen (report_loop m rest) (\<lambda>objs. Inr (obj # objs)))"

definition find_unreachable_objects :: "(nat \<Rightarrow> nat) \<Rightarrow> sp_memory \<Rightarrow> registry \<Rightarrow> bool \<Rightarrow> (nat \<times> (nat \<times> nat) list) res" where
  "find_unreachable_objects word_at mem m report =
     andThen (find_unreachable_objects_impl word_at mem m) (\<lambda>m2.
     andThen (if report then report_loop m m2 else Inr []) (\<lambda>objs. Inr (length m2, objs)))"

section \<open>The registry\<close>

definition sp_scalar_constructor_hook :: "nat \<Rightarrow> nat \<Rightarrow> nat \<Rightarrow> registry \<Rightarrow> registry" where
  "sp_scalar_constructor_hook p len c m = map_put c (p, len) m"

definition sp_scalar_destructor_hook :: "nat \<Rightarrow> registry \<Rightarrow> registry" where
  "sp_scalar_destructor_hook c m = map_erase c m"

section \<open>Breaking the cycles\<close>

text \<open>
  A shared pointer found in an unreachable object is copied to the list \<open>free\<close> and reset, which writes null to its
  two pointers (the tag stays). \<open>w\<close> is the memory.
\<close>

definition free_at ::
  "(nat \<times> int) list \<Rightarrow> nat \<Rightarrow> (nat \<Rightarrow> nat) \<times> sp_memory \<times> shared_ptr list \<Rightarrow> ((nat \<Rightarrow> nat) \<times> sp_memory \<times> shared_ptr list) res" where
  "free_at m2 p s = (case s of (w, mem, free) \<Rightarrow>
     let q = layout_at w p in
     if lid q = shared_count_id \<and> lpi q \<noteq> 0 \<and> map_has (lpi q) m2 \<and> lpx q \<noteq> 0 then
       andThen (shared_ptr_copy \<lparr>px = Some (lpx q), pn = Some (lpi q)\<rparr> mem) (\<lambda>(ptr, mem).
       let (tmp, this) = shared_ptr_swap shared_ptr_null \<lparr>px = Some (lpx q), pn = Some (lpi q)\<rparr> in
       andThen (delete_shared_ptr tmp mem) (\<lambda>mem.
         Inr (w(p := case_option 0 id (px this), p + 4 := case_option 0 id (pn this)), mem, free @ [ptr])))
     else Inr s)"

definition scan_and_free ::
  "nat \<Rightarrow> nat \<Rightarrow> (nat \<times> int) list \<Rightarrow> (nat \<Rightarrow> nat) \<times> sp_memory \<times> shared_ptr list \<Rightarrow> ((nat \<Rightarrow> nat) \<times> sp_memory \<times> shared_ptr list) res" where
  "scan_and_free area len m2 s = fold (\<lambda>n r. andThen r (free_at m2 (area + n))) (offsets len 0) (Inr s)"

fun free_loop ::
  "registry \<Rightarrow> (nat \<times> int) list \<Rightarrow> (nat \<times> int) list \<Rightarrow> (nat \<Rightarrow> nat) \<times> sp_memory \<times> shared_ptr list \<Rightarrow>
    ((nat \<Rightarrow> nat) \<times> sp_memory \<times> shared_ptr list) res" where
  "free_loop m m2 [] s = Inr s"
| "free_loop m m2 ((pi, c) # rest) s =
     (case map_of m pi of None \<Rightarrow> Inl AssertFailed
      | Some (area, len) \<Rightarrow> andThen (scan_and_free area len m2 s) (free_loop m m2 rest))"

text \<open>
  At the end the list is destroyed, pointer by pointer, and with it the objects. Their destructors are code of
  the program that uses the library; here the objects are recorded as disposed of.
\<close>

fun free_list :: "shared_ptr list \<Rightarrow> sp_memory \<Rightarrow> sp_memory res" where
  "free_list [] mem = Inr mem"
| "free_list (p # ps) mem = andThen (delete_shared_ptr p mem) (free_list ps)"

definition free_unreachable_objects :: "(nat \<Rightarrow> nat) \<Rightarrow> sp_memory \<Rightarrow> registry \<Rightarrow> (nat \<times> (nat \<Rightarrow> nat) \<times> sp_memory) res" where
  "free_unreachable_objects word_at mem m =
     andThen (find_unreachable_objects_impl word_at mem m) (\<lambda>m2.
     andThen (free_loop m m2 m2 (word_at, mem, [])) (\<lambda>(w, mem, free).
     andThen (free_list free mem) (\<lambda>mem. Inr (length free, w, mem))))"

section \<open>Maps and links\<close>

lemma map_of_put [simp]: "map_of (map_put k v xs) = (map_of xs)(k \<mapsto> v)"
  by (induction k v xs rule: map_put.induct) (auto simp: fun_eq_iff)

lemma map_of_erase [simp]: "map_of (map_erase k xs) = (map_of xs)(k := None)"
  by (induction xs) (auto simp: map_erase_def fun_eq_iff)

lemma map_of_erase_all: "map_of (fold map_erase ks xs) = (\<lambda>k. if k \<in> set ks then None else map_of xs k)"
  by (induction ks arbitrary: xs) (auto simp: fun_eq_iff)

lemma map_of_count_at [simp]: "map_of (count_at k xs) = (\<lambda>x. if x = k \<and> map_of xs k = None then Some 0 else map_of xs x)"
  by (auto simp: count_at_def map_has_def fun_eq_iff)

lemma map_of_count_up: "map_of (count_up k xs) = (map_of xs)(k \<mapsto> s32 ((case map_of xs k of None \<Rightarrow> 0 | Some c \<Rightarrow> c) + 1))"
  by (auto simp: count_up_def fun_eq_iff split: option.splits)

text \<open>Keys in order, each once.\<close>

definition keys :: "(nat \<times> 'v) list \<Rightarrow> nat set" where
  "keys xs = fst ` set xs"

lemma keys_dom: "keys xs = dom (map_of xs)"
  by (simp add: keys_def dom_map_of_conv_image_fst)

lemma keys_Cons: "keys ((k, v) # xs) = insert k (keys xs)"
  by (simp add: keys_def)

lemma map_has_keys: "map_has k xs \<longleftrightarrow> k \<in> keys xs"
  by (auto simp: map_has_def keys_dom)

lemma keys_put [simp]: "keys (map_put k v xs) = insert k (keys xs)"
  by (simp add: keys_dom)

lemma keys_count [simp]: "keys (count_at k xs) = insert k (keys xs)" "keys (count_up k xs) = insert k (keys xs)"
  by (auto simp: keys_dom map_of_count_up split: if_splits)

lemma keys_erase [simp]: "keys (map_erase k xs) = keys xs - {k}"
  by (auto simp: keys_dom split: if_splits)

definition in_order :: "(nat \<times> 'v) list \<Rightarrow> bool" where
  "in_order xs \<longleftrightarrow> sorted_wrt (<) (map fst xs)"

lemma in_order_put: "in_order xs \<Longrightarrow> in_order (map_put k v xs)"
proof (induction k v xs rule: map_put.induct)
  case (2 k v k' v' xs)
  have "fst ` set (map_put k v xs) = insert k (fst ` set xs)" using keys_put by (simp add: keys_def)
  then show ?case using 2 by (fastforce simp: in_order_def)
qed (simp add: in_order_def)

lemma in_order_count: "in_order xs \<Longrightarrow> in_order (count_at k xs)" "in_order xs \<Longrightarrow> in_order (count_up k xs)"
  by (simp_all add: count_at_def count_up_def in_order_put)

lemma in_order_erase: "in_order xs \<Longrightarrow> in_order (map_erase k xs)"
  by (simp add: in_order_def map_erase_def sorted_wrt_map sorted_wrt_filter)

lemma in_order_distinct: "in_order xs \<Longrightarrow> distinct (map fst xs)"
  by (simp add: in_order_def strict_sorted_iff)

text \<open>The shared pointers in an object's memory, by their blocks.\<close>

definition link_at :: "(nat \<Rightarrow> nat) \<Rightarrow> nat \<Rightarrow> nat option" where
  "link_at word_at p = (if word_at (p + 8) = shared_count_id \<and> word_at (p + 4) \<noteq> 0 then Some (word_at (p + 4)) else None)"

definition links :: "(nat \<Rightarrow> nat) \<Rightarrow> nat \<times> nat \<Rightarrow> nat list" where
  "links word_at obj = List.map_filter (\<lambda>n. link_at word_at (fst obj + n)) (offsets (snd obj) 0)"

lemma fold_map_filter: "fold f (List.map_filter g xs) s = fold (\<lambda>x. case g x of None \<Rightarrow> id | Some y \<Rightarrow> f y) xs s"
  by (induction xs arbitrary: s) (simp_all add: map_filter_simps split: option.splits)

lemma scan_and_count_links:
  "scan_and_count word_at area len m = fold (\<lambda>pi. if pi \<in> keys m then count_up pi else id) (links word_at (area, len))"
  unfolding fun_eq_iff scan_and_count_def links_def fold_map_filter
  by (intro allI fold_cong refl ext) (auto simp: layout_at_def link_at_def map_has_keys)

lemma scan_and_mark_links:
  "scan_and_mark word_at area len =
    fold (\<lambda>pi (m2, todo). if pi \<in> keys m2 then (map_erase pi m2, todo @ [pi]) else (m2, todo)) (links word_at (area, len))"
  unfolding fun_eq_iff scan_and_mark_def links_def fold_map_filter
  by (intro allI fold_cong refl ext) (auto simp: layout_at_def link_at_def map_has_keys)

section \<open>Counting\<close>

definition val :: "(nat \<times> int) list \<Rightarrow> nat \<Rightarrow> int" where
  "val xs k = (case map_of xs k of None \<Rightarrow> 0 | Some c \<Rightarrow> c)"

lemma nil_simps: "keys [] = {}" "val [] k = 0"
  by (simp_all add: keys_def val_def)

text \<open>Values as a \<open>long\<close> has them.\<close>

definition longs :: "(nat \<times> int) list \<Rightarrow> bool" where
  "longs xs \<longleftrightarrow> (\<forall>k. s32 (val xs k) = val xs k)"

definition found :: "(nat \<Rightarrow> nat) \<Rightarrow> registry \<Rightarrow> nat \<Rightarrow> nat" where
  "found word_at m k = (\<Sum>(pi, obj)\<leftarrow>m. count_list (links word_at obj) k)"

lemma s32_s32: "s32 (s32 x + y) = s32 (x + y)"
proof -
  have "s32 x + y + 2 ^ 31 = (x + 2 ^ 31) mod 2 ^ 32 + y" by (simp add: s32_def)
  moreover have "((x + 2 ^ 31) mod 2 ^ 32 + y) mod 2 ^ 32 = (x + 2 ^ 31 + y) mod 2 ^ 32" by (rule mod_add_left_eq)
  moreover have "x + 2 ^ 31 + y = x + y + 2 ^ 31" by simp
  ultimately show ?thesis by (simp only: s32_def [of "s32 x + y"] s32_def [of "x + y"])
qed

lemma s32_idem [simp]: "s32 (s32 x) = s32 x"
  using s32_s32 [of x 0] by simp

lemma val_count [simp]:
  "val (count_at k xs) = val xs"
  "val (count_up k xs) = (val xs)(k := s32 (val xs k + 1))"
  by (auto simp: val_def fun_eq_iff map_of_count_up split: option.splits)

lemma count_links:
  assumes "longs m2" and "in_order m2"
  shows "keys (fold (\<lambda>pi. if pi \<in> K then count_up pi else id) ls m2) = keys m2 \<union> (K \<inter> set ls)"
    and "longs (fold (\<lambda>pi. if pi \<in> K then count_up pi else id) ls m2)"
    and "in_order (fold (\<lambda>pi. if pi \<in> K then count_up pi else id) ls m2)"
    and "k \<in> K \<Longrightarrow> val (fold (\<lambda>pi. if pi \<in> K then count_up pi else id) ls m2) k = s32 (val m2 k + int (count_list ls k))"
proof -
  have "keys (fold (\<lambda>pi. if pi \<in> K then count_up pi else id) ls m2) = keys m2 \<union> (K \<inter> set ls) \<and>
    longs (fold (\<lambda>pi. if pi \<in> K then count_up pi else id) ls m2) \<and>
    in_order (fold (\<lambda>pi. if pi \<in> K then count_up pi else id) ls m2) \<and>
    (k \<in> K \<longrightarrow> val (fold (\<lambda>pi. if pi \<in> K then count_up pi else id) ls m2) k = s32 (val m2 k + int (count_list ls k)))"
    using assms
  proof (induction ls arbitrary: m2)
    case Nil
    then show ?case by (simp add: longs_def)
  next
    case (Cons l ls)
    have "longs (count_up l m2)" using Cons.prems(1) by (simp add: longs_def)
    note up = Cons.IH [OF this in_order_count(2) [OF Cons.prems(2)]] and same = Cons.IH [OF Cons.prems]
    have add: "s32 (s32 (val m2 l + 1) + int n) = s32 (val m2 l + (1 + int n))" for n
      by (simp only: s32_s32 add.assoc)
    show ?case
    proof (cases "l \<in> K")
      case True
      then show ?thesis using up by (auto simp: add)
    next
      case False
      then show ?thesis using same by auto
    qed
  qed
  then show "keys (fold (\<lambda>pi. if pi \<in> K then count_up pi else id) ls m2) = keys m2 \<union> (K \<inter> set ls)"
    and "longs (fold (\<lambda>pi. if pi \<in> K then count_up pi else id) ls m2)"
    and "in_order (fold (\<lambda>pi. if pi \<in> K then count_up pi else id) ls m2)"
    and "k \<in> K \<Longrightarrow> val (fold (\<lambda>pi. if pi \<in> K then count_up pi else id) ls m2) k = s32 (val m2 k + int (count_list ls k))"
    by blast+
qed

text \<open>Every registered object has owners.\<close>

definition active :: "sp_memory \<Rightarrow> registry \<Rightarrow> bool" where
  "active mem m \<longleftrightarrow> (\<forall>k\<in>keys m. \<exists>b. blocks mem k = Some b \<and> use_count b \<noteq> 0)"

definition owners_of :: "sp_memory \<Rightarrow> nat \<Rightarrow> int" where
  "owners_of mem k = (case blocks mem k of None \<Rightarrow> 0 | Some b \<Rightarrow> use_count b)"

lemma owners_of_count: "blocks mem k = Some b \<Longrightarrow> block_use_count k mem = Inr (owners_of mem k)"
  by (simp add: block_use_count_def at_block_def owners_of_def)

lemma active_simps: "active mem ((k, obj) # m) \<longleftrightarrow> (\<exists>b. blocks mem k = Some b \<and> use_count b \<noteq> 0) \<and> active mem m"
  by (simp add: active_def keys_def)

lemma count_loop_counts:
  assumes "active mem rest" and "longs m2" and "in_order m2" and "keys rest \<subseteq> keys m"
  shows "\<exists>m2'. count_loop word_at mem m rest m2 = Inr m2' \<and> in_order m2' \<and>
    keys m2 \<union> keys rest \<subseteq> keys m2' \<and> keys m2' \<subseteq> keys m2 \<union> keys m \<and>
    (\<forall>k\<in>keys m. val m2' k = s32 (val m2 k + int (found word_at rest k)))"
  using assms
proof (induction word_at mem m rest m2 rule: count_loop.induct)
  case (1 word_at mem m m2)
  then show ?case by (simp add: keys_def found_def longs_def)
next
  case (2 word_at mem m pi area len rest m2)
  from 2(2) obtain b where b: "blocks mem pi = Some b" "use_count b \<noteq> 0" "active mem rest" by (auto simp: active_simps)
  then have go: "block_use_count pi mem = Inr (owners_of mem pi)" "guard (owners_of mem pi \<noteq> 0) AssertFailed = Inr ()"
    by (simp_all add: owners_of_count owners_of_def)
  have m1: "longs (count_at pi m2)" "in_order (count_at pi m2)" using 2(3,4) by (simp_all add: longs_def in_order_count)
  have sub: "keys rest \<subseteq> keys m" "pi \<in> keys m" using 2(5) by (simp_all add: keys_def)
  let ?m = "scan_and_count word_at area len m (count_at pi m2)"
  note s = count_links [OF m1, where K = "keys m" and ls = "links word_at (area, len)", folded scan_and_count_links]
  from 2(1) [OF b(3) s(2,3) sub(1)] obtain m2' where m2': "count_loop word_at mem m rest ?m = Inr m2'" "in_order m2'"
    "keys ?m \<union> keys rest \<subseteq> keys m2'" "keys m2' \<subseteq> keys ?m \<union> keys m"
    "\<forall>k\<in>keys m. val m2' k = s32 (val ?m k + int (found word_at rest k))" by blast
  have "\<forall>k\<in>keys m. val m2' k = s32 (val m2 k + int (found word_at ((pi, area, len) # rest) k))"
    using m2'(5) s(4) by (simp add: found_def s32_s32 add.assoc)
  moreover have "keys m2 \<union> keys ((pi, area, len) # rest) \<subseteq> keys m2'" "keys m2' \<subseteq> keys m2 \<union> keys m"
    using m2'(3,4) s(1) sub(2) by (auto simp: keys_Cons)
  ultimately show ?case using m2'(1,2) go by simp
qed

lemma open_loop_roots:
  assumes "\<forall>k\<in>keys m2. \<exists>b. blocks mem k = Some b" and "in_order m2"
  shows "\<exists>todo. open_loop mem m2 = Inr todo \<and> set todo = {k \<in> keys m2. owners_of mem k \<noteq> val m2 k}"
  using assms
proof (induction mem m2 rule: open_loop.induct)
  case (2 mem pi c rest)
  then obtain b where b: "blocks mem pi = Some b" by (auto simp: keys_def)
  have rest: "\<forall>k\<in>keys rest. \<exists>b. blocks mem k = Some b" "in_order rest" "pi \<notin> keys rest"
    using 2(2,3) by (auto simp: keys_def in_order_def)
  obtain todo where todo: "open_loop mem rest = Inr todo" "set todo = {k \<in> keys rest. owners_of mem k \<noteq> val rest k}"
    using 2(1) [OF rest(1,2)] by blast
  have "val ((pi, c) # rest) k = val rest k" if "k \<in> keys rest" for k using that rest(3) by (auto simp: val_def)
  moreover have "val ((pi, c) # rest) pi = c" by (simp add: val_def)
  ultimately have "set (if owners_of mem pi \<noteq> c then pi # todo else todo) =
      {k \<in> keys ((pi, c) # rest). owners_of mem k \<noteq> val ((pi, c) # rest) k}"
    using todo(2) rest(3) by (auto simp: keys_Cons)
  then show ?case using todo(1) owners_of_count [OF b] by simp
qed (simp add: keys_def)

section \<open>Marking\<close>

text \<open>What the code is about: an object points to those in whose blocks its memory has shared pointers, and is owned
  from outside when it has more owners than were found in registered objects.\<close>

definition points :: "(nat \<Rightarrow> nat) \<Rightarrow> registry \<Rightarrow> (nat \<times> nat) set" where
  "points word_at m = {(p, q). \<exists>obj. map_of m p = Some obj \<and> q \<in> set (links word_at obj) \<and> q \<in> keys m}"

definition outside :: "(nat \<Rightarrow> nat) \<Rightarrow> sp_memory \<Rightarrow> registry \<Rightarrow> nat set" where
  "outside word_at mem m = {k \<in> keys m. owners_of mem k \<noteq> s32 (int (found word_at m k))}"

definition reached :: "(nat \<Rightarrow> nat) \<Rightarrow> sp_memory \<Rightarrow> registry \<Rightarrow> nat set" where
  "reached word_at mem m = (points word_at m)\<^sup>* `` outside word_at mem m"

lemma mark_links:
  "keys (fst (fold (\<lambda>pi (m2, todo). if pi \<in> keys m2 then (map_erase pi m2, todo @ [pi]) else (m2, todo)) ls (m2, todo))) = keys m2 - set ls"
  "set (snd (fold (\<lambda>pi (m2, todo). if pi \<in> keys m2 then (map_erase pi m2, todo @ [pi]) else (m2, todo)) ls (m2, todo))) = set todo \<union> (keys m2 \<inter> set ls)"
  "in_order m2 \<Longrightarrow> in_order (fst (fold (\<lambda>pi (m2, todo). if pi \<in> keys m2 then (map_erase pi m2, todo @ [pi]) else (m2, todo)) ls (m2, todo)))"
  by (induction ls arbitrary: m2 todo) (auto simp: in_order_erase)

definition mark_inv :: "(nat \<Rightarrow> nat) \<Rightarrow> sp_memory \<Rightarrow> registry \<Rightarrow> (nat \<times> int) list \<Rightarrow> nat list \<Rightarrow> bool" where
  "mark_inv word_at mem m m2 todo \<longleftrightarrow>
     keys m2 \<subseteq> keys m \<and> set todo \<subseteq> keys m - keys m2 \<and> in_order m2 \<and>
     keys m - keys m2 \<subseteq> reached word_at mem m \<and> outside word_at mem m \<inter> keys m2 = {} \<and>
     (\<forall>(p, q) \<in> points word_at m. p \<notin> keys m2 \<and> p \<notin> set todo \<longrightarrow> q \<notin> keys m2)"

lemma points_keys: "(p, q) \<in> points word_at m \<Longrightarrow> p \<in> keys m"
  by (auto simp: points_def keys_dom)

lemma reached_step: "p \<in> reached word_at mem m \<Longrightarrow> (p, q) \<in> points word_at m \<Longrightarrow> q \<in> reached word_at mem m"
  unfolding reached_def by (auto intro: rtrancl.rtrancl_into_rtrancl)

lemma mark_step:
  assumes "mark_inv word_at mem m m2 (p # todo)" and "map_of m p = Some (area, len)"
  shows "mark_inv word_at mem m (fst (scan_and_mark word_at area len (m2, todo))) (snd (scan_and_mark word_at area len (m2, todo)))"
proof -
  let ?ls = "links word_at (area, len)"
  note s = mark_links [where ls = ?ls and ?m2.0 = m2 and todo = todo, folded scan_and_mark_links]
  have inv: "keys m2 \<subseteq> keys m" "p \<in> keys m" "p \<notin> keys m2" "set todo \<subseteq> keys m - keys m2" "in_order m2"
      "keys m - keys m2 \<subseteq> reached word_at mem m" "outside word_at mem m \<inter> keys m2 = {}"
    and closed: "\<And>p' q. (p', q) \<in> points word_at m \<Longrightarrow> p' \<notin> keys m2 \<Longrightarrow> p' \<noteq> p \<Longrightarrow> p' \<notin> set todo \<Longrightarrow> q \<notin> keys m2"
    using assms(1) by (auto simp: mark_inv_def)
  have edge: "(p, q) \<in> points word_at m \<longleftrightarrow> q \<in> set ?ls \<inter> keys m" for q using assms(2) by (auto simp: points_def)
  have "keys m - (keys m2 - set ?ls) \<subseteq> reached word_at mem m"
  proof
    fix q assume q: "q \<in> keys m - (keys m2 - set ?ls)"
    show "q \<in> reached word_at mem m"
    proof (cases "q \<in> keys m2")
      case True
      then have "(p, q) \<in> points word_at m" using q edge by simp
      moreover have "p \<in> reached word_at mem m" using inv(2,3,6) by auto
      ultimately show ?thesis by (rule reached_step [rotated])
    qed (use q inv(6) in auto)
  qed
  moreover have "q \<notin> keys m2 - set ?ls"
    if "(p', q) \<in> points word_at m" "p' \<notin> keys m2 - set ?ls" "p' \<notin> set todo \<union> (keys m2 \<inter> set ?ls)" for p' q
  proof (cases "p' = p")
    case True
    then show ?thesis using that(1) edge by simp
  next
    case False
    then show ?thesis using closed [OF that(1)] that(2,3) by auto
  qed
  ultimately show ?thesis using inv s unfolding mark_inv_def by auto
qed

lemma mark_done:
  assumes "mark_inv word_at mem m m2 []" and "keys m2 \<subseteq> keys m"
  shows "keys m2 = keys m - reached word_at mem m"
proof -
  have closed: "q \<notin> keys m2" if "(p, q) \<in> points word_at m" "p \<notin> keys m2" for p q
    using assms(1) that by (auto simp: mark_inv_def)
  have "q \<notin> keys m2" if "r \<in> outside word_at mem m" "(r, q) \<in> (points word_at m)\<^sup>*" for r q
    using that(2)
  proof (induction rule: rtrancl_induct)
    case base
    then show ?case using that(1) assms(1) by (auto simp: mark_inv_def)
  qed (rule closed)
  then show ?thesis using assms by (auto simp: mark_inv_def reached_def)
qed

lemma mark_loop_marks:
  assumes "mark_inv word_at mem m m2 todo"
  shows "\<exists>m2'. mark_loop word_at m m2 todo = Inr m2' \<and> in_order m2' \<and> keys m2' = keys m - reached word_at mem m"
  using assms
proof (induction word_at m m2 todo rule: mark_loop.induct)
  case (1 word_at m m2)
  then show ?case using mark_done [OF 1] by (simp add: mark_inv_def)
next
  case (2 word_at m m2 p todo)
  then have "p \<in> keys m" by (simp add: mark_inv_def)
  then obtain area len where obj: "map_of m p = Some (area, len)" by (auto simp: keys_dom)
  from 2(1) [OF obj refl mark_step [OF 2(2) obj]] show ?case using obj by simp
qed

section \<open>The unreachable objects\<close>

lemma keys_erase_all: "keys (fold map_erase ks xs) = keys xs - set ks"
  by (induction ks arbitrary: xs) auto

lemma in_order_erase_all: "in_order xs \<Longrightarrow> in_order (fold map_erase ks xs)"
  by (induction ks arbitrary: xs) (simp_all add: in_order_erase)

lemma find_unreachable_finds:
  assumes "active mem m"
  shows "\<exists>m2. find_unreachable_objects_impl word_at mem m = Inr m2 \<and> in_order m2 \<and> keys m2 = keys m - reached word_at mem m"
proof -
  have "longs ([] :: (nat \<times> int) list)" "in_order ([] :: (nat \<times> int) list)"
    by (simp_all add: longs_def val_def in_order_def s32_def)
  from count_loop_counts [OF assms this order_refl, of word_at] obtain m2 where m2: "count_loop word_at mem m m [] = Inr m2" "in_order m2"
    "keys m2 = keys m" "\<forall>k\<in>keys m. val m2 k = s32 (int (found word_at m k))" by (auto simp: nil_simps)
  have "\<forall>k\<in>keys m2. \<exists>b. blocks mem k = Some b" using assms m2(3) by (auto simp: active_def)
  from open_loop_roots [OF this m2(2)] obtain todo where todo: "open_loop mem m2 = Inr todo"
    "set todo = {k \<in> keys m2. owners_of mem k \<noteq> val m2 k}" by blast
  then have roots: "set todo = outside word_at mem m" using m2(3,4) by (auto simp: outside_def)
  have "mark_inv word_at mem m (fold map_erase todo m2) todo"
    using roots m2(2,3) points_keys by (fastforce simp: mark_inv_def keys_erase_all in_order_erase_all reached_def outside_def)
  from mark_loop_marks [OF this] show ?thesis
    using m2(1) todo(1) by (auto simp: find_unreachable_objects_impl_def)
qed

lemma report_finds: "keys m2 \<subseteq> keys m \<Longrightarrow> report_loop m m2 = Inr (map (\<lambda>(k, c). the (map_of m k)) m2)"
  by (induction m m2 rule: report_loop.induct) (auto simp: keys_Cons keys_dom [of "_ :: registry"] split: option.splits)

section \<open>Collecting keeps the counts\<close>

lemma copy_then_reset:
  assumes "blocks mem pi = Some b" and "0 < use_count b" and "use_count b < 2 ^ 31 - 1"
  shows "\<exists>mem1. shared_count_copy (Some pi) mem = Inr (Some pi, mem1) \<and> delete_shared_count (Some pi) mem1 = Inr mem"
proof -
  have "s32 (use_count b + 1) = use_count b + 1" "s32 (use_count b) = use_count b" using assms(2,3) by (simp_all add: s32_id)
  moreover have "mem\<lparr>blocks := (blocks mem)(pi \<mapsto> b)\<rparr> = mem" using assms(1) by (simp add: fun_upd_idem)
  ultimately show ?thesis using assms
    by (simp add: shared_count_copy_def delete_shared_count_def when_block_def add_ref_copy_def release_def at_block_def set_block_def Let_def)
qed

lemma free_at_keeps:
  assumes "\<forall>k\<in>keys m2. \<exists>b. blocks mem k = Some b \<and> 0 < use_count b \<and> use_count b < 2 ^ 31 - 1"
  shows "\<exists>w' free'. free_at m2 p (w, mem, free) = Inr (w', mem, free')"
proof (cases "lid (layout_at w p) = shared_count_id \<and> lpi (layout_at w p) \<noteq> 0 \<and> map_has (lpi (layout_at w p)) m2 \<and> lpx (layout_at w p) \<noteq> 0")
  case True
  let ?pi = "lpi (layout_at w p)"
  obtain b where "blocks mem ?pi = Some b" "0 < use_count b" "use_count b < 2 ^ 31 - 1"
    using assms True by (auto simp: map_has_keys)
  from copy_then_reset [OF this] obtain mem1 where
    "shared_count_copy (Some ?pi) mem = Inr (Some ?pi, mem1)" "delete_shared_count (Some ?pi) mem1 = Inr mem" by blast
  then show ?thesis using True
    by (simp add: free_at_def Let_def shared_ptr_copy_def shared_ptr_swap_def shared_count_swap_def delete_shared_ptr_def)
next
  case False
  then show ?thesis by (auto simp: free_at_def Let_def)
qed

lemma free_loop_keeps:
  assumes "\<forall>k\<in>keys m2. \<exists>b. blocks mem k = Some b \<and> 0 < use_count b \<and> use_count b < 2 ^ 31 - 1" and "keys rest \<subseteq> keys m"
  shows "\<exists>w' free'. free_loop m m2 rest (w, mem, free) = Inr (w', mem, free')"
  using assms(2)
proof (induction rest arbitrary: w free)
  case (Cons r rest)
  obtain pi c where r: "r = (pi, c)" by fastforce
  then have "pi \<in> keys m" "keys rest \<subseteq> keys m" using Cons.prems by (simp_all add: keys_Cons)
  then obtain area len where obj: "map_of m pi = Some (area, len)" by (auto simp: keys_dom)
  have "\<exists>w' free'. fold (\<lambda>n r. andThen r (free_at m2 (area + n))) ns (Inr (w, mem, free)) = Inr (w', mem, free')" for ns w free
  proof (induction ns arbitrary: w free)
    case (Cons n ns)
    obtain w' free' where "free_at m2 (area + n) (w, mem, free) = Inr (w', mem, free')" using free_at_keeps [OF assms(1)] by blast
    then show ?case using Cons by simp
  qed simp
  then obtain w' free' where "scan_and_free area len m2 (w, mem, free) = Inr (w', mem, free')"
    unfolding scan_and_free_def by blast
  then show ?case using Cons.IH [OF \<open>keys rest \<subseteq> keys m\<close>] r obj by simp
qed simp

section \<open>Properties\<close>

text \<open>Three objects of twelve bytes: two that own each other and one that is owned from outside.\<close>

definition sample_word :: "nat \<Rightarrow> nat" where
  "sample_word p = (if p = 104 then 32 else if p = 204 then 16 else if p = 108 \<or> p = 208 \<or> p = 308 then shared_count_id else 0)"

definition sample_registry :: registry where
  "sample_registry = sp_scalar_constructor_hook 200 12 32 (sp_scalar_constructor_hook 300 12 48 (sp_scalar_constructor_hook 100 12 16 []))"

definition sample_memory :: sp_memory where
  "sample_memory = \<lparr>blocks = (\<lambda>k. if k \<in> {16, 32, 48} then Some (new_counted (Impl_p (Some 1))) else None), disposed = [], released = []\<rparr>"

lemma sample_links: "links sample_word (100, 12) = [32]" "links sample_word (200, 12) = [16]" "links sample_word (300, 12) = []"
  by (simp_all add: links_def offsets.simps layout_size_def pointer_align_def map_filter_simps link_at_def sample_word_def shared_count_id_def)

lemma sample_registered: "sample_registry = [(16, 100, 12), (32, 200, 12), (48, 300, 12)]"
  by (simp add: sample_registry_def sp_scalar_constructor_hook_def)

text \<open>C12. \<open>find_unreachable_objects\<close> stops without a failed assertion and finds exactly the registered objects that no
  chain of shared pointers reaches from an object owned from outside, each once: a cycle that only owns itself
  is found, and nothing that can still be reached is.\<close>

theorem find_unreachable_correct:
  assumes "active mem m"
  shows "\<exists>m2. find_unreachable_objects_impl word_at mem m = Inr m2 \<and> distinct (map fst m2) \<and>
    set (map fst m2) = {k \<in> keys m. \<not> (\<exists>r. r \<in> outside word_at mem m \<and> (r, k) \<in> (points word_at m)\<^sup>*)} \<and>
    find_unreachable_objects word_at mem m True = Inr (length m2, map (\<lambda>(k, c). the (map_of m k)) m2)"
proof -
  obtain m2 where m2: "find_unreachable_objects_impl word_at mem m = Inr m2" "in_order m2" "keys m2 = keys m - reached word_at mem m"
    using find_unreachable_finds [OF assms] by blast
  moreover have "report_loop m m2 = Inr (map (\<lambda>(k, c). the (map_of m k)) m2)" using m2(3) by (intro report_finds) auto
  moreover have "set (map fst m2) = keys m2" by (simp add: keys_def)
  ultimately show ?thesis using in_order_distinct [OF m2(2)]
    by (auto simp: find_unreachable_objects_def reached_def Image_def)
qed

theorem find_unreachable_correct_witness:
  "\<exists>m2. find_unreachable_objects_impl sample_word sample_memory sample_registry = Inr m2 \<and> set (map fst m2) = {16, 32}"
proof -
  have act: "active sample_memory sample_registry"
    by (simp add: active_def sample_registered keys_def sample_memory_def new_counted_def)
  have out: "outside sample_word sample_memory sample_registry = {48}"
    by (auto simp: outside_def sample_registered keys_def found_def sample_links owners_of_def sample_memory_def new_counted_def s32_def)
  have only: "(48, k) \<in> (points sample_word sample_registry)\<^sup>* \<Longrightarrow> k = 48" for k
    by (induction rule: rtrancl_induct) (auto simp: points_def sample_registered sample_links)
  have "(48, 16) \<notin> (points sample_word sample_registry)\<^sup>*" "(48, 32) \<notin> (points sample_word sample_registry)\<^sup>*"
    using only [of 16] only [of 32] by auto
  then have "{k \<in> keys sample_registry. \<not> (\<exists>r. r \<in> outside sample_word sample_memory sample_registry \<and>
      (r, k) \<in> (points sample_word sample_registry)\<^sup>*)} = {16, 32}"
    unfolding out by (auto simp: sample_registered keys_def)
  then show ?thesis using find_unreachable_correct [OF act, of sample_word] by auto
qed

end
