(* ===== verification/QuickAlloc.thy ===== *)
theory QuickAlloc
  imports Prelude
begin

text \<open>
  The allocator for control blocks (\<open>src/smart_ptr/boost/smart_ptr/detail/quick_allocator.hpp\<close>), which an option of
  the library turns on: blocks of one size from pages of 512 bytes, and a list of freed blocks that is linked
  through the blocks themselves.

  A block is its page and its index there. \<open>next\<close> is the first word of every block; whoever owns a block may
  write to it. Pages come from \<open>::new\<close>, which answers addresses that are not in use (\<open>fresh\<close>).
\<close>

section \<open>\<open>allocator_impl\<close>\<close>

type_synonym qa_block = "nat \<times> nat"

record allocator =
  item_size :: nat
  qa_free :: "qa_block option"
  qa_page :: "nat option"
  qa_last :: nat
  qa_next :: "qa_block \<Rightarrow> qa_block option"

definition items_per_page :: "allocator \<Rightarrow> nat" where
  "items_per_page a = 512 div item_size a"

definition new_allocator :: "nat \<Rightarrow> (qa_block \<Rightarrow> qa_block option) \<Rightarrow> allocator" where
  "new_allocator n garbage = \<lparr>item_size = n, qa_free = None, qa_page = None, qa_last = 512 div n, qa_next = garbage\<rparr>"

text \<open>The page pointer is null only until the first page is there.\<close>

definition qa_alloc :: "nat \<Rightarrow> allocator \<Rightarrow> (qa_block \<times> allocator) res" where
  "qa_alloc fresh a =
     (case qa_free a of
        Some x \<Rightarrow> Inr (x, a\<lparr>qa_free := qa_next a x\<rparr>)
      | None \<Rightarrow>
          let a = (if qa_last a = items_per_page a then a\<lparr>qa_page := Some fresh, qa_last := 0\<rparr> else a) in
          case qa_page a of None \<Rightarrow> Inl NullPointer
          | Some p \<Rightarrow> Inr ((p, qa_last a), a\<lparr>qa_last := qa_last a + 1\<rparr>))"

text \<open>The sized version passes other sizes on to \<open>::operator new\<close>, \<open>None\<close> here.\<close>

definition qa_alloc_sized :: "nat \<Rightarrow> nat \<Rightarrow> allocator \<Rightarrow> (qa_block option \<times> allocator) res" where
  "qa_alloc_sized n fresh a =
     (if n \<noteq> item_size a then Inr (None, a) else andThen (qa_alloc fresh a) (\<lambda>(x, a). Inr (Some x, a)))"

definition qa_dealloc :: "qa_block option \<Rightarrow> allocator \<Rightarrow> allocator" where
  "qa_dealloc pv a =
     (case pv of None \<Rightarrow> a
      | Some pb \<Rightarrow> let a = a\<lparr>qa_next := (qa_next a)(pb := qa_free a)\<rparr> in a\<lparr>qa_free := Some pb\<rparr>)"

definition qa_dealloc_sized :: "qa_block option \<Rightarrow> nat \<Rightarrow> allocator \<Rightarrow> allocator" where
  "qa_dealloc_sized pv n a = (if n \<noteq> item_size a then a else qa_dealloc pv a)"

section \<open>Programs\<close>

text \<open>Blocks are allocated, written to by their owners, and given back by them.\<close>

datatype qa_call = Alloc nat | Write qa_block "qa_block option" | Dealloc qa_block

text \<open>The pages obtained so far, the allocator and the blocks in use.\<close>

record qa_state =
  pages :: "nat set"
  alloc :: allocator
  in_use :: "qa_block set"

inductive qa_run :: "nat \<Rightarrow> qa_state \<Rightarrow> bool" for n where
  qa_start: "qa_run n \<lparr>pages = {}, alloc = new_allocator n garbage, in_use = {}\<rparr>"
| qa_alloc: "qa_run n s \<Longrightarrow> fresh \<notin> pages s \<Longrightarrow> qa_alloc fresh (alloc s) = Inr (x, a) \<Longrightarrow>
    qa_run n \<lparr>pages = insert fresh (pages s), alloc = a, in_use = insert x (in_use s)\<rparr>"
| qa_write: "qa_run n s \<Longrightarrow> x \<in> in_use s \<Longrightarrow>
    qa_run n (s\<lparr>alloc := (alloc s)\<lparr>qa_next := (qa_next (alloc s))(x := w)\<rparr>\<rparr>)"
| qa_dealloc: "qa_run n s \<Longrightarrow> x \<in> in_use s \<Longrightarrow>
    qa_run n (s\<lparr>alloc := qa_dealloc (Some x) (alloc s), in_use := in_use s - {x}\<rparr>)"

section \<open>The invariant\<close>

text \<open>\<open>chain next p xs\<close>: the list of freed blocks from \<open>p\<close> is \<open>xs\<close>.\<close>

fun chain :: "(qa_block \<Rightarrow> qa_block option) \<Rightarrow> qa_block option \<Rightarrow> qa_block list \<Rightarrow> bool" where
  "chain nxt p [] \<longleftrightarrow> p = None"
| "chain nxt p (x # xs) \<longleftrightarrow> p = Some x \<and> chain nxt (nxt x) xs"

text \<open>A block that was handed out: in an earlier page, or in the current one before \<open>last\<close>.\<close>

definition handed_out :: "qa_state \<Rightarrow> qa_block \<Rightarrow> bool" where
  "handed_out s x \<longleftrightarrow> fst x \<in> pages s \<and> snd x < items_per_page (alloc s) \<and>
     (qa_page (alloc s) = Some (fst x) \<longrightarrow> snd x < qa_last (alloc s))"

definition qa_ok :: "nat \<Rightarrow> qa_state \<Rightarrow> bool" where
  "qa_ok n s \<longleftrightarrow> item_size (alloc s) = n \<and>
     (\<exists>xs. chain (qa_next (alloc s)) (qa_free (alloc s)) xs \<and> distinct xs \<and> set xs \<inter> in_use s = {} \<and> (\<forall>x\<in>set xs. handed_out s x)) \<and>
     (\<forall>x\<in>in_use s. handed_out s x) \<and> qa_last (alloc s) \<le> items_per_page (alloc s) \<and>
     (case qa_page (alloc s) of None \<Rightarrow> qa_last (alloc s) = items_per_page (alloc s) | Some p \<Rightarrow> p \<in> pages s)"

lemma chain_other: "x \<notin> set xs \<Longrightarrow> chain (nxt(x := w)) p xs = chain nxt p xs"
  by (induction nxt p xs rule: chain.induct) auto

lemma alloc_ok:
  assumes "qa_ok n s" and "fresh \<notin> pages s" and "0 < 512 div n"
  shows "\<exists>x a. qa_alloc fresh (alloc s) = Inr (x, a) \<and> x \<notin> in_use s \<and>
    qa_ok n \<lparr>pages = insert fresh (pages s), alloc = a, in_use = insert x (in_use s)\<rparr>"
proof -
  let ?a = "alloc s"
  obtain xs where xs: "chain (qa_next ?a) (qa_free ?a) xs" "distinct xs" "set xs \<inter> in_use s = {}" "\<forall>x\<in>set xs. handed_out s x"
    using assms(1) by (auto simp: qa_ok_def)
  have used: "\<forall>x\<in>in_use s. handed_out s x" "item_size ?a = n" "qa_last ?a \<le> items_per_page ?a"
      "case qa_page ?a of None \<Rightarrow> qa_last ?a = items_per_page ?a | Some p \<Rightarrow> p \<in> pages s"
    using assms(1) by (auto simp: qa_ok_def)
  show ?thesis
  proof (cases xs)
    case (Cons x ys)
    let ?a' = "?a\<lparr>qa_free := qa_next ?a x\<rparr>"
    let ?s = "\<lparr>pages = insert fresh (pages s), alloc = ?a', in_use = insert x (in_use s)\<rparr>"
    have ho: "handed_out s y \<Longrightarrow> handed_out ?s y" for y by (simp add: handed_out_def items_per_page_def)
    have "qa_alloc fresh ?a = Inr (x, ?a')" using xs(1) Cons by (simp add: qa_alloc_def)
    moreover have "qa_ok n ?s" unfolding qa_ok_def
    proof (intro conjI exI [of _ ys])
      show "chain (qa_next (alloc ?s)) (qa_free (alloc ?s)) ys" using xs(1) Cons by simp
    qed (use xs used Cons ho in \<open>auto simp: items_per_page_def split: option.splits\<close>)
    ultimately show ?thesis using xs(3) Cons by auto
  next
    case Nil
    then have none: "qa_free ?a = None" using xs(1) by simp
    show ?thesis
    proof (cases "qa_last ?a = items_per_page ?a")
      case True
      let ?a' = "?a\<lparr>qa_page := Some fresh, qa_last := 1\<rparr>"
      let ?s = "\<lparr>pages = insert fresh (pages s), alloc = ?a', in_use = insert (fresh, 0) (in_use s)\<rparr>"
      have "qa_alloc fresh ?a = Inr ((fresh, 0), ?a')" using none True by (simp add: qa_alloc_def)
      moreover have "(fresh, 0) \<notin> in_use s" using used(1) assms(2) by (auto simp: handed_out_def)
      moreover have "qa_ok n ?s"
        using none used assms(2,3) unfolding qa_ok_def
        by (intro conjI exI [of _ "[]"]) (auto simp: handed_out_def items_per_page_def)
      ultimately show ?thesis by blast
    next
      case False
      then obtain p where p: "qa_page ?a = Some p" "p \<in> pages s" using used(4) by (auto split: option.splits)
      let ?x = "(p, qa_last ?a)" and ?a' = "?a\<lparr>qa_last := qa_last ?a + 1\<rparr>"
      let ?s = "\<lparr>pages = insert fresh (pages s), alloc = ?a', in_use = insert ?x (in_use s)\<rparr>"
      have "qa_alloc fresh ?a = Inr (?x, ?a')" using none False p by (simp add: qa_alloc_def Let_def)
      moreover have "?x \<notin> in_use s" using used(1) p(1) by (auto simp: handed_out_def)
      moreover have "qa_ok n ?s"
        using none used p False unfolding qa_ok_def
        by (intro conjI exI [of _ "[]"]) (auto simp: handed_out_def items_per_page_def)
      ultimately show ?thesis by blast
    qed
  qed
qed

lemma dealloc_ok:
  assumes "qa_ok n s" and "x \<in> in_use s"
  shows "qa_ok n (s\<lparr>alloc := qa_dealloc (Some x) (alloc s), in_use := in_use s - {x}\<rparr>)"
proof -
  let ?s = "s\<lparr>alloc := qa_dealloc (Some x) (alloc s), in_use := in_use s - {x}\<rparr>"
  obtain xs where xs: "chain (qa_next (alloc s)) (qa_free (alloc s)) xs" "distinct xs" "set xs \<inter> in_use s = {}" "\<forall>x\<in>set xs. handed_out s x"
    using assms(1) by (auto simp: qa_ok_def)
  then have "x \<notin> set xs" using assms(2) by auto
  have ho: "handed_out ?s y = handed_out s y" for y
    by (simp add: handed_out_def qa_dealloc_def items_per_page_def)
  show ?thesis unfolding qa_ok_def
  proof (intro conjI exI [of _ "x # xs"])
    show "chain (qa_next (alloc ?s)) (qa_free (alloc ?s)) (x # xs)"
      using xs(1) chain_other [OF \<open>x \<notin> set xs\<close>] by (simp add: qa_dealloc_def)
    show "\<forall>y\<in>set (x # xs). handed_out ?s y" using xs(4) assms unfolding ho by (auto simp: qa_ok_def)
    show "\<forall>y\<in>in_use ?s. handed_out ?s y" using assms(1) unfolding ho by (auto simp: qa_ok_def)
  qed (use assms(1) xs \<open>x \<notin> set xs\<close> in \<open>auto simp: qa_ok_def qa_dealloc_def items_per_page_def split: option.splits\<close>)
qed

lemma write_ok:
  assumes "qa_ok n s" and "x \<in> in_use s"
  shows "qa_ok n (s\<lparr>alloc := (alloc s)\<lparr>qa_next := (qa_next (alloc s))(x := w)\<rparr>\<rparr>)"
proof -
  let ?s = "s\<lparr>alloc := (alloc s)\<lparr>qa_next := (qa_next (alloc s))(x := w)\<rparr>\<rparr>"
  obtain xs where xs: "chain (qa_next (alloc s)) (qa_free (alloc s)) xs" "distinct xs" "set xs \<inter> in_use s = {}" "\<forall>x\<in>set xs. handed_out s x"
    using assms(1) by (auto simp: qa_ok_def)
  then have "x \<notin> set xs" using assms(2) by auto
  have ho: "handed_out ?s y = handed_out s y" for y by (simp add: handed_out_def items_per_page_def)
  show ?thesis unfolding qa_ok_def
  proof (intro conjI exI [of _ xs])
    show "chain (qa_next (alloc ?s)) (qa_free (alloc ?s)) xs" using xs(1) chain_other [OF \<open>x \<notin> set xs\<close>] by simp
    show "\<forall>y\<in>set xs. handed_out ?s y" using xs(4) unfolding ho .
    show "\<forall>y\<in>in_use ?s. handed_out ?s y" using assms(1) unfolding ho by (simp add: qa_ok_def)
  qed (use assms(1) xs in \<open>auto simp: qa_ok_def items_per_page_def split: option.splits\<close>)
qed

lemma qa_run_ok: "qa_run n s \<Longrightarrow> 0 < 512 div n \<Longrightarrow> qa_ok n s"
proof (induction rule: qa_run.induct)
  case (qa_start garbage)
  then show ?case by (auto simp: qa_ok_def new_allocator_def items_per_page_def intro: exI [of _ "[]"])
next
  case (qa_alloc s fresh x a)
  then show ?case using alloc_ok [of n s fresh] by auto
qed (simp_all add: write_ok dealloc_ok)

section \<open>A source of blocks\<close>

text \<open>
  What \<open>new\<close> of a control block relies on: an allocation answers a block that nobody uses and keeps what allows
  the next ones. A series of allocations then answers different blocks.
\<close>

fun gets :: "('p \<Rightarrow> 's \<Rightarrow> ('b \<times> 's) res) \<Rightarrow> 'p list \<Rightarrow> 's \<Rightarrow> ('b list \<times> 's) res" where
  "gets get [] s = Inr ([], s)"
| "gets get (p # ps) s = andThen (get p s) (\<lambda>(b, s). andThen (gets get ps s) (\<lambda>(bs, s). Inr (b # bs, s)))"

locale block_source =
  fixes ok :: "'s \<Rightarrow> bool"
    and can_get :: "'p \<Rightarrow> 's \<Rightarrow> bool"
    and get :: "'p \<Rightarrow> 's \<Rightarrow> ('b \<times> 's) res"
    and used :: "'s \<Rightarrow> 'b set"
  assumes get_new: "ok s \<Longrightarrow> can_get p s \<Longrightarrow> \<exists>b s'. get p s = Inr (b, s') \<and> b \<notin> used s \<and> used s' = insert b (used s) \<and> ok s'"
    and get_later: "get p s = Inr (b, s') \<Longrightarrow> q \<noteq> p \<Longrightarrow> can_get q s \<Longrightarrow> can_get q s'"
begin

lemma gets_new:
  assumes "ok s" and "distinct ps" and "\<forall>p\<in>set ps. can_get p s"
  shows "\<exists>bs s'. gets get ps s = Inr (bs, s') \<and> length bs = length ps \<and> distinct bs \<and> set bs \<inter> used s = {} \<and>
    used s' = used s \<union> set bs \<and> ok s'"
  using assms
proof (induction ps arbitrary: s)
  case (Cons p ps)
  then obtain b s1 where b: "get p s = Inr (b, s1)" "b \<notin> used s" "used s1 = insert b (used s)" "ok s1"
    using get_new [of s p] by auto
  have "\<forall>q\<in>set ps. can_get q s1" using Cons.prems(2,3) get_later [OF b(1)] by (metis distinct.simps(2) list.set_intros(2))
  then obtain bs s' where "gets get ps s1 = Inr (bs, s')" "length bs = length ps" "distinct bs" "set bs \<inter> used s1 = {}"
      "used s' = used s1 \<union> set bs" "ok s'"
    using Cons.IH [OF b(4)] Cons.prems(2) by auto
  then show ?case using b by (intro exI [of _ "b # bs"] exI [of _ s']) auto
qed simp

end

definition qa_good :: "qa_state \<Rightarrow> bool" where
  "qa_good s \<longleftrightarrow> qa_ok (item_size (alloc s)) s \<and> 0 < 512 div item_size (alloc s)"

definition qa_get :: "nat \<Rightarrow> qa_state \<Rightarrow> (qa_block \<times> qa_state) res" where
  "qa_get fresh s =
     andThen (qa_alloc fresh (alloc s)) (\<lambda>(x, a).
     Inr (x, \<lparr>pages = insert fresh (pages s), alloc = a, in_use = insert x (in_use s)\<rparr>))"

lemma qa_get_new:
  assumes "qa_good s" and "fresh \<notin> pages s"
  shows "\<exists>b s'. qa_get fresh s = Inr (b, s') \<and> b \<notin> in_use s \<and> in_use s' = insert b (in_use s) \<and> qa_good s'"
proof -
  let ?n = "item_size (alloc s)"
  obtain x a where x: "qa_alloc fresh (alloc s) = Inr (x, a)" "x \<notin> in_use s"
      "qa_ok ?n \<lparr>pages = insert fresh (pages s), alloc = a, in_use = insert x (in_use s)\<rparr>"
    using alloc_ok [of ?n s fresh] assms by (auto simp: qa_good_def)
  then have "item_size a = ?n" by (simp add: qa_ok_def)
  then show ?thesis using x assms(1) by (simp add: qa_get_def qa_good_def)
qed

interpretation blocks_of: block_source qa_good "\<lambda>fresh s. fresh \<notin> pages s" qa_get in_use
  by unfold_locales (rule qa_get_new, assumption+, auto simp: qa_get_def andThen_Inr_iff)

lemma qa_good_places: "qa_good s \<Longrightarrow> x \<in> in_use s \<Longrightarrow> snd x < 512 div item_size (alloc s) \<and> fst x \<in> pages s"
  by (auto simp: qa_good_def qa_ok_def handed_out_def items_per_page_def)

section \<open>Properties\<close>

text \<open>A block that is larger than a page: the pages have no blocks, and \<open>last\<close> runs away after the first.\<close>

theorem quick_alloc_large:
  assumes "512 < n"
  shows "items_per_page (new_allocator n garbage) = 0 \<and>
    (\<exists>a. qa_alloc fresh (new_allocator n garbage) = Inr ((fresh, 0), a) \<and>
      (\<forall>other. \<exists>a'. qa_alloc other a = Inr ((fresh, 1), a')))"
  using assms by (simp add: items_per_page_def new_allocator_def qa_alloc_def Let_def)

text \<open>C13. For blocks of at most 512 bytes (a page holds none that are larger): whatever a program has allocated, freed and
  written to its blocks, also over the links of the free list in them, any number of further allocations returns that
  many different blocks, none of them in use and each within a page: no control block is handed out twice.\<close>

theorem quick_alloc_exclusive:
  assumes "qa_run n s" and "0 < n" and "n \<le> 512" and "distinct fresh" and "set fresh \<inter> pages s = {}"
  shows "\<exists>bs s'. gets qa_get fresh s = Inr (bs, s') \<and> length bs = length fresh \<and> distinct bs \<and> set bs \<inter> in_use s = {} \<and>
    (\<forall>(p, i) \<in> set bs. p \<in> pages s' \<and> i < 512 div item_size (alloc s'))"
proof -
  have "0 < 512 div n" using assms(2,3) by (simp add: div_greater_zero_iff)
  moreover have "item_size (alloc s) = n" using qa_run_ok [OF assms(1) calculation] by (simp add: qa_ok_def)
  ultimately have "qa_good s" using qa_run_ok [OF assms(1)] by (simp add: qa_good_def)
  moreover have "\<forall>p\<in>set fresh. p \<notin> pages s" using assms(5) by auto
  ultimately obtain bs s' where bs: "gets qa_get fresh s = Inr (bs, s')" "length bs = length fresh" "distinct bs"
      "set bs \<inter> in_use s = {}" "in_use s' = in_use s \<union> set bs" "qa_good s'"
    using blocks_of.gets_new [OF _ assms(4)] by blast
  have "\<forall>(p, i) \<in> set bs. p \<in> pages s' \<and> i < 512 div item_size (alloc s')" using qa_good_places [OF bs(6)] bs(5) by force
  then show ?thesis using bs by blast
qed

theorem quick_alloc_exclusive_witness:
  "\<exists>bs s'. gets qa_get [5, 6, 7] \<lparr>pages = {}, alloc = new_allocator 256 (\<lambda>x. None), in_use = {}\<rparr> = Inr (bs, s') \<and>
    length bs = 3 \<and> distinct bs"
  using quick_alloc_exclusive [OF qa_start [of 256 "\<lambda>x. None"], of "[5, 6, 7]"] by auto

end
