(* ===== verification/Concurrent.thy ===== *)
theory Concurrent
  imports RefCount
begin

text \<open>
  What the Interlocked operations of \<open>sp_counted_base_w32.hpp\<close> are for: threads that share a control block and its
  object. A thread holds some of the owners and observers and is somewhere in one of the member functions; a
  step is one atomic access to the block, one virtual call, or a handle passed to another thread. Threads take
  their steps in any order.
\<close>

section \<open>Threads on a block\<close>

text \<open>Where a thread is: outside, in \<open>release\<close> before \<open>dispose\<close> and before \<open>weak_release\<close>, before \<open>destroy\<close>, and in
  \<open>add_ref_lock\<close> before the read and before the exchange.\<close>

datatype pc = Ready | Disposing | Unpinning | Destroying | Locking | Exchanging int

record sp_thread =
  strong :: nat
  weakly :: nat
  pc :: pc

record conc_state =
  block :: "sp_counted_base option"
  effects :: "effect list"
  threads :: "sp_thread list"

datatype action =
    CopyRef | DropRef | DisposeStep | UnpinStep | DestroyStep
  | AddWeak | DropWeak | StartLock | ReadCount | Exchange
  | GiveRef nat | GiveWeak nat

text \<open>A freed block must not be touched.\<close>

definition on_block :: "(sp_counted_base \<Rightarrow> 'a res) \<Rightarrow> conc_state \<Rightarrow> 'a res" where
  "on_block f s = (case block s of None \<Rightarrow> Inl OutOfBounds | Some b \<Rightarrow> f b)"

definition set_thread :: "nat \<Rightarrow> sp_thread \<Rightarrow> conc_state \<Rightarrow> conc_state" where
  "set_thread t th s = s\<lparr>threads := (threads s)[t := th]\<rparr>"

text \<open>One step of a thread, by the line of the function it is in.\<close>

fun conc_step :: "nat \<Rightarrow> action \<Rightarrow> conc_state \<Rightarrow> conc_state res" where
  "conc_step t CopyRef s = on_block (\<lambda>b. let th = threads s ! t in
     Inr (set_thread t (th\<lparr>strong := strong th + 1\<rparr>) (s\<lparr>block := Some (b\<lparr>use_count := s32 (use_count b + 1)\<rparr>)\<rparr>))) s"
| "conc_step t DropRef s = on_block (\<lambda>b. let th = threads s ! t; b = b\<lparr>use_count := s32 (use_count b - 1)\<rparr> in
     Inr (set_thread t (th\<lparr>strong := strong th - 1, pc := if use_count b = 0 then Disposing else Ready\<rparr>) (s\<lparr>block := Some b\<rparr>))) s"
| "conc_step t DisposeStep s = on_block (\<lambda>b. let th = threads s ! t in
     Inr (set_thread t (th\<lparr>pc := Unpinning\<rparr>) (s\<lparr>effects := effects s @ dispose (block_impl b)\<rparr>))) s"
| "conc_step t UnpinStep s = on_block (\<lambda>b. let th = threads s ! t; b = b\<lparr>weak_count := s32 (weak_count b - 1)\<rparr> in
     Inr (set_thread t (th\<lparr>pc := if weak_count b = 0 then Destroying else Ready\<rparr>) (s\<lparr>block := Some b\<rparr>))) s"
| "conc_step t DestroyStep s = on_block (\<lambda>b. let th = threads s ! t in
     Inr (set_thread t (th\<lparr>pc := Ready\<rparr>) (s\<lparr>block := None\<rparr>))) s"
| "conc_step t AddWeak s = on_block (\<lambda>b. let th = threads s ! t in
     Inr (set_thread t (th\<lparr>weakly := weakly th + 1\<rparr>) (s\<lparr>block := Some (b\<lparr>weak_count := s32 (weak_count b + 1)\<rparr>)\<rparr>))) s"
| "conc_step t DropWeak s = on_block (\<lambda>b. let th = threads s ! t; b = b\<lparr>weak_count := s32 (weak_count b - 1)\<rparr> in
     Inr (set_thread t (th\<lparr>weakly := weakly th - 1, pc := if weak_count b = 0 then Destroying else Ready\<rparr>) (s\<lparr>block := Some b\<rparr>))) s"
| "conc_step t StartLock s = (let th = threads s ! t in Inr (set_thread t (th\<lparr>pc := Locking\<rparr>) s))"
| "conc_step t ReadCount s = on_block (\<lambda>b. let th = threads s ! t; tmp = use_count b in
     Inr (set_thread t (th\<lparr>pc := if tmp = 0 then Ready else Exchanging tmp\<rparr>) s)) s"
| "conc_step t Exchange s = on_block (\<lambda>b. let th = threads s ! t in
     case pc th of
       Exchanging tmp \<Rightarrow>
         if use_count b = tmp
         then Inr (set_thread t (th\<lparr>strong := strong th + 1, pc := Ready\<rparr>) (s\<lparr>block := Some (b\<lparr>use_count := s32 (tmp + 1)\<rparr>)\<rparr>))
         else Inr (set_thread t (th\<lparr>pc := Locking\<rparr>) s)
     | _ \<Rightarrow> Inr s) s"
| "conc_step t (GiveRef u) s = (let th = threads s ! t; s = set_thread t (th\<lparr>strong := strong th - 1\<rparr>) s; th = threads s ! u in
     Inr (set_thread u (th\<lparr>strong := strong th + 1\<rparr>) s))"
| "conc_step t (GiveWeak u) s = (let th = threads s ! t; s = set_thread t (th\<lparr>weakly := weakly th - 1\<rparr>) s; th = threads s ! u in
     Inr (set_thread u (th\<lparr>weakly := weakly th + 1\<rparr>) s))"

text \<open>Steps a thread can take: calls on handles that it has, and then the function's lines in order.\<close>

fun conc_enabled :: "nat \<Rightarrow> action \<Rightarrow> conc_state \<Rightarrow> bool" where
  "conc_enabled t CopyRef s \<longleftrightarrow> pc (threads s ! t) = Ready \<and> 0 < strong (threads s ! t)"
| "conc_enabled t DropRef s \<longleftrightarrow> pc (threads s ! t) = Ready \<and> 0 < strong (threads s ! t)"
| "conc_enabled t DisposeStep s \<longleftrightarrow> pc (threads s ! t) = Disposing"
| "conc_enabled t UnpinStep s \<longleftrightarrow> pc (threads s ! t) = Unpinning"
| "conc_enabled t DestroyStep s \<longleftrightarrow> pc (threads s ! t) = Destroying"
| "conc_enabled t AddWeak s \<longleftrightarrow> pc (threads s ! t) = Ready \<and> (0 < strong (threads s ! t) \<or> 0 < weakly (threads s ! t))"
| "conc_enabled t DropWeak s \<longleftrightarrow> pc (threads s ! t) = Ready \<and> 0 < weakly (threads s ! t)"
| "conc_enabled t StartLock s \<longleftrightarrow> pc (threads s ! t) = Ready \<and> 0 < weakly (threads s ! t)"
| "conc_enabled t ReadCount s \<longleftrightarrow> pc (threads s ! t) = Locking"
| "conc_enabled t Exchange s \<longleftrightarrow> (\<exists>tmp. pc (threads s ! t) = Exchanging tmp)"
| "conc_enabled t (GiveRef u) s \<longleftrightarrow> pc (threads s ! t) = Ready \<and> 0 < strong (threads s ! t) \<and> u < length (threads s)"
| "conc_enabled t (GiveWeak u) s \<longleftrightarrow> pc (threads s ! t) = Ready \<and> 0 < weakly (threads s ! t) \<and> u < length (threads s)"

definition owners_total :: "sp_thread list \<Rightarrow> int" where
  "owners_total ts = (\<Sum>th\<leftarrow>ts. int (strong th))"

definition observers_total :: "sp_thread list \<Rightarrow> int" where
  "observers_total ts = (\<Sum>th\<leftarrow>ts. int (weakly th))"

text \<open>Fewer handles than a \<open>long\<close> counts.\<close>

definition conc_room :: "conc_state \<Rightarrow> bool" where
  "conc_room s \<longleftrightarrow> owners_total (threads s) < 2 ^ 31 - 2 \<and> observers_total (threads s) < 2 ^ 31 - 2"

definition thread_none :: sp_thread where "thread_none = \<lparr>strong = 0, weakly = 0, pc = Ready\<rparr>"

text \<open>Thread 0 has constructed the block, the others do not know it yet.\<close>

inductive conc_run :: "impl \<Rightarrow> conc_state \<Rightarrow> bool" for im where
  conc_start: "conc_run im \<lparr>block = Some (new_counted im), effects = [], threads = thread_none\<lparr>strong := 1\<rparr> # replicate n thread_none\<rparr>"
| conc_move: "conc_run im s \<Longrightarrow> t < length (threads s) \<Longrightarrow> conc_enabled t a s \<Longrightarrow> conc_room s \<Longrightarrow> conc_step t a s = Inr s' \<Longrightarrow>
    conc_run im s'"

section \<open>The life of a block\<close>

text \<open>Each phase determines the counts; at most one thread is past a count of zero.\<close>

datatype phase = Owned | Dying nat | Unpinned nat | Watched | Ending nat | Gone

fun calm_pc :: "pc \<Rightarrow> nat \<Rightarrow> bool" where
  "calm_pc Ready w \<longleftrightarrow> True"
| "calm_pc Locking w \<longleftrightarrow> 0 < w"
| "calm_pc (Exchanging k) w \<longleftrightarrow> 0 < w \<and> k \<noteq> 0"
| "calm_pc p w \<longleftrightarrow> False"

definition calm :: "sp_thread \<Rightarrow> bool" where
  "calm th \<longleftrightarrow> calm_pc (pc th) (weakly th)"

definition all_calm :: "sp_thread list \<Rightarrow> bool" where
  "all_calm ts \<longleftrightarrow> (\<forall>i<length ts. calm (ts ! i))"

definition calm_but :: "nat \<Rightarrow> pc \<Rightarrow> sp_thread list \<Rightarrow> bool" where
  "calm_but u p ts \<longleftrightarrow> u < length ts \<and> pc (ts ! u) = p \<and> (\<forall>i<length ts. i \<noteq> u \<longrightarrow> calm (ts ! i))"

fun in_phase :: "impl \<Rightarrow> phase \<Rightarrow> sp_counted_base option \<Rightarrow> effect list \<Rightarrow> sp_thread list \<Rightarrow> bool" where
  "in_phase im Owned (Some b) es ts \<longleftrightarrow> block_impl b = im \<and> use_count b = owners_total ts \<and> 0 < owners_total ts \<and>
     weak_count b = observers_total ts + 1 \<and> es = [] \<and> all_calm ts"
| "in_phase im (Dying u) (Some b) es ts \<longleftrightarrow> block_impl b = im \<and> use_count b = 0 \<and> owners_total ts = 0 \<and>
     weak_count b = observers_total ts + 1 \<and> es = [] \<and> calm_but u Disposing ts"
| "in_phase im (Unpinned u) (Some b) es ts \<longleftrightarrow> block_impl b = im \<and> use_count b = 0 \<and> owners_total ts = 0 \<and>
     weak_count b = observers_total ts + 1 \<and> es = dispose im \<and> calm_but u Unpinning ts"
| "in_phase im Watched (Some b) es ts \<longleftrightarrow> block_impl b = im \<and> use_count b = 0 \<and> owners_total ts = 0 \<and>
     weak_count b = observers_total ts \<and> 0 < observers_total ts \<and> es = dispose im \<and> all_calm ts"
| "in_phase im (Ending u) (Some b) es ts \<longleftrightarrow> block_impl b = im \<and> use_count b = 0 \<and> owners_total ts = 0 \<and>
     observers_total ts = 0 \<and> weak_count b = 0 \<and> es = dispose im \<and> calm_but u Destroying ts"
| "in_phase im Gone None es ts \<longleftrightarrow> owners_total ts = 0 \<and> observers_total ts = 0 \<and> es = dispose im \<and> all_calm ts"
| "in_phase im ph b es ts \<longleftrightarrow> False"

definition conc_ok :: "impl \<Rightarrow> conc_state \<Rightarrow> bool" where
  "conc_ok im s \<longleftrightarrow> (\<exists>ph. in_phase im ph (block s) (effects s) (threads s))"

section \<open>Totals and calm threads\<close>

lemma owners_update: "i < length ts \<Longrightarrow> owners_total (ts[i := th]) = owners_total ts - int (strong (ts ! i)) + int (strong th)"
  unfolding owners_total_def by (induction ts arbitrary: i) (auto split: nat.splits)

lemma observers_update: "i < length ts \<Longrightarrow> observers_total (ts[i := th]) = observers_total ts - int (weakly (ts ! i)) + int (weakly th)"
  unfolding observers_total_def by (induction ts arbitrary: i) (auto split: nat.splits)

lemma total_nonneg: "0 \<le> owners_total ts" "0 \<le> observers_total ts"
  unfolding owners_total_def observers_total_def by (induction ts) auto

lemma total_member:
  "i < length ts \<Longrightarrow> int (strong (ts ! i)) \<le> owners_total ts"
  "i < length ts \<Longrightarrow> int (weakly (ts ! i)) \<le> observers_total ts"
  using owners_update [of i ts thread_none] observers_update [of i ts thread_none] total_nonneg [of "ts[i := thread_none]"]
  by (simp_all add: thread_none_def)

lemma all_calm_update: "all_calm ts \<Longrightarrow> calm th \<Longrightarrow> all_calm (ts[i := th])"
  by (cases "i < length ts") (auto simp: all_calm_def nth_list_update)

lemma calm_but_update: "all_calm ts \<Longrightarrow> t < length ts \<Longrightarrow> pc th = p \<Longrightarrow> calm_but t p (ts[t := th])"
  by (auto simp: all_calm_def calm_but_def nth_list_update)

lemma calm_but_same: "calm_but t p ts \<Longrightarrow> pc th = q \<Longrightarrow> calm_but t q (ts[t := th])"
  by (auto simp: calm_but_def nth_list_update)

lemma calm_but_done: "calm_but t p ts \<Longrightarrow> calm th \<Longrightarrow> all_calm (ts[t := th])"
  by (auto simp: calm_but_def all_calm_def nth_list_update)

lemma calm_but_other: "calm_but u p ts \<Longrightarrow> t \<noteq> u \<Longrightarrow> calm th \<Longrightarrow> calm_but u p (ts[t := th])"
  by (cases "t < length ts") (auto simp: calm_but_def nth_list_update)

lemma calm_but_pc: "calm_but u p ts \<Longrightarrow> t < length ts \<Longrightarrow> t \<noteq> u \<Longrightarrow> calm (ts ! t)" "calm_but u p ts \<Longrightarrow> pc (ts ! u) = p"
  by (auto simp: calm_but_def)

lemma all_calm_nth: "all_calm ts \<Longrightarrow> t < length ts \<Longrightarrow> calm (ts ! t)"
  by (simp add: all_calm_def)

section \<open>Each step\<close>

lemma phase_owned:
  assumes "conc_ok im s" and "0 < owners_total (threads s)"
  obtains b where "block s = Some b" "in_phase im Owned (Some b) (effects s) (threads s)"
proof -
  obtain ph where "in_phase im ph (block s) (effects s) (threads s)" using assms(1) by (auto simp: conc_ok_def)
  then show ?thesis using assms(2) that by (cases ph; cases "block s") auto
qed

lemma calm_phase:
  assumes "in_phase im ph b es ts" and "t < length ts" and "calm (ts ! t)"
  shows "ph \<noteq> Dying t" and "ph \<noteq> Unpinned t" and "ph \<noteq> Ending t"
  using assms by (cases b; auto simp: calm_but_def calm_def)+

text \<open>A calm thread that stays calm; only its observers and the weak count change, and they together.\<close>

lemma in_phase_keep:
  assumes "in_phase im ph (Some b) es ts" and "t < length ts" and "calm (ts ! t)" and "calm th" and "strong th = strong (ts ! t)"
    and "block_impl b' = block_impl b" and "use_count b' = use_count b"
    and "weak_count b' = weak_count b + int (weakly th) - int (weakly (ts ! t))"
    and "ph = Watched \<Longrightarrow> 0 < observers_total (ts[t := th])" and "\<forall>u. ph \<noteq> Ending u"
  shows "in_phase im ph (Some b') es (ts[t := th])"
proof -
  note other = calm_phase [OF assms(1-3)]
  show ?thesis
  proof (cases ph)
    case (Dying u)
    then have "t \<noteq> u" using other(1) by auto
    then show ?thesis using assms Dying calm_but_other [of u Disposing ts t th]
      by (simp add: owners_update observers_update)
  next
    case (Unpinned u)
    then have "t \<noteq> u" using other(2) by auto
    then show ?thesis using assms Unpinned calm_but_other [of u Unpinning ts t th]
      by (simp add: owners_update observers_update)
  qed (use assms all_calm_update [of ts th t] in \<open>simp_all add: owners_update observers_update\<close>)
qed

lemma ready_calm [simp]: "pc th = Ready \<Longrightarrow> calm th"
  by (simp add: calm_def)

lemma holder_phase:
  assumes "conc_ok im s" and "t < length (threads s)" and "0 < strong (threads s ! t) \<or> 0 < weakly (threads s ! t)"
  obtains ph b where "block s = Some b" "in_phase im ph (Some b) (effects s) (threads s)" "\<forall>u. ph \<noteq> Ending u"
proof -
  have "0 < owners_total (threads s) \<or> 0 < observers_total (threads s)"
    using assms(3) total_member [OF assms(2)] by auto
  moreover obtain ph where ph: "in_phase im ph (block s) (effects s) (threads s)" using assms(1) by (auto simp: conc_ok_def)
  ultimately obtain b where "block s = Some b" "\<forall>u. ph \<noteq> Ending u" by (cases ph; cases "block s") auto
  then show ?thesis using ph that by simp
qed

definition steps_ok :: "impl \<Rightarrow> nat \<Rightarrow> action \<Rightarrow> conc_state \<Rightarrow> bool" where
  "steps_ok im t a s \<longleftrightarrow> (\<exists>s'. conc_step t a s = Inr s' \<and> conc_ok im s')"

lemma steps_okI:
  assumes "conc_step t a s = Inr s'" and "in_phase im ph (block s') (effects s') (threads s')"
  shows "steps_ok im t a s"
  using assms by (auto simp: steps_ok_def conc_ok_def)

lemma s32_up: "0 \<le> x \<Longrightarrow> x < 2 ^ 31 - 1 \<Longrightarrow> s32 (x + 1) = x + 1"
  by (intro s32_id) auto

lemma s32_down: "0 < x \<Longrightarrow> x < 2 ^ 31 \<Longrightarrow> s32 (x - 1) = x - 1"
  by (intro s32_id) auto

lemma CopyRef_ok:
  assumes "conc_ok im s" and "t < length (threads s)" and "conc_enabled t CopyRef s" and "conc_room s"
  shows "steps_ok im t CopyRef s"
proof -
  have th: "pc (threads s ! t) = Ready" "0 < strong (threads s ! t)" using assms(3) by simp_all
  then have "0 < owners_total (threads s)" using total_member(1) [OF assms(2)] by linarith
  then obtain b where b: "block s = Some b" "in_phase im Owned (Some b) (effects s) (threads s)" using phase_owned [OF assms(1)] by blast
  have "s32 (owners_total (threads s) + 1) = owners_total (threads s) + 1"
    using assms(4) total_nonneg by (intro s32_up) (auto simp: conc_room_def)
  then show ?thesis using b th assms(2) all_calm_update
    by (intro steps_okI [of _ _ _ _ _ Owned]) (auto simp: on_block_def set_thread_def Let_def owners_update observers_update)
qed

lemma DropRef_ok:
  assumes "conc_ok im s" and "t < length (threads s)" and "conc_enabled t DropRef s" and "conc_room s"
  shows "steps_ok im t DropRef s"
proof -
  have th: "pc (threads s ! t) = Ready" "0 < strong (threads s ! t)" using assms(3) by simp_all
  then have pos: "0 < owners_total (threads s)" using total_member(1) [OF assms(2)] by linarith
  then obtain b where b: "block s = Some b" "in_phase im Owned (Some b) (effects s) (threads s)" using phase_owned [OF assms(1)] by blast
  have dec: "s32 (owners_total (threads s) - 1) = owners_total (threads s) - 1"
    using assms(4) pos by (intro s32_down) (auto simp: conc_room_def)
  show ?thesis
  proof (cases "owners_total (threads s) = 1")
    case True
    then show ?thesis using b th assms(2) dec
      by (intro steps_okI [of _ _ _ _ _ "Dying t"])
        (auto simp: on_block_def set_thread_def Let_def owners_update observers_update calm_but_update)
  next
    case False
    then show ?thesis using b th assms(2) dec pos
      by (intro steps_okI [of _ _ _ _ _ Owned])
        (auto simp: on_block_def set_thread_def Let_def owners_update observers_update all_calm_update)
  qed
qed

text \<open>A thread in \<open>release\<close> or \<open>weak_release\<close> is the only one of its phase.\<close>

lemma restless_phase:
  assumes "conc_ok im s" and "t < length (threads s)" and "\<not> calm (threads s ! t)"
  obtains b ph where "block s = Some b" "in_phase im ph (Some b) (effects s) (threads s)" "ph \<in> {Dying t, Unpinned t, Ending t}"
proof -
  obtain ph where ph: "in_phase im ph (block s) (effects s) (threads s)" using assms(1) by (auto simp: conc_ok_def)
  then obtain b where "block s = Some b" "ph \<in> {Dying t, Unpinned t, Ending t}"
    using assms(2,3) by (cases ph; cases "block s") (auto simp: all_calm_def calm_but_def)
  then show ?thesis using ph that by simp
qed

lemma DisposeStep_ok:
  assumes "conc_ok im s" and "t < length (threads s)" and "conc_enabled t DisposeStep s"
  shows "steps_ok im t DisposeStep s"
proof -
  have "\<not> calm (threads s ! t)" using assms(3) by (simp add: calm_def)
  then obtain b ph where b: "block s = Some b" "in_phase im ph (Some b) (effects s) (threads s)" "ph \<in> {Dying t, Unpinned t, Ending t}"
    using restless_phase [OF assms(1,2)] by blast
  then have "ph = Dying t" using assms(3) by (auto simp: calm_but_def)
  then show ?thesis using b assms(2)
    by (intro steps_okI [of _ _ _ _ _ "Unpinned t"])
      (auto simp: on_block_def set_thread_def Let_def owners_update observers_update calm_but_same [where p = Disposing])
qed

lemma UnpinStep_ok:
  assumes "conc_ok im s" and "t < length (threads s)" and "conc_enabled t UnpinStep s" and "conc_room s"
  shows "steps_ok im t UnpinStep s"
proof -
  have "\<not> calm (threads s ! t)" using assms(3) by (simp add: calm_def)
  then obtain b ph where b: "block s = Some b" "in_phase im ph (Some b) (effects s) (threads s)" "ph \<in> {Dying t, Unpinned t, Ending t}"
    using restless_phase [OF assms(1,2)] by blast
  then have ph: "in_phase im (Unpinned t) (Some b) (effects s) (threads s)" using assms(3) by (auto simp: calm_but_def)
  have dec: "s32 (observers_total (threads s)) = observers_total (threads s)"
    using assms(4) total_nonneg(2) [of "threads s"] by (intro s32_id) (auto simp: conc_room_def)
  show ?thesis
  proof (cases "observers_total (threads s) = 0")
    case True
    then show ?thesis using b(1) ph assms(2) dec
      by (intro steps_okI [of _ _ _ _ _ "Ending t"])
        (auto simp: on_block_def set_thread_def Let_def owners_update observers_update calm_but_same [where p = Unpinning])
  next
    case False
    then have "0 < observers_total (threads s)" using total_nonneg(2) [of "threads s"] by linarith
    then show ?thesis using b(1) ph assms(2) dec
      by (intro steps_okI [of _ _ _ _ _ Watched])
        (auto simp: on_block_def set_thread_def Let_def owners_update observers_update calm_but_done [where p = Unpinning])
  qed
qed

lemma DestroyStep_ok:
  assumes "conc_ok im s" and "t < length (threads s)" and "conc_enabled t DestroyStep s"
  shows "steps_ok im t DestroyStep s"
proof -
  have "\<not> calm (threads s ! t)" using assms(3) by (simp add: calm_def)
  then obtain b ph where b: "block s = Some b" "in_phase im ph (Some b) (effects s) (threads s)" "ph \<in> {Dying t, Unpinned t, Ending t}"
    using restless_phase [OF assms(1,2)] by blast
  then have "ph = Ending t" using assms(3) by (auto simp: calm_but_def)
  then show ?thesis using b assms(2)
    by (intro steps_okI [of _ _ _ _ _ Gone])
      (auto simp: on_block_def set_thread_def Let_def owners_update observers_update calm_but_done [where p = Destroying])
qed

text \<open>The weak count, for its increments and decrements not to wrap.\<close>

lemma weak_range: "in_phase im ph (Some b) es ts \<Longrightarrow> 0 \<le> weak_count b \<and> weak_count b \<le> observers_total ts + 1"
  using total_nonneg(2) [of ts] by (cases ph) auto

lemma AddWeak_ok:
  assumes "conc_ok im s" and "t < length (threads s)" and "conc_enabled t AddWeak s" and "conc_room s"
  shows "steps_ok im t AddWeak s"
proof -
  have th: "pc (threads s ! t) = Ready" using assms(3) by simp
  have "0 < strong (threads s ! t) \<or> 0 < weakly (threads s ! t)" using assms(3) by auto
  then obtain ph b where b: "block s = Some b" "in_phase im ph (Some b) (effects s) (threads s)" "\<forall>u. ph \<noteq> Ending u"
    using holder_phase [OF assms(1,2)] by blast
  have "s32 (weak_count b + 1) = weak_count b + 1"
    using weak_range [OF b(2)] assms(4) by (intro s32_up) (auto simp: conc_room_def)
  moreover have "0 < observers_total ((threads s)[t := (threads s ! t)\<lparr>weakly := weakly (threads s ! t) + 1\<rparr>])"
    using assms(2) total_nonneg(2) [of "threads s"] by (simp add: observers_update)
  ultimately have "in_phase im ph (Some (b\<lparr>weak_count := s32 (weak_count b + 1)\<rparr>)) (effects s)
      ((threads s)[t := (threads s ! t)\<lparr>weakly := weakly (threads s ! t) + 1\<rparr>])"
    using th b(3) by (intro in_phase_keep [OF b(2) assms(2)]) auto
  then show ?thesis using b(1)
    by (intro steps_okI [of _ _ _ _ _ ph]) (auto simp: on_block_def set_thread_def Let_def)
qed

lemma DropWeak_ok:
  assumes "conc_ok im s" and "t < length (threads s)" and "conc_enabled t DropWeak s" and "conc_room s"
  shows "steps_ok im t DropWeak s"
proof -
  have th: "pc (threads s ! t) = Ready" "0 < weakly (threads s ! t)" using assms(3) by simp_all
  then have pos: "0 < observers_total (threads s)" using total_member(2) [OF assms(2)] by linarith
  have "0 < strong (threads s ! t) \<or> 0 < weakly (threads s ! t)" using assms(3) by auto
  then obtain ph b where b: "block s = Some b" "in_phase im ph (Some b) (effects s) (threads s)" "\<forall>u. ph \<noteq> Ending u"
    using holder_phase [OF assms(1,2)] by blast
  have weak: "0 < weak_count b" using b(2,3) pos by (cases ph) auto
  have dec: "s32 (weak_count b - 1) = weak_count b - 1"
    using weak weak_range [OF b(2)] assms(4) by (intro s32_down) (auto simp: conc_room_def)
  show ?thesis
  proof (cases "weak_count b = 1")
    case True
    then have "in_phase im Watched (Some b) (effects s) (threads s)" using b(2,3) pos by (cases ph) auto
    then show ?thesis using b(1) th True dec assms(2)
      by (intro steps_okI [of _ _ _ _ _ "Ending t"])
        (auto simp: on_block_def set_thread_def Let_def owners_update observers_update calm_but_update)
  next
    case False
    have "in_phase im ph (Some (b\<lparr>weak_count := weak_count b - 1\<rparr>)) (effects s)
        ((threads s)[t := (threads s ! t)\<lparr>weakly := weakly (threads s ! t) - 1, pc := Ready\<rparr>])"
      using th b(2,3) False weak assms(2)
      by (intro in_phase_keep [OF b(2) assms(2)]) (auto simp: observers_update of_nat_diff)
    then show ?thesis using b(1) dec False th(1)
      by (intro steps_okI [of _ _ _ _ _ ph]) (auto simp: on_block_def set_thread_def Let_def)
  qed
qed

text \<open>A thread in \<open>add_ref_lock\<close> keeps its observer.\<close>

lemma locker_calm:
  assumes "conc_ok im s" and "t < length (threads s)" and "pc (threads s ! t) \<in> insert Locking (range Exchanging)"
  shows "calm (threads s ! t)" and "0 < weakly (threads s ! t)"
proof -
  show c: "calm (threads s ! t)"
  proof (rule ccontr)
    assume "\<not> calm (threads s ! t)"
    then obtain b ph where "in_phase im ph (Some b) (effects s) (threads s)" "ph \<in> {Dying t, Unpinned t, Ending t}"
      using restless_phase [OF assms(1,2)] by blast
    then show False using assms(3) by (auto simp: calm_but_def)
  qed
  then show "0 < weakly (threads s ! t)" using assms(3) by (auto simp: calm_def)
qed

text \<open>A move of one thread that has an observer, within its functions.\<close>

lemma pc_move:
  assumes "in_phase im ph (Some b) es ts" and "t < length ts" and "calm (ts ! t)" and "calm ((ts ! t)\<lparr>pc := p\<rparr>)"
    and "\<forall>u. ph \<noteq> Ending u"
  shows "in_phase im ph (Some b) es (ts[t := (ts ! t)\<lparr>pc := p\<rparr>])"
  using assms(1,2) by (intro in_phase_keep [OF assms(1-4)]) (use assms(5) in \<open>auto simp: observers_update\<close>)

lemma StartLock_ok:
  assumes "conc_ok im s" and "t < length (threads s)" and "conc_enabled t StartLock s"
  shows "steps_ok im t StartLock s"
proof -
  have "0 < strong (threads s ! t) \<or> 0 < weakly (threads s ! t)" using assms(3) by auto
  then obtain ph b where b: "block s = Some b" "in_phase im ph (Some b) (effects s) (threads s)" "\<forall>u. ph \<noteq> Ending u"
    using holder_phase [OF assms(1,2)] by blast
  have "in_phase im ph (Some b) (effects s) ((threads s)[t := (threads s ! t)\<lparr>pc := Locking\<rparr>])"
    using assms(3) by (intro pc_move [OF b(2) assms(2) _ _ b(3)]) (auto simp: calm_def)
  then show ?thesis using b(1)
    by (intro steps_okI [of _ _ _ _ _ ph]) (auto simp: set_thread_def Let_def)
qed

lemma ReadCount_ok:
  assumes "conc_ok im s" and "t < length (threads s)" and "conc_enabled t ReadCount s"
  shows "steps_ok im t ReadCount s"
proof -
  have c: "calm (threads s ! t)" "0 < weakly (threads s ! t)" using locker_calm [OF assms(1,2)] assms(3) by auto
  then obtain ph b where b: "block s = Some b" "in_phase im ph (Some b) (effects s) (threads s)" "\<forall>u. ph \<noteq> Ending u"
    using holder_phase [OF assms(1,2)] by blast
  have "in_phase im ph (Some b) (effects s)
      ((threads s)[t := (threads s ! t)\<lparr>pc := if use_count b = 0 then Ready else Exchanging (use_count b)\<rparr>])"
    using c by (intro pc_move [OF b(2) assms(2) c(1) _ b(3)]) (auto simp: calm_def)
  then show ?thesis using b(1)
    by (intro steps_okI [of _ _ _ _ _ ph]) (auto simp: on_block_def set_thread_def Let_def)
qed

lemma Exchange_ok:
  assumes "conc_ok im s" and "t < length (threads s)" and "conc_enabled t Exchange s" and "conc_room s"
  shows "steps_ok im t Exchange s"
proof -
  obtain k where k: "pc (threads s ! t) = Exchanging k" using assms(3) by auto
  have c: "calm (threads s ! t)" "0 < weakly (threads s ! t)" using locker_calm [OF assms(1,2)] k by auto
  then obtain ph b where b: "block s = Some b" "in_phase im ph (Some b) (effects s) (threads s)" "\<forall>u. ph \<noteq> Ending u"
    using holder_phase [OF assms(1,2)] by blast
  show ?thesis
  proof (cases "use_count b = k")
    case True
    then have own: "in_phase im Owned (Some b) (effects s) (threads s)" using b(2,3) c(1) k by (cases ph) (auto simp: calm_def)
    then have "s32 (k + 1) = k + 1"
      using True assms(4) total_nonneg by (intro s32_up) (auto simp: conc_room_def)
    then show ?thesis using own b(1) k True assms(2) all_calm_update
      by (intro steps_okI [of _ _ _ _ _ Owned]) (auto simp: on_block_def set_thread_def Let_def owners_update observers_update)
  next
    case False
    have "in_phase im ph (Some b) (effects s) ((threads s)[t := (threads s ! t)\<lparr>pc := Locking\<rparr>])"
      using c by (intro pc_move [OF b(2) assms(2) c(1) _ b(3)]) (auto simp: calm_def)
    then show ?thesis using b(1) k False
      by (intro steps_okI [of _ _ _ _ _ ph]) (auto simp: on_block_def set_thread_def Let_def)
  qed
qed

text \<open>A handle that changes hands.\<close>

lemma same_field: "g x = g (ts ! t) \<Longrightarrow> g (ts[t := x] ! i) = g (ts ! i)"
  by (cases "i = t"; cases "t < length ts") (simp_all add: list_update_beyond)

lemma in_phase_moved:
  assumes "in_phase im ph b es ts" and "owners_total ts' = owners_total ts" and "observers_total ts' = observers_total ts"
    and "length ts' = length ts" and "\<forall>i<length ts. pc (ts' ! i) = pc (ts ! i)"
    and "\<forall>i<length ts. calm (ts ! i) \<longrightarrow> calm (ts' ! i)"
  shows "in_phase im ph b es ts'"
proof -
  have "all_calm ts \<Longrightarrow> all_calm ts'" and "\<And>u p. calm_but u p ts \<Longrightarrow> calm_but u p ts'"
    using assms(4-6) by (auto simp: all_calm_def calm_but_def)
  then show ?thesis using assms(1-3) by (cases ph; cases b) auto
qed

lemma GiveRef_ok:
  assumes "conc_ok im s" and "t < length (threads s)" and "conc_enabled t (GiveRef u) s"
  shows "steps_ok im t (GiveRef u) s"
proof -
  define ts1 where "ts1 = (threads s)[t := (threads s ! t)\<lparr>strong := strong (threads s ! t) - 1\<rparr>]"
  define ts2 where "ts2 = ts1[u := (ts1 ! u)\<lparr>strong := strong (ts1 ! u) + 1\<rparr>]"
  have step: "conc_step t (GiveRef u) s = Inr (s\<lparr>threads := ts2\<rparr>)"
    by (simp add: set_thread_def Let_def ts1_def ts2_def)
  obtain ph where ph: "in_phase im ph (block s) (effects s) (threads s)" using assms(1) by (auto simp: conc_ok_def)
  have "u < length ts1" using assms(3) by (simp add: ts1_def)
  then have "owners_total ts2 = owners_total (threads s)" "observers_total ts2 = observers_total (threads s)"
    using assms(2,3) by (auto simp: ts2_def owners_update observers_update of_nat_diff) (auto simp: ts1_def owners_update observers_update of_nat_diff)
  moreover have "pc (ts2 ! i) = pc (threads s ! i) \<and> weakly (ts2 ! i) = weakly (threads s ! i)" for i
    by (simp add: ts1_def ts2_def same_field [where g = pc] same_field [where g = weakly])
  ultimately have "in_phase im ph (block s) (effects s) ts2"
    by (intro in_phase_moved [OF ph]) (auto simp: ts1_def ts2_def calm_def)
  then show ?thesis using step by (intro steps_okI [of _ _ _ _ _ ph]) auto
qed

lemma GiveWeak_ok:
  assumes "conc_ok im s" and "t < length (threads s)" and "conc_enabled t (GiveWeak u) s"
  shows "steps_ok im t (GiveWeak u) s"
proof -
  define ts1 where "ts1 = (threads s)[t := (threads s ! t)\<lparr>weakly := weakly (threads s ! t) - 1\<rparr>]"
  define ts2 where "ts2 = ts1[u := (ts1 ! u)\<lparr>weakly := weakly (ts1 ! u) + 1\<rparr>]"
  have step: "conc_step t (GiveWeak u) s = Inr (s\<lparr>threads := ts2\<rparr>)"
    by (simp add: set_thread_def Let_def ts1_def ts2_def)
  obtain ph where ph: "in_phase im ph (block s) (effects s) (threads s)" using assms(1) by (auto simp: conc_ok_def)
  have "u < length ts1" using assms(3) by (simp add: ts1_def)
  then have "owners_total ts2 = owners_total (threads s)" "observers_total ts2 = observers_total (threads s)"
    using assms(2,3) by (auto simp: ts2_def owners_update observers_update of_nat_diff) (auto simp: ts1_def owners_update observers_update of_nat_diff)
  moreover have "pc (ts2 ! i) = pc (threads s ! i)" for i
    by (simp add: ts1_def ts2_def same_field [where g = pc])
  moreover have "calm (threads s ! i) \<longrightarrow> calm (ts2 ! i)" if "i < length (threads s)" for i
  proof (cases "i = t")
    case True
    then show ?thesis using calculation(3) [of i] assms(3) by simp
  next
    case False
    then have "ts1 ! i = threads s ! i" by (simp add: ts1_def)
    then have "weakly (threads s ! i) \<le> weakly (ts2 ! i)"
      using \<open>u < length ts1\<close> by (cases "i = u") (simp_all add: ts2_def)
    then show ?thesis using calculation(3) [of i] by (cases "pc (threads s ! i)") (auto simp: calm_def)
  qed
  ultimately have "in_phase im ph (block s) (effects s) ts2"
    by (intro in_phase_moved [OF ph]) (auto simp: ts1_def ts2_def)
  then show ?thesis using step by (intro steps_okI [of _ _ _ _ _ ph]) auto
qed

lemmas step_cases_ok = CopyRef_ok DropRef_ok DisposeStep_ok UnpinStep_ok DestroyStep_ok AddWeak_ok DropWeak_ok
  StartLock_ok ReadCount_ok Exchange_ok GiveRef_ok GiveWeak_ok

lemma conc_step_ok:
  assumes "conc_ok im s" and "t < length (threads s)" and "conc_enabled t a s" and "conc_room s"
  shows "steps_ok im t a s"
  using assms by (cases a) (simp_all only: step_cases_ok)

lemma totals_none: "owners_total (replicate n thread_none) = 0" "observers_total (replicate n thread_none) = 0"
  by (induction n) (simp_all add: owners_total_def observers_total_def thread_none_def)

lemma conc_run_ok: "conc_run im s \<Longrightarrow> conc_ok im s"
proof (induction rule: conc_run.induct)
  case (conc_start n)
  have "all_calm (thread_none\<lparr>strong := 1\<rparr> # replicate n thread_none)"
    by (auto simp: all_calm_def nth_Cons thread_none_def split: nat.splits)
  then have "in_phase im Owned (Some (new_counted im)) [] (thread_none\<lparr>strong := 1\<rparr> # replicate n thread_none)"
    using totals_none [of n] by (simp add: owners_total_def observers_total_def new_counted_def thread_none_def)
  then show ?case unfolding conc_ok_def by (intro exI [of _ Owned]) simp
next
  case (conc_move s t a s')
  then show ?case using conc_step_ok [of im s t a] by (auto simp: steps_ok_def)
qed

section \<open>What the threads can rely on\<close>

lemma conc_safe:
  assumes "conc_run im s" and "t < length (threads s)" and "conc_enabled t a s" and "conc_room s"
  shows "\<exists>s'. conc_step t a s = Inr s' \<and> conc_run im s'"
proof -
  obtain s' where "conc_step t a s = Inr s'"
    using conc_step_ok [OF conc_run_ok [OF assms(1)] assms(2-4)] by (auto simp: steps_ok_def)
  then show ?thesis using conc_move [OF assms] by blast
qed

lemma all_ready_phase:
  assumes "in_phase im ph b es ts" and "\<forall>th\<in>set ts. pc th = Ready"
  shows "ph \<in> {Owned, Watched, Gone}"
  using assms by (cases ph; cases b) (auto simp: calm_but_def)

lemma conc_disposal:
  assumes "conc_run im s"
  shows "0 < owners_total (threads s) \<Longrightarrow> block s \<noteq> None \<and> effects s = []"
    and "effects s = [] \<or> effects s = dispose im"
    and "\<forall>th\<in>set (threads s). pc th = Ready \<Longrightarrow> owners_total (threads s) = 0 \<Longrightarrow>
      effects s = dispose im \<and> (block s = None \<longleftrightarrow> observers_total (threads s) = 0)"
proof -
  obtain ph where ph: "in_phase im ph (block s) (effects s) (threads s)"
    using conc_run_ok [OF assms] by (auto simp: conc_ok_def)
  show "0 < owners_total (threads s) \<Longrightarrow> block s \<noteq> None \<and> effects s = []"
    using ph by (cases ph; cases "block s") auto
  show "effects s = [] \<or> effects s = dispose im"
    using ph by (cases ph; cases "block s") auto
  show "effects s = dispose im \<and> (block s = None \<longleftrightarrow> observers_total (threads s) = 0)"
    if "\<forall>th\<in>set (threads s). pc th = Ready" "owners_total (threads s) = 0"
    using ph all_ready_phase [OF ph that(1)] that(2) by (cases ph; cases "block s") auto
qed

text \<open>A thread that runs alone to the end of its function.\<close>

fun next_action :: "pc \<Rightarrow> action option" where
  "next_action Ready = None"
| "next_action Disposing = Some DisposeStep"
| "next_action Unpinning = Some UnpinStep"
| "next_action Destroying = Some DestroyStep"
| "next_action Locking = Some ReadCount"
| "next_action (Exchanging tmp) = Some Exchange"

fun run_alone :: "nat \<Rightarrow> nat \<Rightarrow> conc_state \<Rightarrow> conc_state res" where
  "run_alone fuel t s = (case next_action (pc (threads s ! t)) of
       None \<Rightarrow> Inr s
     | Some a \<Rightarrow> (case fuel of 0 \<Rightarrow> Inr s | Suc k \<Rightarrow> andThen (conc_step t a s) (run_alone k t)))"

declare run_alone.simps [simp del]

definition alone_rank :: "nat \<Rightarrow> conc_state \<Rightarrow> nat" where
  "alone_rank t s = (case pc (threads s ! t) of
       Ready \<Rightarrow> 0 | Disposing \<Rightarrow> 3 | Unpinning \<Rightarrow> 2 | Destroying \<Rightarrow> 1 | Locking \<Rightarrow> 2
     | Exchanging k \<Rightarrow> if map_option use_count (block s) = Some k then 1 else 3)"

lemma alone_rank_le: "alone_rank t s \<le> 3"
  by (simp add: alone_rank_def split: pc.split)

lemma next_enabled: "next_action (pc (threads s ! t)) = Some a \<Longrightarrow> conc_enabled t a s"
  by (cases "pc (threads s ! t)") auto

lemma alone_step:
  assumes "next_action (pc (threads s ! t)) = Some a" and "t < length (threads s)" and "conc_room s" and "conc_step t a s = Inr s'"
  shows "length (threads s') = length (threads s)" and "alone_rank t s' < alone_rank t s"
    and "pc (threads s' ! t) = Ready \<or> conc_room s'"
  using assms
  by (cases "pc (threads s ! t)"; cases "block s";
      auto simp: on_block_def set_thread_def Let_def alone_rank_def conc_room_def owners_update observers_update split: if_splits)+

lemma run_alone_ready: "pc (threads s ! t) = Ready \<Longrightarrow> run_alone n t s = Inr s"
  by (simp add: run_alone.simps)

lemma run_alone_finishes:
  assumes "conc_run im s" and "t < length (threads s)" and "pc (threads s ! t) = Ready \<or> conc_room s" and "alone_rank t s \<le> n"
  shows "\<exists>s'. run_alone n t s = Inr s' \<and> conc_run im s' \<and> pc (threads s' ! t) = Ready"
  using assms
proof (induction n arbitrary: s)
  case 0
  then have "pc (threads s ! t) = Ready" by (auto simp: alone_rank_def split: pc.splits if_splits)
  then show ?case using 0 by (simp add: run_alone_ready)
next
  case (Suc n)
  show ?case
  proof (cases "next_action (pc (threads s ! t))")
    case None
    then have "pc (threads s ! t) = Ready" by (cases "pc (threads s ! t)") auto
    then show ?thesis using Suc.prems by (simp add: run_alone_ready)
  next
    case (Some a)
    then have room: "conc_room s" using Suc.prems(3) by auto
    then obtain s' where s': "conc_step t a s = Inr s'" "conc_run im s'"
      using conc_safe [OF Suc.prems(1,2) next_enabled [OF Some]] by blast
    note alone = alone_step [OF Some Suc.prems(2) room s'(1)]
    have "\<exists>s''. run_alone n t s' = Inr s'' \<and> conc_run im s'' \<and> pc (threads s'' ! t) = Ready"
      using alone Suc.prems(2,4) by (intro Suc.IH s'(2)) auto
    then show ?thesis using Some s'(1) by (simp add: run_alone.simps [of "Suc n"])
  qed
qed

text \<open>A call that is not interrupted is the function of \<open>RefCount\<close>.\<close>

definition conc_of :: "nat \<Rightarrow> sp_memory \<Rightarrow> sp_thread list \<Rightarrow> conc_state" where
  "conc_of pi m ts = \<lparr>block = blocks m pi, effects = disposed m, threads = ts\<rparr>"

definition call_alone :: "nat \<Rightarrow> action \<Rightarrow> conc_state \<Rightarrow> conc_state res" where
  "call_alone t a s = andThen (conc_step t a s) (run_alone 3 t)"

definition block_view :: "conc_state \<Rightarrow> sp_counted_base option \<times> effect list" where
  "block_view s = (block s, effects s)"

definition memory_view :: "nat \<Rightarrow> sp_memory \<Rightarrow> sp_counted_base option \<times> effect list" where
  "memory_view pi m = (blocks m pi, disposed m)"

lemmas alone_defs = conc_of_def call_alone_def block_view_def memory_view_def on_block_def at_block_def set_thread_def set_block_def
  Let_def run_alone.simps numeral_3_eq_3

lemma release_alone:
  assumes "t < length ts"
  shows "map_sum id block_view (call_alone t DropRef (conc_of pi m ts)) = map_sum id (memory_view pi) (release pi m)"
  using assms by (cases "blocks m pi") (simp_all add: alone_defs release_def weak_release_def destroy_def)

lemma weak_release_alone:
  assumes "t < length ts"
  shows "map_sum id block_view (call_alone t DropWeak (conc_of pi m ts)) = map_sum id (memory_view pi) (weak_release pi m)"
  using assms by (cases "blocks m pi") (simp_all add: alone_defs weak_release_def destroy_def)

lemma add_ref_lock_alone:
  assumes "t < length ts"
  shows "map_sum id block_view (call_alone t StartLock (conc_of pi m ts)) = map_sum id (memory_view pi \<circ> snd) (add_ref_lock pi m)"
  using assms by (cases "blocks m pi") (simp_all add: alone_defs add_ref_lock_def lock_loop.simps)

section \<open>Properties\<close>

text \<open>Whatever threads do with their handles on a shared object, in whatever order their atomic accesses fall, no
  step touches the control block after it is freed: every step a thread can take from a state reached so far
  succeeds. (\<open>conc_room\<close>: fewer handles than a \<open>long\<close> counts.)\<close>

theorem concurrent_safe:
  assumes "conc_run im s" and "t < length (threads s)" and "conc_enabled t a s" and "conc_room s"
  shows "\<exists>s'. conc_step t a s = Inr s'"
  using conc_safe [OF assms] by blast

text \<open>C5. Under any interleaving the object is disposed of at most once and never while a thread owns it; when the
  last owner is gone and all threads are back from their calls it has been disposed of, and the control block
  is freed exactly if no observer is left.\<close>

theorem concurrent_disposal:
  assumes "conc_run im s"
  shows "(effects s = [] \<or> effects s = dispose im) \<and>
    (0 < owners_total (threads s) \<longrightarrow> block s \<noteq> None \<and> effects s = []) \<and>
    ((\<forall>th\<in>set (threads s). pc th = Ready) \<and> owners_total (threads s) = 0 \<longrightarrow>
      effects s = dispose im \<and> (block s = None \<longleftrightarrow> observers_total (threads s) = 0))"
  using conc_disposal [OF assms] by blast

text \<open>C18. \<open>add_ref_lock\<close> and \<open>release\<close> do not wait: wherever the other threads have stopped, a thread that runs alone is
  out of its function within three steps.\<close>

theorem concurrent_progress:
  assumes "conc_run im s" and "t < length (threads s)" and "conc_room s"
  shows "\<exists>s'. run_alone 3 t s = Inr s' \<and> pc (threads s' ! t) = Ready"
  using run_alone_finishes [OF assms(1,2) disjI2 [OF assms(3)] alone_rank_le] by blast

text \<open>A call of \<open>release\<close>, \<open>weak_release\<close> or \<open>add_ref_lock\<close> that no other thread interrupts does to the block and the
  object what the sequential function does, the access to a freed block included.\<close>

theorem uninterrupted_calls:
  assumes "t < length ts"
  shows "map_sum id block_view (call_alone t DropRef (conc_of pi m ts)) = map_sum id (memory_view pi) (release pi m) \<and>
    map_sum id block_view (call_alone t DropWeak (conc_of pi m ts)) = map_sum id (memory_view pi) (weak_release pi m) \<and>
    map_sum id block_view (call_alone t StartLock (conc_of pi m ts)) = map_sum id (memory_view pi \<circ> snd) (add_ref_lock pi m)"
  using release_alone [OF assms] weak_release_alone [OF assms] add_ref_lock_alone [OF assms] by simp

section \<open>Witnesses\<close>

text \<open>The owner gives an observer to a second thread, which reads the count for \<open>lock\<close>; the owner releases before
  the exchange.\<close>

definition lock_race :: conc_state where
  "lock_race = \<lparr>block = Some \<lparr>use_count = 0, weak_count = 2, block_impl = Impl_p (Some 7)\<rparr>, effects = [],
     threads = [\<lparr>strong = 0, weakly = 0, pc = Disposing\<rparr>, \<lparr>strong = 0, weakly = 1, pc = Exchanging 1\<rparr>]\<rparr>"

fun conc_actions :: "(nat \<times> action) list \<Rightarrow> conc_state \<Rightarrow> conc_state res" where
  "conc_actions [] s = Inr s"
| "conc_actions ((t, a) # as) s = (if t < length (threads s) \<and> conc_enabled t a s \<and> conc_room s
     then andThen (conc_step t a s) (conc_actions as) else Inl OutOfBounds)"

lemma conc_actions_run: "conc_run im s \<Longrightarrow> conc_actions as s = Inr s' \<Longrightarrow> conc_run im s'"
  by (induction as s rule: conc_actions.induct) (auto simp: andThen_Inr_iff split: if_splits intro: conc_move)

lemma lock_race_run: "conc_run (Impl_p (Some 7)) lock_race"
  by (rule conc_actions_run [OF conc_start [of _ 1],
        of "[(0, AddWeak), (0, GiveWeak 1), (1, StartLock), (1, ReadCount), (0, DropRef)]"])
    (simp add: lock_race_def on_block_def set_thread_def conc_room_def owners_total_def observers_total_def
      new_counted_def thread_none_def s32_def numeral_2_eq_2)

theorem concurrent_safe_witness: "\<exists>s'. conc_step 1 Exchange lock_race = Inr s'"
  by (rule concurrent_safe [OF lock_race_run])
    (simp_all add: lock_race_def conc_room_def owners_total_def observers_total_def)

theorem concurrent_disposal_witness: "block lock_race \<noteq> None \<and> (effects lock_race = [] \<or> effects lock_race = dispose (Impl_p (Some 7)))"
  using concurrent_disposal [OF lock_race_run] by (simp add: lock_race_def)

theorem concurrent_progress_witness: "\<exists>s'. run_alone 3 1 lock_race = Inr s' \<and> pc (threads s' ! 1) = Ready"
  by (rule concurrent_progress [OF lock_race_run])
    (simp_all add: lock_race_def conc_room_def owners_total_def observers_total_def)

definition last_owner :: sp_memory where
  "last_owner = \<lparr>blocks = [5 \<mapsto> new_counted (Impl_p (Some 7))], disposed = [], released = []\<rparr>"

theorem uninterrupted_calls_witness:
  "map_sum id block_view (call_alone 0 DropRef (conc_of 5 last_owner [thread_none\<lparr>strong := 1\<rparr>])) = Inr (None, [Deleted 7])"
  using uninterrupted_calls [of 0 "[thread_none\<lparr>strong := 1\<rparr>]" 5 last_owner]
  by (simp add: release_def weak_release_def destroy_def last_owner_def new_counted_def at_block_def set_block_def
      Let_def memory_view_def checked_delete_def s32_def)

end
