(* ===== verification/SpinCount.thy ===== *)
theory SpinCount
  imports Concurrent
begin

text \<open>
  The counts under spin locks: \<open>sp_counted_base_spin.hpp\<close> with the pool of 41 locks of \<open>spinlock_pool.hpp\<close> and the
  lock of \<open>spinlock_w32.hpp\<close>. Here a count is read and written by ordinary accesses, and what makes them atomic
  is the lock around them. A step is one access of a thread, to a lock or to a count, or one virtual call. Each
  run is shown to be a run of \<open>Concurrent\<close>.
\<close>

section \<open>Calls\<close>

text \<open>The member functions by the count that they change, \<open>weak_release\<close> apart where \<open>release\<close> calls it.\<close>

datatype spin_call = CallCopy | CallDrop | CallUnpin | CallAddWeak | CallDropWeak | CallLock | CallCount

datatype atomic = AtomicIncrement | AtomicExchangeAdd int | AtomicConditionalIncrement | AtomicRead

fun atomic_of :: "spin_call \<Rightarrow> atomic" where
  "atomic_of CallCopy = AtomicIncrement"
| "atomic_of CallDrop = AtomicExchangeAdd (-1)"
| "atomic_of CallUnpin = AtomicExchangeAdd (-1)"
| "atomic_of CallAddWeak = AtomicIncrement"
| "atomic_of CallDropWeak = AtomicExchangeAdd (-1)"
| "atomic_of CallLock = AtomicConditionalIncrement"
| "atomic_of CallCount = AtomicRead"

datatype count = UseCount | WeakCount

fun count_of :: "spin_call \<Rightarrow> count" where
  "count_of CallCopy = UseCount"
| "count_of CallDrop = UseCount"
| "count_of CallUnpin = WeakCount"
| "count_of CallAddWeak = WeakCount"
| "count_of CallDropWeak = WeakCount"
| "count_of CallLock = UseCount"
| "count_of CallCount = UseCount"

fun get_count :: "count \<Rightarrow> sp_counted_base \<Rightarrow> int" where
  "get_count UseCount b = use_count b"
| "get_count WeakCount b = weak_count b"

fun set_count :: "count \<Rightarrow> int \<Rightarrow> sp_counted_base \<Rightarrow> sp_counted_base" where
  "set_count UseCount n b = b\<lparr>use_count := n\<rparr>"
| "set_count WeakCount n b = b\<lparr>weak_count := n\<rparr>"

text \<open>
  Where a thread is: outside, in \<open>lock\<close> after \<open>k\<close> failed attempts, behind the lock, behind the read of the result, behind
  the read of the value to be changed, before \<open>unlock\<close> with the result, and before the two virtual calls.
\<close>

datatype stage =
    Outside
  | Trying spin_call nat
  | Inside spin_call
  | Loaded spin_call int
  | Fetched spin_call int int
  | Leaving spin_call int
  | AtDispose
  | AtDestroy

record spin_thread =
  s_strong :: nat
  s_weakly :: nat
  stage :: stage

record spin_state =
  s_block :: "sp_counted_base option"
  s_effects :: "effect list"
  s_threads :: "spin_thread list"
  pool :: "int list"

definition set_spin :: "nat \<Rightarrow> spin_thread \<Rightarrow> spin_state \<Rightarrow> spin_state" where
  "set_spin t th s = s\<lparr>s_threads := (s_threads s)[t := th]\<rparr>"

definition spinlock_for :: "nat \<Rightarrow> nat" where
  "spinlock_for pv = pv mod 41"

text \<open>\<open>try_lock\<close>: whether the lock was free, and its new value.\<close>

definition try_lock :: "int \<Rightarrow> bool \<times> int" where
  "try_lock v = (let r = v in (r = 0, 1))"

text \<open>The loop of \<open>lock\<close> goes on with \<open>k + 1\<close>; \<open>yield\<close> only gives up the processor. \<open>unlock\<close> writes 0.\<close>

definition lock_round :: "spin_call \<Rightarrow> nat \<Rightarrow> bool \<Rightarrow> stage" where
  "lock_round c k ok = (if \<not> ok then Trying c (k + 1) else Inside c)"

definition unlock_value :: int where "unlock_value = 0"

section \<open>Steps\<close>

text \<open>The first read behind the lock: of the result, or by an increment of the value to be changed.\<close>

definition first_read :: "spin_call \<Rightarrow> int \<Rightarrow> stage" where
  "first_read c v =
     (case atomic_of c of
        AtomicIncrement \<Rightarrow> Fetched c 0 v
      | AtomicExchangeAdd dv \<Rightarrow> Loaded c v
      | AtomicConditionalIncrement \<Rightarrow> if v \<noteq> 0 then Loaded c v else Leaving c v
      | AtomicRead \<Rightarrow> Leaving c v)"

definition addend :: "spin_call \<Rightarrow> int" where
  "addend c = (case atomic_of c of AtomicExchangeAdd dv \<Rightarrow> dv | _ \<Rightarrow> 1)"

text \<open>The handles that a thread has after its count is written.\<close>

fun new_handles :: "spin_call \<Rightarrow> spin_thread \<Rightarrow> spin_thread" where
  "new_handles CallCopy th = th\<lparr>s_strong := s_strong th + 1\<rparr>"
| "new_handles CallDrop th = th\<lparr>s_strong := s_strong th - 1\<rparr>"
| "new_handles CallUnpin th = th"
| "new_handles CallAddWeak th = th\<lparr>s_weakly := s_weakly th + 1\<rparr>"
| "new_handles CallDropWeak th = th\<lparr>s_weakly := s_weakly th - 1\<rparr>"
| "new_handles CallLock th = th\<lparr>s_strong := s_strong th + 1\<rparr>"
| "new_handles CallCount th = th"

text \<open>What follows the call with a result.\<close>

fun after_call :: "spin_call \<Rightarrow> int \<Rightarrow> stage" where
  "after_call CallDrop r = (if r = 1 then AtDispose else Outside)"
| "after_call CallUnpin r = (if r = 1 then AtDestroy else Outside)"
| "after_call CallDropWeak r = (if r = 1 then AtDestroy else Outside)"
| "after_call c r = Outside"

definition in_block :: "(sp_counted_base \<Rightarrow> 'a res) \<Rightarrow> spin_state \<Rightarrow> 'a res" where
  "in_block f s = (case s_block s of None \<Rightarrow> Inl OutOfBounds | Some b \<Rightarrow> f b)"

text \<open>The next access of a thread; \<open>place\<close> has the addresses of the two counts.\<close>

definition spin_go :: "(count \<Rightarrow> nat) \<Rightarrow> nat \<Rightarrow> spin_state \<Rightarrow> spin_state res" where
  "spin_go place t s =
     (let th = s_threads s ! t; to = (\<lambda>st. th\<lparr>stage := st\<rparr>); i = (\<lambda>c. spinlock_for (place (count_of c))) in
      case stage th of
        Outside \<Rightarrow> Inr s
      | Trying c k \<Rightarrow>
          (let (ok, v) = try_lock (pool s ! i c) in
           Inr (set_spin t (to (lock_round c k ok)) (s\<lparr>pool := (pool s)[i c := v]\<rparr>)))
      | Inside c \<Rightarrow> in_block (\<lambda>b. Inr (set_spin t (to (first_read c (get_count (count_of c) b))) s)) s
      | Loaded c r \<Rightarrow> in_block (\<lambda>b. Inr (set_spin t (to (Fetched c r (get_count (count_of c) b))) s)) s
      | Fetched c r v \<Rightarrow> in_block (\<lambda>b.
          Inr (set_spin t ((new_handles c th)\<lparr>stage := Leaving c r\<rparr>)
            (s\<lparr>s_block := Some (set_count (count_of c) (s32 (v + addend c)) b)\<rparr>))) s
      | Leaving c r \<Rightarrow> Inr (set_spin t (to (after_call c r)) (s\<lparr>pool := (pool s)[i c := unlock_value]\<rparr>))
      | AtDispose \<Rightarrow> in_block (\<lambda>b.
          Inr (set_spin t (to (Trying CallUnpin 0)) (s\<lparr>s_effects := s_effects s @ dispose (block_impl b)\<rparr>))) s
      | AtDestroy \<Rightarrow> in_block (\<lambda>b. Inr (set_spin t (to Outside) (s\<lparr>s_block := None\<rparr>))) s)"

datatype spin_action = Begin spin_call | Go | PassRef nat | PassWeak nat

fun spin_step :: "(count \<Rightarrow> nat) \<Rightarrow> nat \<Rightarrow> spin_action \<Rightarrow> spin_state \<Rightarrow> spin_state res" where
  "spin_step place t (Begin c) s = Inr (set_spin t ((s_threads s ! t)\<lparr>stage := Trying c 0\<rparr>) s)"
| "spin_step place t Go s = spin_go place t s"
| "spin_step place t (PassRef u) s =
     (let th = s_threads s ! t; s = set_spin t (th\<lparr>s_strong := s_strong th - 1\<rparr>) s; th = s_threads s ! u in
      Inr (set_spin u (th\<lparr>s_strong := s_strong th + 1\<rparr>) s))"
| "spin_step place t (PassWeak u) s =
     (let th = s_threads s ! t; s = set_spin t (th\<lparr>s_weakly := s_weakly th - 1\<rparr>) s; th = s_threads s ! u in
      Inr (set_spin u (th\<lparr>s_weakly := s_weakly th + 1\<rparr>) s))"

text \<open>A call needs a handle of its kind.\<close>

fun may_call :: "spin_call \<Rightarrow> spin_thread \<Rightarrow> bool" where
  "may_call CallCopy th \<longleftrightarrow> 0 < s_strong th"
| "may_call CallDrop th \<longleftrightarrow> 0 < s_strong th"
| "may_call CallUnpin th \<longleftrightarrow> True"
| "may_call CallAddWeak th \<longleftrightarrow> 0 < s_strong th \<or> 0 < s_weakly th"
| "may_call CallDropWeak th \<longleftrightarrow> 0 < s_weakly th"
| "may_call CallLock th \<longleftrightarrow> 0 < s_weakly th"
| "may_call CallCount th \<longleftrightarrow> 0 < s_strong th \<or> 0 < s_weakly th"

fun spin_enabled :: "nat \<Rightarrow> spin_action \<Rightarrow> spin_state \<Rightarrow> bool" where
  "spin_enabled t (Begin c) s \<longleftrightarrow> stage (s_threads s ! t) = Outside \<and> c \<noteq> CallUnpin \<and> may_call c (s_threads s ! t)"
| "spin_enabled t Go s \<longleftrightarrow> stage (s_threads s ! t) \<noteq> Outside"
| "spin_enabled t (PassRef u) s \<longleftrightarrow> stage (s_threads s ! t) = Outside \<and> 0 < s_strong (s_threads s ! t) \<and> u < length (s_threads s)"
| "spin_enabled t (PassWeak u) s \<longleftrightarrow> stage (s_threads s ! t) = Outside \<and> 0 < s_weakly (s_threads s ! t) \<and> u < length (s_threads s)"

section \<open>The abstraction\<close>

text \<open>A call takes effect when its count is written, or read for nothing.\<close>

fun pc_of :: "stage \<Rightarrow> pc" where
  "pc_of AtDispose = Disposing"
| "pc_of AtDestroy = Destroying"
| "pc_of (Leaving c r) = (case after_call c r of AtDispose \<Rightarrow> Disposing | AtDestroy \<Rightarrow> Destroying | _ \<Rightarrow> Ready)"
| "pc_of (Trying c k) = (if c = CallUnpin then Unpinning else Ready)"
| "pc_of (Inside c) = (if c = CallUnpin then Unpinning else Ready)"
| "pc_of (Loaded c r) = (if c = CallUnpin then Unpinning else Ready)"
| "pc_of (Fetched c r v) = (if c = CallUnpin then Unpinning else Ready)"
| "pc_of Outside = Ready"

definition thread_of :: "spin_thread \<Rightarrow> sp_thread" where
  "thread_of th = \<lparr>strong = s_strong th, weakly = s_weakly th, pc = pc_of (stage th)\<rparr>"

definition spin_abs :: "spin_state \<Rightarrow> conc_state" where
  "spin_abs s = \<lparr>block = s_block s, effects = s_effects s, threads = map thread_of (s_threads s)\<rparr>"

definition spin_none :: spin_thread where "spin_none = \<lparr>s_strong = 0, s_weakly = 0, stage = Outside\<rparr>"

text \<open>Thread 0 has constructed the block; all locks are free.\<close>

inductive spin_run :: "(count \<Rightarrow> nat) \<Rightarrow> impl \<Rightarrow> spin_state \<Rightarrow> bool" for place im where
  spin_start: "spin_run place im \<lparr>s_block = Some (new_counted im), s_effects = [],
     s_threads = spin_none\<lparr>s_strong := 1\<rparr> # replicate n spin_none, pool = replicate 41 0\<rparr>"
| spin_move: "spin_run place im s \<Longrightarrow> t < length (s_threads s) \<Longrightarrow> spin_enabled t a s \<Longrightarrow> conc_room (spin_abs s) \<Longrightarrow>
    spin_step place t a s = Inr s' \<Longrightarrow> spin_run place im s'"

section \<open>What the locks keep\<close>

text \<open>The call whose lock a thread holds, and the call that has not taken effect yet.\<close>

fun section_of :: "stage \<Rightarrow> spin_call option" where
  "section_of (Inside c) = Some c"
| "section_of (Loaded c r) = Some c"
| "section_of (Fetched c r v) = Some c"
| "section_of (Leaving c r) = Some c"
| "section_of st = None"

fun pending_of :: "stage \<Rightarrow> spin_call option" where
  "pending_of (Trying c k) = Some c"
| "pending_of (Inside c) = Some c"
| "pending_of (Loaded c r) = Some c"
| "pending_of (Fetched c r v) = Some c"
| "pending_of st = None"

definition lock_of :: "(count \<Rightarrow> nat) \<Rightarrow> spin_call \<Rightarrow> nat" where
  "lock_of place c = spinlock_for (place (count_of c))"

definition holds :: "(count \<Rightarrow> nat) \<Rightarrow> nat \<Rightarrow> spin_thread \<Rightarrow> bool" where
  "holds place i th \<longleftrightarrow> (\<exists>c. section_of (stage th) = Some c \<and> lock_of place c = i)"

definition locks_ok :: "(count \<Rightarrow> nat) \<Rightarrow> int list \<Rightarrow> spin_thread list \<Rightarrow> bool" where
  "locks_ok place vs ths \<longleftrightarrow> length vs = 41 \<and>
     (\<forall>t < length ths. \<forall>i. holds place i (ths ! t) \<longrightarrow> vs ! i \<noteq> 0) \<and>
     (\<forall>t < length ths. \<forall>u < length ths. \<forall>i. holds place i (ths ! t) \<longrightarrow> holds place i (ths ! u) \<longrightarrow> t = u)"

text \<open>What a thread has read behind its lock is still there.\<close>

fun read_ok :: "sp_counted_base \<Rightarrow> stage \<Rightarrow> bool" where
  "read_ok b (Loaded c r) \<longleftrightarrow> get_count (count_of c) b = r \<and> (case atomic_of c of
     AtomicExchangeAdd dv \<Rightarrow> True | AtomicConditionalIncrement \<Rightarrow> r \<noteq> 0 | _ \<Rightarrow> False)"
| "read_ok b (Fetched c r v) \<longleftrightarrow> get_count (count_of c) b = v \<and> (case atomic_of c of
     AtomicIncrement \<Rightarrow> True | AtomicExchangeAdd dv \<Rightarrow> r = v | AtomicConditionalIncrement \<Rightarrow> r = v \<and> r \<noteq> 0 | AtomicRead \<Rightarrow> False)"
| "read_ok b st \<longleftrightarrow> True"

definition thread_ok :: "sp_counted_base option \<Rightarrow> spin_thread \<Rightarrow> bool" where
  "thread_ok b th \<longleftrightarrow> (case b of None \<Rightarrow> True | Some b \<Rightarrow> read_ok b (stage th)) \<and>
     (\<forall>c. pending_of (stage th) = Some c \<longrightarrow> may_call c th)"

definition spin_ok :: "(count \<Rightarrow> nat) \<Rightarrow> spin_state \<Rightarrow> bool" where
  "spin_ok place s \<longleftrightarrow> locks_ok place (pool s) (s_threads s) \<and> (\<forall>t < length (s_threads s). thread_ok (s_block s) (s_threads s ! t))"

lemma lock_of_less: "lock_of place c < 41"
  by (simp add: lock_of_def spinlock_for_def)

lemma locks_same:
  assumes "locks_ok place vs ths" and "t < length ths" and "section_of (stage th) = section_of (stage (ths ! t))"
  shows "locks_ok place vs (ths[t := th])"
proof -
  have "holds place i (ths[t := th] ! u) = holds place i (ths ! u)" for i u
    using assms(2,3) by (cases "u = t") (simp_all add: holds_def)
  then show ?thesis using assms(1) by (simp add: locks_ok_def)
qed

lemma locks_taken:
  assumes "locks_ok place vs ths" and "t < length ths" and "vs ! lock_of place c = 0" and "section_of (stage th) = Some c"
    and "section_of (stage (ths ! t)) = None"
  shows "locks_ok place (vs[lock_of place c := 1]) (ths[t := th])"
proof -
  have new: "holds place i (ths[t := th] ! u) \<longleftrightarrow> (if u = t then i = lock_of place c else holds place i (ths ! u))" for i u
    using assms(2,4) by (auto simp: holds_def)
  have free: "\<not> holds place (lock_of place c) (ths ! u)" if "u < length ths" for u
    using assms(1,3) that by (auto simp: locks_ok_def)
  have "length vs = 41" using assms(1) by (simp add: locks_ok_def)
  then show ?thesis
    unfolding locks_ok_def new using assms(1) free lock_of_less [of place c] by (auto simp: locks_ok_def nth_list_update)
qed

lemma locks_busy:
  assumes "locks_ok place vs ths"
  shows "locks_ok place (vs[i := 1]) ths"
proof (cases "i < length vs")
  case True
  then show ?thesis using assms by (auto simp: locks_ok_def nth_list_update)
next
  case False
  then show ?thesis using assms list_update_beyond [of vs i 1] by simp
qed

lemma locks_left:
  assumes "locks_ok place vs ths" and "t < length ths" and "section_of (stage (ths ! t)) = Some c" and "section_of (stage th) = None"
  shows "locks_ok place (vs[lock_of place c := 0]) (ths[t := th])"
proof -
  have new: "holds place i (ths[t := th] ! u) \<longleftrightarrow> u \<noteq> t \<and> holds place i (ths ! u)" for i u
    using assms(2,4) by (cases "u = t") (simp_all add: holds_def)
  have "holds place (lock_of place c) (ths ! t)" using assms(3) by (auto simp: holds_def)
  then have "\<not> holds place (lock_of place c) (ths ! u)" if "u < length ths" "u \<noteq> t" for u
    using assms(1,2) that by (auto simp: locks_ok_def)
  then show ?thesis
    unfolding locks_ok_def new using assms(1) by (auto simp: locks_ok_def) (metis nth_list_update_neq)
qed

text \<open>A write of a count disturbs no other thread, since those that have read it would hold the same lock.\<close>

lemma get_set_count: "get_count k (set_count k' n b) = (if k = k' then n else get_count k b)"
  by (cases k; cases k') auto

lemma write_undisturbed:
  assumes "locks_ok place vs ths" and "t < length ths" and "u < length ths" and "u \<noteq> t" and "section_of (stage (ths ! t)) = Some c"
    and "thread_ok (Some b) (ths ! u)"
  shows "thread_ok (Some (set_count (count_of c) n b)) (ths ! u)"
proof -
  have "count_of d \<noteq> count_of c" if "section_of (stage (ths ! u)) = Some d" for d
  proof
    assume "count_of d = count_of c"
    then have "holds place (lock_of place c) (ths ! u)" "holds place (lock_of place c) (ths ! t)"
      using that assms(5) by (auto simp: holds_def lock_of_def)
    then show False using assms(1-4) by (auto simp: locks_ok_def)
  qed
  then show ?thesis using assms(6) by (cases "stage (ths ! u)") (auto simp: thread_ok_def get_set_count split: atomic.splits)
qed

section \<open>Each step\<close>

lemma abs_simps [simp]:
  "threads (spin_abs s) = map thread_of (s_threads s)" "block (spin_abs s) = s_block s" "effects (spin_abs s) = s_effects s"
  "spin_abs (s\<lparr>pool := vs\<rparr>) = spin_abs s" "spin_abs (s\<lparr>s_block := b\<rparr>) = (spin_abs s)\<lparr>block := b\<rparr>"
  "spin_abs (s\<lparr>s_effects := es\<rparr>) = (spin_abs s)\<lparr>effects := es\<rparr>"
  by (simp_all add: spin_abs_def)

lemma abs_set [simp]: "spin_abs (set_spin t th s) = set_thread t (thread_of th) (spin_abs s)"
  by (simp add: spin_abs_def set_spin_def set_thread_def map_update)

lemma set_spin_simps [simp]:
  "s_threads (set_spin t th s) = (s_threads s)[t := th]" "s_block (set_spin t th s) = s_block s" "pool (set_spin t th s) = pool s"
  by (simp_all add: set_spin_def)

lemma abs_unmoved:
  assumes "t < length (s_threads s)" and "thread_of th = thread_of (s_threads s ! t)"
  shows "set_thread t (thread_of th) (spin_abs s) = spin_abs s"
proof -
  have "(map thread_of (s_threads s))[t := thread_of th] = map thread_of (s_threads s)"
    using assms by (metis length_map list_update_id nth_map)
  then show ?thesis by (simp add: set_thread_def spin_abs_def)
qed

lemma abs_stage:
  assumes "t < length (s_threads s)" and "pc_of st = pc_of (stage (s_threads s ! t))"
  shows "set_thread t (thread_of ((s_threads s ! t)\<lparr>stage := st\<rparr>)) (spin_abs s) = spin_abs s"
  using assms by (intro abs_unmoved) (simp_all add: thread_of_def)

text \<open>A handle keeps the block alive.\<close>

lemma block_alive:
  assumes "conc_run im (spin_abs s)" and "conc_room (spin_abs s)" and "t < length (s_threads s)"
    and "conc_enabled t a (spin_abs s)" and "\<forall>s'. conc_step t a (spin_abs s) = Inr s' \<longrightarrow> s_block s \<noteq> None"
  shows "\<exists>b. s_block s = Some b"
  using conc_safe [OF assms(1) _ assms(4,2)] assms(3,5) by auto

lemma pending_alive:
  assumes "conc_run im (spin_abs s)" and "conc_room (spin_abs s)" and "t < length (s_threads s)"
    and "pending_of (stage (s_threads s ! t)) = Some c" and "may_call c (s_threads s ! t)"
  shows "\<exists>b. s_block s = Some b"
proof (cases "c = CallUnpin")
  case True
  then have "pc_of (stage (s_threads s ! t)) = Unpinning" using assms(4) by (cases "stage (s_threads s ! t)") auto
  then show ?thesis using assms(3)
    by (intro block_alive [OF assms(1-3), of UnpinStep]) (auto simp: thread_of_def on_block_def split: option.splits)
next
  case False
  then have "pc_of (stage (s_threads s ! t)) = Ready" using assms(4) by (cases "stage (s_threads s ! t)") auto
  moreover have "0 < s_strong (s_threads s ! t) \<or> 0 < s_weakly (s_threads s ! t)" using assms(5) False by (cases c) auto
  ultimately show ?thesis using assms(3)
    by (intro block_alive [OF assms(1-3), of AddWeak]) (auto simp: thread_of_def on_block_def split: option.splits)
qed

lemma virtual_alive:
  assumes "conc_run im (spin_abs s)" and "conc_room (spin_abs s)" and "t < length (s_threads s)"
    and "stage (s_threads s ! t) \<in> {AtDispose, AtDestroy}"
  shows "\<exists>b. s_block s = Some b"
proof -
  have "stage (s_threads s ! t) = AtDispose \<Longrightarrow> ?thesis" using assms(3)
    by (intro block_alive [OF assms(1-3), of DisposeStep]) (auto simp: thread_of_def on_block_def split: option.splits)
  moreover have "stage (s_threads s ! t) = AtDestroy \<Longrightarrow> ?thesis" using assms(3)
    by (intro block_alive [OF assms(1-3), of DestroyStep]) (auto simp: thread_of_def on_block_def split: option.splits)
  ultimately show ?thesis using assms(4) by auto
qed

text \<open>The counts are in range, so that a result of 1 is a new count of 0.\<close>

lemma counts_range:
  assumes "conc_run im s" and "conc_room s" and "block s = Some b"
  shows "0 \<le> get_count k b" and "get_count k b < 2 ^ 31 - 1"
proof -
  obtain ph where "in_phase im ph (Some b) (effects s) (threads s)" using conc_run_ok [OF assms(1)] assms(3) by (auto simp: conc_ok_def)
  moreover have "0 \<le> owners_total (threads s)" "0 \<le> observers_total (threads s)" by (simp_all add: total_nonneg)
  ultimately have "0 \<le> get_count k b \<and> get_count k b < 2 ^ 31 - 1" using assms(2) unfolding conc_room_def by (cases ph; cases k) auto
  then show "0 \<le> get_count k b" "get_count k b < 2 ^ 31 - 1" by auto
qed

lemma drop_zero: "0 \<le> x \<Longrightarrow> x < 2 ^ 31 - 1 \<Longrightarrow> s32 (x - 1) = 0 \<longleftrightarrow> x = 1"
  using s32_id [of "x - 1"] by auto

text \<open>The conditional increment under a lock is the loop of \<open>add_ref_lock\<close> in which no other thread moves.\<close>

lemma set_thread_twice [simp]: "set_thread t x (set_thread t y s) = set_thread t x s"
  by (simp add: set_thread_def)

lemma totals_pc: "t < length ts \<Longrightarrow> owners_total (ts[t := (ts ! t)\<lparr>pc := p\<rparr>]) = owners_total ts"
    "t < length ts \<Longrightarrow> observers_total (ts[t := (ts ! t)\<lparr>pc := p\<rparr>]) = observers_total ts"
  by (simp_all add: owners_update observers_update)

lemma conc_lock:
  assumes "conc_run im s" and "conc_room s" and "t < length (threads s)" and "conc_enabled t StartLock s"
    and "block s = Some b" and "use_count b \<noteq> 0"
  shows "conc_run im (set_thread t ((threads s ! t)\<lparr>strong := strong (threads s ! t) + 1, pc := Ready\<rparr>)
    (s\<lparr>block := Some (b\<lparr>use_count := s32 (use_count b + 1)\<rparr>)\<rparr>))"
proof -
  let ?th = "threads s ! t"
  let ?s1 = "set_thread t (?th\<lparr>pc := Locking\<rparr>) s" and ?s2 = "set_thread t (?th\<lparr>pc := Exchanging (use_count b)\<rparr>) s"
  have room: "conc_room (set_thread t (?th\<lparr>pc := p\<rparr>) s)" for p
    using assms(2,3) by (simp add: conc_room_def set_thread_def totals_pc)
  have "conc_run im ?s1" by (rule conc_move [OF assms(1,3,4,2)]) (simp add: Let_def)
  then have "conc_run im ?s2"
    by (rule conc_move [where t = t and a = ReadCount]) (use assms(3,5,6) room in \<open>simp_all add: set_thread_def on_block_def\<close>)
  then show ?thesis
    by (rule conc_move [where t = t and a = Exchange]) (use assms(3,5) room in \<open>simp_all add: set_thread_def on_block_def\<close>)
qed

definition spin_moves :: "(count \<Rightarrow> nat) \<Rightarrow> impl \<Rightarrow> nat \<Rightarrow> spin_action \<Rightarrow> spin_state \<Rightarrow> bool" where
  "spin_moves place im t a s \<longleftrightarrow> (\<exists>s'. spin_step place t a s = Inr s' \<and> spin_ok place s' \<and> conc_run im (spin_abs s'))"

lemma spin_okI:
  assumes "t < length (s_threads s)" and "s_threads s' = (s_threads s)[t := th]" and "locks_ok place (pool s') ((s_threads s)[t := th])"
    and "thread_ok (s_block s') th" and "\<And>u. u < length (s_threads s) \<Longrightarrow> u \<noteq> t \<Longrightarrow> thread_ok (s_block s') (s_threads s ! u)"
  shows "spin_ok place s'"
  using assms by (auto simp: spin_ok_def nth_list_update)

lemma may_call_stage [simp]: "may_call c (th\<lparr>stage := st\<rparr>) \<longleftrightarrow> may_call c th"
  by (cases c) auto

lemma thread_ok_stage:
  "thread_ok b (th\<lparr>stage := st\<rparr>) \<longleftrightarrow> (case b of None \<Rightarrow> True | Some b \<Rightarrow> read_ok b st) \<and> (\<forall>c. pending_of st = Some c \<longrightarrow> may_call c th)"
  by (simp add: thread_ok_def split: option.split)

lemma spin_okD:
  assumes "spin_ok place s" and "t < length (s_threads s)"
  shows "locks_ok place (pool s) (s_threads s)" and "thread_ok (s_block s) (s_threads s ! t)"
  using assms by (simp_all add: spin_ok_def)

lemma Trying_moves:
  assumes "spin_ok place s" and "conc_run im (spin_abs s)" and "t < length (s_threads s)" and "stage (s_threads s ! t) = Trying c k"
  shows "spin_moves place im t Go s"
proof -
  let ?th = "s_threads s ! t" and ?i = "lock_of place c"
  note ok = spin_okD [OF assms(1,3)]
  have call: "may_call c ?th" using ok(2) assms(4) by (simp add: thread_ok_def)
  let ?st = "if pool s ! ?i = 0 then Inside c else Trying c (k + 1)"
  let ?s = "set_spin t (?th\<lparr>stage := ?st\<rparr>) (s\<lparr>pool := (pool s)[?i := 1]\<rparr>)"
  have "locks_ok place ((pool s)[?i := 1]) ((s_threads s)[t := ?th\<lparr>stage := ?st\<rparr>])"
    using locks_taken [OF ok(1) assms(3)] locks_busy [OF locks_same [OF ok(1) assms(3)]] assms(4) by simp
  moreover have "thread_ok (s_block s) (?th\<lparr>stage := ?st\<rparr>)" using call by (simp add: thread_ok_stage split: option.split)
  ultimately have "spin_ok place ?s" using assms(1,3) by (intro spin_okI [of t s ?s]) (simp_all add: spin_ok_def)
  moreover have "spin_abs ?s = spin_abs s"
    unfolding abs_set abs_simps using assms(3,4) by (intro abs_stage) auto
  moreover have "spin_step place t Go s = Inr ?s"
    using assms(4) by (simp add: spin_go_def Let_def try_lock_def lock_round_def lock_of_def)
  ultimately show ?thesis using assms(2) by (auto simp: spin_moves_def)
qed

lemma Leaving_moves:
  assumes "spin_ok place s" and "conc_run im (spin_abs s)" and "t < length (s_threads s)" and "stage (s_threads s ! t) = Leaving c r"
  shows "spin_moves place im t Go s"
proof -
  let ?th = "s_threads s ! t" and ?i = "lock_of place c" and ?st = "after_call c r"
  note ok = spin_okD [OF assms(1,3)]
  let ?s = "set_spin t (?th\<lparr>stage := ?st\<rparr>) (s\<lparr>pool := (pool s)[?i := 0]\<rparr>)"
  have st: "?st \<in> {Outside, AtDispose, AtDestroy}" by (cases c) auto
  then have "section_of ?st = None" "pending_of ?st = None" "pc_of ?st = pc_of (Leaving c r)" "read_ok b ?st" for b by auto
  note st = this
  have "locks_ok place ((pool s)[?i := 0]) ((s_threads s)[t := ?th\<lparr>stage := ?st\<rparr>])"
    using locks_left [OF ok(1) assms(3)] assms(4) st(1) by simp
  moreover have "thread_ok (s_block s) (?th\<lparr>stage := ?st\<rparr>)" using st(2,4) by (simp add: thread_ok_stage split: option.split)
  ultimately have "spin_ok place ?s" using assms(1,3) by (intro spin_okI [of t s ?s]) (simp_all add: spin_ok_def)
  moreover have "spin_abs ?s = spin_abs s"
    unfolding abs_set abs_simps using assms(3,4) st(3) by (intro abs_stage) auto
  moreover have "spin_step place t Go s = Inr ?s"
    using assms(4) by (simp add: spin_go_def Let_def unlock_value_def lock_of_def)
  ultimately show ?thesis using assms(2) by (auto simp: spin_moves_def)
qed

text \<open>The reads behind the lock.\<close>

lemma read_moves:
  assumes "spin_ok place s" and "conc_run im (spin_abs s)" and "t < length (s_threads s)"
    and "s_block s = Some b" and "spin_step place t Go s = Inr (set_spin t ((s_threads s ! t)\<lparr>stage := st\<rparr>) s)"
    and "section_of st = section_of (stage (s_threads s ! t))" and "pc_of st = pc_of (stage (s_threads s ! t))" and "read_ok b st"
    and "\<And>c. pending_of st = Some c \<Longrightarrow> pending_of (stage (s_threads s ! t)) = Some c"
  shows "spin_moves place im t Go s"
proof -
  let ?th = "(s_threads s ! t)\<lparr>stage := st\<rparr>"
  note ok = spin_okD [OF assms(1,3)]
  have "thread_ok (s_block s) ?th" using ok(2) assms(4,8,9) by (auto simp: thread_ok_stage thread_ok_def)
  moreover have "locks_ok place (pool s) ((s_threads s)[t := ?th])" using locks_same [OF ok(1) assms(3), of ?th] assms(6) by simp
  ultimately have "spin_ok place (set_spin t ?th s)" using assms(1,3) by (intro spin_okI [of t s]) (simp_all add: spin_ok_def)
  moreover have "spin_abs (set_spin t ?th s) = spin_abs s" unfolding abs_set using assms(3,7) by (intro abs_stage) auto
  ultimately show ?thesis using assms(2,5) by (auto simp: spin_moves_def)
qed

lemma first_read_facts:
  "section_of (first_read c v) = Some c" "pc_of (first_read c v) = pc_of (Inside c)" "pending_of (first_read c v) \<in> {None, Some c}"
  "get_count (count_of c) b = v \<Longrightarrow> read_ok b (first_read c v)"
  by (cases c, simp_all add: first_read_def)+

lemma Inside_moves:
  assumes "spin_ok place s" and "conc_run im (spin_abs s)" and "conc_room (spin_abs s)" and "t < length (s_threads s)"
    and "stage (s_threads s ! t) = Inside c"
  shows "spin_moves place im t Go s"
proof -
  have "may_call c (s_threads s ! t)" using spin_okD(2) [OF assms(1,4)] assms(5) by (simp add: thread_ok_def)
  then obtain b where b: "s_block s = Some b" using pending_alive [OF assms(2,3,4)] assms(5) by auto
  let ?st = "first_read c (get_count (count_of c) b)"
  have "spin_step place t Go s = Inr (set_spin t ((s_threads s ! t)\<lparr>stage := ?st\<rparr>) s)"
    using assms(5) b by (simp add: spin_go_def Let_def in_block_def)
  moreover note first_read_facts(1-3) [of c "get_count (count_of c) b"] first_read_facts(4) [OF refl, of b c]
  ultimately show ?thesis using assms(5) by (intro read_moves [OF assms(1,2,4) b]) auto
qed

lemma Loaded_moves:
  assumes "spin_ok place s" and "conc_run im (spin_abs s)" and "conc_room (spin_abs s)" and "t < length (s_threads s)"
    and "stage (s_threads s ! t) = Loaded c r"
  shows "spin_moves place im t Go s"
proof -
  have "may_call c (s_threads s ! t)" using spin_okD(2) [OF assms(1,4)] assms(5) by (simp add: thread_ok_def)
  then obtain b where b: "s_block s = Some b" using pending_alive [OF assms(2,3,4)] assms(5) by auto
  have "read_ok b (Loaded c r)" using spin_okD(2) [OF assms(1,4)] assms(5) b by (simp add: thread_ok_def)
  then have "read_ok b (Fetched c r (get_count (count_of c) b))" by (auto split: atomic.splits)
  moreover have "spin_step place t Go s = Inr (set_spin t ((s_threads s ! t)\<lparr>stage := Fetched c r (get_count (count_of c) b)\<rparr>) s)"
    using assms(5) b by (simp add: spin_go_def Let_def in_block_def)
  ultimately show ?thesis using assms(5) by (intro read_moves [OF assms(1,2,4) b]) auto
qed

text \<open>The write: here the call takes effect.\<close>

definition written :: "spin_call \<Rightarrow> int \<Rightarrow> nat \<Rightarrow> sp_counted_base \<Rightarrow> spin_state \<Rightarrow> spin_state" where
  "written c r t b s = set_spin t ((new_handles c (s_threads s ! t))\<lparr>stage := Leaving c r\<rparr>)
     (s\<lparr>s_block := Some (set_count (count_of c) (s32 (get_count (count_of c) b + addend c)) b)\<rparr>)"

lemma write_effect:
  assumes "conc_run im (spin_abs s)" and "conc_room (spin_abs s)" and "t < length (s_threads s)"
    and "stage (s_threads s ! t) = Fetched c r v" and "s_block s = Some b" and "read_ok b (Fetched c r v)" and "may_call c (s_threads s ! t)"
  shows "conc_run im (spin_abs (written c r t b s))"
proof -
  let ?s = "spin_abs s"
  have t: "t < length (threads ?s)" using assms(3) by simp
  have th: "threads ?s ! t = thread_of (s_threads s ! t)" using assms(3) by simp
  have b: "block ?s = Some b" using assms(5) by simp
  have zero: "s32 (get_count k b - 1) = 0 \<longleftrightarrow> get_count k b = 1" for k
    using drop_zero counts_range [OF assms(1,2) b] by blast
  note go = conc_move [OF assms(1) t _ assms(2)]
  note defs = written_def on_block_def thread_of_def addend_def
  show ?thesis
  proof (cases c)
    case CallCopy
    then show ?thesis using assms(4,5,7) th by (intro go [of CopyRef]) (auto simp: defs)
  next
    case CallDrop
    then show ?thesis using assms(4-7) th zero [of UseCount] by (intro go [of DropRef]) (auto simp: defs)
  next
    case CallUnpin
    then show ?thesis using assms(4-7) th zero [of WeakCount] by (intro go [of UnpinStep]) (auto simp: defs)
  next
    case CallAddWeak
    then show ?thesis using assms(4,5,7) th by (intro go [of AddWeak]) (auto simp: defs)
  next
    case CallDropWeak
    then show ?thesis using assms(4-7) th zero [of WeakCount] by (intro go [of DropWeak]) (auto simp: defs)
  next
    case CallLock
    then have "conc_enabled t StartLock ?s" "use_count b \<noteq> 0" using assms(4,6,7) th by (auto simp: thread_of_def)
    from conc_lock [OF assms(1,2) t this(1) b this(2)] show ?thesis
      using CallLock assms(4) th by (simp add: defs)
  next
    case CallCount
    then show ?thesis using assms(6) by simp
  qed
qed

lemma Fetched_moves:
  assumes "spin_ok place s" and "conc_run im (spin_abs s)" and "conc_room (spin_abs s)" and "t < length (s_threads s)"
    and "stage (s_threads s ! t) = Fetched c r v"
  shows "spin_moves place im t Go s"
proof -
  note ok = spin_okD [OF assms(1,4)]
  have call: "may_call c (s_threads s ! t)" using ok(2) assms(5) by (simp add: thread_ok_def)
  then obtain b where b: "s_block s = Some b" using pending_alive [OF assms(2,3,4)] assms(5) by auto
  have reads: "read_ok b (Fetched c r v)" using ok(2) assms(5) b by (simp add: thread_ok_def)
  then have v: "v = get_count (count_of c) b" by simp
  let ?th = "(new_handles c (s_threads s ! t))\<lparr>stage := Leaving c r\<rparr>"
  have "locks_ok place (pool s) ((s_threads s)[t := ?th])" using locks_same [OF ok(1) assms(4), of ?th] assms(5) by simp
  moreover have "thread_ok (s_block (written c r t b s)) ?th" by (simp add: thread_ok_stage written_def)
  moreover have "thread_ok (s_block (written c r t b s)) (s_threads s ! u)" if "u < length (s_threads s)" "u \<noteq> t" for u
    using write_undisturbed [OF ok(1) assms(4) that, of c b] spin_okD(2) [OF assms(1) that(1)] b assms(5) by (simp add: written_def)
  ultimately have "spin_ok place (written c r t b s)"
    using assms(4) by (intro spin_okI [of t s]) (simp_all add: written_def)
  moreover have "spin_step place t Go s = Inr (written c r t b s)"
    using assms(5) b v by (simp add: spin_go_def Let_def in_block_def written_def)
  ultimately show ?thesis
    using write_effect [OF assms(2,3,4,5) b reads call] by (auto simp: spin_moves_def)
qed

text \<open>The virtual calls.\<close>

lemma virtual_moves:
  assumes "spin_ok place s" and "conc_run im (spin_abs s)" and "conc_room (spin_abs s)" and "t < length (s_threads s)"
    and "stage (s_threads s ! t) = AtDispose \<or> stage (s_threads s ! t) = AtDestroy"
  shows "spin_moves place im t Go s"
proof -
  note ok = spin_okD [OF assms(1,4)]
  obtain b where b: "s_block s = Some b" using virtual_alive [OF assms(2,3,4)] assms(5) by auto
  let ?s = "if stage (s_threads s ! t) = AtDispose
    then set_spin t ((s_threads s ! t)\<lparr>stage := Trying CallUnpin 0\<rparr>) (s\<lparr>s_effects := s_effects s @ dispose (block_impl b)\<rparr>)
    else set_spin t ((s_threads s ! t)\<lparr>stage := Outside\<rparr>) (s\<lparr>s_block := None\<rparr>)"
  let ?st = "if stage (s_threads s ! t) = AtDispose then Trying CallUnpin 0 else Outside"
  have "locks_ok place (pool s) ((s_threads s)[t := (s_threads s ! t)\<lparr>stage := ?st\<rparr>])"
    using assms(5) by (intro locks_same [OF ok(1) assms(4)]) auto
  moreover have "thread_ok (s_block ?s) ((s_threads s ! t)\<lparr>stage := ?st\<rparr>)" by (simp add: thread_ok_stage split: option.split)
  moreover have "thread_ok (s_block ?s) (s_threads s ! u)" if "u < length (s_threads s)" for u
    using spin_okD(2) [OF assms(1) that] by (auto simp: thread_ok_def)
  ultimately have "spin_ok place ?s" using assms(4) by (intro spin_okI [of t s]) auto
  moreover have "spin_step place t Go s = Inr ?s" using assms(5) b by (auto simp: spin_go_def Let_def in_block_def)
  moreover have "conc_run im (spin_abs ?s)"
  proof (cases "stage (s_threads s ! t) = AtDispose")
    case True
    then show ?thesis using assms(3,4) b
      by (intro conc_move [OF assms(2), of t DisposeStep]) (auto simp: on_block_def thread_of_def)
  next
    case False
    then have "stage (s_threads s ! t) = AtDestroy" using assms(5) by simp
    then show ?thesis using assms(3,4) b
      by (intro conc_move [OF assms(2), of t DestroyStep]) (auto simp: on_block_def thread_of_def)
  qed
  ultimately show ?thesis by (auto simp: spin_moves_def)
qed

text \<open>Calls begin and handles are passed on.\<close>

lemma spin_ok_update:
  assumes "spin_ok place s" and "t < length (s_threads s)" and "section_of (stage th) = section_of (stage (s_threads s ! t))"
    and "thread_ok (s_block s) th"
  shows "spin_ok place (set_spin t th s)"
  using assms locks_same [OF spin_okD(1) [OF assms(1,2)] assms(2,3)]
  by (intro spin_okI [of t s]) (simp_all add: spin_ok_def)

lemma Begin_moves:
  assumes "spin_ok place s" and "conc_run im (spin_abs s)" and "t < length (s_threads s)" and "spin_enabled t (Begin c) s"
  shows "spin_moves place im t (Begin c) s"
proof -
  let ?s = "set_spin t ((s_threads s ! t)\<lparr>stage := Trying c 0\<rparr>) s"
  have "spin_ok place ?s" using assms(4) by (intro spin_ok_update [OF assms(1,3)]) (auto simp: thread_ok_stage split: option.split)
  moreover have "spin_abs ?s = spin_abs s" unfolding abs_set using assms(3,4) by (intro abs_stage) auto
  ultimately show ?thesis using assms(2) by (simp add: spin_moves_def)
qed

lemma may_call_more:
  "may_call c th \<Longrightarrow> may_call c (th\<lparr>s_strong := s_strong th + 1\<rparr>)" "may_call c th \<Longrightarrow> may_call c (th\<lparr>s_weakly := s_weakly th + 1\<rparr>)"
  by (cases c; simp)+

lemma PassRef_moves:
  assumes "spin_ok place s" and "conc_run im (spin_abs s)" and "conc_room (spin_abs s)" and "t < length (s_threads s)"
    and "spin_enabled t (PassRef u) s"
  shows "spin_moves place im t (PassRef u) s"
proof -
  let ?th = "s_threads s ! t"
  let ?s1 = "set_spin t (?th\<lparr>s_strong := s_strong ?th - 1\<rparr>) s"
  let ?s = "set_spin u ((s_threads ?s1 ! u)\<lparr>s_strong := s_strong (s_threads ?s1 ! u) + 1\<rparr>) ?s1"
  have u: "u < length (s_threads s)" and out: "stage ?th = Outside" using assms(5) by simp_all
  have one: "spin_ok place ?s1" using out by (intro spin_ok_update [OF assms(1,4)]) (simp_all add: thread_ok_def split: option.split)
  have u1: "u < length (s_threads ?s1)" using u by simp
  have "thread_ok (s_block ?s1) ((s_threads ?s1 ! u)\<lparr>s_strong := s_strong (s_threads ?s1 ! u) + 1\<rparr>)"
    using spin_okD(2) [OF one u1] may_call_more unfolding thread_ok_def by (simp split: option.splits)
  then have "spin_ok place ?s" by (intro spin_ok_update [OF one u1]) simp_all
  moreover have "spin_step place t (PassRef u) s = Inr ?s" by (simp only: spin_step.simps Let_def)
  moreover have "conc_run im (spin_abs ?s)"
  proof (rule conc_move [OF assms(2) _ _ assms(3)])
    show "conc_step t (GiveRef u) (spin_abs s) = Inr (spin_abs ?s)"
      using assms(4) u by (cases "u = t") (simp_all add: Let_def thread_of_def set_thread_def)
  qed (use assms(4,5) in \<open>simp_all add: thread_of_def\<close>)
  ultimately show ?thesis unfolding spin_moves_def by blast
qed

lemma PassWeak_moves:
  assumes "spin_ok place s" and "conc_run im (spin_abs s)" and "conc_room (spin_abs s)" and "t < length (s_threads s)"
    and "spin_enabled t (PassWeak u) s"
  shows "spin_moves place im t (PassWeak u) s"
proof -
  let ?th = "s_threads s ! t"
  let ?s1 = "set_spin t (?th\<lparr>s_weakly := s_weakly ?th - 1\<rparr>) s"
  let ?s = "set_spin u ((s_threads ?s1 ! u)\<lparr>s_weakly := s_weakly (s_threads ?s1 ! u) + 1\<rparr>) ?s1"
  have u: "u < length (s_threads s)" and out: "stage ?th = Outside" using assms(5) by simp_all
  have one: "spin_ok place ?s1" using out by (intro spin_ok_update [OF assms(1,4)]) (simp_all add: thread_ok_def split: option.split)
  have u1: "u < length (s_threads ?s1)" using u by simp
  have "thread_ok (s_block ?s1) ((s_threads ?s1 ! u)\<lparr>s_weakly := s_weakly (s_threads ?s1 ! u) + 1\<rparr>)"
    using spin_okD(2) [OF one u1] may_call_more unfolding thread_ok_def by (simp split: option.splits)
  then have "spin_ok place ?s" by (intro spin_ok_update [OF one u1]) simp_all
  moreover have "spin_step place t (PassWeak u) s = Inr ?s" by (simp only: spin_step.simps Let_def)
  moreover have "conc_run im (spin_abs ?s)"
  proof (rule conc_move [OF assms(2) _ _ assms(3)])
    show "conc_step t (GiveWeak u) (spin_abs s) = Inr (spin_abs ?s)"
      using assms(4) u by (cases "u = t") (simp_all add: Let_def thread_of_def set_thread_def)
  qed (use assms(4,5) in \<open>simp_all add: thread_of_def\<close>)
  ultimately show ?thesis unfolding spin_moves_def by blast
qed

lemma spin_step_ok:
  assumes "spin_ok place s" and "conc_run im (spin_abs s)" and "conc_room (spin_abs s)" and "t < length (s_threads s)"
    and "spin_enabled t a s"
  shows "spin_moves place im t a s"
proof (cases a)
  case (Begin c)
  then show ?thesis using Begin_moves [OF assms(1,2,4)] assms(5) by simp
next
  case Go
  then show ?thesis
    using assms(5) Trying_moves [OF assms(1,2,4)] Inside_moves [OF assms(1-4)] Loaded_moves [OF assms(1-4)] Fetched_moves [OF assms(1-4)]
      Leaving_moves [OF assms(1,2,4)] virtual_moves [OF assms(1-4)]
    by (cases "stage (s_threads s ! t)") auto
next
  case (PassRef u)
  then show ?thesis using PassRef_moves [OF assms(1-4)] assms(5) by blast
next
  case (PassWeak u)
  then show ?thesis using PassWeak_moves [OF assms(1-4)] assms(5) by blast
qed

lemma spin_run_ok: "spin_run place im s \<Longrightarrow> spin_ok place s \<and> conc_run im (spin_abs s)"
proof (induction rule: spin_run.induct)
  case (spin_start n)
  let ?ths = "spin_none\<lparr>s_strong := 1\<rparr> # replicate n spin_none"
  have "stage (?ths ! t) = Outside" if "t < length ?ths" for t using that by (cases t) (auto simp: spin_none_def)
  then have "spin_ok place \<lparr>s_block = Some (new_counted im), s_effects = [], s_threads = ?ths, pool = replicate 41 0\<rparr>"
    by (simp add: spin_ok_def locks_ok_def holds_def thread_ok_def)
  moreover have "thread_of spin_none = thread_none" "thread_of (spin_none\<lparr>s_strong := 1\<rparr>) = thread_none\<lparr>strong := 1\<rparr>"
    by (simp_all add: thread_of_def spin_none_def thread_none_def)
  ultimately show ?case using conc_start [of im n] by (simp add: spin_abs_def)
next
  case (spin_move s t a s')
  then show ?case using spin_step_ok [of place s im t a] by (auto simp: spin_moves_def)
qed

section \<open>Properties\<close>

text \<open>What the threads on atomic counts are known to keep holds of the counts under locks.\<close>

lemma spin_disposal:
  assumes "spin_run place im s"
  shows "0 < (\<Sum>th\<leftarrow>s_threads s. int (s_strong th)) \<Longrightarrow> s_block s \<noteq> None \<and> s_effects s = []"
    and "\<forall>th \<in> set (s_threads s). stage th = Outside \<and> s_strong th = 0 \<Longrightarrow> s_effects s = dispose im"
proof -
  assume "0 < (\<Sum>th\<leftarrow>s_threads s. int (s_strong th))"
  then have "0 < owners_total (threads (spin_abs s))" by (simp add: owners_total_def thread_of_def comp_def)
  then show "s_block s \<noteq> None \<and> s_effects s = []" using conc_disposal [of im "spin_abs s"] spin_run_ok [OF assms] by auto
next
  assume none: "\<forall>th \<in> set (s_threads s). stage th = Outside \<and> s_strong th = 0"
  then have "map (\<lambda>th. int (s_strong th)) (s_threads s) = map (\<lambda>th. 0) (s_threads s)" by simp
  then have "owners_total (threads (spin_abs s)) = 0" by (simp add: owners_total_def thread_of_def comp_def del: map_eq_conv)
  moreover have "\<forall>th \<in> set (threads (spin_abs s)). pc th = Ready" using none by (auto simp: thread_of_def)
  ultimately show "s_effects s = dispose im" using conc_disposal [of im "spin_abs s"] spin_run_ok [OF assms] by auto
qed

text \<open>C14. The counts under spin locks do what the atomic ones do: under any interleaving of single accesses, and
  wherever the two counts lie in memory, no access touches a freed block, a lock is never held twice, and the
  state is one that threads on atomic counts reach. So the object is disposed of once, after its last owner.\<close>

theorem spin_refines:
  assumes "spin_run place im s"
  shows "conc_run im (spin_abs s) \<and>
    (\<forall>t u i. t < length (s_threads s) \<and> u < length (s_threads s) \<and> holds place i (s_threads s ! t) \<and> holds place i (s_threads s ! u) \<longrightarrow> t = u) \<and>
    (\<forall>t a. conc_room (spin_abs s) \<and> t < length (s_threads s) \<and> spin_enabled t a s \<longrightarrow> (\<exists>s'. spin_step place t a s = Inr s'))"
proof (intro conjI allI impI)
  fix t a assume "conc_room (spin_abs s) \<and> t < length (s_threads s) \<and> spin_enabled t a s"
  then show "\<exists>s'. spin_step place t a s = Inr s'"
    using spin_step_ok [of place s im t a] spin_run_ok [OF assms] by (auto simp: spin_moves_def)
qed (use spin_run_ok [OF assms] in \<open>auto simp: spin_ok_def locks_ok_def\<close>)

text \<open>Both counts under one lock. The owner gives an observer to a second thread, which is in the middle of
  \<open>add_ref_lock\<close> when the owner begins to release and finds the lock taken.\<close>

fun spin_actions :: "(count \<Rightarrow> nat) \<Rightarrow> (nat \<times> spin_action) list \<Rightarrow> spin_state \<Rightarrow> spin_state res" where
  "spin_actions place [] s = Inr s"
| "spin_actions place ((t, a) # as) s = (if t < length (s_threads s) \<and> spin_enabled t a s \<and> conc_room (spin_abs s)
     then andThen (spin_step place t a s) (spin_actions place as) else Inl OutOfBounds)"

lemma spin_actions_run: "spin_run place im s \<Longrightarrow> spin_actions place as s = Inr s' \<Longrightarrow> spin_run place im s'"
  by (induction place as s rule: spin_actions.induct) (auto simp: andThen_Inr_iff split: if_splits intro: spin_move)

fun sample_place :: "count \<Rightarrow> nat" where
  "sample_place UseCount = 4100"
| "sample_place WeakCount = 4141"

definition spin_race :: spin_state where
  "spin_race = \<lparr>s_block = Some \<lparr>use_count = 1, weak_count = 2, block_impl = Impl_p (Some 7)\<rparr>, s_effects = [],
     s_threads = [\<lparr>s_strong = 1, s_weakly = 0, stage = Trying CallDrop 1\<rparr>, \<lparr>s_strong = 0, s_weakly = 1, stage = Loaded CallLock 1\<rparr>],
     pool = 1 # replicate 40 0\<rparr>"

lemma spin_race_run: "spin_run sample_place (Impl_p (Some 7)) spin_race"
proof (rule spin_actions_run [OF spin_start [of _ _ 1],
      of sample_place "[(0, Begin CallAddWeak), (0, Go), (0, Go), (0, Go), (0, Go), (0, PassWeak 1), (1, Begin CallLock), (1, Go), (1, Go), (0, Begin CallDrop), (0, Go)]"])
  have pool: "replicate 41 (0 :: int) = 0 # replicate 40 0" by (simp add: replicate_Suc [symmetric] del: replicate_Suc)
  show "spin_actions sample_place [(0, Begin CallAddWeak), (0, Go), (0, Go), (0, Go), (0, Go), (0, PassWeak 1), (1, Begin CallLock), (1, Go),
      (1, Go), (0, Begin CallDrop), (0, Go)] \<lparr>s_block = Some (new_counted (Impl_p (Some 7))), s_effects = [],
      s_threads = spin_none\<lparr>s_strong := 1\<rparr> # replicate 1 spin_none, pool = replicate 41 0\<rparr> = Inr spin_race"
    unfolding pool
    by (simp add: spin_go_def lock_round_def unlock_value_def set_spin_def in_block_def try_lock_def spinlock_for_def first_read_def addend_def spin_race_def
        spin_abs_def thread_of_def conc_room_def owners_total_def observers_total_def new_counted_def spin_none_def s32_def)
qed

theorem spin_refines_witness:
  "conc_run (Impl_p (Some 7)) (spin_abs spin_race) \<and> (\<exists>s'. spin_step sample_place 1 Go spin_race = Inr s') \<and>
    holds sample_place 0 (s_threads spin_race ! 1) \<and> \<not> holds sample_place 0 (s_threads spin_race ! 0)"
proof -
  note r = spin_refines [OF spin_race_run]
  have "conc_room (spin_abs spin_race)" "1 < length (s_threads spin_race)" "spin_enabled 1 Go spin_race"
    by (simp_all add: spin_race_def spin_abs_def thread_of_def conc_room_def owners_total_def observers_total_def)
  with r have "conc_run (Impl_p (Some 7)) (spin_abs spin_race)" "\<exists>s'. spin_step sample_place 1 Go spin_race = Inr s'" by blast+
  moreover have "holds sample_place 0 (s_threads spin_race ! 1)" "\<not> holds sample_place 0 (s_threads spin_race ! 0)"
    by (simp_all add: spin_race_def holds_def lock_of_def spinlock_for_def)
  ultimately show ?thesis by blast
qed

end
