(* ===== verification/CountVariants.thy ===== *)
theory CountVariants
  imports RefCount
begin

text \<open>
  The counts of other platforms (\<open>sp_counted_base_*.hpp\<close>): each header has its own atomic increment, decrement and
  conditional increment and the same class on top of them. A primitive is a sequence of accesses to the count,
  and before each of them other threads may change it; it is shown to be one atomic access. The class built on
  any of them does what the Win32 version of \<open>RefCount\<close> does.
\<close>

section \<open>Accesses\<close>

text \<open>\<open>other k\<close> is what other threads make of the count before access \<open>k\<close>. An access answers the value that it found.\<close>

type_synonym interference = "nat \<Rightarrow> int \<Rightarrow> int"

type_synonym access = "int \<times> nat \<times> int"

definition load_count :: "interference \<Rightarrow> nat \<Rightarrow> int \<Rightarrow> access" where
  "load_count other k c = (let r = other k c in (r, k + 1, r))"

definition fetch_and_add :: "(int \<Rightarrow> int) \<Rightarrow> int \<Rightarrow> interference \<Rightarrow> nat \<Rightarrow> int \<Rightarrow> access" where
  "fetch_and_add wrap dv other k c = (let r = other k c in (r, k + 1, wrap (r + dv)))"

definition compare_and_swap :: "int \<Rightarrow> int \<Rightarrow> interference \<Rightarrow> nat \<Rightarrow> int \<Rightarrow> access" where
  "compare_and_swap cmp new other k c = (let r = other k c in (r, k + 1, if r = cmp then new else r))"

text \<open>
  The loop of the headers that go on with the value a failed exchange found. \<open>ret\<close> is what they answer for the old
  value, and \<open>weak k\<close> whether the exchange fails for no reason, as \<open>compare_exchange_weak\<close> may.
\<close>

partial_function (option) exchange_loop ::
  "(int \<Rightarrow> int) \<Rightarrow> (nat \<Rightarrow> bool) \<Rightarrow> interference \<Rightarrow> int \<Rightarrow> nat \<Rightarrow> int \<Rightarrow> access option" where
  "exchange_loop ret weak other r k c =
     (if r = 0 then Some (0, k, c)
      else if weak k then (let (r2, k, c) = load_count other k c in exchange_loop ret weak other r2 k c)
      else
        let (r2, k, c) = compare_and_swap r (s32 (r + 1)) other k c in
        if r2 = r then Some (ret r, k, c) else exchange_loop ret weak other r2 k c)"

text \<open>The loops of the headers that read the count again.\<close>

partial_function (option) reread_increment :: "(int \<Rightarrow> int) \<Rightarrow> interference \<Rightarrow> nat \<Rightarrow> int \<Rightarrow> access option" where
  "reread_increment wrap other k c =
     (let (r, k, c) = load_count other k c in
      if r = 0 then Some (r, k, c)
      else
        let (r2, k, c) = compare_and_swap r (wrap (r + 1)) other k c in
        if r2 = r then Some (r, k, c) else reread_increment wrap other k c)"

partial_function (option) reread_add :: "(int \<Rightarrow> int) \<Rightarrow> int \<Rightarrow> interference \<Rightarrow> nat \<Rightarrow> int \<Rightarrow> access option" where
  "reread_add wrap dv other k c =
     (let (r, k, c) = load_count other k c in
      let (r2, k, c) = compare_and_swap r (wrap (r + dv)) other k c in
      if r2 = r then Some (r, k, c) else reread_add wrap dv other k c)"

section \<open>The headers\<close>

text \<open>What a header defines, and which answer of its decrement means that no handle is left.\<close>

record count_prims =
  increment :: "interference \<Rightarrow> nat \<Rightarrow> int \<Rightarrow> (nat \<times> int) option"
  decrement :: "interference \<Rightarrow> nat \<Rightarrow> int \<Rightarrow> access option"
  conditional_increment :: "interference \<Rightarrow> nat \<Rightarrow> int \<Rightarrow> access option"
  none_left :: int

definition no_result :: "access \<Rightarrow> nat \<times> int" where
  "no_result a = snd a"

definition map_result :: "(int \<Rightarrow> int) \<Rightarrow> access \<Rightarrow> access" where
  "map_result f a = (case a of (r, k, c) \<Rightarrow> (f r, k, c))"

definition conditional_from :: "access \<Rightarrow> (int \<Rightarrow> nat \<Rightarrow> int \<Rightarrow> access option) \<Rightarrow> access option" where
  "conditional_from a f = (case a of (r, k, c) \<Rightarrow> f r k c)"

text \<open>\<open>sp_counted_base_sync.hpp\<close>: the \<open>__sync\<close> functions of gcc.\<close>

definition sync_increment :: "interference \<Rightarrow> nat \<Rightarrow> int \<Rightarrow> (nat \<times> int) option" where
  "sync_increment other k c = Some (no_result (fetch_and_add s32 1 other k c))"

definition sync_decrement :: "interference \<Rightarrow> nat \<Rightarrow> int \<Rightarrow> access option" where
  "sync_decrement other k c = Some (fetch_and_add s32 (-1) other k c)"

definition sync_conditional :: "interference \<Rightarrow> nat \<Rightarrow> int \<Rightarrow> access option" where
  "sync_conditional other k c = conditional_from (load_count other k c) (exchange_loop (\<lambda>r. r) (\<lambda>k. False) other)"

definition sync_prims :: count_prims where
  "sync_prims = \<lparr>increment = sync_increment, decrement = sync_decrement, conditional_increment = sync_conditional, none_left = 1\<rparr>"

text \<open>\<open>sp_counted_base_std_atomic.hpp\<close>.\<close>

definition std_increment :: "interference \<Rightarrow> nat \<Rightarrow> int \<Rightarrow> (nat \<times> int) option" where
  "std_increment other k c = Some (no_result (fetch_and_add s32 1 other k c))"

definition std_decrement :: "interference \<Rightarrow> nat \<Rightarrow> int \<Rightarrow> access option" where
  "std_decrement other k c = Some (fetch_and_add s32 (-1) other k c)"

definition std_conditional :: "(nat \<Rightarrow> bool) \<Rightarrow> interference \<Rightarrow> nat \<Rightarrow> int \<Rightarrow> access option" where
  "std_conditional weak other k c = conditional_from (load_count other k c) (exchange_loop (\<lambda>r. r) weak other)"

definition std_prims :: "(nat \<Rightarrow> bool) \<Rightarrow> count_prims" where
  "std_prims weak = \<lparr>increment = std_increment, decrement = std_decrement, conditional_increment = std_conditional weak, none_left = 1\<rparr>"

text \<open>\<open>sp_counted_base_aix.hpp\<close>: decrement and conditional increment answer the new value. The read is
  an addition of 0, which does not wrap.\<close>

definition aix_increment :: "interference \<Rightarrow> nat \<Rightarrow> int \<Rightarrow> (nat \<times> int) option" where
  "aix_increment other k c = Some (no_result (fetch_and_add s32 1 other k c))"

definition aix_decrement :: "interference \<Rightarrow> nat \<Rightarrow> int \<Rightarrow> access option" where
  "aix_decrement other k c = Some (map_result (\<lambda>r. s32 (r - 1)) (fetch_and_add s32 (-1) other k c))"

definition aix_conditional :: "interference \<Rightarrow> nat \<Rightarrow> int \<Rightarrow> access option" where
  "aix_conditional other k c =
     conditional_from (fetch_and_add (\<lambda>x. x) 0 other k c) (exchange_loop (\<lambda>r. s32 (r + 1)) (\<lambda>k. False) other)"

definition aix_prims :: count_prims where
  "aix_prims = \<lparr>increment = aix_increment, decrement = aix_decrement, conditional_increment = aix_conditional, none_left = 0\<rparr>"

text \<open>\<open>sp_counted_base_acc_ia64.hpp\<close>.\<close>

definition acc_increment :: "interference \<Rightarrow> nat \<Rightarrow> int \<Rightarrow> (nat \<times> int) option" where
  "acc_increment other k c = Some (no_result (fetch_and_add s32 1 other k c))"

definition acc_decrement :: "interference \<Rightarrow> nat \<Rightarrow> int \<Rightarrow> access option" where
  "acc_decrement other k c = Some (map_result (\<lambda>r. s32 (r - 1)) (fetch_and_add s32 (-1) other k c))"

definition acc_conditional :: "interference \<Rightarrow> nat \<Rightarrow> int \<Rightarrow> access option" where
  "acc_conditional other k c =
     conditional_from (load_count other k c) (exchange_loop (\<lambda>r. s32 (r + 1)) (\<lambda>k. False) other)"

definition acc_prims :: count_prims where
  "acc_prims = \<lparr>increment = acc_increment, decrement = acc_decrement, conditional_increment = acc_conditional, none_left = 0\<rparr>"

text \<open>\<open>sp_counted_base_vacpp_ppc.hpp\<close>.\<close>

definition vacpp_increment :: "interference \<Rightarrow> nat \<Rightarrow> int \<Rightarrow> (nat \<times> int) option" where
  "vacpp_increment other k c = Some (no_result (fetch_and_add s32 1 other k c))"

definition vacpp_decrement :: "interference \<Rightarrow> nat \<Rightarrow> int \<Rightarrow> access option" where
  "vacpp_decrement other k c = Some (map_result (\<lambda>r. s32 (r - 1)) (fetch_and_add s32 (-1) other k c))"

definition vacpp_conditional :: "interference \<Rightarrow> nat \<Rightarrow> int \<Rightarrow> access option" where
  "vacpp_conditional other k c =
     conditional_from (load_count other k c) (exchange_loop (\<lambda>r. s32 (r + 1)) (\<lambda>k. False) other)"

definition vacpp_prims :: count_prims where
  "vacpp_prims = \<lparr>increment = vacpp_increment, decrement = vacpp_decrement, conditional_increment = vacpp_conditional, none_left = 0\<rparr>"

text \<open>\<open>sp_counted_base_snc_ps3.hpp\<close>: unsigned counts; the built-in increment and decrement answer the old value.\<close>

definition ps3_increment :: "interference \<Rightarrow> nat \<Rightarrow> int \<Rightarrow> (nat \<times> int) option" where
  "ps3_increment other k c = Some (no_result (fetch_and_add (\<lambda>x. int (u32 x)) 1 other k c))"

definition ps3_decrement :: "interference \<Rightarrow> nat \<Rightarrow> int \<Rightarrow> access option" where
  "ps3_decrement other k c = Some (fetch_and_add (\<lambda>x. int (u32 x)) (-1) other k c)"

definition ps3_conditional :: "interference \<Rightarrow> nat \<Rightarrow> int \<Rightarrow> access option" where
  "ps3_conditional other k c = reread_increment (\<lambda>x. int (u32 x)) other k c"

definition ps3_prims :: count_prims where
  "ps3_prims = \<lparr>increment = ps3_increment, decrement = ps3_decrement, conditional_increment = ps3_conditional, none_left = 1\<rparr>"

text \<open>\<open>sp_counted_base_gcc_sparc.hpp\<close>: everything from compare-and-swap.\<close>

definition sparc_increment :: "interference \<Rightarrow> nat \<Rightarrow> int \<Rightarrow> (nat \<times> int) option" where
  "sparc_increment other k c = map_option no_result (reread_add s32 1 other k c)"

definition sparc_decrement :: "interference \<Rightarrow> nat \<Rightarrow> int \<Rightarrow> access option" where
  "sparc_decrement other k c = reread_add s32 (-1) other k c"

definition sparc_conditional :: "interference \<Rightarrow> nat \<Rightarrow> int \<Rightarrow> access option" where
  "sparc_conditional other k c = reread_increment s32 other k c"

definition sparc_prims :: count_prims where
  "sparc_prims = \<lparr>increment = sparc_increment, decrement = sparc_decrement, conditional_increment = sparc_conditional, none_left = 1\<rparr>"

text \<open>\<open>sp_counted_base_nt.hpp\<close>, for programs without threads: an increment is a read and a write of what was read.\<close>

definition store_count :: "int \<Rightarrow> interference \<Rightarrow> nat \<Rightarrow> int \<Rightarrow> nat \<times> int" where
  "store_count n other k c = (k + 1, n)"

definition nt_increment :: "interference \<Rightarrow> nat \<Rightarrow> int \<Rightarrow> (nat \<times> int) option" where
  "nt_increment other k c = (case load_count other k c of (r, k, c) \<Rightarrow> Some (store_count (s32 (r + 1)) other k c))"

definition nt_decrement :: "interference \<Rightarrow> nat \<Rightarrow> int \<Rightarrow> access option" where
  "nt_decrement other k c = (case load_count other k c of (r, k, c) \<Rightarrow> Some (s32 (r - 1), store_count (s32 (r - 1)) other k c))"

definition nt_conditional :: "interference \<Rightarrow> nat \<Rightarrow> int \<Rightarrow> access option" where
  "nt_conditional other k c =
     (case load_count other k c of (r, k, c) \<Rightarrow>
        if r = 0 then Some (0, k, c) else map_option (\<lambda>a. (1, a)) (nt_increment other k c))"

definition nt_prims :: count_prims where
  "nt_prims = \<lparr>increment = nt_increment, decrement = nt_decrement, conditional_increment = nt_conditional, none_left = 0\<rparr>"

section \<open>The class\<close>

text \<open>The members of \<open>sp_counted_base\<close>, the same in every header; nobody interferes.\<close>

definition alone :: interference where "alone k c = c"

definition counted_add_ref_copy :: "count_prims \<Rightarrow> nat \<Rightarrow> sp_memory \<Rightarrow> sp_memory res" where
  "counted_add_ref_copy P pi m = at_block pi (\<lambda>b.
     case increment P alone 0 (use_count b) of
       None \<Rightarrow> Inl NoReturn
     | Some (k, c) \<Rightarrow> Inr (set_block pi (b\<lparr>use_count := c\<rparr>) m)) m"

definition counted_add_ref_lock :: "count_prims \<Rightarrow> nat \<Rightarrow> sp_memory \<Rightarrow> (bool \<times> sp_memory) res" where
  "counted_add_ref_lock P pi m = at_block pi (\<lambda>b.
     case conditional_increment P alone 0 (use_count b) of
       None \<Rightarrow> Inl NoReturn
     | Some (r, k, c) \<Rightarrow> Inr (r \<noteq> 0, set_block pi (b\<lparr>use_count := c\<rparr>) m)) m"

definition counted_weak_add_ref :: "count_prims \<Rightarrow> nat \<Rightarrow> sp_memory \<Rightarrow> sp_memory res" where
  "counted_weak_add_ref P pi m = at_block pi (\<lambda>b.
     case increment P alone 0 (weak_count b) of
       None \<Rightarrow> Inl NoReturn
     | Some (k, c) \<Rightarrow> Inr (set_block pi (b\<lparr>weak_count := c\<rparr>) m)) m"

definition counted_weak_release :: "count_prims \<Rightarrow> nat \<Rightarrow> sp_memory \<Rightarrow> sp_memory res" where
  "counted_weak_release P pi m = at_block pi (\<lambda>b.
     case decrement P alone 0 (weak_count b) of
       None \<Rightarrow> Inl NoReturn
     | Some (r, k, c) \<Rightarrow>
         let b = b\<lparr>weak_count := c\<rparr>; m = set_block pi b m in
         if r = none_left P then Inr (destroy pi (block_impl b) m) else Inr m) m"

definition counted_release :: "count_prims \<Rightarrow> nat \<Rightarrow> sp_memory \<Rightarrow> sp_memory res" where
  "counted_release P pi m = at_block pi (\<lambda>b.
     case decrement P alone 0 (use_count b) of
       None \<Rightarrow> Inl NoReturn
     | Some (r, k, c) \<Rightarrow>
         let b = b\<lparr>use_count := c\<rparr>; m = set_block pi b m in
         if r = none_left P then counted_weak_release P pi (m\<lparr>disposed := disposed m @ dispose (block_impl b)\<rparr>)
         else Inr m) m"

definition counted_use_count :: "nat \<Rightarrow> sp_memory \<Rightarrow> int res" where
  "counted_use_count pi m = at_block pi (\<lambda>b. case load_count alone 0 (use_count b) of (r, k, c) \<Rightarrow> Inr r) m"

section \<open>What a header promises\<close>

text \<open>The count after the others' accesses up to \<open>k'\<close>.\<close>

definition settle :: "interference \<Rightarrow> nat \<Rightarrow> nat \<Rightarrow> int \<Rightarrow> int" where
  "settle other k k' c = fold other [k..<k'] c"

definition handle_range :: "int \<Rightarrow> bool" where
  "handle_range x \<longleftrightarrow> 0 \<le> x \<and> x < 2 ^ 31 - 1"

definition quiet_from :: "nat \<Rightarrow> interference \<Rightarrow> bool" where
  "quiet_from n other \<longleftrightarrow> (\<forall>i \<ge> n. \<forall>x. other i x = x)"

text \<open>Without threads: the effect on a count that nobody else changes.\<close>

locale plain_counts =
  fixes P :: count_prims
  assumes increment_alone: "handle_range x \<Longrightarrow> \<exists>k. increment P alone 0 x = Some (k, x + 1)"
    and decrement_alone: "handle_range x \<Longrightarrow> 0 < x \<Longrightarrow> \<exists>r k. decrement P alone 0 x = Some (r, k, x - 1) \<and> (r = none_left P \<longleftrightarrow> x = 1)"
    and conditional_alone: "handle_range x \<Longrightarrow> \<exists>r k. conditional_increment P alone 0 x = Some (r, k, if x = 0 then 0 else x + 1) \<and> (r \<noteq> 0 \<longleftrightarrow> x \<noteq> 0)"

text \<open>
  With threads: each primitive is one access to the count, behind those of others that it saw, and it returns once
  the others stop.
\<close>

locale atomic_counts =
  fixes P :: count_prims
  assumes increment_atomic: "increment P other k c = Some (k', c') \<Longrightarrow> handle_range (settle other k k' c) \<Longrightarrow> k < k' \<and> c' = settle other k k' c + 1"
    and decrement_atomic: "decrement P other k c = Some (r, k', c') \<Longrightarrow> handle_range (settle other k k' c) \<Longrightarrow> 0 < settle other k k' c \<Longrightarrow>
      k < k' \<and> c' = settle other k k' c - 1 \<and> (r = none_left P \<longleftrightarrow> settle other k k' c = 1)"
    and conditional_atomic: "conditional_increment P other k c = Some (r, k', c') \<Longrightarrow> handle_range (settle other k k' c) \<Longrightarrow>
      k < k' \<and> c' = (if settle other k k' c = 0 then 0 else settle other k k' c + 1) \<and> (r \<noteq> 0 \<longleftrightarrow> settle other k k' c \<noteq> 0)"
    and returns: "quiet_from n other \<Longrightarrow> increment P other k c \<noteq> None \<and> decrement P other k c \<noteq> None \<and> conditional_increment P other k c \<noteq> None"

lemma settle_simps [simp]:
  "settle other k k c = c" "k \<le> k' \<Longrightarrow> settle other k (Suc k') c = other k' (settle other k k' c)"
  by (simp_all add: settle_def)

lemma settle_first: "k < k' \<Longrightarrow> settle other k k' c = settle other (Suc k) k' (other k c)"
  by (simp add: settle_def upt_conv_Cons)

lemma settle_alone [simp]: "settle alone k k' c = c"
proof -
  have "fold alone ks c = c" for ks by (induction ks) (simp_all add: alone_def)
  then show ?thesis by (simp add: settle_def)
qed

lemma quiet_alone: "quiet_from n alone"
  by (simp add: quiet_from_def alone_def)

sublocale atomic_counts \<subseteq> plain: plain_counts P
proof unfold_locales
  fix x assume x: "handle_range x"
  obtain k c where "increment P alone 0 x = Some (k, c)" using returns [OF quiet_alone, of 0 x] by (cases "increment P alone 0 x") auto
  then show "\<exists>k. increment P alone 0 x = Some (k, x + 1)" using increment_atomic [of alone 0 x] x by auto
  obtain r k c where "decrement P alone 0 x = Some (r, k, c)" using returns [OF quiet_alone, of 0 x] by (cases "decrement P alone 0 x") auto
  then show "\<exists>r k. decrement P alone 0 x = Some (r, k, x - 1) \<and> (r = none_left P \<longleftrightarrow> x = 1)" if "0 < x"
    using decrement_atomic [of alone 0 x] x that by auto
  obtain r k c where "conditional_increment P alone 0 x = Some (r, k, c)"
    using returns [OF quiet_alone, of 0 x] by (cases "conditional_increment P alone 0 x") auto
  then show "\<exists>r k. conditional_increment P alone 0 x = Some (r, k, if x = 0 then 0 else x + 1) \<and> (r \<noteq> 0 \<longleftrightarrow> x \<noteq> 0)"
    using conditional_atomic [of alone 0 x] x by auto
qed

text \<open>Counts as a program that holds fewer handles than a \<open>long\<close> counts has them.\<close>

definition usable_block :: "sp_memory \<Rightarrow> nat \<Rightarrow> bool" where
  "usable_block m pi \<longleftrightarrow> (case blocks m pi of None \<Rightarrow> True
     | Some b \<Rightarrow> handle_range (use_count b) \<and> handle_range (weak_count b) \<and> 0 < weak_count b)"

lemma s32_zero [simp]: "s32 0 = 0"
  by (simp add: s32_def)

lemma range_wrap: "handle_range x \<Longrightarrow> s32 (x + 1) = x + 1" "handle_range x \<Longrightarrow> s32 (x - 1) = x - 1"
  by (simp_all add: handle_range_def s32_id)

context plain_counts begin

lemma add_ref_copy_agrees: "usable_block m pi \<Longrightarrow> counted_add_ref_copy P pi m = add_ref_copy pi m"
  using increment_alone [of "use_count (the (blocks m pi))"]
  unfolding counted_add_ref_copy_def add_ref_copy_def usable_block_def at_block_def
  by (auto split: option.splits simp: range_wrap)

lemma weak_add_ref_agrees: "usable_block m pi \<Longrightarrow> counted_weak_add_ref P pi m = weak_add_ref pi m"
  using increment_alone [of "weak_count (the (blocks m pi))"]
  unfolding counted_weak_add_ref_def weak_add_ref_def usable_block_def at_block_def
  by (auto split: option.splits simp: range_wrap)

lemma weak_release_agrees: "usable_block m pi \<Longrightarrow> counted_weak_release P pi m = weak_release pi m"
  using decrement_alone [of "weak_count (the (blocks m pi))"]
  unfolding counted_weak_release_def weak_release_def usable_block_def at_block_def
  by (auto split: option.splits simp: range_wrap Let_def)

lemma release_agrees:
  assumes "usable_block m pi" and "\<forall>b. blocks m pi = Some b \<longrightarrow> 0 < use_count b"
  shows "counted_release P pi m = release pi m"
proof (cases "blocks m pi")
  case (Some b)
  let ?b = "b\<lparr>use_count := use_count b - 1\<rparr>"
  let ?m = "(set_block pi ?b m)\<lparr>disposed := disposed m @ dispose (block_impl b)\<rparr>"
  have b: "handle_range (use_count b)" "handle_range (weak_count b)" "0 < weak_count b" "0 < use_count b" using assms Some by (auto simp: usable_block_def)
  then have "usable_block ?m pi" by (auto simp: usable_block_def set_block_def handle_range_def)
  then have "counted_weak_release P pi ?m = weak_release pi ?m" by (rule weak_release_agrees)
  then show ?thesis using decrement_alone [OF b(1,4)] b Some
    by (auto simp: counted_release_def release_def at_block_def range_wrap Let_def set_block_def)
qed (simp add: counted_release_def release_def at_block_def)

lemma add_ref_lock_agrees: "usable_block m pi \<Longrightarrow> counted_add_ref_lock P pi m = add_ref_lock pi m"
  using conditional_alone [of "use_count (the (blocks m pi))"]
  unfolding counted_add_ref_lock_def add_ref_lock_def usable_block_def at_block_def
  by (subst lock_loop.simps) (auto split: option.splits simp: range_wrap Let_def)

end

section \<open>The loops\<close>

definition conditional_result :: "(int \<Rightarrow> int) \<Rightarrow> (int \<Rightarrow> int) \<Rightarrow> int \<Rightarrow> int \<Rightarrow> int \<Rightarrow> bool" where
  "conditional_result ret wrap x r c \<longleftrightarrow> (if x = 0 then r = 0 \<and> c = 0 else r = ret x \<and> c = wrap (x + 1))"

lemma settle_step: "k \<le> k' \<Longrightarrow> settle other (Suc k) k' (other k c) = settle other k k' c \<or> k = k'"
  by (cases "k = k'") (simp_all add: settle_first)

lemma settle_next: "Suc k \<le> k' \<Longrightarrow> settle other (Suc k) k' (other k c) = settle other k k' c"
  using settle_first [of k k'] by simp

lemma exchange_loop_atomic:
  assumes "exchange_loop ret weak other r k c = Some (r', k', c')" and "r = c"
  shows "k \<le> k' \<and> conditional_result ret s32 (settle other k k' c) r' c'"
proof -
  let ?P = "\<lambda>ret weak other r k c y. r = c \<longrightarrow> (case y of (r', k', c') \<Rightarrow> k \<le> k' \<and> conditional_result ret s32 (settle other k k' c) r' c')"
  have "?P ret weak other r k c (r', k', c')"
  proof (rule exchange_loop.raw_induct [where P = ?P, OF _ assms(1)])
    fix f and ret :: "int \<Rightarrow> int" and weak :: "nat \<Rightarrow> bool" and other :: interference and r c :: int and k :: nat and y
    assume IH: "\<And>(ret :: int \<Rightarrow> int) (weak :: nat \<Rightarrow> bool) other r k c y. f ret weak other r k c = Some y \<Longrightarrow> ?P ret weak other r k c y"
    assume body: "(if r = 0 then Some (0, k, c)
      else if weak k then (let (r2, k, c) = load_count other k c in f ret weak other r2 k c)
      else let (r2, k, c) = compare_and_swap r (s32 (r + 1)) other k c in
        if r2 = r then Some (ret r, k, c) else f ret weak other r2 k c) = Some y"
    show "?P ret weak other r k c y"
    proof (intro impI)
      assume rc: "r = c"
      obtain r' k' c' where y: "y = (r', k', c')" by (cases y)
      have "k \<le> k' \<and> conditional_result ret s32 (settle other k k' c) r' c'"
        if "f ret weak other (other k c) (Suc k) (other k c) = Some y"
        using IH [OF that] settle_next [of k k' other c] by (auto simp: y)
      then show "case y of (r', k', c') \<Rightarrow> k \<le> k' \<and> conditional_result ret s32 (settle other k k' c) r' c'"
        using body rc by (auto simp: y load_count_def compare_and_swap_def Let_def conditional_result_def settle_first split: if_splits)
    qed
  qed
  then show ?thesis using assms(2) by simp
qed

lemma exchange_loop_returns:
  assumes "quiet_from n other" and "\<forall>i \<ge> n. \<not> weak i" and "r = c"
  shows "exchange_loop ret weak other r k c \<noteq> None"
  using assms(3)
proof (induction "n - k" arbitrary: r k c)
  case 0
  then have "other k c = c" "\<not> weak k" using assms(1,2) by (auto simp: quiet_from_def)
  then show ?case using 0 by (subst exchange_loop.simps) (simp add: compare_and_swap_def Let_def)
next
  case (Suc i)
  then have "exchange_loop ret weak other (other k c) (Suc k) (other k c) \<noteq> None" by (intro Suc.hyps(1)) auto
  then show ?case using Suc.prems by (subst exchange_loop.simps) (auto simp: load_count_def compare_and_swap_def Let_def)
qed

lemma reread_increment_atomic:
  assumes "reread_increment wrap other k c = Some (r', k', c')"
  shows "k < k' \<and> conditional_result (\<lambda>r. r) wrap (settle other k k' c) r' c'"
proof -
  let ?P = "\<lambda>wrap other k c y. case y of (r', k', c') \<Rightarrow> k < k' \<and> conditional_result (\<lambda>r. r) wrap (settle other k k' c) r' c'"
  have "?P wrap other k c (r', k', c')"
  proof (rule reread_increment.raw_induct [where P = ?P, OF _ assms])
    fix f and wrap :: "int \<Rightarrow> int" and other :: interference and c :: int and k :: nat and y
    assume IH: "\<And>(wrap :: int \<Rightarrow> int) other k c y. f wrap other k c = Some y \<Longrightarrow> ?P wrap other k c y"
    assume body: "(let (r, k, c) = load_count other k c in
      if r = 0 then Some (r, k, c)
      else let (r2, k, c) = compare_and_swap r (wrap (r + 1)) other k c in
        if r2 = r then Some (r, k, c) else f wrap other k c) = Some y"
    obtain r' k' c' where y: "y = (r', k', c')" by (cases y)
    have two: "settle other k (Suc (Suc k)) c = other (Suc k) (other k c)" by simp
    have "?P wrap other k c y" if "f wrap other (Suc (Suc k)) (other (Suc k) (other k c)) = Some y"
      using IH [OF that] settle_next [of k k' other c] settle_next [of "Suc k" k' other "other k c"] by (auto simp: y)
    then show "?P wrap other k c y"
      using body by (auto simp: y load_count_def compare_and_swap_def Let_def conditional_result_def two split: if_splits)
  qed
  then show ?thesis by simp
qed

lemma reread_increment_returns:
  assumes "quiet_from n other"
  shows "reread_increment wrap other k c \<noteq> None"
proof (induction "n - k" arbitrary: k c rule: less_induct)
  case less
  show ?case
  proof (cases "n \<le> k")
    case True
    then have "other k x = x" "other (Suc k) x = x" for x using assms by (auto simp: quiet_from_def)
    then show ?thesis by (subst reread_increment.simps) (simp add: load_count_def compare_and_swap_def Let_def)
  next
    case False
    then have "reread_increment wrap other (Suc (Suc k)) x \<noteq> None" for x by (intro less) simp
    then show ?thesis by (subst reread_increment.simps) (auto simp: load_count_def compare_and_swap_def Let_def)
  qed
qed

lemma reread_add_atomic:
  assumes "reread_add wrap dv other k c = Some (r', k', c')"
  shows "k < k' \<and> r' = settle other k k' c \<and> c' = wrap (r' + dv)"
proof -
  let ?P = "\<lambda>wrap dv other k c y. case y of (r', k', c') \<Rightarrow> k < k' \<and> r' = settle other k k' c \<and> c' = wrap (r' + dv)"
  have "?P wrap dv other k c (r', k', c')"
  proof (rule reread_add.raw_induct [where P = ?P, OF _ assms])
    fix f and wrap :: "int \<Rightarrow> int" and dv :: int and other :: interference and c :: int and k :: nat and y
    assume IH: "\<And>(wrap :: int \<Rightarrow> int) dv other k c y. f wrap dv other k c = Some y \<Longrightarrow> ?P wrap dv other k c y"
    assume body: "(let (r, k, c) = load_count other k c in
      let (r2, k, c) = compare_and_swap r (wrap (r + dv)) other k c in
      if r2 = r then Some (r, k, c) else f wrap dv other k c) = Some y"
    obtain r' k' c' where y: "y = (r', k', c')" by (cases y)
    have "?P wrap dv other k c y" if "f wrap dv other (Suc (Suc k)) (other (Suc k) (other k c)) = Some y"
      using IH [OF that] settle_next [of k k' other c] settle_next [of "Suc k" k' other "other k c"] by (auto simp: y)
    then show "?P wrap dv other k c y"
      using body by (auto simp: y load_count_def compare_and_swap_def Let_def split: if_splits)
  qed
  then show ?thesis by simp
qed

lemma reread_add_returns:
  assumes "quiet_from n other"
  shows "reread_add wrap dv other k c \<noteq> None"
proof (induction "n - k" arbitrary: k c rule: less_induct)
  case less
  show ?case
  proof (cases "n \<le> k")
    case True
    then have "other k x = x" "other (Suc k) x = x" for x using assms by (auto simp: quiet_from_def)
    then show ?thesis by (subst reread_add.simps) (simp add: load_count_def compare_and_swap_def Let_def)
  next
    case False
    then have "reread_add wrap dv other (Suc (Suc k)) x \<noteq> None" for x by (intro less) simp
    then show ?thesis by (subst reread_add.simps) (auto simp: load_count_def compare_and_swap_def Let_def)
  qed
qed

section \<open>The headers keep the promise\<close>

lemma unsigned_range: "handle_range x \<Longrightarrow> int (u32 (x + 1)) = x + 1" "handle_range x \<Longrightarrow> 0 < x \<Longrightarrow> int (u32 (x - 1)) = x - 1"
  by (simp_all add: handle_range_def u32_def)

lemma fetch_atomic: "fetch_and_add wrap dv other k c = (r, k', c') \<Longrightarrow> k < k' \<and> r = settle other k k' c \<and> c' = wrap (r + dv)"
  by (auto simp: fetch_and_add_def Let_def)

lemma conditional_after:
  assumes "conditional_from a (exchange_loop ret weak other) = Some (r, k', c')" and "a = (other k c, Suc k, other k c)"
  shows "k < k' \<and> conditional_result ret s32 (settle other k k' c) r c'"
  using exchange_loop_atomic [of ret weak other "other k c" "Suc k" "other k c"] assms settle_next [of k k' other c]
  by (auto simp: conditional_from_def)

lemma conditional_range:
  assumes "conditional_result ret wrap x r c'" and "handle_range x" and "ret x \<noteq> 0 \<or> x = 0" and "wrap (x + 1) = x + 1"
  shows "c' = (if x = 0 then 0 else x + 1) \<and> (r \<noteq> 0 \<longleftrightarrow> x \<noteq> 0)"
  using assms by (auto simp: conditional_result_def split: if_splits)

lemma read_accesses:
  "load_count other k c = (other k c, Suc k, other k c)" "fetch_and_add (\<lambda>x. x) 0 other k c = (other k c, Suc k, other k c)"
  by (simp_all add: load_count_def fetch_and_add_def Let_def)

text \<open>It is enough that a header's primitives are single accesses on machine integers.\<close>

lemma atomic_countsI:
  assumes wrap: "\<And>x. handle_range x \<Longrightarrow> wrap (x + 1) = x + 1" "\<And>x. handle_range x \<Longrightarrow> 0 < x \<Longrightarrow> wrap (x - 1) = x - 1"
    and "\<And>other k c k' c'. increment P other k c = Some (k', c') \<Longrightarrow> k < k' \<and> c' = wrap (settle other k k' c + 1)"
    and "\<And>other k c r k' c'. decrement P other k c = Some (r, k', c') \<Longrightarrow> k < k' \<and> r = old (settle other k k' c) \<and> c' = wrap (settle other k k' c - 1)"
    and "\<And>other k c r k' c'. conditional_increment P other k c = Some (r, k', c') \<Longrightarrow> k < k' \<and> conditional_result ret wrap (settle other k k' c) r c'"
    and "\<And>x. handle_range x \<Longrightarrow> 0 < x \<Longrightarrow> old x = none_left P \<longleftrightarrow> x = 1" and "\<And>x. handle_range x \<Longrightarrow> x \<noteq> 0 \<Longrightarrow> ret x \<noteq> 0"
    and "\<And>n other k c. quiet_from n other \<Longrightarrow> increment P other k c \<noteq> None \<and> decrement P other k c \<noteq> None \<and> conditional_increment P other k c \<noteq> None"
  shows "atomic_counts P"
proof
  fix other k c k' c'
  assume "increment P other k c = Some (k', c')" "handle_range (settle other k k' c)"
  then show "k < k' \<and> c' = settle other k k' c + 1" using assms(3) wrap by fastforce
next
  fix other k c r k' c'
  assume a: "decrement P other k c = Some (r, k', c')" "handle_range (settle other k k' c)" "0 < settle other k k' c"
  show "k < k' \<and> c' = settle other k k' c - 1 \<and> (r = none_left P \<longleftrightarrow> settle other k k' c = 1)"
    using assms(4) [OF a(1)] assms(6) [OF a(2,3)] wrap(2) [OF a(2,3)] by simp
next
  fix other k c r k' c'
  assume a: "conditional_increment P other k c = Some (r, k', c')" "handle_range (settle other k k' c)"
  show "k < k' \<and> c' = (if settle other k k' c = 0 then 0 else settle other k k' c + 1) \<and> (r \<noteq> 0 \<longleftrightarrow> settle other k k' c \<noteq> 0)"
    using assms(5) [OF a(1)] conditional_range [OF _ a(2), of ret wrap r c'] assms(7) [OF a(2)] wrap(1) [OF a(2)] by auto
qed (use assms(8) in auto)

lemma fetch_increment:
  "Some (no_result (fetch_and_add wrap 1 other k c)) = Some (k', c') \<Longrightarrow> k < k' \<and> c' = wrap (settle other k k' c + 1)"
  by (auto simp: no_result_def fetch_and_add_def Let_def)

lemma fetch_decrement:
  "Some (map_result old (fetch_and_add wrap (-1) other k c)) = Some (r, k', c') \<Longrightarrow>
    k < k' \<and> r = old (settle other k k' c) \<and> c' = wrap (settle other k k' c - 1)"
  by (auto simp: map_result_def fetch_and_add_def Let_def)

lemma map_result_id: "a = map_result (\<lambda>r. r) a"
  by (simp add: map_result_def split: prod.split)

text \<open>The headers on a fetch-and-add and an exchange loop, those that answer old and those that answer new values.\<close>

lemma exchange_prims_ok:
  assumes "\<And>other k c. increment P other k c = Some (no_result (fetch_and_add s32 1 other k c))"
    and "\<And>other k c. decrement P other k c = Some (map_result old (fetch_and_add s32 (-1) other k c))"
    and "\<And>other k c. conditional_increment P other k c = conditional_from (other k c, Suc k, other k c) (exchange_loop ret weak other)"
    and "\<And>x. handle_range x \<Longrightarrow> 0 < x \<Longrightarrow> old x = none_left P \<longleftrightarrow> x = 1" and "\<And>x. handle_range x \<Longrightarrow> x \<noteq> 0 \<Longrightarrow> ret x \<noteq> 0"
    and "\<forall>i \<ge> n0. \<not> weak i"
  shows "atomic_counts P"
proof (rule atomic_countsI [where wrap = s32 and old = old and ret = ret])
  fix n other k c
  assume "quiet_from n other"
  then have "quiet_from (max n n0) other" by (simp add: quiet_from_def)
  from exchange_loop_returns [OF this] assms(6)
  have "exchange_loop ret weak other (other k c) (Suc k) (other k c) \<noteq> None" by simp
  then show "increment P other k c \<noteq> None \<and> decrement P other k c \<noteq> None \<and> conditional_increment P other k c \<noteq> None"
    by (simp add: assms(1-3) conditional_from_def)
qed (use assms fetch_increment fetch_decrement conditional_after range_wrap in \<open>auto simp: assms(1-3)\<close>)

interpretation sync: atomic_counts sync_prims
  by (rule exchange_prims_ok [where old = "\<lambda>r. r" and ret = "\<lambda>r. r" and weak = "\<lambda>k. False"])
    (simp_all add: sync_prims_def sync_increment_def sync_decrement_def sync_conditional_def read_accesses map_result_id [symmetric])

text \<open>Finitely many failures for no reason.\<close>

interpretation std: atomic_counts "std_prims (\<lambda>k. k < n \<and> weak k)" for n weak
  by (rule exchange_prims_ok [where old = "\<lambda>r. r" and ret = "\<lambda>r. r" and weak = "\<lambda>k. k < n \<and> weak k" and ?n0.0 = n])
    (simp_all add: std_prims_def std_increment_def std_decrement_def std_conditional_def read_accesses map_result_id [symmetric])

lemma new_values: "handle_range x \<Longrightarrow> 0 < x \<Longrightarrow> s32 (x - 1) = 0 \<longleftrightarrow> x = 1" "handle_range x \<Longrightarrow> x \<noteq> 0 \<Longrightarrow> s32 (x + 1) \<noteq> 0"
  using range_wrap [of x] by (auto simp: handle_range_def)

interpretation aix: atomic_counts aix_prims
  by (rule exchange_prims_ok [where old = "\<lambda>r. s32 (r - 1)" and ret = "\<lambda>r. s32 (r + 1)" and weak = "\<lambda>k. False"])
    (simp_all add: aix_prims_def aix_increment_def aix_decrement_def aix_conditional_def read_accesses new_values)

interpretation acc: atomic_counts acc_prims
  by (rule exchange_prims_ok [where old = "\<lambda>r. s32 (r - 1)" and ret = "\<lambda>r. s32 (r + 1)" and weak = "\<lambda>k. False"])
    (simp_all add: acc_prims_def acc_increment_def acc_decrement_def acc_conditional_def read_accesses new_values)

interpretation vacpp: atomic_counts vacpp_prims
  by (rule exchange_prims_ok [where old = "\<lambda>r. s32 (r - 1)" and ret = "\<lambda>r. s32 (r + 1)" and weak = "\<lambda>k. False"])
    (simp_all add: vacpp_prims_def vacpp_increment_def vacpp_decrement_def vacpp_conditional_def read_accesses new_values)

interpretation ps3: atomic_counts ps3_prims
proof (rule atomic_countsI [where wrap = "\<lambda>x. int (u32 x)" and old = "\<lambda>r. r" and ret = "\<lambda>r. r"])
  fix other k c r k' c'
  assume "decrement ps3_prims other k c = Some (r, k', c')"
  then show "k < k' \<and> r = settle other k k' c \<and> c' = int (u32 (settle other k k' c - 1))"
    by (auto simp: ps3_prims_def ps3_decrement_def dest: fetch_atomic)
next
  fix other k c k' c'
  assume "increment ps3_prims other k c = Some (k', c')"
  then show "k < k' \<and> c' = int (u32 (settle other k k' c + 1))"
    using fetch_increment [of "\<lambda>x. int (u32 x)" other k c k' c'] by (simp add: ps3_prims_def ps3_increment_def)
qed (use reread_increment_atomic reread_increment_returns unsigned_range in
    \<open>auto simp: ps3_prims_def ps3_increment_def ps3_decrement_def ps3_conditional_def\<close>)

interpretation sparc: atomic_counts sparc_prims
proof (rule atomic_countsI [where wrap = s32 and old = "\<lambda>r. r" and ret = "\<lambda>r. r"])
  fix other k c r k' c'
  assume "decrement sparc_prims other k c = Some (r, k', c')"
  then show "k < k' \<and> r = settle other k k' c \<and> c' = s32 (settle other k k' c - 1)"
    by (auto simp: sparc_prims_def sparc_decrement_def dest: reread_add_atomic)
next
  fix other k c k' c'
  assume "increment sparc_prims other k c = Some (k', c')"
  then show "k < k' \<and> c' = s32 (settle other k k' c + 1)"
    by (auto simp: sparc_prims_def sparc_increment_def no_result_def dest: reread_add_atomic)
qed (use reread_increment_atomic reread_increment_returns reread_add_returns range_wrap in
    \<open>auto simp: sparc_prims_def sparc_increment_def sparc_decrement_def sparc_conditional_def\<close>)

interpretation nt: plain_counts nt_prims
  by unfold_locales (simp_all add: nt_prims_def nt_increment_def nt_decrement_def nt_conditional_def load_count_def store_count_def
      alone_def Let_def range_wrap new_values)

section \<open>Properties\<close>

definition known_prims :: "count_prims \<Rightarrow> bool" where
  "known_prims P \<longleftrightarrow> P \<in> {sync_prims, aix_prims, acc_prims, vacpp_prims, ps3_prims, sparc_prims} \<or>
     (\<exists>n weak. P = std_prims (\<lambda>k. k < n \<and> weak k))"

lemma known_atomic: "known_prims P \<Longrightarrow> atomic_counts P"
  using sync.atomic_counts_axioms aix.atomic_counts_axioms acc.atomic_counts_axioms vacpp.atomic_counts_axioms
    ps3.atomic_counts_axioms sparc.atomic_counts_axioms std.atomic_counts_axioms
  by (auto simp: known_prims_def)

context atomic_counts begin

lemma without_threads: "plain_counts P"
  by (rule plain.plain_counts_axioms)

end

lemma known_plain: "known_prims P \<or> P = nt_prims \<Longrightarrow> plain_counts P"
  using atomic_counts.without_threads [OF known_atomic] nt.plain_counts_axioms by blast

text \<open>C15. Whatever other threads make of a count between its accesses, each primitive of the headers for threads is one
  atomic access: what it leaves and answers is determined by the value that it found at one point, nobody's change
  is lost, and it returns once the others stop.\<close>

theorem primitives_atomic:
  assumes "known_prims P"
  shows "(increment P other k c = Some (k', c') \<and> handle_range (settle other k k' c) \<longrightarrow> k < k' \<and> c' = settle other k k' c + 1) \<and>
    (decrement P other k c = Some (r, k', c') \<and> handle_range (settle other k k' c) \<and> 0 < settle other k k' c \<longrightarrow>
      k < k' \<and> c' = settle other k k' c - 1 \<and> (r = none_left P \<longleftrightarrow> settle other k k' c = 1)) \<and>
    (conditional_increment P other k c = Some (r, k', c') \<and> handle_range (settle other k k' c) \<longrightarrow>
      k < k' \<and> c' = (if settle other k k' c = 0 then 0 else settle other k k' c + 1) \<and> (r \<noteq> 0 \<longleftrightarrow> settle other k k' c \<noteq> 0)) \<and>
    (quiet_from n other \<longrightarrow> increment P other k c \<noteq> None \<and> decrement P other k c \<noteq> None \<and> conditional_increment P other k c \<noteq> None)"
  using atomic_counts.increment_atomic [OF known_atomic [OF assms], of other k c k' c']
    atomic_counts.decrement_atomic [OF known_atomic [OF assms], of other k c r k' c']
    atomic_counts.conditional_atomic [OF known_atomic [OF assms], of other k c r k' c']
    atomic_counts.returns [OF known_atomic [OF assms], of n other k c]
  by simp

text \<open>C16. The class on the primitives of any of the headers, the one without threads included, does to the block and
  the object what the Win32 version does.\<close>

theorem headers_agree:
  assumes "known_prims P \<or> P = nt_prims" and "usable_block m pi"
  shows "counted_add_ref_copy P pi m = add_ref_copy pi m \<and> counted_weak_add_ref P pi m = weak_add_ref pi m \<and>
    counted_add_ref_lock P pi m = add_ref_lock pi m \<and> counted_weak_release P pi m = weak_release pi m \<and>
    ((\<forall>b. blocks m pi = Some b \<longrightarrow> 0 < use_count b) \<longrightarrow> counted_release P pi m = release pi m) \<and>
    counted_use_count pi m = block_use_count pi m"
  using plain_counts.add_ref_copy_agrees [OF known_plain [OF assms(1)] assms(2)]
    plain_counts.weak_add_ref_agrees [OF known_plain [OF assms(1)] assms(2)]
    plain_counts.add_ref_lock_agrees [OF known_plain [OF assms(1)] assms(2)]
    plain_counts.weak_release_agrees [OF known_plain [OF assms(1)] assms(2)]
    plain_counts.release_agrees [OF known_plain [OF assms(1)] assms(2)]
  by (simp add: counted_use_count_def block_use_count_def load_count_def alone_def Let_def)

text \<open>The exchange of round one fails since another thread has added an owner; without atomic accesses that owner is lost.\<close>

definition one_more :: interference where "one_more k c = (if k = 1 then c + 1 else c)"

lemma nt_loses: "nt_increment one_more 0 1 = Some (2, 2)"
  by (simp add: nt_increment_def load_count_def store_count_def one_more_def s32_def Let_def)

theorem primitives_atomic_witness:
  "conditional_increment sync_prims one_more 0 1 = Some (2, 3, 3) \<and> (3 :: int) = settle one_more 0 3 1 + 1 \<and>
    conditional_increment sparc_prims one_more 0 1 \<noteq> None"
proof -
  have "quiet_from 2 one_more" by (simp add: quiet_from_def one_more_def)
  then have "conditional_increment sparc_prims one_more 0 1 \<noteq> None"
    using primitives_atomic [of sparc_prims one_more 0 1 _ _ _ 2] by (simp add: known_prims_def)
  moreover have run: "conditional_increment sync_prims one_more 0 1 = Some (2, 3, 3)"
    unfolding sync_prims_def sync_conditional_def conditional_from_def load_count_def one_more_def
    by (simp add: Let_def)
      (subst exchange_loop.simps, simp add: compare_and_swap_def s32_def,
        subst exchange_loop.simps, simp add: compare_and_swap_def s32_def)
  moreover have "settle one_more 0 3 1 = 2" by (simp add: settle_def upt_rec one_more_def)
  ultimately show ?thesis by simp
qed

definition watched_memory :: sp_memory where
  "watched_memory = \<lparr>blocks = [5 \<mapsto> \<lparr>use_count = 1, weak_count = 2, block_impl = Impl_p (Some 7)\<rparr>], disposed = [], released = []\<rparr>"

theorem headers_agree_witness:
  "counted_release sparc_prims 5 watched_memory =
    Inr (watched_memory\<lparr>blocks := [5 \<mapsto> \<lparr>use_count = 0, weak_count = 1, block_impl = Impl_p (Some 7)\<rparr>], disposed := [Deleted 7]\<rparr>)"
proof -
  have "usable_block watched_memory 5" by (simp add: usable_block_def watched_memory_def handle_range_def)
  then have "counted_release sparc_prims 5 watched_memory = release 5 watched_memory"
    using headers_agree [of sparc_prims watched_memory 5] by (simp add: known_prims_def watched_memory_def)
  then show ?thesis
    by (simp add: release_def weak_release_def at_block_def set_block_def watched_memory_def checked_delete_def s32_def)
qed

end
