(* ===== verification/DebugHooks.thy ===== *)
theory DebugHooks
  imports RefCount
begin

text \<open>
  The debugging hooks of the library (\<open>sp_debug_hooks.cpp\<close>): \<open>operator new\<close> puts a mark in front of each block, the
  hooks of \<open>shared_ptr\<close> and \<open>operator delete\<close> check it. Asserting on these marks catches the calls that
  misuse an allocated object, as counted from all calls made before; other misuse makes the check read free memory.
\<close>

section \<open>Marks\<close>

definition allocated_scalar :: int where "allocated_scalar = 0x1234560C"
definition allocated_array :: int where "allocated_array = 0x1234560A"
definition adopted_scalar :: int where "adopted_scalar = 0x0567890C"
definition adopted_array :: int where "adopted_array = 0x0567890A"
definition deleted_mark :: int where "deleted_mark = 0x498769DE"

lemmas mark_defs = allocated_scalar_def allocated_array_def adopted_scalar_def adopted_array_def deleted_mark_def

text \<open>The first word of each allocated block, by the block's address. The caller's pointer is 8 bytes behind it.\<close>

type_synonym marked_heap = "nat \<rightharpoonup> int"

definition m_bytes :: nat where "m_bytes = 2 * 4"

text \<open>A null pointer is the address 0. The mark of memory that is not allocated must not be read.\<close>

definition mark_at :: "nat \<Rightarrow> marked_heap \<Rightarrow> int res" where
  "mark_at p h = (case h (p - m_bytes) of None \<Rightarrow> Inl OutOfBounds | Some k \<Rightarrow> Inr k)"

definition set_mark :: "nat \<Rightarrow> int \<Rightarrow> marked_heap \<Rightarrow> marked_heap" where
  "set_mark p k h = h(p - m_bytes \<mapsto> k)"

section \<open>Allocation\<close>

text \<open>
  \<open>answer k\<close> is what \<open>malloc\<close> answers the \<open>k\<close>-th time, \<open>handler k\<close> whether a new-handler is set then; it returns and the
  loop tries again. With a handler and no memory for ever the loop does not end.
\<close>

partial_function (option) malloc_loop :: "(nat \<Rightarrow> nat option) \<Rightarrow> (nat \<Rightarrow> bool) \<Rightarrow> nat \<Rightarrow> nat option option" where
  "malloc_loop answer handler k =
     (case answer k of
        Some pm \<Rightarrow> Some (Some pm)
      | None \<Rightarrow> if handler k then malloc_loop answer handler (k + 1) else Some None)"

definition allocate :: "(nat \<Rightarrow> nat option) \<Rightarrow> (nat \<Rightarrow> bool) \<Rightarrow> int \<Rightarrow> marked_heap \<Rightarrow> (nat \<times> marked_heap) res" where
  "allocate answer handler mark h =
     (case malloc_loop answer handler 0 of
        None \<Rightarrow> Inl NoReturn
      | Some None \<Rightarrow> Inr (0, h)
      | Some (Some pm) \<Rightarrow> Inr (pm + m_bytes, h(pm \<mapsto> mark)))"

definition throwing :: "(nat \<times> marked_heap) res \<Rightarrow> (nat thrown \<times> marked_heap) res" where
  "throwing r = andThen r (\<lambda>(p, h). Inr (if p = 0 then Inl bad_alloc else Inr p, h))"

definition operator_new :: "(nat \<Rightarrow> nat option) \<Rightarrow> (nat \<Rightarrow> bool) \<Rightarrow> marked_heap \<Rightarrow> (nat thrown \<times> marked_heap) res" where
  "operator_new answer handler h = throwing (allocate answer handler allocated_scalar h)"

definition operator_new_nothrow :: "(nat \<Rightarrow> nat option) \<Rightarrow> (nat \<Rightarrow> bool) \<Rightarrow> marked_heap \<Rightarrow> (nat \<times> marked_heap) res" where
  "operator_new_nothrow answer handler h = allocate answer handler allocated_scalar h"

definition operator_new_array :: "(nat \<Rightarrow> nat option) \<Rightarrow> (nat \<Rightarrow> bool) \<Rightarrow> marked_heap \<Rightarrow> (nat thrown \<times> marked_heap) res" where
  "operator_new_array answer handler h = throwing (allocate answer handler allocated_array h)"

definition operator_new_array_nothrow :: "(nat \<Rightarrow> nat option) \<Rightarrow> (nat \<Rightarrow> bool) \<Rightarrow> marked_heap \<Rightarrow> (nat \<times> marked_heap) res" where
  "operator_new_array_nothrow answer handler h = allocate answer handler allocated_array h"

section \<open>Hooks and deletion\<close>

definition sp_scalar_constructor_hook_mark :: "nat \<Rightarrow> marked_heap \<Rightarrow> marked_heap res" where
  "sp_scalar_constructor_hook_mark p h =
     (if p = 0 then Inr h
      else andThen (mark_at p h) (\<lambda>k.
        andThen (guard (k \<noteq> adopted_scalar) AssertFailed) (\<lambda>_.
        andThen (guard (k \<noteq> allocated_array) AssertFailed) (\<lambda>_.
        andThen (guard (k = allocated_scalar) AssertFailed) (\<lambda>_.
        Inr (set_mark p adopted_scalar h))))))"

definition sp_scalar_destructor_hook_mark :: "nat \<Rightarrow> marked_heap \<Rightarrow> marked_heap res" where
  "sp_scalar_destructor_hook_mark p h =
     (if p = 0 then Inr h
      else andThen (mark_at p h) (\<lambda>k.
        andThen (guard (k = adopted_scalar) AssertFailed) (\<lambda>_.
        Inr (set_mark p allocated_scalar h))))"

text \<open>The hooks for arrays have empty bodies.\<close>

definition sp_array_constructor_hook :: "nat \<Rightarrow> marked_heap \<Rightarrow> marked_heap res" where
  "sp_array_constructor_hook p h = Inr h"

definition sp_array_destructor_hook :: "nat \<Rightarrow> marked_heap \<Rightarrow> marked_heap res" where
  "sp_array_destructor_hook p h = Inr h"

definition free_block :: "nat \<Rightarrow> marked_heap \<Rightarrow> marked_heap" where
  "free_block p h = h(p - m_bytes := None)"

definition operator_delete :: "nat \<Rightarrow> marked_heap \<Rightarrow> marked_heap res" where
  "operator_delete p h =
     (if p = 0 then Inr h
      else andThen (mark_at p h) (\<lambda>k.
        andThen (guard (k \<noteq> deleted_mark) AssertFailed) (\<lambda>_.
        andThen (guard (k \<noteq> adopted_scalar) AssertFailed) (\<lambda>_.
        andThen (guard (k \<noteq> allocated_array) AssertFailed) (\<lambda>_.
        andThen (guard (k = allocated_scalar) AssertFailed) (\<lambda>_.
        Inr (free_block p (set_mark p deleted_mark h))))))))"

definition operator_delete_array :: "nat \<Rightarrow> marked_heap \<Rightarrow> marked_heap res" where
  "operator_delete_array p h =
     (if p = 0 then Inr h
      else andThen (mark_at p h) (\<lambda>k.
        andThen (guard (k \<noteq> deleted_mark) AssertFailed) (\<lambda>_.
        andThen (guard (k \<noteq> adopted_scalar) AssertFailed) (\<lambda>_.
        andThen (guard (k \<noteq> allocated_scalar) AssertFailed) (\<lambda>_.
        andThen (guard (k = allocated_array) AssertFailed) (\<lambda>_.
        Inr (free_block p (set_mark p deleted_mark h))))))))"

section \<open>Programs\<close>

text \<open>Calls with the pointers that they answer or are given. Allocation succeeds at once.\<close>

datatype hook_call = NewObject nat | NewArray nat | Adopt nat | Abandon nat | DeleteObject nat | DeleteArray nat

fun hook_step :: "hook_call \<Rightarrow> marked_heap \<Rightarrow> marked_heap res" where
  "hook_step (NewObject p) h = andThen (operator_new (\<lambda>k. Some (p - m_bytes)) (\<lambda>k. False) h) (\<lambda>(r, h). Inr h)"
| "hook_step (NewArray p) h = andThen (operator_new_array (\<lambda>k. Some (p - m_bytes)) (\<lambda>k. False) h) (\<lambda>(r, h). Inr h)"
| "hook_step (Adopt p) h = sp_scalar_constructor_hook_mark p h"
| "hook_step (Abandon p) h = sp_scalar_destructor_hook_mark p h"
| "hook_step (DeleteObject p) h = operator_delete p h"
| "hook_step (DeleteArray p) h = operator_delete_array p h"

fun run_hooks :: "hook_call list \<Rightarrow> marked_heap \<Rightarrow> marked_heap res" where
  "run_hooks [] h = Inr h"
| "run_hooks (c # cs) h = andThen (hook_step c h) (run_hooks cs)"

text \<open>
  What may be done with an object, by counting: it exists when there is one allocation more than there are deletions,
  and it has an owner when there is one adoption more than there are releases. Null may be passed to anything.
\<close>

definition exists_in :: "hook_call list \<Rightarrow> nat \<Rightarrow> bool" where
  "exists_in cs p \<longleftrightarrow> count_list cs (NewObject p) = count_list cs (DeleteObject p) + 1"

definition array_in :: "hook_call list \<Rightarrow> nat \<Rightarrow> bool" where
  "array_in cs p \<longleftrightarrow> count_list cs (NewArray p) = count_list cs (DeleteArray p) + 1"

definition owned_in :: "hook_call list \<Rightarrow> nat \<Rightarrow> bool" where
  "owned_in cs p \<longleftrightarrow> count_list cs (Adopt p) = count_list cs (Abandon p) + 1"

fun lawful :: "hook_call list \<Rightarrow> hook_call \<Rightarrow> bool" where
  "lawful cs (NewObject p) \<longleftrightarrow> m_bytes < p \<and> \<not> exists_in cs p \<and> \<not> array_in cs p"
| "lawful cs (NewArray p) \<longleftrightarrow> m_bytes < p \<and> \<not> exists_in cs p \<and> \<not> array_in cs p"
| "lawful cs (Adopt p) \<longleftrightarrow> p = 0 \<or> exists_in cs p \<and> \<not> owned_in cs p"
| "lawful cs (Abandon p) \<longleftrightarrow> p = 0 \<or> exists_in cs p \<and> owned_in cs p"
| "lawful cs (DeleteObject p) \<longleftrightarrow> p = 0 \<or> exists_in cs p \<and> \<not> owned_in cs p"
| "lawful cs (DeleteArray p) \<longleftrightarrow> p = 0 \<or> array_in cs p"

definition is_new :: "hook_call \<Rightarrow> bool" where
  "is_new c \<longleftrightarrow> (case c of NewObject p \<Rightarrow> True | NewArray p \<Rightarrow> True | _ \<Rightarrow> False)"

text \<open>What \<open>malloc\<close> promises: it answers addresses that are not in use.\<close>

definition malloc_fresh :: "hook_call list \<Rightarrow> bool" where
  "malloc_fresh cs \<longleftrightarrow> (\<forall>i < length cs. is_new (cs ! i) \<longrightarrow> lawful (take i cs) (cs ! i))"

section \<open>The marks are what the counts say\<close>

definition mark_in :: "hook_call list \<Rightarrow> nat \<Rightarrow> int option" where
  "mark_in cs p = (if exists_in cs p then Some (if owned_in cs p then adopted_scalar else allocated_scalar)
     else if array_in cs p then Some allocated_array else None)"

definition counts_ok :: "hook_call list \<Rightarrow> nat \<Rightarrow> bool" where
  "counts_ok cs p \<longleftrightarrow>
     (exists_in cs p \<or> count_list cs (NewObject p) = count_list cs (DeleteObject p)) \<and>
     (array_in cs p \<or> count_list cs (NewArray p) = count_list cs (DeleteArray p)) \<and>
     (owned_in cs p \<or> count_list cs (Adopt p) = count_list cs (Abandon p)) \<and>
     (owned_in cs p \<longrightarrow> exists_in cs p) \<and> \<not> (exists_in cs p \<and> array_in cs p) \<and> (exists_in cs p \<or> array_in cs p \<longrightarrow> m_bytes < p)"

definition marks_ok :: "hook_call list \<Rightarrow> marked_heap \<Rightarrow> bool" where
  "marks_ok cs h \<longleftrightarrow> (\<forall>p > 0. h (p - m_bytes) = mark_in cs p \<and> counts_ok cs p)"

text \<open>A call changes the counts of its object only.\<close>

fun object_of :: "hook_call \<Rightarrow> nat" where
  "object_of (NewObject p) = p" | "object_of (NewArray p) = p" | "object_of (Adopt p) = p"
| "object_of (Abandon p) = p" | "object_of (DeleteObject p) = p" | "object_of (DeleteArray p) = p"

lemmas count_defs = mark_in_def counts_ok_def exists_in_def array_in_def owned_in_def

lemma other_object: "object_of c \<noteq> q \<Longrightarrow> mark_in (cs @ [c]) q = mark_in cs q \<and> counts_ok (cs @ [c]) q = counts_ok cs q"
  by (cases c) (simp_all add: count_defs)

lemma marks_okI:
  assumes "marks_ok cs h" and "p = object_of c" and "0 < p \<Longrightarrow> h' (p - m_bytes) = mark_in (cs @ [c]) p \<and> counts_ok (cs @ [c]) p"
    and "\<And>q. 0 < q \<Longrightarrow> q \<noteq> p \<Longrightarrow> h' (q - m_bytes) = h (q - m_bytes)"
  shows "marks_ok (cs @ [c]) h'"
  unfolding marks_ok_def
proof (intro allI impI)
  fix q :: nat assume "0 < q"
  then show "h' (q - m_bytes) = mark_in (cs @ [c]) q \<and> counts_ok (cs @ [c]) q"
    using assms other_object [of c q cs] by (cases "q = p") (auto simp: marks_ok_def)
qed

lemma other_place: "m_bytes < p \<Longrightarrow> q \<noteq> p \<Longrightarrow> q - m_bytes \<noteq> p - m_bytes"
  by auto

lemma marked_place:
  assumes "marks_ok cs h" and "0 < p" and "h (p - m_bytes) = Some k" and "q \<noteq> p"
  shows "q - m_bytes \<noteq> p - m_bytes"
proof -
  have "mark_in cs p = Some k" "counts_ok cs p" using assms(1-3) by (auto simp: marks_ok_def)
  then have "m_bytes < p" by (auto simp: mark_in_def counts_ok_def split: if_splits)
  then show ?thesis using other_place assms(4) by blast
qed

lemma malloc_at_once: "malloc_loop (\<lambda>k. Some a) f 0 = Some (Some a)"
  by (subst malloc_loop.simps) simp

lemma mark_differences [simp]:
  "adopted_scalar \<noteq> allocated_scalar" "adopted_scalar \<noteq> allocated_array" "allocated_scalar \<noteq> allocated_array"
  "allocated_scalar \<noteq> adopted_scalar" "allocated_array \<noteq> adopted_scalar" "allocated_array \<noteq> allocated_scalar"
  "adopted_scalar \<noteq> deleted_mark" "allocated_scalar \<noteq> deleted_mark" "allocated_array \<noteq> deleted_mark"
  by (simp_all add: mark_defs)

lemma hook_step_new:
  assumes "marks_ok cs h" and "lawful cs c" and "is_new c"
  shows "\<exists>h'. hook_step c h = Inr h' \<and> marks_ok (cs @ [c]) h'"
proof -
  let ?p = "object_of c" and ?mark = "case c of NewObject p \<Rightarrow> allocated_scalar | _ \<Rightarrow> allocated_array"
  let ?h = "h(?p - m_bytes \<mapsto> ?mark)"
  have p: "m_bytes < ?p" "counts_ok cs ?p" "\<not> exists_in cs ?p" "\<not> array_in cs ?p"
    using assms by (cases c; auto simp: is_new_def marks_ok_def)+
  have "hook_step c h = Inr ?h"
    using assms(3) p(1) by (cases c) (simp_all add: is_new_def operator_new_def operator_new_array_def allocate_def throwing_def malloc_at_once)
  moreover have "marks_ok (cs @ [c]) ?h"
  proof (rule marks_okI [OF assms(1) refl])
    show "?h (?p - m_bytes) = mark_in (cs @ [c]) ?p \<and> counts_ok (cs @ [c]) ?p"
      using assms(3) p by (cases c) (auto simp: is_new_def count_defs)
  qed (use other_place [OF p(1)] in simp)
  ultimately show ?thesis by blast
qed

text \<open>The mark that each call wants to find, and what it puts in its place.\<close>

fun wanted :: "hook_call \<Rightarrow> int" where
  "wanted (Abandon p) = adopted_scalar"
| "wanted (DeleteArray p) = allocated_array"
| "wanted c = allocated_scalar"

fun placed :: "hook_call \<Rightarrow> int option" where
  "placed (Adopt p) = Some adopted_scalar"
| "placed (Abandon p) = Some allocated_scalar"
| "placed c = None"

lemma lawful_wanted:
  assumes "counts_ok cs (object_of c)" and "0 < object_of c" and "\<not> is_new c"
  shows "lawful cs c \<longleftrightarrow> mark_in cs (object_of c) = Some (wanted c)"
  using assms by (cases c) (auto simp: is_new_def mark_in_def counts_ok_def)

lemmas hook_defs = sp_scalar_constructor_hook_mark_def sp_scalar_destructor_hook_mark_def operator_delete_def operator_delete_array_def
  mark_at_def set_mark_def free_block_def guard_def

lemma hook_step_mark:
  assumes "0 < object_of c" and "\<not> is_new c"
  shows "hook_step c h = (case h (object_of c - m_bytes) of
      None \<Rightarrow> Inl OutOfBounds
    | Some k \<Rightarrow> if k = wanted c then Inr (h(object_of c - m_bytes := placed c)) else Inl AssertFailed)"
  using assms by (cases c; cases "h (object_of c - m_bytes)"; simp add: is_new_def hook_defs)

lemma step_wanted:
  assumes "0 < object_of c" and "\<not> is_new c"
  shows "(\<exists>h'. hook_step c h = Inr h') \<longleftrightarrow> h (object_of c - m_bytes) = Some (wanted c)"
    and "h (object_of c - m_bytes) = Some (wanted c) \<Longrightarrow> hook_step c h = Inr (h(object_of c - m_bytes := placed c))"
  by (auto simp: hook_step_mark [OF assms] split: option.split)

lemma placed_mark:
  assumes "counts_ok cs (object_of c)" and "0 < object_of c" and "\<not> is_new c" and "lawful cs c"
  shows "mark_in (cs @ [c]) (object_of c) = placed c" and "counts_ok (cs @ [c]) (object_of c)"
  using assms by (cases c; auto simp: is_new_def count_defs)+

lemma hook_step_old:
  assumes "marks_ok cs h" and "\<not> is_new c"
  shows "(\<exists>h'. hook_step c h = Inr h') \<longleftrightarrow> lawful cs c" and "hook_step c h = Inr h' \<Longrightarrow> marks_ok (cs @ [c]) h'"
proof -
  let ?p = "object_of c"
  have null: "hook_step c h = Inr h \<and> lawful cs c \<and> marks_ok (cs @ [c]) h" if "?p = 0"
    using that assms(2) marks_okI [OF assms(1), of 0 c h]
    by (cases c) (auto simp: is_new_def sp_scalar_constructor_hook_mark_def sp_scalar_destructor_hook_mark_def operator_delete_def operator_delete_array_def)
  have ok: "counts_ok cs ?p" "h (?p - m_bytes) = mark_in cs ?p" if "0 < ?p" using assms(1) that by (auto simp: marks_ok_def)
  show "(\<exists>h'. hook_step c h = Inr h') \<longleftrightarrow> lawful cs c"
    using null ok step_wanted(1) [OF _ assms(2), of h] lawful_wanted [OF _ _ assms(2), of cs] by (cases "?p = 0") auto
  assume run: "hook_step c h = Inr h'"
  show "marks_ok (cs @ [c]) h'"
  proof (cases "?p = 0")
    case True
    then show ?thesis using null run by simp
  next
    case False
    then have p: "0 < ?p" by simp
    have found: "h (?p - m_bytes) = Some (wanted c)" using step_wanted(1) [OF p assms(2), of h] run by blast
    then have h': "h' = h(?p - m_bytes := placed c)" using step_wanted(2) [OF p assms(2)] run by simp
    have "lawful cs c" using lawful_wanted [OF ok(1) [OF p] p assms(2)] ok(2) [OF p] found by simp
    note new = placed_mark [OF ok(1) [OF p] p assms(2) this]
    show ?thesis
    proof (rule marks_okI [OF assms(1) refl])
      show "h' (q - m_bytes) = h (q - m_bytes)" if "q \<noteq> ?p" for q
        using marked_place [OF assms(1) p found that] by (simp add: h')
    qed (use new h' in simp)
  qed
qed

text \<open>The first call that breaks the rules, with the calls before it.\<close>

fun first_wrong :: "hook_call list \<Rightarrow> hook_call list \<Rightarrow> (hook_call list \<times> hook_call) option" where
  "first_wrong before [] = None"
| "first_wrong before (c # cs) = (if lawful before c then first_wrong (before @ [c]) cs else Some (before, c))"

definition is_allocated :: "hook_call list \<Rightarrow> nat \<Rightarrow> bool" where
  "is_allocated cs p \<longleftrightarrow> exists_in cs p \<or> array_in cs p"

lemma hook_step_wrong:
  assumes "marks_ok before h" and "\<not> is_new c" and "\<not> lawful before c"
  shows "hook_step c h = Inl (if is_allocated before (object_of c) then AssertFailed else OutOfBounds)"
proof -
  let ?p = "object_of c"
  have p: "0 < ?p" using assms(2,3) by (cases c) (auto simp: is_new_def)
  then have ok: "counts_ok before ?p" "h (?p - m_bytes) = mark_in before ?p" using assms(1) by (simp_all add: marks_ok_def)
  have "mark_in before ?p \<noteq> Some (wanted c)" using lawful_wanted [OF ok(1) p assms(2)] assms(3) by simp
  then show ?thesis
    unfolding hook_step_mark [OF p assms(2)] ok(2) by (auto simp: mark_in_def is_allocated_def)
qed

lemma run_hooks_judged:
  assumes "marks_ok before h" and "\<forall>i < length cs. is_new (cs ! i) \<longrightarrow> lawful (before @ take i cs) (cs ! i)"
  shows "case first_wrong before cs of
      None \<Rightarrow> \<exists>h'. run_hooks cs h = Inr h'
    | Some (before', c) \<Rightarrow> run_hooks cs h = Inl (if is_allocated before' (object_of c) then AssertFailed else OutOfBounds)"
  using assms
proof (induction cs arbitrary: before h)
  case (Cons c cs)
  have new: "is_new c \<longrightarrow> lawful before c" using Cons.prems(2) by force
  have rest: "\<forall>i < length cs. is_new (cs ! i) \<longrightarrow> lawful ((before @ [c]) @ take i cs) (cs ! i)"
  proof (intro allI impI)
    fix i assume "i < length cs" "is_new (cs ! i)"
    then show "lawful ((before @ [c]) @ take i cs) (cs ! i)" using spec [OF Cons.prems(2), of "Suc i"] by simp
  qed
  show ?case
  proof (cases "lawful before c")
    case True
    obtain h' where h': "hook_step c h = Inr h'" "marks_ok (before @ [c]) h'"
      using hook_step_new [OF Cons.prems(1) True] hook_step_old [OF Cons.prems(1)] True by blast
    have "run_hooks (c # cs) h = run_hooks cs h'" "first_wrong before (c # cs) = first_wrong (before @ [c]) cs"
      using h'(1) True by simp_all
    then show ?thesis using Cons.IH [OF h'(2) rest] by (simp only:)
  next
    case False
    then show ?thesis using hook_step_wrong [OF Cons.prems(1) _ False] new by simp
  qed
qed simp

section \<open>Properties\<close>

text \<open>C17. What the hooks catch: on any calls of \<open>new\<close>, \<open>delete\<close> and the hooks on any pointers, a program runs through when
  every deletion and adoption is of an object that exists then, is of its kind and has no owner, and every release of
  one that has. The first call that breaks this fails an assertion when its pointer is to an object or array that is
  allocated at that time; otherwise, in a second deletion or for a pointer that \<open>new\<close> did not answer, the check itself reads
  memory that is not allocated.\<close>

theorem hooks_exact:
  assumes "malloc_fresh cs"
  shows "case first_wrong [] cs of
      None \<Rightarrow> \<exists>h. run_hooks cs Map.empty = Inr h
    | Some (before, c) \<Rightarrow> run_hooks cs Map.empty = Inl (if is_allocated before (object_of c) then AssertFailed else OutOfBounds)"
proof (rule run_hooks_judged)
  show "marks_ok [] Map.empty" by (simp add: marks_ok_def count_defs)
qed (use assms in \<open>simp add: malloc_fresh_def\<close>)

theorem hooks_exact_witness:
  "(\<exists>h. run_hooks [NewObject 16, NewArray 40, Adopt 16, Abandon 16, DeleteObject 16, DeleteArray 40, NewObject 40, DeleteObject 0] Map.empty = Inr h) \<and>
    run_hooks [NewObject 16, Adopt 16, DeleteObject 16] Map.empty = Inl AssertFailed \<and>
    run_hooks [NewObject 16, DeleteObject 16, DeleteObject 16] Map.empty = Inl OutOfBounds"
proof -
  let ?good = "[NewObject 16, NewArray 40, Adopt 16, Abandon 16, DeleteObject 16, DeleteArray 40, NewObject 40, DeleteObject 0]"
  let ?owned = "[NewObject 16, Adopt 16, DeleteObject 16]" and ?twice = "[NewObject 16, DeleteObject 16, DeleteObject 16]"
  have "malloc_fresh ?good" "malloc_fresh ?owned" "malloc_fresh ?twice"
    by (simp_all add: malloc_fresh_def All_less_Suc nth_Cons' is_new_def exists_in_def array_in_def m_bytes_def)
  moreover have "first_wrong [] ?good = None" "first_wrong [] ?owned = Some ([NewObject 16, Adopt 16], DeleteObject 16)"
      "first_wrong [] ?twice = Some ([NewObject 16, DeleteObject 16], DeleteObject 16)"
    by (simp_all add: exists_in_def array_in_def owned_in_def m_bytes_def)
  moreover have "is_allocated [NewObject 16, Adopt 16] 16" "\<not> is_allocated [NewObject 16, DeleteObject 16] 16"
    by (simp_all add: is_allocated_def exists_in_def array_in_def)
  ultimately show ?thesis using hooks_exact [of ?good] hooks_exact [of ?owned] hooks_exact [of ?twice] by simp
qed

end
