(* ===== verification/Spec2Isabelle.thy ===== *)
theory Spec2Isabelle
  imports RequestPieces ServiceRun PtrProgram Collector QuickAlloc SpinCount CountVariants DebugHooks
begin

text \<open>
  A verification development for the RTSP service of \<open>src/ltRtspService\<close> and for the smart pointers it is built
  on (\<open>src/smart_ptr\<close>).

  \<^bold>\<open>The program.\<close> The service (\<open>Service.cpp\<close>) makes a description of one H.264 file, listens on a TCP port and
  runs libevent's loop (\<open>network.cpp\<close>). Every connection gets a session (\<open>MediaSession.cpp\<close>), which collects the
  text of RTSP requests and has them answered (\<open>RtspString.cpp\<close>); \<open>DESCRIBE\<close> is answered with a session description
  (\<open>MediaCreateSdp.cpp\<close>), \<open>SETUP\<close> makes a stream, \<open>PLAY\<close> starts it. When the connection can be written to, the
  session sends the next packet: blocks of the file (\<open>HardwareIO.cpp\<close>) are split into NAL units and fragments
  (\<open>h264MediaStream.cpp\<close>, with the parsers of \<open>bit/\<close>), and each becomes an interleaved RTP packet (\<open>RtpOverTcp.cpp\<close>) in
  a buffer of \<open>MediaBuffer.cpp\<close>. Buffers and streams are handled through \<open>boost::shared_ptr\<close>.

  \<^bold>\<open>The theories,\<close> in the order of the program's layers:

  \<^item> \<open>Prelude\<close>: machine integers with their wrap-around written out (\<open>u32\<close>, \<open>s32\<close>, \<open>u16\<close>), faults as values, checked
    array access, the collection \<open>res_simps\<close>. \<open>CString\<close>: the string functions of C and C++.
  \<^item> \<open>BitStrings\<close> (specification: bit strings and Exp-Golomb codes) and \<open>VlcBits\<close> (\<open>bit/vlc_bits.h\<close>): the bit reader
    refines reading from a bit string, the codes are inverted, \<open>bs_write\<close> is read back.
  \<^item> \<open>Base64\<close> (\<open>BaseEncoder.h\<close>): the encoder against RFC 4648.
  \<^item> \<open>MediaBuffer\<close> (\<open>MediaBuffer.h\<close>, \<open>.cpp\<close>): the buffer, the contract \<open>packet_buffer\<close> that packets are built on, the pool.
  \<^item> \<open>HardwareIO\<close>: the file manager. \<open>MediaStream\<close>: the base class and the locale of node queues.
  \<^item> \<open>H264Stream\<close> (\<open>h264MediaStream.cpp\<close>, splitting): the nodes of a chunk, and what a receiver makes of them.
    \<open>ChunkNodes\<close>: a reference splitter on bytes, which the code computes on every chunk.
  \<^item> \<open>H264Params\<close> (parameter sets and slice headers: the stream's parsers \<open>sps_body\<close>, \<open>slice_body\<close> and the stand-alone ones
    of \<open>bit/\<close>, \<open>seq_body\<close> and \<open>decode_slice_body\<close>, each from its own source) and \<open>H264Syntax\<close>: the standard's syntax without
    scaling matrices and separate colour planes, which they are shown to invert, and their agreement.
  \<^item> \<open>RtpOverTcp\<close>: from the next node to the packet: counters, time stamps, FU-A headers.
  \<^item> \<open>MediaCreateSdp\<close>: the description template and its parameter sets.
  \<^item> \<open>RtspString\<close>: requests and replies. \<open>MediaSession\<close>: sessions, sending, the session list.
  \<^item> \<open>DescribeReply\<close>, \<open>RequestPieces\<close> and \<open>Streaming\<close> compose these: a \<open>DESCRIBE\<close> request from the bytes read to the
    bytes written, requests that arrive in pieces, and sending a file packet by packet.
  \<^item> \<open>Playback\<close> abstracts a stream on a file to the list of nodes it has still to deliver (\<open>stream_nodes\<close>: the reference
    splitter on block after block) and shows how each node becomes a packet or is passed over; \<open>PlaySession\<close> takes a
    session from \<open>SETUP\<close> over \<open>PLAY\<close> to any number of sent packets and to the fault behind the last node (\<open>delivers\<close>), and
    shows that a second \<open>SETUP\<close> makes the streams that play already read on from where its own stream stopped. \<open>ServiceRun\<close> joins all of it: \<open>main\<close>, then the events of
    one connection from \<open>Listen_Cb\<close> to \<open>Event_Cb\<close>, and every byte that the client gets.
  \<^item> \<open>Network\<close>: start-up, callbacks and the event loop as a step relation, with the session list as an interface
    (locale \<open>session_store\<close>) and the invariant that ties sessions to connections. Each accepted connection is labelled with
    the counter reading it gets; nothing is assumed of these, and the theorems that need them to differ say so
    (\<open>one_at_a_time\<close>), beside the one on what happens when two agree.
  \<^item> \<open>RefCount\<close> (\<open>sp_counted_base_w32.hpp\<close>, \<open>sp_counted_impl.hpp\<close>, \<open>shared_count.hpp\<close>) and \<open>SharedPtr\<close>
    (\<open>shared_ptr.hpp\<close>): the library's operations. \<open>Ownership\<close>: counts against multisets of owners and observers, what is
    disposed of and when. \<open>PtrProgram\<close>: programs over shared pointers refine these. \<open>Concurrent\<close>: the same counts under
    threads, one atomic access a step; the phases of a block's life are the invariant of all interleavings.
  \<^item> \<open>SpinCount\<close> (\<open>sp_counted_base_spin.hpp\<close>, \<open>spinlock_pool.hpp\<close>, \<open>spinlock_w32.hpp\<close>): counts that are read and written
    behind spin locks refine \<open>Concurrent\<close>. \<open>CountVariants\<close>: the counts of eight other platforms; their primitives are atomic
    under interference (locale \<open>atomic_counts\<close>) and the class on them agrees with \<open>RefCount\<close> (locale \<open>plain_counts\<close>).
  \<^item> \<open>QuickAlloc\<close> (\<open>quick_allocator.hpp\<close>), \<open>Collector\<close> (\<open>sp_collector.cpp\<close>) and \<open>DebugHooks\<close> (\<open>sp_debug_hooks.cpp\<close>): the
    block allocator, the leak finder and the hooks that check allocation and adoption. \<open>sp_collector.cpp\<close> and
    \<open>sp_debug_hooks.cpp\<close> define hooks of the same names; those of \<open>DebugHooks\<close> end in \<open>_mark\<close>.

  \<^bold>\<open>Correspondence.\<close> A class is a record with its members, a method a function on it with the method's name (class
  names in front where two classes share one); several overloads get a suffix. A fallible computation answers a
  \<open>fault\<close> or a result (\<open>'a res\<close>), so a theorem with \<open>Inr\<close> says that no array is left, no null pointer followed and no
  assertion violated. Loops are structural or have a measure; the loops that may not end (\<open>find_file\<close>,
  \<open>bs_align_1\<close>, \<open>replace_loop\<close>, \<open>packet_loop\<close>, \<open>wait_loop\<close>, \<open>lock_loop\<close>, \<open>malloc_loop\<close> and those of \<open>CountVariants\<close>) are \<open>partial_function (option)\<close> with \<open>None\<close>
  for the run that never ends, and where one is claimed to end, that is part of the theorem. The only fuel
  is that of \<open>run_alone\<close>, whose three steps are the claim.

  \<^bold>\<open>What is a parameter.\<close> Memory that the program reads uninitialised (\<open>uninit\<close>), the disk, the tick count and the
  performance counter, what libevent answers and delivers, and whether memory can be allocated: the theorems
  hold for all of them or state what they need. In \<open>Ownership\<close> and \<open>PtrProgram\<close> the number of handles is bounded by
  what a \<open>long\<close> counts, which 4 GB of memory cannot exceed. The programs of \<open>PtrProgram\<close> make, copy, move, assign, swap,
  reset and destroy pointers; aliasing, casts and weak pointers are in \<open>SharedPtr\<close> and \<open>RefCount\<close>, but not in these programs.

  \<^bold>\<open>The groups of lemmas.\<close> Each component's theory has the laws of its operations (what they answer on well-formed
  states), then the invariants, then its properties, numbered in the order of importance. The composite
  properties come first: playing a file from request to packets, sessions and connections, disposal of objects, the answer to \<open>DESCRIBE\<close>, sending; then
  safety of the parts, functional correctness against the standards, round trips, and the behaviours in which
  the code departs from what it means to do, each as a theorem on the code as it is.

  \<^bold>\<open>Not modelled.\<close> libevent and the C run-time beyond what the code relies on; threads of the service (a
  single one runs it; threads on a control block are in \<open>Concurrent\<close>); destructors of singletons,
  which never run; the commented-out Base64 decoder and message queue; printing. Of \<open>src/smart_ptr\<close> the rest is
  configuration, type traits, preprocessor tables and the counts in assembly or behind a mutex, of \<open>src/_Include\<close> everything is
  a third party's declarations.
\<close>

end
